(* ===== verification/Prelude.thy ===== *)
theory Prelude
  imports Complex_Main
begin

text \<open>
  Shared vocabulary of the development.

  \<^item> Python exceptions are values of \<open>py_error\<close>; a fallible operation returns
    \<open>'a result\<close> (\<open>Inl\<close> the exception, \<open>Inr\<close> the value).  \<open>rbind\<close> sequences two
    fallible operations and \<open>fold_result\<close> is a \<open>for\<close> loop whose body may raise.
  \<^item> Python integers used as bitsets are \<open>int\<close>; \<open>low_bits\<close> is the idiom
    \<open>while bits: lsb = bits & -bits; v = lsb.bit_length() - 1; ...; bits ^= lsb\<close>,
    which the sources use for every iteration over a bitset.  Its characterisation
    \<open>low_bits_filter\<close> (the increasing list of set bits) carries the proofs of
    every component that walks over adjacency rows.
  \<^item> \<open>bit_facts\<close> collects the rewrite rules for membership in a bitset.
\<close>

unbundle bit_operations_syntax

named_theorems bit_facts \<open>membership in bitsets built by shifts and masks\<close>
named_theorems result_facts \<open>inversion rules for fallible computations\<close>

section \<open>Fallible computations\<close>

datatype py_error =
    ValueError string
  | IndexError
  | KeyError
  | TypeError string
  | RuntimeError string
  | AssertionError
  | StructError
  | OverflowError string
  | ZeroDivisionError
  | QueueFull

type_synonym 'a result = "py_error + 'a"

definition rbind :: "'a result \<Rightarrow> ('a \<Rightarrow> 'b result) \<Rightarrow> 'b result" where
  "rbind m f = (case m of Inl e \<Rightarrow> Inl e | Inr x \<Rightarrow> f x)"

fun fold_result :: "('a \<Rightarrow> 's \<Rightarrow> 's result) \<Rightarrow> 'a list \<Rightarrow> 's \<Rightarrow> 's result" where
  "fold_result f [] s = Inr s"
| "fold_result f (x # xs) s = rbind (f x s) (fold_result f xs)"

text \<open>A loop that returns the first result its body produces.\<close>

fun first_some :: "('a \<Rightarrow> 'b option) \<Rightarrow> 'a list \<Rightarrow> 'b option" where
  "first_some f [] = None"
| "first_some f (x # xs) = (case f x of None \<Rightarrow> first_some f xs | Some y \<Rightarrow> Some y)"

text \<open>A loop over a list that also stops as soon as a condition on the state fails.\<close>

fun fold_while :: "('s \<Rightarrow> bool) \<Rightarrow> ('a \<Rightarrow> 's \<Rightarrow> 's) \<Rightarrow> 'a list \<Rightarrow> 's \<Rightarrow> 's" where
  "fold_while c f [] s = s"
| "fold_while c f (x # xs) s = (if c s then fold_while c f xs (f x s) else s)"

definition is_ok :: "'a result \<Rightarrow> bool" where
  "is_ok r = (case r of Inl _ \<Rightarrow> False | Inr _ \<Rightarrow> True)"

text \<open>\<open>xs[i]\<close> of Python on a list: a negative index counts from the end.\<close>

definition py_index :: "'a list \<Rightarrow> int \<Rightarrow> nat result" where
  "py_index xs i =
     (let k = int (length xs); j = (if i < 0 then k + i else i)
      in if 0 \<le> j \<and> j < k then Inr (nat j) else Inl IndexError)"

text \<open>\<open>1 << v\<close> of Python: a negative shift count raises.\<close>

definition shl1 :: "nat \<Rightarrow> int" where
  "shl1 v = push_bit v 1"

definition py_shift1 :: "int \<Rightarrow> int result" where
  "py_shift1 v = (if v < 0 then Inl (ValueError ''negative shift count'')
                  else Inr (shl1 (nat v)))"

text \<open>\<open>str\<close> of a natural number: its decimal digits.\<close>

fun show_nat :: "nat \<Rightarrow> string" where
  "show_nat n =
     (if n < 10 then [char_of (48 + n)] else show_nat (n div 10) @ [char_of (48 + n mod 10)])"

declare show_nat.simps [simp del]

section \<open>Python integers as bitsets\<close>

fun bit_length :: "int \<Rightarrow> nat" where
  "bit_length k = (if k = 0 then 0 else Suc (bit_length (\<bar>k\<bar> div 2)))"

declare bit_length.simps [simp del]

fun bit_count :: "int \<Rightarrow> nat" where
  "bit_count k = (if k = 0 then 0 else of_bool (odd k) + bit_count (\<bar>k\<bar> div 2))"

declare bit_count.simps [simp del]

definition lsb :: "int \<Rightarrow> int" where
  "lsb k = k AND (- k)"

text \<open>
  The loop over the set bits of a non-negative integer, lowest first.  (Python would not
  leave the loop on a negative integer; no bitset of the program is negative, and the
  model returns the empty list there.)
\<close>

lemma lsb_even: "lsb (2 * k) = 2 * lsb k"
proof -
  have "(- (2 * k)) div 2 = - k" by simp
  then show ?thesis unfolding lsb_def by (subst and_int_rec) simp
qed

lemma lsb_odd: "odd k \<Longrightarrow> lsb k = 1"
proof -
  assume "odd k"
  then obtain m where k: "k = 2 * m + 1" by (auto elim: oddE)
  have neg: "(- k) div 2 = - m - 1" "odd (- k)" "k div 2 = m" by (simp_all add: k)
  have "m AND (- m - 1) = 0"
    by (rule bit_eqI) (simp add: bit_and_iff bit_not_iff flip: not_int_def)
  then show ?thesis
    unfolding lsb_def using \<open>odd k\<close> by (subst and_int_rec) (simp add: neg)
qed

lemma lsb_bounds: "0 < k \<Longrightarrow> 0 < lsb k \<and> lsb k \<le> k"
proof (induction "nat k" arbitrary: k rule: less_induct)
  case less
  show ?case
  proof (cases "even k")
    case True
    then obtain m where "k = 2 * m" by (auto elim: evenE)
    with less show ?thesis by (simp add: lsb_even)
  next
    case False
    with less.prems show ?thesis by (simp add: lsb_odd)
  qed
qed

lemma xor_lsb: "0 \<le> k \<Longrightarrow> k XOR lsb k = k - lsb k"
proof (induction "nat k" arbitrary: k rule: less_induct)
  case less
  show ?case
  proof (cases "even k")
    case True
    then obtain m where k: "k = 2 * m" by (auto elim: evenE)
    show ?thesis
    proof (cases "m = 0")
      case True
      then show ?thesis by (simp add: k lsb_def)
    next
      case False
      with less k have "m XOR lsb m = m - lsb m" by simp
      then show ?thesis
        by (simp add: k lsb_even) (subst xor_int_rec, simp)
    qed
  next
    case False
    then obtain m where k: "k = 2 * m + 1" by (auto elim: oddE)
    show ?thesis
      by (simp add: lsb_odd False) (subst xor_int_rec, simp add: k)
  qed
qed

function low_bits :: "int \<Rightarrow> nat list" where
  "low_bits bits =
     (if bits \<le> 0 then []
      else (bit_length (lsb bits) - 1) # low_bits (bits XOR lsb bits))"
  by pat_completeness auto
termination
  by (relation "measure nat") (use lsb_bounds xor_lsb in force)+

declare low_bits.simps [simp del]

section \<open>Sequencing\<close>

lemma first_some_cong [fundef_cong]:
  "xs = ys \<Longrightarrow> (\<And>x. x \<in> set ys \<Longrightarrow> f x = h x) \<Longrightarrow> first_some f xs = first_some h ys"
  by (induction xs arbitrary: ys) (auto split: option.splits)

lemma fold_while_cong [fundef_cong]:
  "c = c' \<Longrightarrow> s = s' \<Longrightarrow> xs = ys \<Longrightarrow> (\<And>x t. x \<in> set ys \<Longrightarrow> f x t = h x t) \<Longrightarrow>
   fold_while c f xs s = fold_while c' h ys s'"
  by (induction xs arbitrary: ys s s') auto

lemma fold_while_stop: "\<not> c s \<Longrightarrow> fold_while c f xs s = s"
  by (cases xs) auto

lemma fold_while_invariant:
  "P s \<Longrightarrow> (\<And>x t. x \<in> set xs \<Longrightarrow> P t \<Longrightarrow> c t \<Longrightarrow> P (f x t)) \<Longrightarrow> P (fold_while c f xs s)"
  by (induction xs arbitrary: s) auto

lemma first_some_None: "first_some f xs = None \<longleftrightarrow> (\<forall>x\<in>set xs. f x = None)"
  by (induction xs) (auto split: option.splits)

lemma first_some_Some: "first_some f xs = Some y \<Longrightarrow> \<exists>x\<in>set xs. f x = Some y"
  by (induction xs) (auto split: option.splits)

lemma first_some_concat:
  "(\<And>x. x \<in> set xs \<Longrightarrow> f x = (case h x of [] \<Rightarrow> None | y # _ \<Rightarrow> Some y)) \<Longrightarrow>
   first_some f xs = (case concat (map h xs) of [] \<Rightarrow> None | y # _ \<Rightarrow> Some y)"
proof (induction xs)
  case (Cons x xs)
  then have "first_some f xs = (case concat (map h xs) of [] \<Rightarrow> None | y # _ \<Rightarrow> Some y)"
    and "f x = (case h x of [] \<Rightarrow> None | y # _ \<Rightarrow> Some y)" by simp_all
  then show ?case by (cases "h x") simp_all
qed simp

lemma rbind_simps [simp]:
  "rbind (Inl e) f = Inl e"
  "rbind (Inr x) f = f x"
  by (simp_all add: rbind_def)

lemma rbind_Inr_iff [result_facts]:
  "rbind m f = Inr y \<longleftrightarrow> (\<exists>x. m = Inr x \<and> f x = Inr y)"
  by (cases m) auto

lemma rbind_if_Inr_iff [result_facts]:
  "(if b then Inl e else m) = Inr y \<longleftrightarrow> \<not> b \<and> m = Inr y"
  by auto

lemma is_ok_simps [simp]: "\<not> is_ok (Inl e)" "is_ok (Inr x)"
  by (simp_all add: is_ok_def)

lemma is_ok_iff: "is_ok r \<longleftrightarrow> (\<exists>x. r = Inr x)"
  by (cases r) auto

lemma is_ok_rbind: "is_ok (rbind m f) \<longleftrightarrow> (\<exists>x. m = Inr x \<and> is_ok (f x))"
  by (cases m) auto

lemma fold_result_invariant:
  assumes "fold_result f xs s = Inr t" "P s"
    and "\<And>x s s'. x \<in> set xs \<Longrightarrow> P s \<Longrightarrow> f x s = Inr s' \<Longrightarrow> P s'"
  shows "P t"
  using assms
proof (induction xs arbitrary: s)
  case Nil
  then show ?case by simp
next
  case (Cons x xs)
  then obtain s' where "f x s = Inr s'" "fold_result f xs s' = Inr t"
    by (auto simp: result_facts)
  with Cons show ?case by (metis list.set_intros)
qed

lemma fold_result_append:
  "fold_result f (xs @ ys) s = rbind (fold_result f xs s) (fold_result f ys)"
  by (induction xs arbitrary: s) (auto simp: rbind_def split: sum.splits)

lemma ball_enumerate: "(\<forall>x\<in>set (enumerate 0 xs). P x) \<longleftrightarrow> (\<forall>u<length xs. P (u, xs ! u))"
  by (force simp: in_set_enumerate_eq)

lemma fold_result_unit_ok:
  "fold_result f xs () = Inr y \<longleftrightarrow> (\<forall>x\<in>set xs. f x () = Inr ())"
proof (induction xs)
  case (Cons x xs)
  then show ?case by (cases "f x ()") (auto simp: unit_eq)
qed auto

lemma distinct_concat_pairs:
  "distinct us \<Longrightarrow> (\<And>u. u \<in> set us \<Longrightarrow> distinct (f u)) \<Longrightarrow>
   distinct (concat (map (\<lambda>u. map (Pair u) (f u)) us))"
  by (induction us) (auto simp: distinct_map inj_on_def)

lemma py_index_nonneg [simp]:
  "py_index xs (int i) = (if i < length xs then Inr i else Inl IndexError)"
  by (simp add: py_index_def)

lemma py_shift1_nonneg [simp]: "py_shift1 (int v) = Inr (shl1 v)"
  by (simp add: py_shift1_def)

lemma py_shift1_Inr [result_facts]: "py_shift1 v = Inr b \<longleftrightarrow> 0 \<le> v \<and> b = shl1 (nat v)"
  by (auto simp: py_shift1_def)

section \<open>Bitsets\<close>

lemma bit_shl1 [simp, bit_facts]: "bit (shl1 v) i \<longleftrightarrow> i = v"
  unfolding shl1_def bit_push_bit_iff bit_1_iff by auto

lemma shl1_pos [simp]: "0 < shl1 v" "0 \<le> shl1 v" "shl1 v \<noteq> 0"
  by (simp_all add: shl1_def)

lemma and_shl1 [bit_facts]: "(k::int) AND shl1 v = (if bit k v then shl1 v else 0)"
  by (rule bit_eqI) (auto simp: bit_and_iff)

lemma and_shl1_eq_0 [simp, bit_facts]: "(k::int) AND shl1 v = 0 \<longleftrightarrow> \<not> bit k v"
  by (simp add: and_shl1)

lemma bit_or_shl1 [simp, bit_facts]: "bit ((k::int) OR shl1 v) i \<longleftrightarrow> bit k i \<or> i = v"
  by (auto simp: bit_or_iff)

lemma bit_and_not_shl1 [simp, bit_facts]:
  "bit ((k::int) AND NOT (shl1 v)) i \<longleftrightarrow> bit k i \<and> i \<noteq> v"
  by (auto simp: bit_and_iff bit_not_iff)

lemma bit_low_mask [simp, bit_facts]: "bit (shl1 n - 1) i \<longleftrightarrow> i < n"
  using bit_mask_iff [of n i, where 'a = int]
  by (simp add: mask_eq_exp_minus_1 shl1_def)

lemma bit_and_not_low_mask [simp, bit_facts]:
  "bit ((k::int) AND NOT (shl1 n - 1)) i \<longleftrightarrow> bit k i \<and> n \<le> i"
  by (auto simp: bit_and_iff bit_not_iff)

lemma bit_nonneg_bound: "0 \<le> (k::int) \<Longrightarrow> k < 2 ^ n \<Longrightarrow> bit k i \<Longrightarrow> i < n"
  by (metis bit_take_bit_iff take_bit_int_eq_self)

lemma bit_length_double: "0 < k \<Longrightarrow> bit_length (2 * k) = Suc (bit_length k)"
  by (subst bit_length.simps) simp

lemma bit_length_pos: "0 < k \<Longrightarrow> 0 < bit_length k"
  by (subst bit_length.simps) simp

lemma low_bits_0 [simp]: "low_bits 0 = []"
  by (simp add: low_bits.simps)

lemma low_bits_double: "0 \<le> k \<Longrightarrow> low_bits (2 * k) = map Suc (low_bits k)"
proof (induction "nat k" arbitrary: k rule: less_induct)
  case less
  show ?case
  proof (cases "k = 0")
    case False
    with less.prems have k: "0 < k" by simp
    from lsb_bounds [OF k] have l: "0 < lsb k" "lsb k \<le> k" by auto
    have x: "k XOR lsb k = k - lsb k" "(2 * k) XOR (2 * lsb k) = 2 * (k - lsb k)"
      using xor_lsb [of k] xor_lsb [of "2 * k"] k by (simp_all add: lsb_even)
    have "low_bits (2 * (k - lsb k)) = map Suc (low_bits (k - lsb k))"
      using l k by (intro less.hyps) auto
    then show ?thesis
      using k l bit_length_pos [OF l(1)]
      by (subst (1 2) low_bits.simps) (simp add: lsb_even x bit_length_double)
  qed simp
qed

lemma low_bits_odd: "0 \<le> k \<Longrightarrow> low_bits (2 * k + 1) = 0 # map Suc (low_bits k)"
proof -
  assume k: "0 \<le> k"
  have l: "lsb (2 * k + 1) = 1" by (simp add: lsb_odd)
  have x: "(2 * k + 1) XOR 1 = 2 * k"
    using xor_lsb [of "2 * k + 1"] k by (simp add: l)
  have "bit_length 1 = 1" by (simp add: bit_length.simps)
  with k l x show ?thesis
    by (subst low_bits.simps) (simp add: low_bits_double)
qed

theorem low_bits_filter:
  "0 \<le> k \<Longrightarrow> k < 2 ^ n \<Longrightarrow> low_bits k = filter (bit k) [0..<n]"
proof (induction n arbitrary: k)
  case 0
  then have "k = 0" by simp
  then show ?case by simp
next
  case (Suc n)
  let ?m = "k div 2"
  have upt: "[0..<Suc n] = 0 # map Suc [0..<n]"
    by (simp add: upt_conv_Cons map_Suc_upt del: upt_Suc)
  have IH: "low_bits ?m = filter (bit ?m) [0..<n]"
    using Suc.prems by (intro Suc.IH) auto
  have shift: "filter (bit k) (map Suc [0..<n]) = map Suc (filter (bit ?m) [0..<n])"
    by (simp add: filter_map comp_def bit_Suc)
  show ?case
  proof (cases "even k")
    case True
    then have "low_bits k = map Suc (low_bits ?m)"
      using low_bits_double [of ?m] Suc.prems by simp
    with True show ?thesis by (simp add: upt shift IH bit_0 del: upt_Suc)
  next
    case False
    then have "k = 2 * ?m + 1" by presburger
    then have "low_bits k = 0 # map Suc (low_bits ?m)"
      using low_bits_odd [of ?m] Suc.prems by simp
    with False show ?thesis by (simp add: upt shift IH bit_0 del: upt_Suc)
  qed
qed

lemma low_bits_bounded:
  assumes "0 \<le> (k::int)"
  obtains n where "k < 2 ^ n"
  using assms less_exp [of "nat k"] that [of "nat k"]
  by (metis int_nat_eq of_nat_less_iff of_nat_numeral of_nat_power)

lemma set_low_bits [simp]: "0 \<le> k \<Longrightarrow> set (low_bits k) = {i. bit k i}"
proof -
  assume k: "0 \<le> k"
  then obtain n where n: "k < 2 ^ n" by (rule low_bits_bounded)
  show ?thesis
    using low_bits_filter [OF k n] bit_nonneg_bound [OF k n] by auto
qed

lemma distinct_low_bits [simp]: "distinct (low_bits k)"
proof (cases "0 \<le> k")
  case True
  then obtain n where n: "k < 2 ^ n" by (rule low_bits_bounded)
  show ?thesis using low_bits_filter [OF True n] by simp
qed (simp add: low_bits.simps)

lemma sorted_low_bits: "sorted_wrt (<) (low_bits k)"
proof (cases "0 \<le> k")
  case True
  then obtain n where n: "k < 2 ^ n" by (rule low_bits_bounded)
  show ?thesis
    using low_bits_filter [OF True n] by (simp add: sorted_wrt_filter)
qed (simp add: low_bits.simps)

lemma finite_bits: "0 \<le> (k::int) \<Longrightarrow> finite {i. bit k i}"
  by (metis List.finite_set set_low_bits)

lemma bit_count_low_bits: "0 \<le> k \<Longrightarrow> bit_count k = length (low_bits k)"
proof (induction "nat k" arbitrary: k rule: less_induct)
  case less
  show ?case
  proof (cases "k = 0")
    case False
    let ?m = "k div 2"
    have m: "bit_count ?m = length (low_bits ?m)"
      using less False by simp
    have step: "bit_count k = of_bool (odd k) + bit_count ?m"
      using False less.prems by (subst bit_count.simps) simp
    show ?thesis
    proof (cases "even k")
      case True
      with less.prems show ?thesis using low_bits_double [of ?m] m step by simp
    next
      case odd: False
      then have "k = 2 * ?m + 1" by presburger
      with less.prems odd show ?thesis using low_bits_odd [of ?m] m step by simp
    qed
  qed (simp add: bit_count.simps)
qed

lemma bit_count_card: "0 \<le> k \<Longrightarrow> bit_count k = card {i. bit k i}"
  by (metis bit_count_low_bits distinct_card distinct_low_bits set_low_bits)

lemma nonneg_and_left: "0 \<le> (a::int) \<Longrightarrow> 0 \<le> a AND b"
  by simp

lemma bits_ge_0I: "(\<And>i. n \<le> i \<Longrightarrow> \<not> bit (k::int) i) \<Longrightarrow> 0 \<le> k \<and> k < 2 ^ n"
proof -
  assume *: "\<And>i. n \<le> i \<Longrightarrow> \<not> bit k i"
  have "take_bit n k = k"
    by (rule bit_eqI) (use * linorder_le_less_linear in \<open>auto simp: bit_take_bit_iff\<close>)
  then show ?thesis
    by (metis take_bit_int_less_exp take_bit_nonnegative)
qed

end
