(* ===== verification/Dpll.thy ===== *)
theory Dpll
  imports Prelude
begin

text \<open>
  The built-in satisfiability solver of \<open>src/src/sglab/sat.py\<close>: \<open>_simplify\<close> and
  \<open>solve_dpll\<close>.

  A literal is a non-zero integer, a clause a list of literals.  The inner \<open>while True\<close> loop of
  \<open>recurse\<close> (unit propagation) and its recursive calls become one recursive function;
  every call removes at least one literal or one clause, which is the termination measure.
  The dictionary \<open>assignment\<close> is a map.

  The interface a client of a solver relies on is the locale \<open>sat_solver\<close>; \<open>solve_dpll\<close> is an
  instance.
\<close>

section \<open>The solver\<close>

type_synonym clause = "int list"

definition simplify :: "clause list \<Rightarrow> int \<Rightarrow> bool \<Rightarrow> clause list" where
  "simplify clauses variable value =
     (let true_literal = (if value then variable else - variable);
          false_literal = - true_literal
      in map (filter (\<lambda>literal. literal \<noteq> false_literal))
           (filter (\<lambda>clause. true_literal \<notin> set clause) clauses))"

text \<open>\<open>min(current, key=len)\<close>: the first clause of minimal length.\<close>

fun min_by_length :: "clause list \<Rightarrow> clause" where
  "min_by_length [] = []"
| "min_by_length [c] = c"
| "min_by_length (c # d # cs) = (let m = min_by_length (d # cs) in if length c \<le> length m then c else m)"

definition clause_weight :: "clause list \<Rightarrow> nat" where
  "clause_weight cs = sum_list (map (\<lambda>c. Suc (length c)) cs)"

lemma simplify_weight_le: "clause_weight (simplify cs v b) \<le> clause_weight cs"
proof (induction cs)
  case (Cons c cs)
  have "length (filter P c) \<le> length c" for P :: "int \<Rightarrow> bool" by (rule length_filter_le)
  with Cons show ?case by (auto simp: clause_weight_def simplify_def Let_def intro: add_mono le_SucI)
qed (simp add: clause_weight_def simplify_def)

lemma simplify_Cons:
  "simplify (c # cs) v b =
     (if (if b then v else - v) \<in> set c then simplify cs v b
      else filter (\<lambda>l. l \<noteq> - (if b then v else - v)) c # simplify cs v b)"
  by (simp add: simplify_def Let_def)

lemma clause_weight_Cons: "clause_weight (c # cs) = Suc (length c) + clause_weight cs"
  by (simp add: clause_weight_def)

lemma simplify_weight_less:
  assumes "c \<in> set cs" "l \<in> set c" "\<bar>l\<bar> = v"
  shows "clause_weight (simplify cs v b) < clause_weight cs"
  using assms(1)
proof (induction cs)
  case (Cons d cs)
  show ?case
  proof (cases "d = c")
    case True
    have "(if b then v else - v) \<in> set c \<or>
        length (filter (\<lambda>l. l \<noteq> - (if b then v else - v)) c) < length c"
      using assms(2,3) by (cases "l < 0"; cases b) (auto intro!: length_filter_less)
    then show ?thesis
      using simplify_weight_le [of cs v b] True
      by (auto simp: simplify_Cons clause_weight_Cons split: if_splits)
  next
    case False
    with Cons have "clause_weight (simplify cs v b) < clause_weight cs" by simp
    moreover have "length (filter P d) \<le> length d" for P :: "int \<Rightarrow> bool" by (rule length_filter_le)
    ultimately show ?thesis
      by (auto simp: simplify_Cons clause_weight_Cons add_le_less_mono intro: less_le_trans)
  qed
qed simp

lemma min_by_length_in: "cs \<noteq> [] \<Longrightarrow> min_by_length cs \<in> set cs"
  by (induction cs rule: min_by_length.induct) (auto simp: Let_def)

lemma find_unit: "find (\<lambda>c. length c = 1) cs = Some c \<Longrightarrow> c \<in> set cs \<and> c = [hd c]"
  by (auto simp: find_Some_iff in_set_conv_nth length_Suc_conv)

lemma min_clause_literal:
  assumes "[] \<notin> set cs" "cs \<noteq> []"
  shows "min_by_length cs \<in> set cs" "hd (min_by_length cs) \<in> set (min_by_length cs)"
  using min_by_length_in [OF assms(2)] assms(1) by (auto intro: hd_in_set)

lemma unit_weight:
  assumes "find (\<lambda>c. length c = Suc 0) cs = Some c"
  shows "clause_weight (simplify cs \<bar>hd c\<bar> b) < clause_weight cs"
proof -
  have c: "c \<in> set cs" "c = [hd c]" using find_unit [of cs c] assms by auto
  then have "hd c \<in> set c" by (metis list.set_intros(1))
  with c(1) show ?thesis by (rule simplify_weight_less) simp
qed

lemma split_weight:
  assumes "[] \<notin> set cs" "cs \<noteq> []"
  shows "clause_weight (simplify cs \<bar>hd (min_by_length cs)\<bar> b) < clause_weight cs"
  using simplify_weight_less [OF min_clause_literal [OF assms] refl] .

function dpll_recurse :: "clause list \<Rightarrow> (int \<rightharpoonup> bool) \<Rightarrow> (int \<rightharpoonup> bool) option" where
  "dpll_recurse current assignment =
     (if [] \<in> set current then None
      else (case find (\<lambda>c. length c = 1) current of
        Some c \<Rightarrow>
          (let variable = \<bar>hd c\<bar>; value = (0 < hd c)
           in if assignment variable \<noteq> None \<and> assignment variable \<noteq> Some value then None
              else dpll_recurse (simplify current variable value) (assignment(variable \<mapsto> value)))
      | None \<Rightarrow>
          if current = [] then Some assignment
          else
            (let variable = \<bar>hd (min_by_length current)\<bar>
             in case dpll_recurse (simplify current variable True) (assignment(variable \<mapsto> True)) of
                  Some r \<Rightarrow> Some r
                | None \<Rightarrow> dpll_recurse (simplify current variable False) (assignment(variable \<mapsto> False)))))"
  by pat_completeness auto
termination
  by (relation "measure (\<lambda>(current, _). clause_weight current)")
    (auto simp: unit_weight split_weight)

declare dpll_recurse.simps [simp del]

definition solve_dpll :: "clause list \<Rightarrow> nat \<Rightarrow> int list option" where
  "solve_dpll clauses variable_count =
     map_option (\<lambda>solved. map (\<lambda>variable. if solved variable = Some True then variable else - variable)
         (map int [1..<Suc variable_count]))
       (dpll_recurse clauses Map.empty)"

section \<open>Specification\<close>

text \<open>Truth of a literal and of a set of clauses under a total assignment.\<close>

definition lit_true :: "(int \<Rightarrow> bool) \<Rightarrow> int \<Rightarrow> bool" where
  "lit_true A l \<longleftrightarrow> (if 0 < l then A l else \<not> A (- l))"

definition satisfies :: "(int \<Rightarrow> bool) \<Rightarrow> clause list \<Rightarrow> bool" where
  "satisfies A cs \<longleftrightarrow> (\<forall>c\<in>set cs. \<exists>l\<in>set c. lit_true A l)"

definition wf_clauses :: "nat \<Rightarrow> clause list \<Rightarrow> bool" where
  "wf_clauses n cs \<longleftrightarrow> (\<forall>c\<in>set cs. \<forall>l\<in>set c. l \<noteq> 0 \<and> \<bar>l\<bar> \<le> int n)"

text \<open>The assignment a model stands for: the variables it lists positively.\<close>

definition model_assignment :: "int list \<Rightarrow> int \<Rightarrow> bool" where
  "model_assignment m v \<longleftrightarrow> v \<in> set m"

definition clause_vars :: "clause list \<Rightarrow> int set" where
  "clause_vars cs = abs ` \<Union> (set ` set cs)"

lemma satisfies_append [simp]: "satisfies A (cs @ ds) \<longleftrightarrow> satisfies A cs \<and> satisfies A ds"
  by (auto simp: satisfies_def)

lemma satisfies_Nil [simp]: "satisfies A []"
  by (simp add: satisfies_def)

lemma satisfies_Cons [simp]: "satisfies A (c # cs) \<longleftrightarrow> (\<exists>l\<in>set c. lit_true A l) \<and> satisfies A cs"
  by (simp add: satisfies_def)

lemma satisfies_simplify:
  assumes "0 < v" "A v = b"
  shows "satisfies A (simplify cs v b) \<longleftrightarrow> satisfies A cs"
proof (induction cs)
  case (Cons c cs)
  have "lit_true A (if b then v else - v)" "\<not> lit_true A (- (if b then v else - v))"
    using assms by (auto simp: lit_true_def)
  with Cons show ?case by (auto simp: simplify_Cons)
qed (simp add: simplify_def)

lemma simplify_vars: "clause_vars (simplify cs v b) \<subseteq> clause_vars cs - {v}" if "0 < v"
proof -
  have "\<bar>l\<bar> \<noteq> v" if l: "c \<in> set cs" "(if b then v else - v) \<notin> set c" "l \<in> set c"
    "l \<noteq> - (if b then v else - v)" for c l
    using l \<open>0 < v\<close> by (auto split: if_splits abs_split)
  then show ?thesis
    by (auto simp: clause_vars_def simplify_def Let_def)
qed

lemma simplify_nonzero: "(\<forall>c\<in>set cs. 0 \<notin> set c) \<Longrightarrow> \<forall>c\<in>set (simplify cs v b). 0 \<notin> set c"
  by (auto simp: simplify_def Let_def)

section \<open>Soundness and completeness of the recursion\<close>

definition dpll_inv :: "clause list \<Rightarrow> (int \<rightharpoonup> bool) \<Rightarrow> bool" where
  "dpll_inv cs a \<longleftrightarrow> (\<forall>c\<in>set cs. 0 \<notin> set c) \<and> dom a \<inter> clause_vars cs = {}"

lemma dpll_inv_step:
  assumes "dpll_inv cs a" "0 < v"
  shows "dpll_inv (simplify cs v b) (a(v \<mapsto> b))"
  using assms simplify_vars [OF assms(2), of cs b] simplify_nonzero [of cs v b]
  by (auto simp: dpll_inv_def)

lemma dpll_inv_literal:
  assumes "dpll_inv cs a" "c \<in> set cs" "l \<in> set c"
  shows "0 < \<bar>l\<bar>" "a \<bar>l\<bar> = None"
proof -
  have "\<bar>l\<bar> \<in> clause_vars cs" using assms by (auto simp: clause_vars_def)
  then show "0 < \<bar>l\<bar>" "a \<bar>l\<bar> = None" using assms by (auto simp: dpll_inv_def)
qed

definition agrees :: "(int \<Rightarrow> bool) \<Rightarrow> (int \<rightharpoonup> bool) \<Rightarrow> bool" where
  "agrees A r \<longleftrightarrow> (\<forall>v b. r v = Some b \<longrightarrow> A v = b)"

text \<open>The cases of one unfolding under the invariant.\<close>

lemma dpll_recurse_cases:
  assumes "dpll_inv cs a"
  obtains (conflict) "[] \<in> set cs" "dpll_recurse cs a = None"
  | (unit) l where "[l] \<in> set cs" "0 < \<bar>l\<bar>"
      "dpll_recurse cs a = dpll_recurse (simplify cs \<bar>l\<bar> (0 < l)) (a(\<bar>l\<bar> \<mapsto> 0 < l))"
      "clause_weight (simplify cs \<bar>l\<bar> (0 < l)) < clause_weight cs"
  | (solved) "cs = []" "dpll_recurse cs a = Some a"
  | (split) v where "0 < v" "a v = None" "\<And>b. clause_weight (simplify cs v b) < clause_weight cs"
      "dpll_recurse cs a = (case dpll_recurse (simplify cs v True) (a(v \<mapsto> True)) of
         Some r \<Rightarrow> Some r | None \<Rightarrow> dpll_recurse (simplify cs v False) (a(v \<mapsto> False)))"
proof (cases "[] \<in> set cs")
  case True
  then show thesis using conflict by (simp add: dpll_recurse.simps)
next
  case nonempty: False
  show thesis
  proof (cases "find (\<lambda>c. length c = 1) cs")
    case (Some c)
    then have c: "c = [hd c]" "c \<in> set cs" using find_unit by blast+
    then have l: "hd c \<in> set c" by (metis list.set_intros(1))
    have "a \<bar>hd c\<bar> = None" "0 < \<bar>hd c\<bar>" using dpll_inv_literal [OF assms c(2) l] by auto
    then show thesis
      using unit [of "hd c"] c nonempty Some simplify_weight_less [OF c(2) l refl]
        dpll_recurse.simps [of cs a]
      by (simp add: Let_def)
  next
    case None
    show thesis
    proof (cases "cs = []")
      case True
      then show thesis using solved by (simp add: dpll_recurse.simps)
    next
      case False
      let ?v = "\<bar>hd (min_by_length cs)\<bar>"
      note m = min_clause_literal [OF nonempty False]
      show thesis
        using split [of ?v] dpll_inv_literal [OF assms m] simplify_weight_less [OF m refl]
          nonempty False None dpll_recurse.simps [of cs a]
        by (auto simp: Let_def)
    qed
  qed
qed

lemma dpll_recurse_sound:
  "dpll_inv cs a \<Longrightarrow> dpll_recurse cs a = Some r \<Longrightarrow> a \<subseteq>\<^sub>m r \<and> (\<forall>A. agrees A r \<longrightarrow> satisfies A cs)"
proof (induction "clause_weight cs" arbitrary: cs a rule: less_induct)
  case less
  have step: "a \<subseteq>\<^sub>m r \<and> (\<forall>A. agrees A r \<longrightarrow> satisfies A cs)"
    if v: "0 < v" "a v = None \<or> a v = Some b" "clause_weight (simplify cs v b) < clause_weight cs"
      "dpll_recurse (simplify cs v b) (a(v \<mapsto> b)) = Some r" for v b
  proof -
    have IH: "a(v \<mapsto> b) \<subseteq>\<^sub>m r" "\<forall>A. agrees A r \<longrightarrow> satisfies A (simplify cs v b)"
      using less.hyps [OF v(3) dpll_inv_step [OF less.prems(1) v(1)] v(4)] by auto
    have r: "r v = Some b" using IH(1) by (auto simp: map_le_def dom_def split: if_splits)
    have "a \<subseteq>\<^sub>m r" using IH(1) v(2) r by (auto simp: map_le_def dom_def split: if_splits)
    moreover have "satisfies A cs" if "agrees A r" for A
      using IH(2) that r satisfies_simplify [OF v(1), of A b cs] by (auto simp: agrees_def)
    ultimately show ?thesis by blast
  qed
  from less.prems(1) show ?case
  proof (cases rule: dpll_recurse_cases)
    case conflict
    then show ?thesis using less.prems by simp
  next
    case (unit l)
    have "a \<bar>l\<bar> = None" using dpll_inv_literal(2) [OF less.prems(1) unit(1), of l] by simp
    with unit less.prems(2) step [of "\<bar>l\<bar>" "0 < l"] show ?thesis by simp
  next
    case solved
    then show ?thesis using less.prems by simp
  next
    case (split v)
    then show ?thesis using less.prems(2) step [of v True] step [of v False]
      by (auto split: option.splits)
  qed
qed

lemma dpll_recurse_complete:
  "dpll_inv cs a \<Longrightarrow> dpll_recurse cs a = None \<Longrightarrow> \<not> satisfies A cs"
proof (induction "clause_weight cs" arbitrary: cs a rule: less_induct)
  case less
  have step: "\<not> satisfies A cs"
    if "0 < v" "clause_weight (simplify cs v (A v)) < clause_weight cs"
      "dpll_recurse (simplify cs v (A v)) (a(v \<mapsto> A v)) = None" for v
    using less.hyps [OF that(2) dpll_inv_step [OF less.prems(1) that(1)] that(3)]
      satisfies_simplify [OF that(1) refl, of A cs] by simp
  from less.prems(1) show ?case
  proof (cases rule: dpll_recurse_cases)
    case conflict
    then show ?thesis unfolding satisfies_def by (auto intro: bexI [of _ "[]"])
  next
    case (unit l)
    show ?thesis
    proof
      assume sat: "satisfies A cs"
      with unit(1) have "lit_true A l" by (auto simp: satisfies_def)
      then have "A \<bar>l\<bar> = (0 < l)" by (auto simp: lit_true_def split: if_splits)
      with unit less.prems(2) step [of "\<bar>l\<bar>"] sat show False by simp
    qed
  next
    case solved
    then show ?thesis using less.prems by simp
  next
    case (split v)
    then show ?thesis using less.prems(2) step [of v] by (cases "A v") (auto split: option.splits)
  qed
qed

section \<open>The interface of a solver\<close>

locale sat_solver =
  fixes solve :: "clause list \<Rightarrow> nat \<Rightarrow> int list option"
  assumes model: "wf_clauses n cs \<Longrightarrow> solve cs n = Some m \<Longrightarrow> satisfies (model_assignment m) cs"
    and unsat: "wf_clauses n cs \<Longrightarrow> solve cs n = None \<Longrightarrow> \<not> satisfies A cs"
begin

lemma solve_iff: "wf_clauses n cs \<Longrightarrow> solve cs n \<noteq> None \<longleftrightarrow> (\<exists>A. satisfies A cs)"
  using model unsat by (cases "solve cs n") blast+

end

lemma dpll_inv_init: "wf_clauses n cs \<Longrightarrow> dpll_inv cs Map.empty"
  by (auto simp: wf_clauses_def dpll_inv_def)

lemma solve_dpll_abs: "solve_dpll cs n = Some m \<Longrightarrow> map abs m = map int [1..<Suc n]"
  by (auto simp: solve_dpll_def)

lemma solve_dpll_satisfies:
  assumes "wf_clauses n cs" "solve_dpll cs n = Some m"
  shows "satisfies (model_assignment m) cs"
proof -
  obtain r where r: "dpll_recurse cs Map.empty = Some r"
    "m = map (\<lambda>v. if r v = Some True then v else - v) (map int [1..<Suc n])"
    using assms(2) by (auto simp: solve_dpll_def)
  let ?A = "\<lambda>v. r v = Some True"
  have sat: "satisfies ?A cs"
    using dpll_recurse_sound [OF dpll_inv_init [OF assms(1)] r(1)] by (simp add: agrees_def)
  have "model_assignment m v = ?A v" if "0 < v" "v \<le> int n" for v
  proof -
    have "v \<in> int ` {1..<Suc n}" using that by (intro image_eqI [of _ _ "nat v"]) auto
    then show ?thesis using that unfolding model_assignment_def r(2)
      by (auto simp: image_iff simp del: upt_Suc)
  qed
  then have "lit_true (model_assignment m) l = lit_true ?A l" if "l \<noteq> 0" "\<bar>l\<bar> \<le> int n" for l
    using that by (auto simp: lit_true_def)
  with sat assms(1) show ?thesis unfolding satisfies_def wf_clauses_def by blast
qed

interpretation dpll: sat_solver solve_dpll
proof
  show "\<not> satisfies A cs" if "wf_clauses n cs" "solve_dpll cs n = None" for n cs A
    using dpll_recurse_complete [OF dpll_inv_init [OF that(1)]] that(2) by (simp add: solve_dpll_def)
qed (rule solve_dpll_satisfies)

section \<open>Properties\<close>

text \<open>
  C9. The built-in solver decides satisfiability: on clauses over the variables \<open>1..n\<close> it
  always returns, a returned model mentions every variable once and in order and satisfies
  every clause, and it answers \<open>None\<close> only if no assignment satisfies the clauses.
\<close>

theorem solve_dpll_decides:
  assumes "wf_clauses n cs"
  shows "case solve_dpll cs n of
      Some m \<Rightarrow> map abs m = map int [1..<Suc n] \<and> satisfies (model_assignment m) cs
    | None \<Rightarrow> \<forall>A. \<not> satisfies A cs"
  using dpll.model [OF assms] dpll.unsat [OF assms] solve_dpll_abs
  by (auto split: option.split)

theorem solve_dpll_decides_witness:
  "solve_dpll [[1, 2], [- 1, 2], [- 2, 3]] 3 = Some [1, 2, 3] \<and>
   (\<forall>A. \<not> satisfies A [[1, 2], [- 1, 2], [- 2]])"
proof -
  have "solve_dpll [[1, 2], [- 1, 2], [- 2, 3]] 3 = Some [1, 2, 3]" by code_simp
  moreover have "solve_dpll [[1, 2], [- 1, 2], [- 2]] 2 = None" by code_simp
  ultimately show ?thesis
    using solve_dpll_decides [of 2 "[[1, 2], [- 1, 2], [- 2]]"] by (simp add: wf_clauses_def)
qed

end
