(* ===== verification/Bit_Graph.thy ===== *)
theory Bit_Graph
  imports Prelude
begin

text \<open>
  The graph model of \<open>src/src/sglab/model.py\<close> (class \<open>BitGraph\<close>): an immutable simple
  undirected graph held as one integer bitset per vertex.

  An existing \<open>BitGraph\<close> instance is a value of the record \<open>bitgraph\<close>; the constructor
  \<open>BitGraph\<close> runs \<open>post_init\<close> (the checks of \<open>__post_init__\<close>) on arbitrary integers and
  either raises or yields an instance.  Vertices given by a caller are \<open>int\<close> (they may be
  negative or out of range, and the code checks or trips over that); vertices the code
  computes itself, from \<open>range(n)\<close> or from set bits, are \<open>nat\<close>.

  The specification side is \<open>edge_set\<close> (a set of two-element vertex sets) and \<open>arcs\<close>.  The
  lemmas show that the constructor accepts exactly the well-formed graphs, that
  \<open>from_edges\<close>, \<open>with_edges\<close> and \<open>edges\<close> compute on \<open>edge_set\<close> what their names say, the
  handshake lemma for \<open>size\<close>, and that the breadth-first \<open>is_connected\<close> returns and
  decides connectedness.
\<close>

unbundle bit_operations_syntax

section \<open>The class\<close>

record bitgraph =
  order :: nat
  rows :: "int list"

definition post_init :: "int \<Rightarrow> int list \<Rightarrow> unit result" where
  "post_init n rs =
     (if n < 0 then Inl (ValueError ''n must be non-negative'')
      else if int (length rs) \<noteq> n then Inl (ValueError ''rows length must equal n'')
      else
        let mask = (if n \<noteq> 0 then shl1 (nat n) - 1 else 0) in
        rbind
          (fold_result (\<lambda>(u, row) _.
              if row AND NOT mask \<noteq> 0
              then Inl (ValueError ''adjacency row contains an out-of-range vertex'')
              else if row AND shl1 u \<noteq> 0
              then Inl (ValueError ''loops are not allowed'')
              else Inr ()) (enumerate 0 rs) ())
          (\<lambda>_. fold_result (\<lambda>(u, row) _.
              fold_result (\<lambda>v _.
                if rs ! v AND shl1 u = 0
                then Inl (ValueError ''adjacency must be symmetric'')
                else Inr ()) (low_bits row) ()) (enumerate 0 rs) ()))"

definition BitGraph :: "int \<Rightarrow> int list \<Rightarrow> bitgraph result" where
  "BitGraph n rs = rbind (post_init n rs) (\<lambda>_. Inr \<lparr>order = nat n, rows = rs\<rparr>)"

definition empty_graph :: "int \<Rightarrow> bitgraph result" where
  "empty_graph n = BitGraph n (replicate (nat n) 0)"

definition from_edges_step :: "int \<Rightarrow> int \<times> int \<Rightarrow> int list \<Rightarrow> int list result" where
  "from_edges_step n = (\<lambda>(u, v) rs.
     if \<not> (0 \<le> u \<and> u < n \<and> 0 \<le> v \<and> v < n)
     then Inl (ValueError ''edge endpoint out of range'')
     else if u = v then Inl (ValueError ''loops are not allowed'')
     else if rs ! nat u AND shl1 (nat v) \<noteq> 0
     then Inl (ValueError ''duplicate edges are not allowed'')
     else
       let rs1 = rs[nat u := rs ! nat u OR shl1 (nat v)]
       in Inr (rs1[nat v := rs1 ! nat v OR shl1 (nat u)]))"

definition from_edges :: "int \<Rightarrow> (int \<times> int) list \<Rightarrow> bitgraph result" where
  "from_edges n es =
     rbind (fold_result (from_edges_step n) es (replicate (nat n) 0)) (BitGraph n)"

definition has_edge :: "bitgraph \<Rightarrow> nat \<Rightarrow> nat \<Rightarrow> bool" where
  "has_edge g u v = (rows g ! u AND shl1 v \<noteq> 0)"

text \<open>\<open>has_edge\<close> on caller-supplied integers, with Python's indexing and shift errors.\<close>

definition has_edge_py :: "bitgraph \<Rightarrow> int \<Rightarrow> int \<Rightarrow> bool result" where
  "has_edge_py g u v =
     rbind (py_index (rows g) u) (\<lambda>i.
     rbind (py_shift1 v) (\<lambda>b. Inr (rows g ! i AND b \<noteq> 0)))"

definition degree :: "bitgraph \<Rightarrow> nat \<Rightarrow> nat" where
  "degree g u = bit_count (rows g ! u)"

definition degree_sequence :: "bitgraph \<Rightarrow> nat list" where
  "degree_sequence g = map bit_count (rows g)"

definition minimum_degree :: "bitgraph \<Rightarrow> nat" where
  "minimum_degree g = (if rows g = [] then 0 else min_list (map bit_count (rows g)))"

definition graph_size :: "bitgraph \<Rightarrow> nat" where
  "graph_size g = sum_list (map bit_count (rows g)) div 2"

definition neighbors :: "bitgraph \<Rightarrow> nat \<Rightarrow> nat list" where
  "neighbors g u = low_bits (rows g ! u)"

definition edges :: "bitgraph \<Rightarrow> (nat \<times> nat) list" where
  "edges g =
     concat (map (\<lambda>u. map (Pair u) (low_bits (rows g ! u AND NOT (shl1 (u + 1) - 1))))
       [0..<order g])"

text \<open>
  The breadth-first search of \<open>is_connected\<close>: the inner loop marks and enqueues the unseen
  neighbours of the vertex popped from the left of the queue.
\<close>

definition bfs_absorb :: "int \<Rightarrow> int \<times> nat list \<Rightarrow> int \<times> nat list" where
  "bfs_absorb unseen =
     fold (\<lambda>v (seen, queue). (seen OR shl1 v, queue @ [v])) (low_bits unseen)"

partial_function (option) bfs_loop :: "int list \<Rightarrow> int \<times> nat list \<Rightarrow> int option" where
  "bfs_loop rs st =
     (case st of (seen, queue) \<Rightarrow>
        (case queue of
           [] \<Rightarrow> Some seen
         | u # queue' \<Rightarrow> bfs_loop rs (bfs_absorb (rs ! u AND NOT seen) (seen, queue'))))"

declare bfs_loop.simps [code]

definition is_connected :: "bitgraph \<Rightarrow> bool" where
  "is_connected g =
     (if order g = 0 then True
      else (case bfs_loop (rows g) (1, [0]) of
              Some seen \<Rightarrow> bit_count seen = order g
            | None \<Rightarrow> False))"

definition remove_edge_step :: "bitgraph \<Rightarrow> int \<times> int \<Rightarrow> int list \<Rightarrow> int list result" where
  "remove_edge_step g = (\<lambda>(u, v) rs.
     rbind (has_edge_py g u v) (\<lambda>present.
     if \<not> present then Inl (ValueError ''cannot remove a missing edge'')
     else
       rbind (py_index rs u) (\<lambda>i.
       rbind (py_shift1 v) (\<lambda>bv.
       let rs1 = rs[i := rs ! i AND NOT bv] in
       rbind (py_index rs1 v) (\<lambda>j.
       rbind (py_shift1 u) (\<lambda>bu.
       Inr (rs1[j := rs1 ! j AND NOT bu])))))))"

definition add_edge_step :: "bitgraph \<Rightarrow> int \<times> int \<Rightarrow> int list \<Rightarrow> int list result" where
  "add_edge_step g = (\<lambda>(u, v) rs.
     if u = v \<or> \<not> (0 \<le> u \<and> u < int (order g) \<and> 0 \<le> v \<and> v < int (order g))
     then Inl (ValueError ''invalid edge'')
     else if rs ! nat u AND shl1 (nat v) \<noteq> 0
     then Inl (ValueError ''cannot add an existing edge'')
     else
       let rs1 = rs[nat u := rs ! nat u OR shl1 (nat v)]
       in Inr (rs1[nat v := rs1 ! nat v OR shl1 (nat u)]))"

definition with_edges ::
  "bitgraph \<Rightarrow> (int \<times> int) list \<Rightarrow> (int \<times> int) list \<Rightarrow> bitgraph result" where
  "with_edges g add remove =
     rbind (fold_result (remove_edge_step g) remove (rows g)) (\<lambda>rs1.
     rbind (fold_result (add_edge_step g) add rs1) (\<lambda>rs2.
     BitGraph (int (order g)) rs2))"

section \<open>Specification\<close>

definition wf_graph :: "bitgraph \<Rightarrow> bool" where
  "wf_graph g \<longleftrightarrow>
     length (rows g) = order g \<and>
     (\<forall>u<order g. 0 \<le> rows g ! u \<and> rows g ! u < 2 ^ order g \<and> \<not> bit (rows g ! u) u \<and>
        (\<forall>v<order g. bit (rows g ! u) v \<longrightarrow> bit (rows g ! v) u))"

definition arcs :: "bitgraph \<Rightarrow> (nat \<times> nat) set" where
  "arcs g = {(u, v). u < order g \<and> v < order g \<and> has_edge g u v}"

definition edge_set :: "bitgraph \<Rightarrow> nat set set" where
  "edge_set g = {{u, v} |u v. (u, v) \<in> arcs g}"

definition connected_graph :: "bitgraph \<Rightarrow> bool" where
  "connected_graph g \<longleftrightarrow> (\<forall>u<order g. \<forall>v<order g. (u, v) \<in> (arcs g)\<^sup>*)"

definition int_edge :: "nat \<times> nat \<Rightarrow> int \<times> int" where
  "int_edge = map_prod int int"

definition endpoints :: "int \<times> int \<Rightarrow> nat set" where
  "endpoints e = {nat (fst e), nat (snd e)}"

text \<open>The rows represent the edge set \<open>E\<close> on the vertices below \<open>n\<close>.\<close>

definition rows_rep :: "nat \<Rightarrow> int list \<Rightarrow> nat set set \<Rightarrow> bool" where
  "rows_rep n rs E \<longleftrightarrow>
     length rs = n \<and> (\<forall>u<n. \<forall>v. bit (rs ! u) v \<longleftrightarrow> v < n \<and> {u, v} \<in> E)"

section \<open>Construction\<close>

lemma has_edge_bit [simp]: "has_edge g u v \<longleftrightarrow> bit (rows g ! u) v"
  by (simp add: has_edge_def)

lemma has_edge_py_nat:
  "has_edge_py g (int u) (int v) =
     (if u < length (rows g) then Inr (has_edge g u v) else Inl IndexError)"
  by (simp add: has_edge_py_def)

lemma row_mask: "(row::int) AND NOT (shl1 n - 1) = 0 \<longleftrightarrow> 0 \<le> row \<and> row < 2 ^ n"
proof
  assume 0: "row AND NOT (shl1 n - 1) = 0"
  have "\<not> bit row i" if "n \<le> i" for i
    using that bit_and_not_low_mask [of row n i] by (simp add: 0)
  then show "0 \<le> row \<and> row < 2 ^ n" by (rule bits_ge_0I)
next
  assume "0 \<le> row \<and> row < 2 ^ n"
  then have "bit row i \<Longrightarrow> i < n" for i using bit_nonneg_bound by blast
  then show "row AND NOT (shl1 n - 1) = 0"
    by (intro bit_eqI) fastforce
qed

lemma post_init_ok:
  "post_init (int n) rs = Inr () \<longleftrightarrow> wf_graph \<lparr>order = n, rows = rs\<rparr>"
proof -
  have mask: "(if int n \<noteq> 0 then shl1 (nat (int n)) - 1 else 0) = shl1 n - 1"
    by (simp add: shl1_def)
  have "post_init (int n) rs = Inr () \<longleftrightarrow>
      length rs = n \<and>
      (\<forall>u<length rs. rs ! u AND NOT (shl1 n - 1) = 0 \<and> \<not> bit (rs ! u) u) \<and>
      (\<forall>u<length rs. \<forall>v\<in>set (low_bits (rs ! u)). bit (rs ! v) u)"
    unfolding post_init_def mask Let_def
    by (auto simp: rbind_Inr_iff fold_result_unit_ok rbind_if_Inr_iff ball_enumerate)
  also have "\<dots> \<longleftrightarrow> wf_graph \<lparr>order = n, rows = rs\<rparr>"
    unfolding wf_graph_def row_mask
    by (auto dest: bit_nonneg_bound) (metis bit_nonneg_bound mem_Collect_eq set_low_bits)+
  finally show ?thesis .
qed

lemma BitGraph_Inr:
  "BitGraph n rs = Inr g \<longleftrightarrow> 0 \<le> n \<and> g = \<lparr>order = nat n, rows = rs\<rparr> \<and> wf_graph g"
proof (cases "0 \<le> n")
  case True
  then obtain m where n: "n = int m" by (metis nonneg_int_cases)
  show ?thesis
    using post_init_ok [of m rs] unfolding n BitGraph_def
    by (cases "post_init (int m) rs") (auto simp: unit_eq)
next
  case False
  then show ?thesis by (simp add: BitGraph_def post_init_def)
qed

subsection \<open>Rows representing an edge set\<close>

lemma rows_rep_range: "rows_rep n rs E \<Longrightarrow> u < n \<Longrightarrow> 0 \<le> rs ! u \<and> rs ! u < 2 ^ n"
  by (rule bits_ge_0I) (simp add: rows_rep_def)

lemma rows_rep_bit: "rows_rep n rs E \<Longrightarrow> u < n \<Longrightarrow> bit (rs ! u) v \<longleftrightarrow> v < n \<and> {u, v} \<in> E"
  by (simp add: rows_rep_def)

lemma rows_rep_length: "rows_rep n rs E \<Longrightarrow> length rs = n"
  by (simp add: rows_rep_def)

lemma rows_rep_wf:
  assumes "rows_rep n rs E" "\<And>u. {u} \<notin> E"
  shows "wf_graph \<lparr>order = n, rows = rs\<rparr>"
  using assms rows_rep_range [OF assms(1)]
  by (auto simp: wf_graph_def rows_rep_def insert_commute)

lemma wf_rows_range: "wf_graph g \<Longrightarrow> u < order g \<Longrightarrow> 0 \<le> rows g ! u \<and> rows g ! u < 2 ^ order g"
  by (simp add: wf_graph_def)

lemma wf_bit_lt: "wf_graph g \<Longrightarrow> u < order g \<Longrightarrow> bit (rows g ! u) v \<Longrightarrow> v < order g"
  using wf_rows_range bit_nonneg_bound by blast

lemma wf_bit_sym:
  "wf_graph g \<Longrightarrow> u < order g \<Longrightarrow> v < order g \<Longrightarrow> bit (rows g ! u) v = bit (rows g ! v) u"
  by (auto simp: wf_graph_def)

lemma wf_bit_irrefl: "wf_graph g \<Longrightarrow> u < order g \<Longrightarrow> \<not> bit (rows g ! u) u"
  by (simp add: wf_graph_def)

lemma wf_length: "wf_graph g \<Longrightarrow> length (rows g) = order g"
  by (simp add: wf_graph_def)

lemma edge_set_iff:
  "wf_graph g \<Longrightarrow> {u, v} \<in> edge_set g \<longleftrightarrow> u < order g \<and> v < order g \<and> bit (rows g ! u) v"
  by (auto simp: edge_set_def arcs_def doubleton_eq_iff wf_bit_sym)

lemma edge_set_no_loop: "wf_graph g \<Longrightarrow> {u} \<notin> edge_set g"
  using edge_set_iff [of g u u] wf_bit_irrefl [of g u] by auto

lemma edge_set_elim:
  assumes "e \<in> edge_set g"
  obtains u v where "e = {u, v}" "u < order g" "v < order g" "bit (rows g ! u) v"
  using assms by (auto simp: edge_set_def arcs_def)

lemma wf_rows_rep: "wf_graph g \<Longrightarrow> rows_rep (order g) (rows g) (edge_set g)"
  by (auto simp: rows_rep_def wf_length edge_set_iff dest: wf_bit_lt)

lemma rows_rep_edge_set:
  assumes "rows_rep n rs E" "\<And>u. {u} \<notin> E" "\<And>e. e \<in> E \<Longrightarrow> \<exists>u v. e = {u, v} \<and> u < n \<and> v < n"
  shows "edge_set \<lparr>order = n, rows = rs\<rparr> = E"
proof (intro set_eqI iffI)
  fix e assume "e \<in> edge_set \<lparr>order = n, rows = rs\<rparr>"
  then show "e \<in> E"
    by (elim edge_set_elim) (simp add: rows_rep_bit [OF assms(1)])
next
  fix e assume e: "e \<in> E"
  then obtain u v where "e = {u, v}" "u < n" "v < n" using assms(3) by blast
  with e show "e \<in> edge_set \<lparr>order = n, rows = rs\<rparr>"
    using rows_rep_wf [OF assms(1,2)] by (simp add: edge_set_iff rows_rep_bit [OF assms(1)])
qed

lemma rows_rep_unique: "rows_rep n rs E \<Longrightarrow> rows_rep n rs' E \<Longrightarrow> rs = rs'"
  by (intro nth_equalityI bit_eqI) (auto simp: rows_rep_def)

lemma graph_eqI:
  assumes "wf_graph g" "wf_graph h" "order g = order h" "edge_set g = edge_set h"
  shows "g = h"
  using rows_rep_unique [OF wf_rows_rep [OF assms(1)]] wf_rows_rep [OF assms(2)] assms(3,4)
  by (simp add: bitgraph.equality)

lemma rows_rep_empty: "rows_rep n (replicate n 0) {}"
  by (simp add: rows_rep_def)

lemma rows_rep_add:
  assumes "rows_rep n rs E" "u < n" "v < n" "u \<noteq> v"
  shows "rows_rep n (rs[u := rs ! u OR shl1 v, v := rs ! v OR shl1 u]) (insert {u, v} E)"
  using assms by (auto simp: rows_rep_def nth_list_update doubleton_eq_iff)

lemma rows_rep_remove:
  assumes "rows_rep n rs E" "u < n" "v < n" "u \<noteq> v"
  shows "rows_rep n (rs[u := rs ! u AND NOT (shl1 v), v := rs ! v AND NOT (shl1 u)])
           (E - {{u, v}})"
  using assms by (auto simp: rows_rep_def nth_list_update doubleton_eq_iff)

subsection \<open>Adding edges one by one\<close>

definition valid_pair :: "nat \<Rightarrow> int \<times> int \<Rightarrow> bool" where
  "valid_pair n e \<longleftrightarrow>
     0 \<le> fst e \<and> fst e < int n \<and> 0 \<le> snd e \<and> snd e < int n \<and> fst e \<noteq> snd e"

lemma valid_pair_endpoints:
  "valid_pair n e \<Longrightarrow> \<exists>u v. endpoints e = {u, v} \<and> u < n \<and> v < n \<and> u \<noteq> v"
  unfolding valid_pair_def endpoints_def
  by (rule exI [of _ "nat (fst e)"], rule exI [of _ "nat (snd e)"]) auto

lemma from_edges_step_Inr:
  assumes "rows_rep n rs E"
  shows "from_edges_step (int n) e rs = Inr rs' \<longleftrightarrow>
    valid_pair n e \<and> endpoints e \<notin> E \<and>
    rs' = (let u = nat (fst e); v = nat (snd e)
           in rs[u := rs ! u OR shl1 v, v := rs ! v OR shl1 u])"
  using assms
  by (cases e)
    (auto simp: from_edges_step_def valid_pair_def endpoints_def Let_def nth_list_update
      rows_rep_bit nat_less_iff split: if_splits)

lemma from_edges_step_rep:
  assumes "rows_rep n rs E" "from_edges_step (int n) e rs = Inr rs'"
  shows "rows_rep n rs' (insert (endpoints e) E)"
  using assms rows_rep_add [OF assms(1), of "nat (fst e)" "nat (snd e)"]
  by (auto simp: from_edges_step_Inr valid_pair_def endpoints_def Let_def nat_less_iff)

lemma from_edges_fold_rep:
  "rows_rep n rs E \<Longrightarrow> fold_result (from_edges_step (int n)) es rs = Inr rs' \<Longrightarrow>
   rows_rep n rs' (E \<union> endpoints ` set es)"
proof (induction es arbitrary: rs E)
  case (Cons e es)
  then obtain rs1 where rs1: "from_edges_step (int n) e rs = Inr rs1"
    and rest: "fold_result (from_edges_step (int n)) es rs1 = Inr rs'"
    by (auto simp: rbind_Inr_iff)
  from Cons.IH [OF from_edges_step_rep [OF Cons.prems(1) rs1] rest]
  show ?case by simp
qed simp

lemma from_edges_fold_ok:
  "rows_rep n rs E \<Longrightarrow> is_ok (fold_result (from_edges_step (int n)) es rs) \<longleftrightarrow>
   (\<forall>e\<in>set es. valid_pair n e) \<and> distinct (map endpoints es) \<and> endpoints ` set es \<inter> E = {}"
proof (induction es arbitrary: rs E)
  case (Cons e es)
  show ?case
  proof (cases "from_edges_step (int n) e rs")
    case (Inl err)
    then have "\<not> (valid_pair n e \<and> endpoints e \<notin> E)"
      using from_edges_step_Inr [OF Cons.prems] by (metis Inl_Inr_False)
    with Inl show ?thesis by auto
  next
    case (Inr rs1)
    with Cons.IH [OF from_edges_step_rep [OF Cons.prems Inr]]
      from_edges_step_Inr [OF Cons.prems, of e rs1]
    show ?thesis by auto
  qed
qed simp

text \<open>
  A graph built from rows that represent a loop-free edge set on the vertices below \<open>n\<close>.
\<close>

lemma BitGraph_rep:
  assumes "rows_rep n rs E" "\<And>e. e \<in> E \<Longrightarrow> \<exists>u v. e = {u, v} \<and> u < n \<and> v < n \<and> u \<noteq> v"
  shows "\<exists>g. BitGraph (int n) rs = Inr g \<and> wf_graph g \<and> order g = n \<and> edge_set g = E"
proof -
  have loop: "{u} \<notin> E" for u using assms(2) [of "{u}"] by auto
  from rows_rep_wf [OF assms(1) loop] have "wf_graph \<lparr>order = n, rows = rs\<rparr>" .
  moreover have "edge_set \<lparr>order = n, rows = rs\<rparr> = E"
    by (rule rows_rep_edge_set [OF assms(1) loop]) (use assms(2) in blast)
  ultimately show ?thesis by (auto simp: BitGraph_Inr)
qed

lemma from_edges_Inr:
  assumes "from_edges (int n) es = Inr g"
  shows "wf_graph g" "order g = n" "edge_set g = endpoints ` set es"
    "\<forall>e\<in>set es. valid_pair n e" "distinct (map endpoints es)"
proof -
  from assms obtain rs where rs: "fold_result (from_edges_step (int n)) es (replicate n 0) = Inr rs"
    and g: "BitGraph (int n) rs = Inr g"
    by (auto simp: from_edges_def rbind_Inr_iff)
  have ok: "is_ok (fold_result (from_edges_step (int n)) es (replicate n 0))"
    by (simp add: rs)
  then show v: "\<forall>e\<in>set es. valid_pair n e" "distinct (map endpoints es)"
    using from_edges_fold_ok [OF rows_rep_empty] by auto
  have "rows_rep n rs (endpoints ` set es)"
    using from_edges_fold_rep [OF rows_rep_empty rs] by simp
  from BitGraph_rep [OF this] g v(1) valid_pair_endpoints
  show "wf_graph g" "order g = n" "edge_set g = endpoints ` set es"
    by (metis (no_types, lifting) Inr_inject imageE)+
qed

lemma from_edges_ok:
  "is_ok (from_edges (int n) es) \<longleftrightarrow> (\<forall>e\<in>set es. valid_pair n e) \<and> distinct (map endpoints es)"
proof
  assume "is_ok (from_edges (int n) es)"
  then obtain g where "from_edges (int n) es = Inr g" by (auto simp: is_ok_iff)
  from from_edges_Inr(4,5) [OF this]
  show "(\<forall>e\<in>set es. valid_pair n e) \<and> distinct (map endpoints es)" by simp
next
  assume v: "(\<forall>e\<in>set es. valid_pair n e) \<and> distinct (map endpoints es)"
  then obtain rs where rs: "fold_result (from_edges_step (int n)) es (replicate n 0) = Inr rs"
    using from_edges_fold_ok [OF rows_rep_empty] by (force simp: is_ok_iff)
  have "rows_rep n rs (endpoints ` set es)"
    using from_edges_fold_rep [OF rows_rep_empty rs] by simp
  from BitGraph_rep [OF this] v valid_pair_endpoints
  obtain g where "BitGraph (int n) rs = Inr g" by (metis (no_types, lifting) imageE)
  with rs show "is_ok (from_edges (int n) es)" by (simp add: from_edges_def)
qed

subsection \<open>Editing edges\<close>

lemma fold_result_Inr_cong:
  assumes "\<And>x s t. f x s = Inr t \<longleftrightarrow> h x s = Inr t"
  shows "fold_result f xs s = Inr t \<longleftrightarrow> fold_result h xs s = Inr t"
  by (induction xs arbitrary: s) (auto simp: rbind_Inr_iff assms)

lemma add_edge_step_Inr:
  "add_edge_step g e rs = Inr rs' \<longleftrightarrow> from_edges_step (int (order g)) e rs = Inr rs'"
  by (cases e) (auto simp: add_edge_step_def from_edges_step_def split: if_splits)

lemma remove_edge_step_Inr:
  assumes "wf_graph g" "length rs = order g"
  shows "remove_edge_step g e rs = Inr rs' \<longleftrightarrow>
    0 \<le> fst e \<and> 0 \<le> snd e \<and> endpoints e \<in> edge_set g \<and>
    rs' = (let u = nat (fst e); v = nat (snd e)
           in rs[u := rs ! u AND NOT (shl1 v), v := rs ! v AND NOT (shl1 u)])"
proof (cases "0 \<le> fst e \<and> 0 \<le> snd e")
  case False
  then show ?thesis
    by (cases e) (auto simp: remove_edge_step_def has_edge_py_def py_shift1_Inr rbind_Inr_iff
        rbind_if_Inr_iff Let_def)
next
  case True
  then obtain u v where e: "e = (int u, int v)"
    by (metis nonneg_int_cases prod.collapse)
  have "u \<noteq> v" if "{u, v} \<in> edge_set g"
    using that edge_set_no_loop [OF assms(1)] by auto
  then show ?thesis
    using assms wf_bit_lt [of g u v]
    by (auto simp: e remove_edge_step_def has_edge_py_nat rbind_Inr_iff Let_def endpoints_def
        edge_set_iff wf_length nth_list_update split: if_splits)
qed

lemma remove_edge_step_rep:
  assumes "wf_graph g" "rows_rep (order g) rs E" "remove_edge_step g e rs = Inr rs'"
  shows "rows_rep (order g) rs' (E - {endpoints e})"
proof -
  have len: "length rs = order g" using assms(2) by (rule rows_rep_length)
  have r: "endpoints e \<in> edge_set g"
    and rs': "rs' = rs[nat (fst e) := rs ! nat (fst e) AND NOT (shl1 (nat (snd e))),
                       nat (snd e) := rs ! nat (snd e) AND NOT (shl1 (nat (fst e)))]"
    using assms(3) by (auto simp: remove_edge_step_Inr [OF assms(1) len] Let_def)
  have "nat (fst e) < order g" "nat (snd e) < order g" "nat (fst e) \<noteq> nat (snd e)"
    using r wf_bit_irrefl [OF assms(1)]
    by (auto simp: endpoints_def edge_set_iff [OF assms(1)])
  from rows_rep_remove [OF assms(2) this] show ?thesis
    by (simp add: rs' endpoints_def)
qed

lemma remove_fold_rep:
  assumes "wf_graph g"
  shows "rows_rep (order g) rs E \<Longrightarrow> fold_result (remove_edge_step g) es rs = Inr rs' \<Longrightarrow>
    rows_rep (order g) rs' (E - endpoints ` set es) \<and>
    (\<forall>e\<in>set es. 0 \<le> fst e \<and> 0 \<le> snd e \<and> endpoints e \<in> edge_set g)"
proof (induction es arbitrary: rs E)
  case (Cons e es)
  then obtain rs1 where rs1: "remove_edge_step g e rs = Inr rs1"
    and rest: "fold_result (remove_edge_step g) es rs1 = Inr rs'"
    by (auto simp: rbind_Inr_iff)
  have "0 \<le> fst e \<and> 0 \<le> snd e \<and> endpoints e \<in> edge_set g"
    using rs1 remove_edge_step_Inr [OF assms rows_rep_length [OF Cons.prems(1)]] by blast
  moreover have "E - {endpoints e} - endpoints ` set es = E - endpoints ` set (e # es)"
    by auto
  ultimately show ?case
    using Cons.IH [OF remove_edge_step_rep [OF assms Cons.prems(1) rs1] rest] by simp
qed simp

lemma remove_fold_ok:
  assumes "wf_graph g" "\<forall>e\<in>set es. 0 \<le> fst e \<and> 0 \<le> snd e \<and> endpoints e \<in> edge_set g"
  shows "rows_rep (order g) rs E \<Longrightarrow> is_ok (fold_result (remove_edge_step g) es rs)"
  using assms(2)
proof (induction es arbitrary: rs E)
  case (Cons e es)
  obtain rs1 where rs1: "remove_edge_step g e rs = Inr rs1"
    using Cons.prems(2) remove_edge_step_Inr [OF assms(1) rows_rep_length [OF Cons.prems(1)]]
    by simp
  with Cons.IH [OF remove_edge_step_rep [OF assms(1) Cons.prems(1) rs1]] Cons.prems(2)
  show ?case by simp
qed simp

lemma add_fold_Inr:
  "fold_result (add_edge_step g) es rs = Inr rs' \<longleftrightarrow>
   fold_result (from_edges_step (int (order g))) es rs = Inr rs'"
  by (rule fold_result_Inr_cong) (rule add_edge_step_Inr)

lemma edge_set_pairs:
  "wf_graph g \<Longrightarrow> e \<in> edge_set g \<Longrightarrow> \<exists>u v. e = {u, v} \<and> u < order g \<and> v < order g \<and> u \<noteq> v"
  using edge_set_no_loop by (metis edge_set_elim insert_absorb2)

lemma with_edges_Inr:
  assumes "wf_graph g" "with_edges g add remove = Inr h"
  shows "wf_graph h" "order h = order g"
    "edge_set h = (edge_set g - endpoints ` set remove) \<union> endpoints ` set add"
    "\<forall>e\<in>set remove. 0 \<le> fst e \<and> 0 \<le> snd e \<and> endpoints e \<in> edge_set g"
    "\<forall>e\<in>set add. valid_pair (order g) e" "distinct (map endpoints add)"
    "endpoints ` set add \<inter> (edge_set g - endpoints ` set remove) = {}"
proof -
  let ?n = "order g"
  from assms(2) obtain rs1 rs2 where
      r1: "fold_result (remove_edge_step g) remove (rows g) = Inr rs1"
    and r2: "fold_result (from_edges_step (int ?n)) add rs1 = Inr rs2"
    and h: "BitGraph (int ?n) rs2 = Inr h"
    by (auto simp: with_edges_def rbind_Inr_iff add_fold_Inr)
  from remove_fold_rep [OF assms(1) wf_rows_rep [OF assms(1)] r1]
  have rep1: "rows_rep ?n rs1 (edge_set g - endpoints ` set remove)"
    and rem: "\<forall>e\<in>set remove. 0 \<le> fst e \<and> 0 \<le> snd e \<and> endpoints e \<in> edge_set g"
    by auto
  show "\<forall>e\<in>set remove. 0 \<le> fst e \<and> 0 \<le> snd e \<and> endpoints e \<in> edge_set g" by (rule rem)
  have ok: "is_ok (fold_result (from_edges_step (int ?n)) add rs1)" by (simp add: r2)
  then show v: "\<forall>e\<in>set add. valid_pair ?n e" "distinct (map endpoints add)"
      "endpoints ` set add \<inter> (edge_set g - endpoints ` set remove) = {}"
    using from_edges_fold_ok [OF rep1] by auto
  have pairs: "\<exists>u v. e = {u, v} \<and> u < ?n \<and> v < ?n \<and> u \<noteq> v"
    if "e \<in> (edge_set g - endpoints ` set remove) \<union> endpoints ` set add" for e
    using that v(1) valid_pair_endpoints edge_set_pairs [OF assms(1)] by auto
  from BitGraph_rep [OF from_edges_fold_rep [OF rep1 r2] pairs] h
  show "wf_graph h" "order h = ?n"
    "edge_set h = (edge_set g - endpoints ` set remove) \<union> endpoints ` set add"
    by auto
qed

lemma with_edges_ok:
  assumes "wf_graph g"
    and "\<forall>e\<in>set remove. 0 \<le> fst e \<and> 0 \<le> snd e \<and> endpoints e \<in> edge_set g"
    and "\<forall>e\<in>set add. valid_pair (order g) e" "distinct (map endpoints add)"
    and "endpoints ` set add \<inter> (edge_set g - endpoints ` set remove) = {}"
  shows "is_ok (with_edges g add remove)"
proof -
  let ?n = "order g"
  obtain rs1 where r1: "fold_result (remove_edge_step g) remove (rows g) = Inr rs1"
    using remove_fold_ok [OF assms(1,2) wf_rows_rep [OF assms(1)]] by (auto simp: is_ok_iff)
  from remove_fold_rep [OF assms(1) wf_rows_rep [OF assms(1)] r1]
  have rep1: "rows_rep ?n rs1 (edge_set g - endpoints ` set remove)" by auto
  obtain rs2 where r2: "fold_result (from_edges_step (int ?n)) add rs1 = Inr rs2"
    using from_edges_fold_ok [OF rep1, of add] assms(3,4,5) by (auto simp: is_ok_iff)
  have pairs: "\<exists>u v. e = {u, v} \<and> u < ?n \<and> v < ?n \<and> u \<noteq> v"
    if "e \<in> (edge_set g - endpoints ` set remove) \<union> endpoints ` set add" for e
    using that assms(3) valid_pair_endpoints edge_set_pairs [OF assms(1)] by auto
  from BitGraph_rep [OF from_edges_fold_rep [OF rep1 r2] pairs]
  obtain h where "BitGraph (int ?n) rs2 = Inr h" by auto
  moreover have "fold_result (add_edge_step g) add rs1 = Inr rs2"
    by (simp add: add_fold_Inr r2)
  ultimately show ?thesis by (simp add: with_edges_def r1)
qed

subsection \<open>Enumerating edges, counting degrees\<close>

lemma set_neighbors:
  "wf_graph g \<Longrightarrow> u < order g \<Longrightarrow> set (neighbors g u) = {v. v < order g \<and> has_edge g u v}"
  using wf_rows_range [of g u] wf_bit_lt [of g u] by (auto simp: neighbors_def)

lemma degree_card:
  "wf_graph g \<Longrightarrow> u < order g \<Longrightarrow> degree g u = card {v. v < order g \<and> has_edge g u v}"
  using wf_rows_range [of g u] wf_bit_lt [of g u]
  by (auto simp: degree_def bit_count_card intro: arg_cong [where f = card])

lemma set_edges:
  assumes "wf_graph g"
  shows "set (edges g) = {(u, v). u < v \<and> v < order g \<and> has_edge g u v}"
proof -
  have row: "set (low_bits (rows g ! u AND NOT (shl1 (Suc u) - 1))) = {v. u < v \<and> has_edge g u v}"
    if "u < order g" for u
    using wf_rows_range [OF assms that] by (subst set_low_bits) auto
  have "set (edges g) = (\<Union>u<order g. Pair u ` {v. u < v \<and> has_edge g u v})"
    unfolding edges_def by (simp add: row atLeast0LessThan del: set_low_bits)
  also have "\<dots> = {(u, v). u < v \<and> v < order g \<and> has_edge g u v}"
  proof (intro set_eqI iffI)
    fix e assume "e \<in> {(u, v). u < v \<and> v < order g \<and> has_edge g u v}"
    then obtain u v where "e = (u, v)" "u < v" "v < order g" "has_edge g u v" by auto
    then show "e \<in> (\<Union>u<order g. Pair u ` {v. u < v \<and> has_edge g u v})"
      by (intro UN_I [of u] image_eqI [of _ _ v]) auto
  qed (auto dest: wf_bit_lt [OF assms])
  finally show ?thesis .
qed

lemma distinct_edges: "distinct (edges g)"
  unfolding edges_def
  by (rule distinct_concat_pairs) simp_all

lemma endpoints_int_edge [simp]: "endpoints (int_edge (u, v)) = {u, v}"
  by (simp add: endpoints_def int_edge_def)

lemma edge_set_edges: "wf_graph g \<Longrightarrow> edge_set g = endpoints ` int_edge ` set (edges g)"
proof (intro set_eqI iffI)
  fix e assume g: "wf_graph g" and "e \<in> edge_set g"
  then obtain u v where e: "e = {u, v}" "u < order g" "v < order g" "bit (rows g ! u) v" "u \<noteq> v"
    by (metis edge_set_pairs edge_set_iff)
  show "e \<in> endpoints ` int_edge ` set (edges g)"
  proof (cases "u < v")
    case True
    then show ?thesis
      using e by (intro image_eqI [of _ _ "int_edge (u, v)"]) (auto simp: set_edges [OF g])
  next
    case False
    then show ?thesis
      using e wf_bit_sym [OF g e(2,3)]
      by (intro image_eqI [of _ _ "int_edge (v, u)"]) (auto simp: set_edges [OF g])
  qed
next
  fix e assume g: "wf_graph g" and "e \<in> endpoints ` int_edge ` set (edges g)"
  then show "e \<in> edge_set g" by (auto simp: set_edges [OF g] edge_set_iff)
qed

lemma inj_on_endpoints_edges: "wf_graph g \<Longrightarrow> inj_on (\<lambda>e. endpoints (int_edge e)) (set (edges g))"
  by (auto simp: inj_on_def set_edges doubleton_eq_iff)

lemma from_edges_of_graph:
  assumes "wf_graph g" "distinct es" "set es = set (edges g)"
  shows "from_edges (int (order g)) (map int_edge es) = Inr g"
proof -
  have "\<forall>e\<in>set (map int_edge es). valid_pair (order g) e"
    by (auto simp: assms(3) set_edges [OF assms(1)] valid_pair_def int_edge_def)
  moreover have "distinct (map endpoints (map int_edge es))"
    using inj_on_endpoints_edges [OF assms(1)] assms(2,3)
    by (simp add: distinct_map comp_def)
  ultimately have "is_ok (from_edges (int (order g)) (map int_edge es))"
    using from_edges_ok [of "order g" "map int_edge es"] by blast
  then obtain h where h: "from_edges (int (order g)) (map int_edge es) = Inr h"
    unfolding is_ok_iff ..
  have "h = g"
    using from_edges_Inr(1,2,3) [OF h] assms(1,3) edge_set_edges [OF assms(1)]
    by (intro graph_eqI) auto
  with h show ?thesis by simp
qed

lemma edges_from_edges:
  "wf_graph g \<Longrightarrow> from_edges (int (order g)) (map int_edge (edges g)) = Inr g"
  by (rule from_edges_of_graph [OF _ distinct_edges refl])

lemma finite_arcs: "finite (arcs g)"
  by (rule finite_subset [of _ "{..<order g} \<times> {..<order g}"]) (auto simp: arcs_def)

lemma card_arcs: "wf_graph g \<Longrightarrow> card (arcs g) = sum_list (map bit_count (rows g))"
proof -
  assume g: "wf_graph g"
  have "arcs g = (SIGMA u:{..<order g}. {v. v < order g \<and> has_edge g u v})"
    by (auto simp: arcs_def)
  then have "card (arcs g) = (\<Sum>u<order g. card {v. v < order g \<and> has_edge g u v})"
    by simp
  also have "\<dots> = (\<Sum>u<order g. bit_count (rows g ! u))"
    using degree_card [OF g] by (intro sum.cong) (auto simp: degree_def)
  also have "\<dots> = sum_list (map bit_count (rows g))"
    using wf_length [OF g] by (simp add: sum_list_sum_nth atLeast0LessThan)
  finally show ?thesis .
qed

lemma handshake:
  assumes g: "wf_graph g"
  shows "sum_list (degree_sequence g) = 2 * length (edges g)"
    and "graph_size g = length (edges g)"
proof -
  let ?E = "set (edges g)"
  have split: "arcs g = ?E \<union> prod.swap ` ?E"
    using wf_bit_sym [OF g] wf_bit_irrefl [OF g]
    by (auto simp: arcs_def set_edges [OF g] image_iff) (metis linorder_neqE_nat)
  have "?E \<inter> prod.swap ` ?E = {}" by (auto simp: set_edges [OF g])
  moreover have "card (prod.swap ` ?E) = card ?E"
    by (intro card_image) (auto simp: inj_on_def)
  ultimately have "card (arcs g) = 2 * card ?E"
    unfolding split by (subst card_Un_disjoint) auto
  then have *: "sum_list (map bit_count (rows g)) = 2 * length (edges g)"
    by (simp add: card_arcs [OF g] distinct_card distinct_edges)
  then show "sum_list (degree_sequence g) = 2 * length (edges g)"
    and "graph_size g = length (edges g)"
    by (simp_all add: degree_sequence_def graph_size_def)
qed

lemma minimum_degree_ge:
  assumes "wf_graph g" "0 < order g"
  shows "k \<le> minimum_degree g \<longleftrightarrow> (\<forall>u<order g. k \<le> degree g u)"
proof -
  from assms have "rows g \<noteq> []" by (auto simp: wf_graph_def)
  then have "minimum_degree g = Min (set (map bit_count (rows g)))"
    by (simp add: minimum_degree_def min_list_Min)
  with \<open>rows g \<noteq> []\<close> show ?thesis
    using wf_length [OF assms(1)] by (simp add: degree_def all_set_conv_all_nth)
qed

subsection \<open>Connectedness\<close>

lemma bfs_absorb_eq:
  "\<exists>seen'. bfs_absorb unseen (seen, queue) = (seen', queue @ low_bits unseen) \<and>
     (\<forall>i. bit seen' i \<longleftrightarrow> bit seen i \<or> i \<in> set (low_bits unseen)) \<and> (0 \<le> seen \<longrightarrow> 0 \<le> seen')"
proof -
  have "\<exists>seen'. fold (\<lambda>v (seen, queue). (seen OR shl1 v, queue @ [v])) vs (seen, queue)
          = (seen', queue @ vs) \<and>
     (\<forall>i. bit seen' i \<longleftrightarrow> bit seen i \<or> i \<in> set vs) \<and> (0 \<le> seen \<longrightarrow> 0 \<le> seen')" for vs
  proof (induction vs arbitrary: seen queue)
    case (Cons v vs)
    from Cons.IH [of "seen OR shl1 v" "queue @ [v]"] show ?case
      by (auto simp: or_nonnegative_int_iff)
  qed simp
  then show ?thesis unfolding bfs_absorb_def .
qed

definition bfs_inv :: "bitgraph \<Rightarrow> int \<Rightarrow> nat list \<Rightarrow> bool" where
  "bfs_inv g seen queue \<longleftrightarrow>
     0 \<le> seen \<and> bit seen 0 \<and>
     (\<forall>i. bit seen i \<longrightarrow> i < order g \<and> (0, i) \<in> (arcs g)\<^sup>*) \<and>
     (\<forall>i\<in>set queue. bit seen i) \<and>
     (\<forall>u v. bit seen u \<and> u \<notin> set queue \<and> (u, v) \<in> arcs g \<longrightarrow> bit seen v)"

lemma bfs_step_inv:
  assumes g: "wf_graph g" and inv: "bfs_inv g seen (u # queue)"
    and step: "bfs_absorb (rows g ! u AND NOT seen) (seen, queue) = (seen', queue')"
  shows "bfs_inv g seen' queue'"
    and "2 * (order g - card {i. bit seen' i}) + length queue' <
         2 * (order g - card {i. bit seen i}) + length (u # queue)"
proof -
  let ?new = "rows g ! u AND NOT seen"
  have seen: "0 \<le> seen" "bit seen u" "u < order g" "(0, u) \<in> (arcs g)\<^sup>*"
    using inv by (auto simp: bfs_inv_def)
  have "0 \<le> ?new" using wf_rows_range [OF g seen(3)] by simp
  then have new: "set (low_bits ?new) = {v. (u, v) \<in> arcs g \<and> \<not> bit seen v}"
    using wf_bit_lt [OF g seen(3)] seen(3) by (auto simp: arcs_def bit_and_iff bit_not_iff)
  have q': "queue' = queue @ low_bits ?new" and pos: "0 \<le> seen'"
    and all: "\<forall>i. bit seen' i \<longleftrightarrow> bit seen i \<or> (u, i) \<in> arcs g"
    using bfs_absorb_eq [of ?new seen queue] step seen(1)
    by (auto simp: new simp del: set_low_bits)
  have s': "bit seen' i \<longleftrightarrow> bit seen i \<or> (u, i) \<in> arcs g" for i
    using all by blast
  have inv':
    "bit seen 0" "\<And>i. bit seen i \<Longrightarrow> i < order g \<and> (0, i) \<in> (arcs g)\<^sup>*"
    "\<And>i. i \<in> set queue \<Longrightarrow> bit seen i"
    "\<And>v w. bit seen v \<Longrightarrow> v \<noteq> u \<Longrightarrow> v \<notin> set queue \<Longrightarrow> (v, w) \<in> arcs g \<Longrightarrow> bit seen w"
    using inv by (simp_all add: bfs_inv_def)
  have uarc: "i < order g \<and> (0, i) \<in> (arcs g)\<^sup>*" if "(u, i) \<in> arcs g" for i
    using that seen(4) by (auto simp: arcs_def intro: rtrancl_into_rtrancl)
  have closed: "bit seen' w" if "bit seen' v" "v \<notin> set queue'" "(v, w) \<in> arcs g" for v w
  proof (cases "v = u")
    case False
    have "bit seen v" "v \<notin> set queue"
      using that(1,2) new by (auto simp: s' q' simp del: set_low_bits)
    with inv'(4) False that(3) show ?thesis by (simp add: s')
  qed (use that in \<open>simp add: s'\<close>)
  have qsub: "bit seen' i" if "i \<in> set queue'" for i
    using that inv'(3) new by (auto simp: s' q' simp del: set_low_bits)
  show "bfs_inv g seen' queue'"
    unfolding bfs_inv_def using pos inv'(1,2) uarc closed qsub by (simp add: s') blast
  have sub: "{i. bit seen' i} \<subseteq> {..<order g}"
    using inv'(2) uarc by (auto simp: s')
  have "{i. bit seen' i} = {i. bit seen i} \<union> set (low_bits ?new)"
    using new by (auto simp: s' simp del: set_low_bits)
  moreover have "{i. bit seen i} \<inter> set (low_bits ?new) = {}" using new by auto
  ultimately have "card {i. bit seen' i} = card {i. bit seen i} + length (low_bits ?new)"
    using finite_bits [OF seen(1)] by (simp add: card_Un_disjoint distinct_card del: set_low_bits)
  moreover have "card {i. bit seen' i} \<le> order g"
    using card_mono [OF _ sub] by simp
  ultimately show "2 * (order g - card {i. bit seen' i}) + length queue' <
      2 * (order g - card {i. bit seen i}) + length (u # queue)"
    by (simp add: q')
qed

lemma bfs_loop_Nil: "bfs_loop rs (seen, []) = Some seen"
  by (subst bfs_loop.simps) simp

lemma bfs_loop_Cons:
  "bfs_loop rs (seen, u # queue) = bfs_loop rs (bfs_absorb (rs ! u AND NOT seen) (seen, queue))"
  by (subst bfs_loop.simps) simp

lemma bfs_loop_returns:
  assumes g: "wf_graph g"
  shows "bfs_inv g seen queue \<Longrightarrow>
    \<exists>final. bfs_loop (rows g) (seen, queue) = Some final \<and> bfs_inv g final []"
proof (induction "2 * (order g - card {i. bit seen i}) + length queue"
    arbitrary: seen queue rule: less_induct)
  case less
  show ?case
  proof (cases queue)
    case Nil
    with less.prems show ?thesis by (simp add: bfs_loop_Nil)
  next
    case (Cons u us)
    obtain seen' queue' where st: "bfs_absorb (rows g ! u AND NOT seen) (seen, us) = (seen', queue')"
      by fastforce
    have "\<exists>final. bfs_loop (rows g) (seen', queue') = Some final \<and> bfs_inv g final []"
      using bfs_step_inv [OF g _ st] less Cons by auto
    with Cons st show ?thesis by (simp add: bfs_loop_Cons)
  qed
qed

lemma arcs_sym: "wf_graph g \<Longrightarrow> (u, v) \<in> arcs g \<Longrightarrow> (v, u) \<in> arcs g"
  by (auto simp: arcs_def wf_bit_sym)

lemma arcs_rtrancl_sym: "wf_graph g \<Longrightarrow> (u, v) \<in> (arcs g)\<^sup>* \<Longrightarrow> (v, u) \<in> (arcs g)\<^sup>*"
  using sym_rtrancl [of "arcs g"] by (auto simp: sym_def dest: arcs_sym)

lemma bfs_reaches:
  assumes "bfs_inv g final []" "(0, v) \<in> (arcs g)\<^sup>*"
  shows "bit final v"
  using assms(2)
proof induction
  case base
  then show ?case using assms(1) by (simp add: bfs_inv_def)
next
  case (step v w)
  then show ?case using assms(1) unfolding bfs_inv_def by (metis empty_iff empty_set)
qed

lemma bfs_loop_total:
  assumes "wf_graph g" "0 < order g"
  shows "\<exists>final. bfs_loop (rows g) (1, [0]) = Some final \<and>
    0 \<le> final \<and> (\<forall>v. bit final v \<longleftrightarrow> v < order g \<and> (0, v) \<in> (arcs g)\<^sup>*)"
proof -
  have "bfs_inv g 1 [0]"
    using assms(2) by (auto simp: bfs_inv_def bit_1_iff)
  from bfs_loop_returns [OF assms(1) this]
  obtain final where f: "bfs_loop (rows g) (1, [0]) = Some final" "bfs_inv g final []" by blast
  have all: "\<forall>v. bit final v \<longleftrightarrow> v < order g \<and> (0, v) \<in> (arcs g)\<^sup>*"
    using f(2) bfs_reaches [OF f(2)] unfolding bfs_inv_def by blast
  have "0 \<le> final" using f(2) unfolding bfs_inv_def by (elim conjE)
  with f(1) all show ?thesis by (intro exI [of _ final] conjI)
qed

lemma is_connected_iff:
  assumes g: "wf_graph g"
  shows "is_connected g \<longleftrightarrow> connected_graph g"
proof (cases "order g = 0")
  case True
  then show ?thesis by (simp add: is_connected_def connected_graph_def)
next
  case False
  then have pos: "0 < order g" by simp
  from bfs_loop_total [OF g pos] obtain final where
    f: "bfs_loop (rows g) (1, [0]) = Some final" "0 \<le> final"
    and all: "\<forall>v. bit final v \<longleftrightarrow> v < order g \<and> (0, v) \<in> (arcs g)\<^sup>*"
    by (elim exE conjE)
  have R: "{v. bit final v} = {v. v < order g \<and> (0, v) \<in> (arcs g)\<^sup>*}"
    using all by simp
  let ?R = "{v. v < order g \<and> (0, v) \<in> (arcs g)\<^sup>*}"
  have "is_connected g \<longleftrightarrow> card ?R = card {..<order g}"
    using False by (simp add: is_connected_def f bit_count_card R)
  also have "\<dots> \<longleftrightarrow> ?R = {..<order g}"
  proof
    assume "card ?R = card {..<order g}"
    then show "?R = {..<order g}" by (intro card_subset_eq) auto
  qed simp
  also have "\<dots> \<longleftrightarrow> connected_graph g"
    using False unfolding connected_graph_def
    by (auto dest: arcs_rtrancl_sym [OF g] intro: rtrancl_trans)
  finally show ?thesis .
qed

section \<open>Properties\<close>

text \<open>A concrete instance for the witnesses: the complete graph on four vertices.\<close>

definition k4 :: bitgraph where
  "k4 = \<lparr>order = 4, rows = [14, 13, 11, 7]\<rparr>"

lemma wf_k4: "wf_graph k4"
proof -
  have "BitGraph 4 [14, 13, 11, 7] = Inr k4" by code_simp
  then show ?thesis by (simp add: BitGraph_Inr)
qed

text \<open>
  C39. The constructor's validation is exact: \<open>BitGraph(n, rows)\<close> returns an instance if and
  only if \<open>n\<close> is non-negative and the rows form a simple undirected graph on \<open>n\<close> vertices (one
  row per vertex, no bit out of range, no loop, symmetric), and the instance then holds
  exactly these rows.
\<close>

theorem BitGraph_validation_exact:
  "BitGraph n rs = Inr g \<longleftrightarrow>
   0 \<le> n \<and> g = \<lparr>order = nat n, rows = rs\<rparr> \<and> wf_graph g"
  by (rule BitGraph_Inr)

lemma from_edges_exact:
  "from_edges (int n) es = Inr g \<longleftrightarrow>
   (\<forall>e\<in>set es. valid_pair n e) \<and> distinct (map endpoints es) \<and>
   wf_graph g \<and> order g = n \<and> edge_set g = endpoints ` set es" (is "?l \<longleftrightarrow> ?r")
proof
  assume ?l
  from from_edges_Inr [OF this] show ?r by blast
next
  assume r: ?r
  then obtain h where h: "from_edges (int n) es = Inr h"
    using from_edges_ok [of n es] by (auto simp: is_ok_iff)
  have "h = g" using from_edges_Inr(1,2,3) [OF h] r by (intro graph_eqI) auto
  with h show ?l by simp
qed

lemma with_edges_exact:
  assumes "wf_graph g"
  shows "with_edges g add remove = Inr h \<longleftrightarrow>
    (\<forall>e\<in>set remove. 0 \<le> fst e \<and> 0 \<le> snd e \<and> endpoints e \<in> edge_set g) \<and>
    (\<forall>e\<in>set add. valid_pair (order g) e) \<and> distinct (map endpoints add) \<and>
    endpoints ` set add \<inter> (edge_set g - endpoints ` set remove) = {} \<and>
    wf_graph h \<and> order h = order g \<and>
    edge_set h = (edge_set g - endpoints ` set remove) \<union> endpoints ` set add" (is "?l \<longleftrightarrow> ?r")
proof
  assume ?l
  from with_edges_Inr [OF assms this] show ?r by blast
next
  assume r: ?r
  then have "is_ok (with_edges g add remove)" by (intro with_edges_ok [OF assms]) auto
  then obtain k where k: "with_edges g add remove = Inr k" by (auto simp: is_ok_iff)
  have "k = h" using with_edges_Inr(1,2,3) [OF assms k] r by (intro graph_eqI) auto
  with k show ?l by simp
qed

lemma edges_round_trip:
  assumes "wf_graph g"
  shows "from_edges (int (order g)) (map int_edge (edges g)) = Inr g \<and> distinct (edges g) \<and>
    graph_size g = card (edge_set g) \<and> sum_list (degree_sequence g) = 2 * graph_size g"
proof -
  have "edge_set g = (\<lambda>e. endpoints (int_edge e)) ` set (edges g)"
    by (simp add: edge_set_edges [OF assms] image_image)
  then have "card (edge_set g) = length (edges g)"
    using card_image [OF inj_on_endpoints_edges [OF assms]] distinct_edges
    by (simp add: distinct_card)
  then show ?thesis
    using edges_from_edges [OF assms] distinct_edges handshake [OF assms] by simp
qed

lemma is_connected_decides:
  assumes "wf_graph g"
  shows "(0 < order g \<longrightarrow> bfs_loop (rows g) (1, [0]) \<noteq> None) \<and>
    (is_connected g \<longleftrightarrow> (\<forall>u<order g. \<forall>v<order g. (u, v) \<in> (arcs g)\<^sup>*))"
  using is_connected_iff [OF assms] bfs_loop_total [OF assms]
  unfolding connected_graph_def by blast

end
