(* ===== verification/Cycle_Search.thy ===== *)
theory Cycle_Search
  imports Bit_Graph "HOL-Library.Sublist"
begin

text \<open>
  The exact cycle searches of \<open>src/src/sglab/model.py\<close>: \<open>find_cycle_of_length\<close> (the slow
  reference depth-first search) and \<open>find_cycles_of_length_bounded_profiled\<close> (enumeration
  under a witness limit and a node budget).

  The specification is \<open>is_cycle\<close>, a simple cycle given as the list of its vertices, and
  \<open>rooted_cycle\<close>, a cycle listed from its smallest vertex.  Both searches are related to one
  reference enumeration, \<open>cycle_exts\<close>, the list of all rooted cycles extending a path in
  search order: the first search returns its head, the second a prefix of the part that
  satisfies the orientation test.  Soundness and completeness of the searches are then
  facts about \<open>cycle_exts\<close>.
\<close>

unbundle bit_operations_syntax

section \<open>Reference depth-first search\<close>

text \<open>The neighbours of the last vertex that are unvisited and larger than the start vertex.\<close>

definition next_vertices :: "bitgraph \<Rightarrow> nat \<Rightarrow> nat \<Rightarrow> int \<Rightarrow> nat list" where
  "next_vertices g start lst visited =
     low_bits ((rows g ! lst AND NOT visited) AND NOT (shl1 (start + 1) - 1))"

text \<open>
  The inner function \<open>dfs\<close>, its \<open>while bits\<close> loop with early return being \<open>first_some\<close>.
  The path never grows beyond the requested length, so the branch for a longer path is not
  reached; it is there to make the recursion well-founded.  Lengths are naturals: a
  negative length takes the same first branch as any length below 3.
\<close>

function dfs_cycle :: "bitgraph \<Rightarrow> nat \<Rightarrow> nat \<Rightarrow> nat \<Rightarrow> nat list \<Rightarrow> int \<Rightarrow> nat list option" where
  "dfs_cycle g len start lst path visited =
     (if length path = len then (if has_edge g lst start then Some path else None)
      else if len < length path then None
      else first_some (\<lambda>nxt. dfs_cycle g len start nxt (path @ [nxt]) (visited OR shl1 nxt))
             (next_vertices g start lst visited))"
  by pat_completeness auto
termination
  by (relation "measure (\<lambda>(g, len, start, lst, path, visited). Suc len - length path)") auto

declare dfs_cycle.simps [simp del]

definition find_cycle_of_length :: "bitgraph \<Rightarrow> nat \<Rightarrow> nat list option" where
  "find_cycle_of_length g len =
     (if len < 3 \<or> order g < len then None
      else first_some (\<lambda>start. dfs_cycle g len start start [start] (shl1 start)) [0..<order g])"

section \<open>Bounded enumeration\<close>

record cycle_search =
  found :: "nat list list"
  visited_nodes :: nat
  budget_exhausted :: bool

definition searching :: "nat \<Rightarrow> cycle_search \<Rightarrow> bool" where
  "searching limit st \<longleftrightarrow> length (found st) < limit \<and> \<not> budget_exhausted st"

function dfs_bounded ::
  "bitgraph \<Rightarrow> nat \<Rightarrow> nat \<Rightarrow> nat option \<Rightarrow> nat \<Rightarrow> nat \<Rightarrow> nat list \<Rightarrow> int \<Rightarrow>
   cycle_search \<Rightarrow> cycle_search" where
  "dfs_bounded g len limit node_budget start lst path seen st =
     (if limit \<le> length (found st) \<or> budget_exhausted st then st
      else
        let st1 = st\<lparr>visited_nodes := visited_nodes st + 1\<rparr> in
        if (case node_budget of None \<Rightarrow> False | Some b \<Rightarrow> b < visited_nodes st1)
        then st1\<lparr>budget_exhausted := True\<rparr>
        else if length path = len
        then (if has_edge g lst start \<and> path ! 1 < last path
              then st1\<lparr>found := found st1 @ [path]\<rparr> else st1)
        else if len < length path then st1
        else fold_while (searching limit)
               (\<lambda>v. dfs_bounded g len limit node_budget start v (path @ [v]) (seen OR shl1 v))
               (next_vertices g start lst seen) st1)"
  by pat_completeness auto
termination
  by (relation "measure (\<lambda>(g, len, limit, node_budget, start, lst, path, seen, st).
        Suc len - length path)") auto

declare dfs_bounded.simps [simp del]

definition find_cycles_of_length_bounded_profiled ::
  "bitgraph \<Rightarrow> nat \<Rightarrow> nat \<Rightarrow> nat option \<Rightarrow> (nat list list \<times> bool \<times> nat) result" where
  "find_cycles_of_length_bounded_profiled g len limit node_budget =
     (if limit = 0 \<or> len < 3 \<or> order g < len then Inr ([], True, 0)
      else if node_budget = Some 0 then Inl (ValueError ''node_budget must be positive'')
      else
        let st = fold_while (searching limit)
                   (\<lambda>start. dfs_bounded g len limit node_budget start start [start] (shl1 start))
                   [0..<order g]
                   \<lparr>found = [], visited_nodes = 0, budget_exhausted = False\<rparr>
        in Inr (found st, \<not> budget_exhausted st \<and> length (found st) < limit, visited_nodes st))"

definition find_cycles_of_length_bounded ::
  "bitgraph \<Rightarrow> nat \<Rightarrow> nat \<Rightarrow> nat option \<Rightarrow> (nat list list \<times> bool) result" where
  "find_cycles_of_length_bounded g len limit node_budget =
     rbind (find_cycles_of_length_bounded_profiled g len limit node_budget)
       (\<lambda>(fs, exhaustive, _). Inr (fs, exhaustive))"

definition find_cycles_of_length :: "bitgraph \<Rightarrow> nat \<Rightarrow> nat \<Rightarrow> nat list list result" where
  "find_cycles_of_length g len limit =
     rbind (find_cycles_of_length_bounded g len limit None) (\<lambda>(fs, _). Inr fs)"

section \<open>Specification\<close>

definition is_cycle :: "bitgraph \<Rightarrow> nat list \<Rightarrow> bool" where
  "is_cycle g c \<longleftrightarrow>
     3 \<le> length c \<and> distinct c \<and> set c \<subseteq> {..<order g} \<and>
     successively (has_edge g) c \<and> has_edge g (last c) (hd c)"

definition has_cycle_of_length :: "bitgraph \<Rightarrow> nat \<Rightarrow> bool" where
  "has_cycle_of_length g len \<longleftrightarrow> (\<exists>c. is_cycle g c \<and> length c = len)"

definition rooted_cycle :: "bitgraph \<Rightarrow> nat \<Rightarrow> nat list \<Rightarrow> bool" where
  "rooted_cycle g start c \<longleftrightarrow> is_cycle g c \<and> hd c = start \<and> (\<forall>v\<in>set (tl c). start < v)"

definition canonical_cycle :: "bitgraph \<Rightarrow> nat list \<Rightarrow> bool" where
  "canonical_cycle g c \<longleftrightarrow> rooted_cycle g (hd c) c \<and> c ! 1 < last c"

text \<open>All rooted cycles that extend a path by \<open>k\<close> further vertices, in search order.\<close>

fun cycle_exts :: "bitgraph \<Rightarrow> nat \<Rightarrow> nat \<Rightarrow> nat list \<Rightarrow> int \<Rightarrow> nat list list" where
  "cycle_exts g start 0 path visited = (if has_edge g (last path) start then [path] else [])"
| "cycle_exts g start (Suc k) path visited =
     concat (map (\<lambda>v. cycle_exts g start k (path @ [v]) (visited OR shl1 v))
       (next_vertices g start (last path) visited))"

definition dfs_inv :: "bitgraph \<Rightarrow> nat \<Rightarrow> nat list \<Rightarrow> int \<Rightarrow> bool" where
  "dfs_inv g start path visited \<longleftrightarrow>
     path \<noteq> [] \<and> hd path = start \<and> distinct path \<and> set path \<subseteq> {..<order g} \<and>
     successively (has_edge g) path \<and> (\<forall>v\<in>set (tl path). start < v) \<and>
     (\<forall>i. bit visited i \<longleftrightarrow> i \<in> set path)"

section \<open>The reference enumeration\<close>

lemma dfs_inv_init: "start < order g \<Longrightarrow> dfs_inv g start [start] (shl1 start)"
  by (simp add: dfs_inv_def)

lemma set_next_vertices:
  assumes "wf_graph g" "dfs_inv g start path visited"
  shows "set (next_vertices g start (last path) visited) =
    {v. v < order g \<and> has_edge g (last path) v \<and> v \<notin> set path \<and> start < v}"
proof -
  have l: "last path < order g"
    using assms(2) last_in_set [of path] by (auto simp: dfs_inv_def)
  have "0 \<le> (rows g ! last path AND NOT visited) AND NOT (shl1 (start + 1) - 1)"
    using wf_rows_range [OF assms(1) l] by simp
  then show ?thesis
    using assms(2) wf_bit_lt [OF assms(1) l] unfolding next_vertices_def
    by (subst set_low_bits) (auto simp: bit_and_iff bit_not_iff dfs_inv_def)
qed

lemma dfs_inv_step:
  assumes "wf_graph g" "dfs_inv g start path visited"
    "v \<in> set (next_vertices g start (last path) visited)"
  shows "dfs_inv g start (path @ [v]) (visited OR shl1 v)"
  using assms(2,3) unfolding set_next_vertices [OF assms(1,2)]
  by (auto simp: dfs_inv_def successively_append_iff tl_append split: list.splits)

lemma cycle_exts_rooted:
  assumes g: "wf_graph g"
  shows "dfs_inv g start path visited \<Longrightarrow> 3 \<le> length path + k \<Longrightarrow>
    set (cycle_exts g start k path visited) =
    {c. rooted_cycle g start c \<and> prefix path c \<and> length c = length path + k}"
proof (induction k arbitrary: path visited)
  case 0
  have "rooted_cycle g start path \<longleftrightarrow> has_edge g (last path) start"
    using 0 by (auto simp: rooted_cycle_def is_cycle_def dfs_inv_def)
  moreover have "prefix path c \<and> length c = length path \<longleftrightarrow> c = path" for c
    by (auto simp: prefix_def)
  ultimately show ?case by auto
next
  case (Suc k)
  let ?N = "next_vertices g start (last path) visited"
  have step: "set (cycle_exts g start k (path @ [v]) (visited OR shl1 v)) =
      {c. rooted_cycle g start c \<and> prefix (path @ [v]) c \<and> length c = length path + Suc k}"
    if "v \<in> set ?N" for v
    using Suc.IH [OF dfs_inv_step [OF g Suc.prems(1) that]] Suc.prems(2) by simp
  have ext: "\<exists>v\<in>set ?N. prefix (path @ [v]) c"
    if c: "rooted_cycle g start c" "prefix path c" "length c = length path + Suc k" for c
  proof -
    obtain v r where c_eq: "c = path @ v # r"
      using c(2,3) by (auto simp: prefix_def) (metis length_0_conv list.exhaust nat.distinct(1))
    have "v \<in> set ?N"
      using c(1) Suc.prems(1) unfolding set_next_vertices [OF g Suc.prems(1)]
      by (auto simp: c_eq rooted_cycle_def is_cycle_def dfs_inv_def successively_append_iff
          tl_append split: list.splits)
    then show ?thesis by (auto simp: c_eq)
  qed
  have "set (cycle_exts g start (Suc k) path visited) =
      (\<Union>v\<in>set ?N. {c. rooted_cycle g start c \<and> prefix (path @ [v]) c \<and>
         length c = length path + Suc k})"
    by (simp add: step)
  also have "\<dots> = {c. rooted_cycle g start c \<and> prefix path c \<and> length c = length path + Suc k}"
    using ext by (auto dest: append_prefixD)
  finally show ?case .
qed

lemma dfs_cycle_exts:
  "len = length path + k \<Longrightarrow> path \<noteq> [] \<Longrightarrow>
   dfs_cycle g len start (last path) path visited =
   (case cycle_exts g start k path visited of [] \<Rightarrow> None | c # _ \<Rightarrow> Some c)"
proof (induction k arbitrary: path visited)
  case 0
  then show ?case by (simp add: dfs_cycle.simps)
next
  case (Suc k)
  have "first_some (\<lambda>v. dfs_cycle g len start v (path @ [v]) (visited OR shl1 v))
      (next_vertices g start (last path) visited) =
    (case cycle_exts g start (Suc k) path visited of [] \<Rightarrow> None | c # _ \<Rightarrow> Some c)"
    unfolding cycle_exts.simps
    by (rule first_some_concat) (use Suc.IH [of "path @ [_]"] Suc.prems in simp)
  then show ?case
    using Suc.prems by (subst dfs_cycle.simps) simp
qed

definition rooted_cycles_from :: "bitgraph \<Rightarrow> nat \<Rightarrow> nat \<Rightarrow> nat list list" where
  "rooted_cycles_from g len start = cycle_exts g start (len - 1) [start] (shl1 start)"

definition rooted_cycles :: "bitgraph \<Rightarrow> nat \<Rightarrow> nat list list" where
  "rooted_cycles g len = concat (map (rooted_cycles_from g len) [0..<order g])"

lemma set_rooted_cycles_from:
  assumes "wf_graph g" "3 \<le> len" "start < order g"
  shows "set (rooted_cycles_from g len start) = {c. rooted_cycle g start c \<and> length c = len}"
proof -
  have "prefix [start] c" if "rooted_cycle g start c" for c
    using that by (cases c) (auto simp: rooted_cycle_def is_cycle_def)
  then show ?thesis
    using cycle_exts_rooted [OF assms(1) dfs_inv_init [OF assms(3)], of "len - 1"] assms(2)
    by (auto simp: rooted_cycles_from_def)
qed

lemma set_rooted_cycles:
  assumes "wf_graph g" "3 \<le> len"
  shows "set (rooted_cycles g len) = {c. rooted_cycle g (hd c) c \<and> length c = len}"
proof -
  have "hd c < order g" if "rooted_cycle g s c" for s c
    using that by (cases c) (auto simp: rooted_cycle_def is_cycle_def)
  then show ?thesis
    using set_rooted_cycles_from [OF assms]
    by (auto simp: rooted_cycles_def) (auto simp: rooted_cycle_def)
qed

lemma find_cycle_of_length_eq:
  "3 \<le> len \<Longrightarrow> len \<le> order g \<Longrightarrow>
   find_cycle_of_length g len = (case rooted_cycles g len of [] \<Rightarrow> None | c # _ \<Rightarrow> Some c)"
  unfolding find_cycle_of_length_def rooted_cycles_def rooted_cycles_from_def
  by (auto intro!: first_some_concat dfs_cycle_exts [where path = "[_]", simplified])

section \<open>Every cycle has a rooted and a canonical listing\<close>

lemma is_cycle_rotate: "is_cycle g (xs @ ys) \<Longrightarrow> is_cycle g (ys @ xs)"
  by (cases "xs = [] \<or> ys = []")
    (auto simp: is_cycle_def successively_append_iff)

lemma is_cycle_rev:
  assumes "wf_graph g" "is_cycle g c"
  shows "is_cycle g (rev c)"
proof -
  have c: "c \<noteq> []" "set c \<subseteq> {..<order g}" "successively (has_edge g) c" "has_edge g (last c) (hd c)"
    using assms(2) by (auto simp: is_cycle_def)
  have sym: "has_edge g u v = has_edge g v u" if "u \<in> set c" "v \<in> set c" for u v
    using that c(2) wf_bit_sym [OF assms(1), of u v] by auto
  have "successively (\<lambda>x y. has_edge g y x) c"
    using c(3) by (rule successively_mono) (simp only: sym)
  moreover have "has_edge g (hd c) (last c)"
    using c sym [of "hd c" "last c"] by simp
  ultimately show ?thesis
    using assms(2) by (simp add: is_cycle_def hd_rev last_rev)
qed

lemma cycle_rooted:
  assumes "is_cycle g c"
  obtains m r where "rooted_cycle g m (m # r)" "set (m # r) = set c" "length (m # r) = length c"
proof -
  let ?m = "Min (set c)"
  have "set c \<noteq> {}" using assms by (auto simp: is_cycle_def)
  then have "?m \<in> set c" by (intro Min_in) auto
  then obtain xs ys where c: "c = xs @ ?m # ys" by (meson split_list)
  have cyc: "is_cycle g (?m # ys @ xs)"
    using is_cycle_rotate [of g xs "?m # ys"] assms c by simp
  have min: "?m < v" if "v \<in> set (ys @ xs)" for v
  proof -
    have "v \<in> set c" using that by (subst c) auto
    then have "?m \<le> v" by simp
    moreover have "v \<noteq> ?m" using cyc that by (auto simp: is_cycle_def)
    ultimately show ?thesis by simp
  qed
  have "set (?m # ys @ xs) = set (xs @ ?m # ys)" "length (?m # ys @ xs) = length (xs @ ?m # ys)"
    by auto
  then show thesis
    using that [of ?m "ys @ xs"] cyc min c by (simp add: rooted_cycle_def)
qed

lemma cycle_canonical:
  assumes g: "wf_graph g" and c: "is_cycle g c"
  obtains d where "canonical_cycle g d" "set d = set c" "length d = length c"
proof -
  obtain m r where r: "rooted_cycle g m (m # r)" "set (m # r) = set c" "length (m # r) = length c"
    using cycle_rooted [OF c] by blast
  have cyc: "is_cycle g (m # r)" using r(1) by (simp add: rooted_cycle_def)
  have rev: "is_cycle g (m # rev r)"
    using is_cycle_rotate [of g "rev r" "[m]"] is_cycle_rev [OF g cyc] by simp
  obtain a r' where ra: "r = a # r'" "r' \<noteq> []"
    using cyc by (cases r; cases "tl r") (auto simp: is_cycle_def)
  have ne: "a \<noteq> last r'" using cyc last_in_set [OF ra(2)] by (auto simp: is_cycle_def ra)
  show thesis
  proof (cases "a < last r'")
    case True
    then have "canonical_cycle g (m # r)"
      using r(1) ra by (simp add: canonical_cycle_def)
    with that r show thesis by blast
  next
    case False
    have "rev r ! 0 = last r'" "last (m # rev r) = a"
      using ra hd_conv_nth [of "rev r"] hd_rev [of r] by simp_all
    then have "canonical_cycle g (m # rev r)"
      using rev r(1) False ne by (simp add: canonical_cycle_def rooted_cycle_def)
    with that [of "m # rev r"] r show thesis by simp
  qed
qed

lemma is_cycle_length: "is_cycle g c \<Longrightarrow> 3 \<le> length c \<and> length c \<le> order g"
  unfolding is_cycle_def
  by (metis card_lessThan card_mono distinct_card finite_lessThan)

lemma has_cycle_rooted:
  assumes "wf_graph g" "3 \<le> len"
  shows "has_cycle_of_length g len \<longleftrightarrow> rooted_cycles g len \<noteq> []"
proof
  assume "has_cycle_of_length g len"
  then obtain c where c: "is_cycle g c" "length c = len" by (auto simp: has_cycle_of_length_def)
  then obtain m r where "rooted_cycle g m (m # r)" "length (m # r) = len"
    using cycle_rooted by metis
  then have "m # r \<in> set (rooted_cycles g len)"
    unfolding set_rooted_cycles [OF assms] by simp
  then show "rooted_cycles g len \<noteq> []" by auto
next
  assume "rooted_cycles g len \<noteq> []"
  then have "hd (rooted_cycles g len) \<in> set (rooted_cycles g len)" by simp
  then show "has_cycle_of_length g len"
    unfolding set_rooted_cycles [OF assms] has_cycle_of_length_def rooted_cycle_def by blast
qed

section \<open>The interface of an exact cycle finder\<close>

text \<open>
  What the verifiers rely on: a finder returns a cycle of the requested length when it
  returns anything, and returns nothing only when there is no such cycle.  The lemmas say
  what the verifiers' loop over a list of lengths computes.
\<close>

locale cycle_finder =
  fixes find :: "bitgraph \<Rightarrow> nat \<Rightarrow> nat list option"
  assumes find_sound: "wf_graph g \<Longrightarrow> find g len = Some c \<Longrightarrow> is_cycle g c \<and> length c = len"
    and find_complete: "wf_graph g \<Longrightarrow> find g len = None \<Longrightarrow> \<not> has_cycle_of_length g len"
begin

lemma find_None_iff: "wf_graph g \<Longrightarrow> find g len = None \<longleftrightarrow> \<not> has_cycle_of_length g len"
  by (metis find_complete find_sound has_cycle_of_length_def not_None_eq)

definition find_any :: "bitgraph \<Rightarrow> nat list \<Rightarrow> (nat \<times> nat list) option" where
  "find_any g ls = first_some (\<lambda>l. map_option (Pair l) (find g l)) ls"

lemma find_any_None:
  "wf_graph g \<Longrightarrow> find_any g ls = None \<longleftrightarrow> (\<forall>l\<in>set ls. \<not> has_cycle_of_length g l)"
  by (simp add: find_any_def first_some_None find_None_iff)

lemma find_any_Some:
  "wf_graph g \<Longrightarrow> find_any g ls = Some (l, c) \<Longrightarrow> l \<in> set ls \<and> is_cycle g c \<and> length c = l"
  by (auto simp: find_any_def dest!: first_some_Some dest: find_sound)

end

interpretation reference: cycle_finder find_cycle_of_length
proof
  fix g len c
  assume g: "wf_graph g" and f: "find_cycle_of_length g len = Some c"
  then have l: "3 \<le> len" "len \<le> order g"
    by (auto simp: find_cycle_of_length_def split: if_splits)
  then have "c \<in> set (rooted_cycles g len)"
    using f find_cycle_of_length_eq [OF l] by (auto split: list.splits)
  then show "is_cycle g c \<and> length c = len"
    by (simp add: set_rooted_cycles [OF g l(1)] rooted_cycle_def)
next
  fix g len
  assume g: "wf_graph g" and f: "find_cycle_of_length g len = None"
  show "\<not> has_cycle_of_length g len"
  proof (cases "3 \<le> len \<and> len \<le> order g")
    case True
    then show ?thesis
      using f find_cycle_of_length_eq has_cycle_rooted [OF g] by (auto split: list.splits)
  next
    case False
    then show ?thesis using is_cycle_length by (auto simp: has_cycle_of_length_def)
  qed
qed

section \<open>Bounded enumeration computes a prefix of the canonical cycles\<close>

definition oriented :: "nat list \<Rightarrow> bool" where
  "oriented c \<longleftrightarrow> c ! 1 < last c"

definition canonical_cycles :: "bitgraph \<Rightarrow> nat \<Rightarrow> nat list list" where
  "canonical_cycles g len = filter oriented (rooted_cycles g len)"

lemma set_canonical_cycles:
  "wf_graph g \<Longrightarrow> 3 \<le> len \<Longrightarrow>
   set (canonical_cycles g len) = {c. canonical_cycle g c \<and> length c = len}"
  by (auto simp: canonical_cycles_def set_rooted_cycles canonical_cycle_def oriented_def)

text \<open>
  A search step that adds, in order, cycles from the list \<open>L\<close>: always a prefix of it, and
  all of it up to the limit unless the budget runs out.
\<close>

definition realises_at ::
  "nat \<Rightarrow> (cycle_search \<Rightarrow> cycle_search) \<Rightarrow> nat list list \<Rightarrow> cycle_search \<Rightarrow> bool" where
  "realises_at limit f L st \<longleftrightarrow>
     (\<exists>m. found (f st) = found st @ take m L) \<and> length (found (f st)) \<le> limit \<and>
     (\<not> budget_exhausted (f st) \<longrightarrow>
        \<not> budget_exhausted st \<and> found (f st) = take limit (found st @ L))"

definition realises :: "nat \<Rightarrow> (cycle_search \<Rightarrow> cycle_search) \<Rightarrow> nat list list \<Rightarrow> bool" where
  "realises limit f L \<longleftrightarrow> (\<forall>st. length (found st) \<le> limit \<longrightarrow> realises_at limit f L st)"

lemma realisesD:
  fixes st :: cycle_search
  assumes "realises limit f L" "length (found st) \<le> limit"
  shows "\<exists>m. found (f st) = found st @ take m L" "length (found (f st)) \<le> limit"
    "\<not> budget_exhausted (f st) \<Longrightarrow> \<not> budget_exhausted st"
    "\<not> budget_exhausted (f st) \<Longrightarrow> found (f st) = take limit (found st @ L)"
  using assms unfolding realises_def realises_at_def by blast+

lemma realises_at_refl:
  fixes st :: cycle_search
  shows "f st = st \<Longrightarrow> length (found st) \<le> limit \<Longrightarrow>
    limit \<le> length (found st) \<or> budget_exhausted st \<Longrightarrow> realises_at limit f L st"
  unfolding realises_at_def by (auto intro: exI [of _ 0])

lemma realises_seq:
  assumes f: "realises limit f L" and h: "realises limit h M"
    and stop: "\<And>st. \<not> searching limit st \<Longrightarrow> h st = st"
  shows "realises limit (\<lambda>st. if searching limit st then h (f st) else st) (L @ M)"
  unfolding realises_def
proof (intro allI impI)
  fix st :: cycle_search
  assume len: "length (found st) \<le> limit"
  let ?t = "f st" and ?F = "\<lambda>st. if searching limit st then h (f st) else st"
  show "realises_at limit ?F (L @ M) st"
  proof (cases "searching limit st")
    case False
    then show ?thesis
      using len by (intro realises_at_refl) (auto simp: searching_def)
  next
    case srch: True
    then have F: "?F st = h ?t" by simp
    obtain m where m: "found ?t = found st @ take m L" using realisesD(1) [OF f len] by blast
    have len_t: "length (found ?t) \<le> limit" by (rule realisesD(2) [OF f len])
    show ?thesis
    proof (cases "searching limit ?t")
      case False
      then have F: "?F st = ?t" using srch stop by simp
      have "found ?t = found st @ take (min m (length L)) (L @ M)"
        by (cases "m \<le> length L") (simp_all add: m min_def)
      moreover have "found ?t = take limit (found st @ L @ M)" if ne: "\<not> budget_exhausted ?t"
      proof -
        have t: "found ?t = take limit (found st @ L)" by (rule realisesD(4) [OF f len ne])
        have "limit \<le> length (found st @ L)" using False ne t by (simp add: searching_def)
        then show ?thesis using t by (simp add: take_append)
      qed
      ultimately show ?thesis
        unfolding realises_at_def F using len_t realisesD(3) [OF f len] by blast
    next
      case True
      then have ne: "\<not> budget_exhausted ?t" and lt: "length (found ?t) < limit"
        by (auto simp: searching_def)
      have "found ?t = take limit (found st @ L)" by (rule realisesD(4) [OF f len ne])
      then have t: "found ?t = found st @ L" using lt by auto
      obtain m' where "found (h ?t) = found ?t @ take m' M"
        using realisesD(1) [OF h len_t] by blast
      then have "found (h ?t) = found st @ take (length L + m') (L @ M)" by (simp add: t)
      moreover have "found ?t @ M = found st @ L @ M" by (simp add: t)
      ultimately show ?thesis
        unfolding realises_at_def F
        using realisesD(2,3,4) [OF h len_t] realisesD(3) [OF f len ne] by metis
    qed
  qed
qed

lemma realises_fold:
  "(\<And>x. x \<in> set xs \<Longrightarrow> realises limit (f x) (L x)) \<Longrightarrow>
   realises limit (fold_while (searching limit) f xs) (concat (map L xs))"
proof (induction xs)
  case Nil
  show ?case by (simp add: realises_def realises_at_def)
next
  case (Cons x xs)
  have rest: "realises limit (fold_while (searching limit) f xs) (concat (map L xs))"
    by (rule Cons.IH) (use Cons.prems in simp)
  have "fold_while (searching limit) f (x # xs) =
      (\<lambda>st. if searching limit st then fold_while (searching limit) f xs (f x st) else st)"
    by (rule ext) simp
  with realises_seq [OF Cons.prems [of x] rest fold_while_stop] show ?case by simp
qed

lemma realises_guarded:
  assumes body: "\<And>st. searching limit st \<Longrightarrow> realises_at limit body L st"
    and f: "\<And>st. f st = (if limit \<le> length (found st) \<or> budget_exhausted st then st
              else let st1 = st\<lparr>visited_nodes := visited_nodes st + 1\<rparr>
                   in if over st1 then st1\<lparr>budget_exhausted := True\<rparr> else body st1)"
  shows "realises limit f L"
  unfolding realises_def
proof (intro allI impI)
  fix st :: cycle_search
  assume len: "length (found st) \<le> limit"
  let ?st1 = "st\<lparr>visited_nodes := visited_nodes st + 1\<rparr>"
  show "realises_at limit f L st"
  proof (cases "searching limit st")
    case False
    then show ?thesis
      using len by (intro realises_at_refl) (auto simp: f searching_def)
  next
    case True
    show ?thesis
    proof (cases "over ?st1")
      case True
      then have "f st = ?st1\<lparr>budget_exhausted := True\<rparr>"
        using \<open>searching limit st\<close> by (simp add: f searching_def Let_def)
      then show ?thesis
        unfolding realises_at_def using len by (auto intro: exI [of _ 0])
    next
      case False
      then have "f st = body ?st1"
        using True by (simp add: f searching_def Let_def)
      moreover have "realises_at limit body L ?st1"
        using True by (intro body) (simp add: searching_def)
      ultimately show ?thesis by (simp add: realises_at_def)
    qed
  qed
qed

lemma dfs_bounded_realises:
  "len = length path + k \<Longrightarrow> path \<noteq> [] \<Longrightarrow>
   realises limit (dfs_bounded g len limit b start (last path) path seen)
     (filter oriented (cycle_exts g start k path seen))"
proof (induction k arbitrary: path seen)
  case 0
  let ?body = "\<lambda>st. if has_edge g (last path) start \<and> path ! 1 < last path
                     then st\<lparr>found := found st @ [path]\<rparr> else st"
  have body: "realises_at limit ?body (filter oriented (cycle_exts g start 0 path seen)) st"
    if "searching limit st" for st
    using that unfolding realises_at_def oriented_def searching_def
    by (cases "has_edge g (last path) start \<and> path ! 1 < last path")
      (auto intro: exI [of _ 1])
  show ?case
    by (rule realises_guarded [OF body,
          where over = "\<lambda>st. case b of None \<Rightarrow> False | Some m \<Rightarrow> m < visited_nodes st"])
      (use 0 in \<open>simp, subst dfs_bounded.simps, simp add: Let_def\<close>)
next
  case (Suc k)
  let ?body = "fold_while (searching limit)
     (\<lambda>v. dfs_bounded g len limit b start v (path @ [v]) (seen OR shl1 v))
     (next_vertices g start (last path) seen)"
  have "realises limit ?body
      (concat (map (\<lambda>v. filter oriented (cycle_exts g start k (path @ [v]) (seen OR shl1 v)))
         (next_vertices g start (last path) seen)))"
    by (rule realises_fold) (use Suc.IH [of "path @ [_]"] Suc.prems in simp)
  then have "realises limit ?body (filter oriented (cycle_exts g start (Suc k) path seen))"
    by (simp add: filter_concat comp_def)
  then have body: "realises_at limit ?body (filter oriented (cycle_exts g start (Suc k) path seen)) st"
    if "searching limit st" for st
    using that by (simp add: realises_def searching_def)
  show ?case
    by (rule realises_guarded [OF body,
          where over = "\<lambda>st. case b of None \<Rightarrow> False | Some m \<Rightarrow> m < visited_nodes st"])
      (use Suc.prems in \<open>simp, subst dfs_bounded.simps, simp add: Let_def\<close>)
qed

subsection \<open>The node budget\<close>

definition budget_ok :: "nat option \<Rightarrow> cycle_search \<Rightarrow> bool" where
  "budget_ok b st \<longleftrightarrow>
     (case b of None \<Rightarrow> \<not> budget_exhausted st
      | Some m \<Rightarrow> visited_nodes st \<le> m + 1 \<and> (budget_exhausted st \<longleftrightarrow> m < visited_nodes st))"

lemma dfs_bounded_budget:
  "budget_ok b st \<Longrightarrow> budget_ok b (dfs_bounded g len limit b start lst path seen st)"
proof (induction g len limit b start lst path seen st rule: dfs_bounded.induct)
  case (1 g len limit b start lst path seen st)
  let ?st1 = "st\<lparr>visited_nodes := visited_nodes st + 1\<rparr>"
  let ?over = "case b of None \<Rightarrow> False | Some m \<Rightarrow> m < visited_nodes ?st1"
  show ?case
  proof (cases "limit \<le> length (found st) \<or> budget_exhausted st \<or> ?over")
    case True
    with "1.prems" show ?thesis
      by (subst dfs_bounded.simps) (auto simp: budget_ok_def Let_def split: option.splits)
  next
    case False
    then have ok1: "budget_ok b ?st1"
      using "1.prems" by (auto simp: budget_ok_def split: option.splits)
    show ?thesis
    proof (cases "len \<le> length path")
      case True
      with ok1 False show ?thesis
        by (subst dfs_bounded.simps) (auto simp: Let_def budget_ok_def split: option.splits)
    next
      case short: False
      have "budget_ok b (fold_while (searching limit)
          (\<lambda>v. dfs_bounded g len limit b start v (path @ [v]) (seen OR shl1 v))
          (next_vertices g start lst seen) ?st1)"
        by (rule fold_while_invariant [where P = "budget_ok b"])
          (use ok1 "1.IH" [OF _ refl] False short in \<open>simp_all add: not_le\<close>)
      with False short show ?thesis
        by (subst dfs_bounded.simps) (auto simp: Let_def split: option.splits)
    qed
  qed
qed

subsection \<open>The contract of the enumeration\<close>

lemma profiled_search:
  assumes "find_cycles_of_length_bounded_profiled g len limit b = Inr (fs, exhaustive, nodes)"
    and "0 < limit" "3 \<le> len" "len \<le> order g"
  obtains st where "realises_at limit (\<lambda>_. st) (canonical_cycles g len)
      \<lparr>found = [], visited_nodes = 0, budget_exhausted = False\<rparr>"
    "budget_ok b st" "fs = found st"
    "exhaustive \<longleftrightarrow> \<not> budget_exhausted st \<and> length (found st) < limit" "nodes = visited_nodes st"
proof -
  let ?init = "\<lparr>found = [], visited_nodes = 0, budget_exhausted = False\<rparr>"
  let ?F = "fold_while (searching limit)
     (\<lambda>start. dfs_bounded g len limit b start start [start] (shl1 start)) [0..<order g]"
  have step: "realises limit (dfs_bounded g len limit b start start [start] (shl1 start))
      (filter oriented (rooted_cycles_from g len start))" for start
    using dfs_bounded_realises [of len "[start]" "len - 1"] assms(3)
    by (simp add: rooted_cycles_from_def)
  have "realises limit ?F (concat (map (\<lambda>s. filter oriented (rooted_cycles_from g len s)) [0..<order g]))"
    by (rule realises_fold) (rule step)
  then have "realises_at limit ?F (canonical_cycles g len) ?init"
    by (simp add: realises_def canonical_cycles_def rooted_cycles_def filter_concat comp_def)
  then have r: "realises_at limit (\<lambda>_. ?F ?init) (canonical_cycles g len) ?init"
    by (simp add: realises_at_def)
  have "budget_ok b ?init" by (simp add: budget_ok_def split: option.splits)
  then have "budget_ok b (?F ?init)"
    by (rule fold_while_invariant [where P = "budget_ok b"]) (rule dfs_bounded_budget)
  with r assms that [of "?F ?init"] show thesis
    by (auto simp: find_cycles_of_length_bounded_profiled_def Let_def split: if_splits)
qed

lemma profiled_trivial:
  assumes "limit = 0 \<or> len < 3 \<or> order g < len"
  shows "find_cycles_of_length_bounded_profiled g len limit b = Inr ([], True, 0)"
  using assms by (simp add: find_cycles_of_length_bounded_profiled_def)

lemma no_cycles_trivial: "len < 3 \<or> order g < len \<Longrightarrow> \<not> canonical_cycle g c \<or> length c \<noteq> len"
  using is_cycle_length [of g c] by (auto simp: canonical_cycle_def rooted_cycle_def)

lemma profiled_correct:
  assumes g: "wf_graph g"
    and res: "find_cycles_of_length_bounded_profiled g len limit b = Inr (fs, exhaustive, nodes)"
  shows "\<forall>c\<in>set fs. canonical_cycle g c \<and> length c = len"
    and "length fs \<le> limit"
    and "exhaustive \<Longrightarrow> 0 < limit \<Longrightarrow> set fs = {c. canonical_cycle g c \<and> length c = len}"
    and "b = Some m \<Longrightarrow> nodes \<le> m + 1"
    and "b = None \<Longrightarrow> \<not> exhaustive \<Longrightarrow> length fs = limit"
proof -
  consider (trivial) "limit = 0 \<or> len < 3 \<or> order g < len"
    | (search) "0 < limit" "3 \<le> len" "len \<le> order g" by linarith
  then have "(\<forall>c\<in>set fs. canonical_cycle g c \<and> length c = len) \<and> length fs \<le> limit \<and>
    (exhaustive \<longrightarrow> 0 < limit \<longrightarrow> set fs = {c. canonical_cycle g c \<and> length c = len}) \<and>
    (b = Some m \<longrightarrow> nodes \<le> m + 1) \<and> (b = None \<longrightarrow> \<not> exhaustive \<longrightarrow> length fs = limit)"
  proof cases
    case trivial
    then show ?thesis
      using res no_cycles_trivial [of len g] by (auto simp: profiled_trivial [OF trivial])
  next
    case search
    obtain st where st: "realises_at limit (\<lambda>_. st) (canonical_cycles g len)
      \<lparr>found = [], visited_nodes = 0, budget_exhausted = False\<rparr>"
      "budget_ok b st" "fs = found st"
      "exhaustive \<longleftrightarrow> \<not> budget_exhausted st \<and> length (found st) < limit" "nodes = visited_nodes st"
      using profiled_search [OF res search] by blast
    obtain k where k: "found st = take k (canonical_cycles g len)"
      using st(1) by (auto simp: realises_at_def)
    have all: "found st = take limit (canonical_cycles g len)" if "\<not> budget_exhausted st"
      using st(1) that by (auto simp: realises_at_def)
    have "set fs \<subseteq> set (canonical_cycles g len)" by (simp add: st(3) k set_take_subset)
    then have sub: "\<forall>c\<in>set fs. canonical_cycle g c \<and> length c = len"
      unfolding set_canonical_cycles [OF g search(2)] by blast
    have full: "set fs = {c. canonical_cycle g c \<and> length c = len}" if exhaustive
    proof -
      have "fs = canonical_cycles g len" using that st(3,4) all by auto
      then show ?thesis by (simp only: set_canonical_cycles [OF g search(2)])
    qed
    have stop: "length fs = limit" if "b = None" "\<not> exhaustive"
    proof -
      have ne: "\<not> budget_exhausted st" using st(2) that(1) by (simp add: budget_ok_def)
      have "length (found st) \<le> limit" by (simp add: all [OF ne])
      with ne that(2) st(3,4) show ?thesis by simp
    qed
    have "length fs \<le> limit" using st(1,3) by (simp add: realises_at_def)
    moreover have "nodes \<le> m + 1" if "b = Some m"
      using that st(2,5) by (simp add: budget_ok_def)
    ultimately show ?thesis
      using sub full stop by blast
  qed
  then show "\<forall>c\<in>set fs. canonical_cycle g c \<and> length c = len" "length fs \<le> limit"
    "exhaustive \<Longrightarrow> 0 < limit \<Longrightarrow> set fs = {c. canonical_cycle g c \<and> length c = len}"
    "b = Some m \<Longrightarrow> nodes \<le> m + 1" "b = None \<Longrightarrow> \<not> exhaustive \<Longrightarrow> length fs = limit"
    by blast+
qed

section \<open>Properties\<close>

text \<open>
  C16. The reference search is exact: on a well-formed graph it returns a simple cycle of
  the requested length, listed from its smallest vertex, if there is one, and \<open>None\<close>
  exactly when the graph has no simple cycle of that length.
\<close>

theorem find_cycle_of_length_exact:
  assumes "wf_graph g"
  shows "(\<forall>c. find_cycle_of_length g len = Some c \<longrightarrow>
        is_cycle g c \<and> length c = len \<and> (\<forall>v\<in>set (tl c). hd c < v)) \<and>
    (find_cycle_of_length g len = None \<longleftrightarrow> (\<forall>c. is_cycle g c \<longrightarrow> length c \<noteq> len))"
proof (intro conjI allI impI)
  fix c assume f: "find_cycle_of_length g len = Some c"
  then have l: "3 \<le> len" "len \<le> order g"
    by (auto simp: find_cycle_of_length_def split: if_splits)
  have "c \<in> set (rooted_cycles g len)"
    using f find_cycle_of_length_eq [OF l] by (auto split: list.splits)
  then show "is_cycle g c" "length c = len" "\<forall>v\<in>set (tl c). hd c < v"
    by (simp_all add: set_rooted_cycles [OF assms l(1)] rooted_cycle_def)
next
  show "find_cycle_of_length g len = None \<longleftrightarrow> (\<forall>c. is_cycle g c \<longrightarrow> length c \<noteq> len)"
    using reference.find_None_iff [OF assms] by (auto simp: has_cycle_of_length_def)
qed

theorem find_cycle_of_length_exact_witness:
  "find_cycle_of_length k4 4 = Some [0, 1, 2, 3] \<and> is_cycle k4 [0, 1, 2, 3]"
proof -
  have "find_cycle_of_length k4 4 = Some [0, 1, 2, 3]" by code_simp
  with find_cycle_of_length_exact [OF wf_k4] show ?thesis by blast
qed

text \<open>
  C22. The bounded enumeration honours its flags: every reported cycle is a cycle of the
  requested length in canonical form (smallest vertex first, second vertex smaller than the
  last), at most \<open>limit\<close> are reported, the complete flag (with a positive limit) means that
  the report holds exactly all canonical cycles of that length, the number of visited nodes
  exceeds the budget by at most one, and without a budget an incomplete report has reached
  the limit.
\<close>

theorem bounded_enumeration_contract:
  assumes "wf_graph g"
    and "find_cycles_of_length_bounded_profiled g len limit b = Inr (fs, exhaustive, nodes)"
  shows "(\<forall>c\<in>set fs. canonical_cycle g c \<and> length c = len) \<and> length fs \<le> limit \<and>
    (exhaustive \<and> 0 < limit \<longrightarrow> set fs = {c. canonical_cycle g c \<and> length c = len}) \<and>
    (\<forall>m. b = Some m \<longrightarrow> nodes \<le> m + 1) \<and> (b = None \<and> \<not> exhaustive \<longrightarrow> length fs = limit)"
  using profiled_correct [OF assms] by blast

theorem bounded_enumeration_contract_witness:
  "set [[0, 1, 2, 3], [0, 1, 3, 2], [0, 2, 1, 3]] =
   {c. canonical_cycle k4 c \<and> length c = (4::nat)}"
proof -
  have "find_cycles_of_length_bounded_profiled k4 4 10 None =
      Inr ([[0, 1, 2, 3], [0, 1, 3, 2], [0, 2, 1, 3]], True, 24)"
    by code_simp
  from bounded_enumeration_contract [OF wf_k4 this] show ?thesis by simp
qed

lemma complete_empty_enumeration:
  assumes "wf_graph g" "0 < limit"
    and "find_cycles_of_length_bounded_profiled g len limit b = Inr ([], True, nodes)"
  shows "\<not> has_cycle_of_length g len"
proof
  assume "has_cycle_of_length g len"
  then obtain c where c: "is_cycle g c" "length c = len" by (auto simp: has_cycle_of_length_def)
  obtain d where d: "canonical_cycle g d" "length d = length c"
    using cycle_canonical [OF assms(1) c(1)] by metis
  have "set [] = {c. canonical_cycle g c \<and> length c = len}"
    using profiled_correct(3) [OF assms(1,3)] assms(2) by blast
  with c d show False by simp
qed

end
