(* ===== verification/Subset_DP.thy ===== *)
theory Subset_DP
  imports Cycle_Search "HOL-Library.AList"
begin

text \<open>
  The independent exact-length cycle detector of \<open>src/src/sglab/verification.py\<close>
  (\<open>find_cycle_dynamic\<close>): subset dynamic programming over pairs of a vertex mask and a last
  vertex.  A Python dict is an association list in insertion order; assignment is
  \<open>AList.update\<close>, which keeps the position of an existing key as Python does, and
  \<open>setdefault\<close> leaves an existing entry alone.

  The invariant is that after \<open>k\<close> rounds the table holds, for every mask and last vertex of
  a path of \<open>k + 2\<close> vertices above the start vertex, one such path.  Keeping a single
  representative path per entry loses nothing, because both the possible continuations and
  the closing test depend on the mask and the last vertex only.  The detector is an
  instance of the interface \<open>cycle_finder\<close>.
\<close>

unbundle bit_operations_syntax

section \<open>The detector\<close>

type_synonym dp_table = "((int \<times> nat) \<times> nat list) list"

definition setdefault :: "'k \<Rightarrow> 'v \<Rightarrow> ('k \<times> 'v) list \<Rightarrow> ('k \<times> 'v) list" where
  "setdefault k v d = (case map_of d k of None \<Rightarrow> d @ [(k, v)] | Some _ \<Rightarrow> d)"

definition dp_init :: "bitgraph \<Rightarrow> nat \<Rightarrow> dp_table" where
  "dp_init g start =
     fold (\<lambda>w states.
        if start < w then AList.update (shl1 start OR shl1 w, w) [start, w] states else states)
       (neighbors g start) []"

definition dp_extend_entry ::
  "bitgraph \<Rightarrow> nat \<Rightarrow> (int \<times> nat) \<times> nat list \<Rightarrow> dp_table \<Rightarrow> dp_table" where
  "dp_extend_entry g start = (\<lambda>((mask, lst), path).
     fold (\<lambda>v. setdefault (mask OR shl1 v, v) (path @ [v])) (next_vertices g start lst mask))"

definition dp_extend :: "bitgraph \<Rightarrow> nat \<Rightarrow> dp_table \<Rightarrow> dp_table" where
  "dp_extend g start states = fold (dp_extend_entry g start) states []"

fun dp_loop :: "bitgraph \<Rightarrow> nat \<Rightarrow> nat \<Rightarrow> dp_table \<Rightarrow> dp_table" where
  "dp_loop g start 0 states = states"
| "dp_loop g start (Suc k) states =
     (let following = dp_extend g start states
      in if following = [] then following else dp_loop g start k following)"

definition find_cycle_dynamic :: "bitgraph \<Rightarrow> nat \<Rightarrow> nat list option" where
  "find_cycle_dynamic g len =
     (if len < 3 \<or> order g < len then None
      else first_some (\<lambda>start.
             first_some (\<lambda>((_, lst), path). if has_edge g lst start then Some path else None)
               (dp_loop g start (len - 2) (dp_init g start)))
             [0..<order g])"

section \<open>The table invariant\<close>

definition dp_sound :: "bitgraph \<Rightarrow> nat \<Rightarrow> nat \<Rightarrow> dp_table \<Rightarrow> bool" where
  "dp_sound g start l d \<longleftrightarrow>
     (\<forall>((msk, lst), path)\<in>set d. dfs_inv g start path msk \<and> last path = lst \<and> length path = l)"

definition dp_complete :: "bitgraph \<Rightarrow> nat \<Rightarrow> nat \<Rightarrow> dp_table \<Rightarrow> bool" where
  "dp_complete g start l d \<longleftrightarrow>
     (\<forall>p msk. dfs_inv g start p msk \<longrightarrow> length p = l \<longrightarrow> (msk, last p) \<in> fst ` set d)"

lemma set_setdefault:
  "set (setdefault k v d) = (if k \<in> fst ` set d then set d else insert (k, v) (set d))"
  by (auto simp: setdefault_def dom_map_of_conv_image_fst map_of_eq_None_iff
      split: option.splits dest: map_of_SomeD intro: rev_image_eqI)

lemma keys_setdefault: "fst ` set (setdefault k v d) = insert k (fst ` set d)"
  by (auto simp: set_setdefault)

lemma fold_setdefault_keys:
  "fst ` set (fold (\<lambda>v. setdefault (key v) (val v)) vs d) = key ` set vs \<union> fst ` set d"
  by (induction vs arbitrary: d) (auto simp: keys_setdefault)

lemma fold_setdefault_set:
  "set (fold (\<lambda>v. setdefault (key v) (val v)) vs d) \<subseteq> set d \<union> (\<lambda>v. (key v, val v)) ` set vs"
proof (induction vs arbitrary: d)
  case (Cons v vs)
  have "set (setdefault (key v) (val v) d) \<subseteq> insert (key v, val v) (set d)"
    by (auto simp: set_setdefault)
  with Cons.IH [of "setdefault (key v) (val v) d"] show ?case by auto
qed simp

lemma dp_extend_entry_sound:
  assumes "wf_graph g" "dfs_inv g start path msk" "last path = lst" "length path = l"
    "dp_sound g start (Suc l) d"
  shows "dp_sound g start (Suc l) (dp_extend_entry g start ((msk, lst), path) d)"
proof -
  have "dfs_inv g start (path @ [v]) (msk OR shl1 v)"
    if "v \<in> set (next_vertices g start lst msk)" for v
    using dfs_inv_step [OF assms(1,2)] that assms(3) by simp
  then show ?thesis
    using assms(4,5)
      fold_setdefault_set [of "\<lambda>v. (msk OR shl1 v, v)" "\<lambda>v. path @ [v]"
        "next_vertices g start lst msk" d]
    unfolding dp_sound_def dp_extend_entry_def by (fastforce dest: subsetD)
qed

lemma dp_extend_entry_keys:
  "fst ` set (dp_extend_entry g start ((msk, lst), path) d) =
   (\<lambda>v. (msk OR shl1 v, v)) ` set (next_vertices g start lst msk) \<union> fst ` set d"
  by (simp add: dp_extend_entry_def fold_setdefault_keys)

lemma dp_extend_sound:
  assumes "wf_graph g" "dp_sound g start l d"
  shows "dp_sound g start (Suc l) (dp_extend g start d)"
proof -
  have "dp_sound g start (Suc l) (fold (dp_extend_entry g start) xs e)"
    if "set xs \<subseteq> set d" "dp_sound g start (Suc l) e" for xs e
    using that
  proof (induction xs arbitrary: e)
    case (Cons x xs)
    obtain msk lst path where x: "x = ((msk, lst), path)" by (metis surj_pair)
    have "((msk, lst), path) \<in> set d" using Cons.prems(1) x by simp
    then have "dfs_inv g start path msk" "last path = lst" "length path = l"
      using assms(2) by (auto simp: dp_sound_def)
    from dp_extend_entry_sound [OF assms(1) this Cons.prems(2)] Cons show ?case
      by (simp add: x)
  qed simp
  from this [OF order.refl, of "[]"] show ?thesis
    unfolding dp_extend_def by (simp add: dp_sound_def)
qed

lemma dp_extend_keys:
  assumes "((msk, lst), path) \<in> set d" "v \<in> set (next_vertices g start lst msk)"
  shows "(msk OR shl1 v, v) \<in> fst ` set (dp_extend g start d)"
proof -
  have mono: "fst ` set e \<subseteq> fst ` set (fold (dp_extend_entry g start) xs e)" for xs e
  proof (induction xs arbitrary: e)
    case (Cons x xs)
    obtain m l p where "x = ((m, l), p)" by (metis surj_pair)
    with Cons [of "dp_extend_entry g start x e"] dp_extend_entry_keys [of g start m l p e]
    show ?case by auto
  qed simp
  obtain xs ys where d: "d = xs @ ((msk, lst), path) # ys"
    using assms(1) by (meson split_list)
  let ?e = "dp_extend_entry g start ((msk, lst), path) (fold (dp_extend_entry g start) xs [])"
  have "(msk OR shl1 v, v) \<in> fst ` set ?e"
    using assms(2) by (simp add: dp_extend_entry_keys)
  with mono [of ?e ys] show ?thesis by (auto simp: dp_extend_def d)
qed

lemma dfs_inv_butlast:
  assumes "dfs_inv g start (p @ [v]) msk" "p \<noteq> []"
  shows "dfs_inv g start p (msk AND NOT (shl1 v))"
  using assms by (auto simp: dfs_inv_def successively_append_iff tl_append split: list.splits)

lemma dfs_inv_mask_unique:
  "dfs_inv g start p msk \<Longrightarrow> (\<And>i. bit msk' i \<longleftrightarrow> i \<in> set p) \<Longrightarrow> msk' = msk"
  by (rule bit_eqI) (simp add: dfs_inv_def)

lemma dp_extend_complete:
  assumes g: "wf_graph g" and sound: "dp_sound g start l d" and compl: "dp_complete g start l d"
    and l: "0 < l"
  shows "dp_complete g start (Suc l) (dp_extend g start d)"
  unfolding dp_complete_def
proof (intro allI impI)
  fix p' msk' assume inv': "dfs_inv g start p' msk'" and len': "length p' = Suc l"
  then obtain p v where p': "p' = p @ [v]" by (cases p' rule: rev_cases) auto
  have pne: "p \<noteq> []" using len' l by (auto simp: p')
  let ?msk = "msk' AND NOT (shl1 v)"
  have inv: "dfs_inv g start p ?msk"
    using dfs_inv_butlast inv' pne by (simp add: p')
  have "(?msk, last p) \<in> fst ` set d"
    using compl inv len' by (auto simp: dp_complete_def p')
  then obtain q where q: "((?msk, last p), q) \<in> set d" by auto
  have "v \<in> set (next_vertices g start (last p) ?msk)"
    using inv' pne unfolding p' set_next_vertices [OF g inv]
    by (auto simp: dfs_inv_def successively_append_iff tl_append split: list.splits)
  from dp_extend_keys [OF q this]
  have "(?msk OR shl1 v, v) \<in> fst ` set (dp_extend g start d)" .
  moreover have "?msk OR shl1 v = msk'"
    by (rule dfs_inv_mask_unique [OF inv'])
      (use inv' in \<open>auto simp: dfs_inv_def p'\<close>)
  ultimately show "(msk', last p') \<in> fst ` set (dp_extend g start d)" by (simp add: p')
qed

lemma dp_loop_correct:
  assumes g: "wf_graph g"
  shows "dp_sound g start l d \<Longrightarrow> dp_complete g start l d \<Longrightarrow> 0 < l \<Longrightarrow>
    dp_sound g start (l + k) (dp_loop g start k d) \<and>
    dp_complete g start (l + k) (dp_loop g start k d)"
proof (induction k arbitrary: l d)
  case (Suc k)
  let ?e = "dp_extend g start d"
  have e: "dp_sound g start (Suc l) ?e" "dp_complete g start (Suc l) ?e"
    using dp_extend_sound [OF g] dp_extend_complete [OF g] Suc.prems by auto
  have nil: "dp_loop g start k [] = []" by (cases k) (simp_all add: dp_extend_def)
  show ?case
    using Suc.IH [OF e] nil by (auto simp: Let_def)
qed simp

lemma update_append_new: "k \<notin> fst ` set d \<Longrightarrow> AList.update k v d = d @ [(k, v)]"
  by (induction d) auto

lemma fold_update_set:
  "distinct ws \<Longrightarrow> inj_on key (set ws) \<Longrightarrow> (\<And>w. w \<in> set ws \<Longrightarrow> P w \<Longrightarrow> key w \<notin> fst ` set d) \<Longrightarrow>
   set (fold (\<lambda>w st. if P w then AList.update (key w) (val w) st else st) ws d) =
   set d \<union> (\<lambda>w. (key w, val w)) ` {w \<in> set ws. P w}"
proof (induction ws arbitrary: d)
  case (Cons w ws)
  show ?case
  proof (cases "P w")
    case True
    then have up: "AList.update (key w) (val w) d = d @ [(key w, val w)]"
      using Cons.prems(3) by (intro update_append_new) simp
    have "key w' \<notin> fst ` set (d @ [(key w, val w)])" if "w' \<in> set ws" "P w'" for w'
      using Cons.prems that by (auto dest: sym intro: rev_image_eqI)
    with Cons.IH [of "d @ [(key w, val w)]"] Cons.prems True show ?thesis by (auto simp: up)
  next
    case False
    with Cons.IH [of d] Cons.prems show ?thesis by auto
  qed
qed simp

lemma dp_init_correct:
  assumes g: "wf_graph g" and s: "start < order g"
  shows "dp_sound g start 2 (dp_init g start)" "dp_complete g start 2 (dp_init g start)"
proof -
  let ?e = "\<lambda>w. ((shl1 start OR shl1 w, w), [start, w])"
  have set_eq: "set (dp_init g start) = ?e ` {w \<in> set (neighbors g start). start < w}"
    unfolding dp_init_def
    by (subst fold_update_set) (auto simp: neighbors_def inj_on_def)
  have nb: "set (neighbors g start) = {v. v < order g \<and> has_edge g start v}"
    by (rule set_neighbors [OF g s])
  show "dp_sound g start 2 (dp_init g start)"
    using s by (auto simp: dp_sound_def set_eq nb dfs_inv_def)
  show "dp_complete g start 2 (dp_init g start)"
    unfolding dp_complete_def
  proof (intro allI impI)
    fix p msk assume inv: "dfs_inv g start p msk" and len: "length p = 2"
    then obtain w where p: "p = [start, w]"
      by (auto simp: dfs_inv_def numeral_2_eq_2 length_Suc_conv)
    have "shl1 start OR shl1 w = msk"
      by (rule dfs_inv_mask_unique [OF inv]) (auto simp: p)
    moreover have "w \<in> set (neighbors g start)" "start < w"
      using inv by (auto simp: p dfs_inv_def nb)
    ultimately show "(msk, last p) \<in> fst ` set (dp_init g start)"
      by (force simp: set_eq p)
  qed
qed

section \<open>Soundness and completeness\<close>

lemma dp_table_final:
  assumes "wf_graph g" "start < order g" "3 \<le> len"
  shows "dp_sound g start len (dp_loop g start (len - 2) (dp_init g start))"
    "dp_complete g start len (dp_loop g start (len - 2) (dp_init g start))"
proof -
  have "2 + (len - 2) = len" using assms(3) by simp
  with dp_loop_correct [OF assms(1) dp_init_correct [OF assms(1,2)], of "len - 2"]
  show "dp_sound g start len (dp_loop g start (len - 2) (dp_init g start))"
    "dp_complete g start len (dp_loop g start (len - 2) (dp_init g start))"
    by (simp_all del: One_nat_def add_2_eq_Suc)
qed

lemma path_mask_exists: "\<exists>msk::int. \<forall>i. bit msk i \<longleftrightarrow> i \<in> set p"
proof (induction p)
  case Nil
  show ?case by (rule exI [of _ 0]) simp
next
  case (Cons v p)
  then obtain msk :: int where "\<forall>i. bit msk i \<longleftrightarrow> i \<in> set p" by blast
  then show ?case by (intro exI [of _ "msk OR shl1 v"]) auto
qed

lemma rooted_cycle_dfs_inv:
  assumes "rooted_cycle g start c"
  obtains msk where "dfs_inv g start c msk"
proof -
  obtain msk :: int where "\<forall>i. bit msk i \<longleftrightarrow> i \<in> set c" using path_mask_exists by blast
  moreover have "c \<noteq> []" using assms by (auto simp: rooted_cycle_def is_cycle_def)
  ultimately show thesis
    using assms that [of msk] by (auto simp: dfs_inv_def rooted_cycle_def is_cycle_def)
qed

lemma find_cycle_dynamic_sound:
  assumes g: "wf_graph g" and f: "find_cycle_dynamic g len = Some c"
  shows "is_cycle g c \<and> length c = len"
proof -
  have l: "3 \<le> len" using f by (auto simp: find_cycle_dynamic_def split: if_splits)
  obtain start msk lst where s: "start < order g" "has_edge g lst start"
    "((msk, lst), c) \<in> set (dp_loop g start (len - 2) (dp_init g start))"
    using f by (auto simp: find_cycle_dynamic_def dest!: first_some_Some split: if_splits)
  then have "dfs_inv g start c msk" "last c = lst" "length c = len"
    using dp_table_final(1) [OF g s(1) l] by (auto simp: dp_sound_def)
  with s(2) l show ?thesis by (auto simp: dfs_inv_def is_cycle_def)
qed

lemma find_cycle_dynamic_complete:
  assumes g: "wf_graph g" and f: "find_cycle_dynamic g len = None"
  shows "\<not> has_cycle_of_length g len"
proof
  assume "has_cycle_of_length g len"
  then obtain c0 where c0: "is_cycle g c0" "length c0 = len" by (auto simp: has_cycle_of_length_def)
  then have l: "3 \<le> len" "len \<le> order g" using is_cycle_length by auto
  obtain m r where c: "rooted_cycle g m (m # r)" "length (m # r) = len"
    using cycle_rooted [OF c0(1)] c0(2) by metis
  obtain msk where inv: "dfs_inv g m (m # r) msk" using rooted_cycle_dfs_inv [OF c(1)] .
  have m: "m < order g" using c(1) by (simp add: rooted_cycle_def is_cycle_def)
  have "(msk, last (m # r)) \<in> fst ` set (dp_loop g m (len - 2) (dp_init g m))"
    using dp_table_final(2) [OF g m l(1)] inv c(2) unfolding dp_complete_def by blast
  then obtain q where "((msk, last (m # r)), q) \<in> set (dp_loop g m (len - 2) (dp_init g m))"
    by auto
  moreover have "has_edge g (last (m # r)) m"
    using c(1) by (simp add: rooted_cycle_def is_cycle_def)
  ultimately show False
    using f l m by (fastforce simp: find_cycle_dynamic_def first_some_None)
qed

interpretation dynamic: cycle_finder find_cycle_dynamic
  by unfold_locales (simp_all add: find_cycle_dynamic_sound find_cycle_dynamic_complete)

section \<open>Properties\<close>

text \<open>
  C21. The two independent cycle detectors agree: on a well-formed graph the subset dynamic
  program finds a cycle of a length exactly when the reference search does, and what it
  returns is a simple cycle of that length.
\<close>

theorem dynamic_agrees_with_reference:
  assumes "wf_graph g"
  shows "(find_cycle_dynamic g len = None \<longleftrightarrow> find_cycle_of_length g len = None) \<and>
    (\<forall>c. find_cycle_dynamic g len = Some c \<longrightarrow> is_cycle g c \<and> length c = len)"
  using dynamic.find_None_iff [OF assms] reference.find_None_iff [OF assms]
    dynamic.find_sound [OF assms] by blast

theorem dynamic_agrees_with_reference_witness: "find_cycle_dynamic k4 4 \<noteq> None"
proof -
  have "find_cycle_of_length k4 4 \<noteq> None" by code_simp
  with dynamic_agrees_with_reference [OF wf_k4, of 4] show ?thesis by blast
qed

end
