(* ===== verification/Graph6.thy ===== *)
theory Graph6
  imports Bit_Graph
begin

text \<open>
  The graph6 codec of \<open>src/src/sglab/model.py\<close> (\<open>encode_graph6_into\<close>, \<open>to_graph6\<close>,
  \<open>from_graph6\<close>).  Bytes are integers.  A \<open>str\<close> argument of \<open>from_graph6\<close> is first encoded
  as ASCII, so the model takes the bytes.

  \<open>packs\<close> is the format: the upper triangle of the adjacency matrix, column by column, six
  bits to a byte, most significant first, zero padded, offset by 63.  The encoder produces
  it, the decoder accepts nothing else after the order header, and a bit string has only
  one packing, which gives the round trip in both directions.
\<close>

unbundle bit_operations_syntax

section \<open>The codec\<close>

definition pairs :: "nat \<Rightarrow> (nat \<times> nat) list" where
  "pairs n = concat (map (\<lambda>v. map (\<lambda>u. (u, v)) [0..<v]) [1..<n])"

definition order_header :: "nat \<Rightarrow> int list result" where
  "order_header n =
     (if n \<le> 62 then Inr [int n + 63]
      else if n \<le> 258047 then
        Inr [126, (drop_bit 12 (int n) AND 63) + 63, (drop_bit 6 (int n) AND 63) + 63,
             (int n AND 63) + 63]
      else Inl (ValueError ''graph6 export supports at most 258047 vertices''))"

definition encode_step :: "bool \<Rightarrow> int list \<times> int \<times> nat \<Rightarrow> int list \<times> int \<times> nat" where
  "encode_step b = (\<lambda>(out, val, width).
     let val' = push_bit 1 val OR of_bool b; width' = width + 1
     in if width' = 6 then (out @ [val' + 63], 0, 0) else (out, val', width'))"

definition encode_flush :: "int list \<times> int \<times> nat \<Rightarrow> int list" where
  "encode_flush = (\<lambda>(out, val, width).
     if width \<noteq> 0 then out @ [push_bit (6 - width) val + 63] else out)"

definition encode_graph6_into :: "bitgraph \<Rightarrow> int list result" where
  "encode_graph6_into g =
     rbind (order_header (order g)) (\<lambda>hdr.
       Inr (encode_flush
         (fold (\<lambda>(u, v). encode_step (rows g ! u AND shl1 v \<noteq> 0)) (pairs (order g))
           (hdr, 0, 0))))"

definition to_graph6 :: "bitgraph \<Rightarrow> int list result" where
  "to_graph6 g = encode_graph6_into g"

definition is_space :: "int \<Rightarrow> bool" where
  "is_space b \<longleftrightarrow> b \<in> {32, 9, 10, 11, 12, 13}"

definition strip :: "int list \<Rightarrow> int list" where
  "strip bs = rev (dropWhile is_space (rev (dropWhile is_space bs)))"

definition graph6_magic :: "int list" where
  "graph6_magic = [62, 62, 103, 114, 97, 112, 104, 54, 60, 60]"

definition drop_magic :: "int list \<Rightarrow> int list" where
  "drop_magic raw = (if take 10 raw = graph6_magic then drop 10 raw else raw)"

definition parse_order :: "int list \<Rightarrow> (int \<times> nat) result" where
  "parse_order raw =
     (if raw ! 0 \<noteq> 126 then Inr (raw ! 0 - 63, 1)
      else if 4 \<le> length raw \<and> raw ! 1 \<noteq> 126 then
        Inr (push_bit 12 (raw ! 1 - 63) OR push_bit 6 (raw ! 2 - 63) OR (raw ! 3 - 63), 4)
      else Inl (ValueError ''large graph6 order encoding is unsupported''))"

definition decode_edges :: "int list \<Rightarrow> nat \<Rightarrow> (nat \<times> nat) list" where
  "decode_edges encoded n =
     map snd (filter (\<lambda>(position, e).
         (encoded ! (position div 6) - 63) AND shl1 (5 - position mod 6) \<noteq> 0)
       (enumerate 0 (pairs n)))"

definition decode_body :: "int \<Rightarrow> int list \<Rightarrow> bitgraph result" where
  "decode_body n encoded =
     (let required = n * (n - 1) div 2; required_bytes = (required + 5) div 6 in
      if \<exists>b\<in>set encoded. b < 63 \<or> 126 < b
      then Inl (ValueError ''invalid graph6 byte'')
      else if int (length encoded) < required_bytes
      then Inl (ValueError ''truncated graph6 input'')
      else if required_bytes < int (length encoded)
      then Inl (ValueError ''graph6 input contains trailing data'')
      else if required mod 6 \<noteq> 0 \<and> encoded \<noteq> [] \<and>
              (last encoded - 63) AND (shl1 (nat (6 - required mod 6)) - 1) \<noteq> 0
      then Inl (ValueError ''graph6 padding bits must be zero'')
      else from_edges n (map int_edge (decode_edges encoded (nat n))))"

definition from_graph6 :: "int list \<Rightarrow> bitgraph result" where
  "from_graph6 bytes =
     (let raw = drop_magic (strip bytes) in
      if raw = [] then Inl (ValueError ''empty graph6 input'')
      else rbind (parse_order raw) (\<lambda>(n, offset).
        if n < 0 then Inl (ValueError ''invalid graph6 order'')
        else decode_body n (drop offset raw)))"

section \<open>The format\<close>

definition packs :: "bool list \<Rightarrow> int list \<Rightarrow> bool" where
  "packs bs out \<longleftrightarrow>
     length out = (length bs + 5) div 6 \<and>
     (\<forall>j<length out. \<forall>i. bit (out ! j - 63) i \<longleftrightarrow>
        i \<le> 5 \<and> 6 * j + (5 - i) < length bs \<and> bs ! (6 * j + (5 - i)))"

definition adjacency_bits :: "bitgraph \<Rightarrow> bool list" where
  "adjacency_bits g = map (\<lambda>(u, v). has_edge g u v) (pairs (order g))"

lemma pairs_Suc: "pairs (Suc n) = pairs n @ map (\<lambda>u. (u, n)) [0..<n]"
  by (cases n) (simp_all add: pairs_def)

lemma set_pairs: "set (pairs n) = {(u, v). u < v \<and> v < n}"
  by (induction n) (auto simp: pairs_Suc pairs_def [of 0])

lemma distinct_pairs: "distinct (pairs n)"
  by (induction n) (auto simp: pairs_Suc pairs_def [of 0] distinct_map inj_on_def set_pairs)

lemma length_pairs: "2 * length (pairs n) = n * (n - 1)"
proof (induction n)
  case (Suc n)
  then show ?case by (cases n) (simp_all add: pairs_Suc)
qed (simp add: pairs_def)

lemma length_pairs_int: "int (length (pairs n)) = int n * (int n - 1) div 2"
proof -
  have "2 * int (length (pairs n)) = int n * (int n - 1)"
    using arg_cong [OF length_pairs [of n], of int] by (cases n) (simp_all add: algebra_simps)
  then show ?thesis by simp
qed

lemma packs_unique: "packs bs xs \<Longrightarrow> packs bs ys \<Longrightarrow> xs = ys"
proof (rule nth_equalityI)
  assume p: "packs bs xs" "packs bs ys"
  then show "length xs = length ys" by (simp add: packs_def)
  fix j assume "j < length xs"
  then have "xs ! j - 63 = ys ! j - 63"
    using p by (intro bit_eqI) (simp add: packs_def)
  then show "xs ! j = ys ! j" by simp
qed

lemma packs_read:
  assumes "packs bs out" "k < length bs"
  shows "k div 6 < length out" "bit (out ! (k div 6) - 63) (5 - k mod 6) \<longleftrightarrow> bs ! k"
proof -
  show j: "k div 6 < length out" using assms by (simp add: packs_def)
  have "5 - (5 - k mod 6) = k mod 6" by simp
  then show "bit (out ! (k div 6) - 63) (5 - k mod 6) \<longleftrightarrow> bs ! k"
    using assms j by (simp add: packs_def)
qed

lemma packs_bytes: "packs bs out \<Longrightarrow> b \<in> set out \<Longrightarrow> 63 \<le> b \<and> b \<le> 126"
proof -
  assume p: "packs bs out" and b: "b \<in> set out"
  then obtain j where j: "j < length out" "b = out ! j" by (auto simp: in_set_conv_nth)
  have "\<not> bit (b - 63) i" if "6 \<le> i" for i
    using p j that by (simp add: packs_def)
  then have "0 \<le> b - 63 \<and> b - 63 < 2 ^ 6" by (rule bits_ge_0I)
  then show ?thesis by simp
qed

section \<open>The encoder\<close>

definition enc_inv :: "int list \<Rightarrow> bool list \<Rightarrow> int list \<times> int \<times> nat \<Rightarrow> bool" where
  "enc_inv hdr bs = (\<lambda>(out, val, width).
     width = length bs mod 6 \<and>
     (\<forall>i. bit val i \<longleftrightarrow> i < width \<and> bs ! (length bs - 1 - i)) \<and>
     (\<exists>body. out = hdr @ body \<and> length body = length bs div 6 \<and>
        (\<forall>j<length body. \<forall>i. bit (body ! j - 63) i \<longleftrightarrow> i \<le> 5 \<and> bs ! (6 * j + (5 - i)))))"

lemma encode_value_bit:
  "bit (push_bit 1 (val::int) OR of_bool b) i \<longleftrightarrow> (if i = 0 then b else bit val (i - 1))"
  unfolding bit_or_iff bit_push_bit_iff by (cases b) (auto simp: bit_1_iff)

lemma encode_step_inv:
  assumes "enc_inv hdr bs st"
  shows "enc_inv hdr (bs @ [b]) (encode_step b st)"
proof -
  obtain out val width where st: "st = (out, val, width)" by (metis surj_pair)
  let ?v = "push_bit 1 val OR of_bool b :: int"
  from assms obtain body where w: "width = length bs mod 6"
    and val: "\<And>i. bit val i \<longleftrightarrow> i < width \<and> bs ! (length bs - 1 - i)"
    and body: "out = hdr @ body" "length body = length bs div 6"
      "\<And>j i. j < length body \<Longrightarrow> bit (body ! j - 63) i \<longleftrightarrow> i \<le> 5 \<and> bs ! (6 * j + (5 - i))"
    unfolding st enc_inv_def by auto
  have v: "bit ?v i \<longleftrightarrow> i < width + 1 \<and> (bs @ [b]) ! (length (bs @ [b]) - 1 - i)" for i
  proof (cases i)
    case 0
    then show ?thesis by (simp only: encode_value_bit) simp
  next
    case (Suc k)
    have "width \<le> length bs" by (simp add: w)
    then show ?thesis
      using Suc by (simp only: encode_value_bit) (auto simp: val nth_append)
  qed
  have old: "bit (body ! j - 63) i \<longleftrightarrow> i \<le> 5 \<and> (bs @ [b]) ! (6 * j + (5 - i))"
    if "j < length body" for j i
  proof -
    have "6 * j + (5 - i) < length bs" using that body(2) by linarith
    then show ?thesis using body(3) [OF that] by (simp add: nth_append)
  qed
  show ?thesis
  proof (cases "width = 5")
    case True
    then have len: "length bs = 6 * length body + 5" using w body(2) by presburger
    have new: "bit ((body @ [?v + 63]) ! j - 63) i \<longleftrightarrow> i \<le> 5 \<and> (bs @ [b]) ! (6 * j + (5 - i))"
      if "j < Suc (length body)" for j i
    proof (cases "j < length body")
      case True
      then show ?thesis using old [OF True] by (simp only: nth_append) simp
    next
      case False
      with that have j: "j = length body" by simp
      have "i \<le> 5 \<Longrightarrow> length (bs @ [b]) - 1 - i = 6 * j + (5 - i)" by (simp add: j len)
      then show ?thesis using v [of i] \<open>width = 5\<close> by (auto simp: j nth_append)
    qed
    have "encode_step b st = (hdr @ body @ [?v + 63], 0, 0)"
      using True by (simp add: encode_step_def st body(1) Let_def)
    moreover have "length (body @ [?v + 63]) = length (bs @ [b]) div 6" "length (bs @ [b]) mod 6 = 0"
      using len by simp_all
    ultimately show ?thesis
      unfolding enc_inv_def using new by (auto simp del: nth_append intro!: exI [of _ "body @ [?v + 63]"])
  next
    case False
    then have "encode_step b st = (out, ?v, width + 1)"
      by (simp add: encode_step_def st Let_def)
    moreover have "width + 1 = length (bs @ [b]) mod 6" "length body = length (bs @ [b]) div 6"
      using False w body(2) by (auto simp: mod_Suc div_Suc)
    ultimately show ?thesis
      unfolding enc_inv_def using v old body(1) by auto
  qed
qed

lemma encode_fold_inv:
  "enc_inv hdr bs st \<Longrightarrow> enc_inv hdr (bs @ map f xs) (fold (\<lambda>x. encode_step (f x)) xs st)"
proof (induction xs arbitrary: bs st)
  case (Cons x xs)
  from Cons.IH [OF encode_step_inv [OF Cons.prems]] show ?case by simp
qed simp

lemma encode_flush_packs:
  assumes "enc_inv hdr bs st"
  shows "\<exists>body. encode_flush st = hdr @ body \<and> packs bs body"
proof -
  obtain out val width where st: "st = (out, val, width)" by (metis surj_pair)
  from assms obtain body where w: "width = length bs mod 6"
    and val: "\<And>i. bit val i \<longleftrightarrow> i < width \<and> bs ! (length bs - 1 - i)"
    and body: "out = hdr @ body" "length body = length bs div 6"
      "\<And>j i. j < length body \<Longrightarrow> bit (body ! j - 63) i \<longleftrightarrow> i \<le> 5 \<and> bs ! (6 * j + (5 - i))"
    unfolding st enc_inv_def by auto
  have full: "6 * j + (5 - i) < length bs" if "j < length body" for i j
    using that body(2) by linarith
  show ?thesis
  proof (cases "width = 0")
    case True
    then have "(length bs + 5) div 6 = length body" using w body(2) by presburger
    with True body full show ?thesis by (auto simp: st encode_flush_def packs_def)
  next
    case False
    let ?b = "push_bit (6 - width) val + 63"
    have len: "length bs = 6 * length body + width" using w body(2) by simp
    have w6: "width < 6" by (simp add: w)
    have "bit ((body @ [?b]) ! j - 63) i \<longleftrightarrow>
        i \<le> 5 \<and> 6 * j + (5 - i) < length bs \<and> bs ! (6 * j + (5 - i))"
      if "j < Suc (length body)" for j i
    proof (cases "j < length body")
      case True
      then show ?thesis using body(3) [OF True] full [OF True] by (auto simp: nth_append)
    next
      case False
      with that have j: "j = length body" by simp
      have "length bs - 1 - (i - (6 - width)) = 6 * j + (5 - i)" if "6 - width \<le> i" "i \<le> 5"
        using that w6 len j by linarith
      then show ?thesis
        using w6 len by (auto simp: j nth_append bit_push_bit_iff val)
    qed
    moreover have "Suc (length body) = (length bs + 5) div 6" using len w6 False by linarith
    ultimately have "packs bs (body @ [?b])" by (simp add: packs_def)
    with False body(1) show ?thesis by (simp add: st encode_flush_def)
  qed
qed

lemma encode_graph6_packs:
  "order_header (order g) = Inr hdr \<Longrightarrow>
   \<exists>body. to_graph6 g = Inr (hdr @ body) \<and> packs (adjacency_bits g) body"
proof -
  assume hdr: "order_header (order g) = Inr hdr"
  have "enc_inv hdr [] (hdr, 0, 0)" by (simp add: enc_inv_def)
  from encode_flush_packs [OF encode_fold_inv [OF this,
        of "\<lambda>(u, v). has_edge g u v" "pairs (order g)"]]
  show ?thesis
    by (simp add: to_graph6_def encode_graph6_into_def hdr adjacency_bits_def has_edge_def
        case_prod_unfold)
qed

section \<open>The decoder\<close>

lemma filter_enumerate:
  assumes "\<And>k. k < length xs \<Longrightarrow> P (k, xs ! k) \<longleftrightarrow> Q (xs ! k)"
  shows "map snd (filter P (enumerate 0 xs)) = filter Q xs"
  using assms
proof (induction xs rule: rev_induct)
  case (snoc x xs)
  have "map snd (filter P (enumerate 0 xs)) = filter Q xs"
  proof (rule snoc.IH)
    fix k assume "k < length xs"
    with snoc.prems [of k] show "P (k, xs ! k) \<longleftrightarrow> Q (xs ! k)" by (simp add: nth_append)
  qed
  moreover have "P (length xs, x) \<longleftrightarrow> Q x" using snoc.prems [of "length xs"] by simp
  ultimately show ?case by (simp add: enumerate_append_eq)
qed simp

lemma length_adjacency_bits [simp]: "length (adjacency_bits g) = length (pairs (order g))"
  by (simp add: adjacency_bits_def)

lemma decode_edges_packs:
  assumes "packs (adjacency_bits g) encoded"
  shows "decode_edges encoded (order g) = filter (\<lambda>(u, v). has_edge g u v) (pairs (order g))"
  unfolding decode_edges_def
  by (rule filter_enumerate)
    (use packs_read(2) [OF assms] in \<open>simp add: adjacency_bits_def case_prod_unfold\<close>)

lemma packs_padding:
  assumes "packs bs out" "out \<noteq> []" "length bs mod 6 \<noteq> 0"
  shows "(last out - 63) AND (shl1 (6 - length bs mod 6) - 1) = 0"
proof (rule bit_eqI)
  fix i
  let ?j = "length out - 1"
  have j: "?j < length out" "last out = out ! ?j" using assms(2) by (simp_all add: last_conv_nth)
  have "6 * ?j = length bs - length bs mod 6"
  proof -
    define q r where "q = length bs div 6" and "r = length bs mod 6"
    then have len: "length bs = 6 * q + r" and "r < 6" by simp_all
    then have r: "(r + 5) div 6 = 1"
      using assms(3) r_def by (cases r) auto
    have "length out = (6 * q + (r + 5)) div 6"
      using assms(1) len by (simp add: packs_def add.assoc)
    then have "length out = q + 1" using r by simp
    then show ?thesis by (simp add: q_def minus_mod_eq_mult_div)
  qed
  then have "\<not> 6 * ?j + (5 - i) < length bs" if "i < 6 - length bs mod 6"
    using that by linarith
  then show "bit ((last out - 63) AND (shl1 (6 - length bs mod 6) - 1)) i \<longleftrightarrow> bit (0::int) i"
    using assms(1) j by (auto simp: bit_and_iff packs_def)
qed

lemma strip_clean: "\<forall>b\<in>set bs. \<not> is_space b \<Longrightarrow> strip bs = bs"
proof -
  have clean: "(\<forall>b\<in>set xs. \<not> is_space b) \<Longrightarrow> dropWhile is_space xs = xs" for xs
    by (cases xs) auto
  assume "\<forall>b\<in>set bs. \<not> is_space b"
  then show ?thesis by (simp add: strip_def clean)
qed

lemma and_63: "(k::int) AND 63 = take_bit 6 k"
  by (simp add: take_bit_eq_mask mask_eq_exp_minus_1)

lemma order_split:
  assumes "0 \<le> n" "n < 2 ^ 18"
  shows "push_bit 12 (drop_bit 12 n AND 63) OR push_bit 6 (drop_bit 6 n AND 63) OR (n AND 63) = (n::int)"
proof (rule bit_eqI)
  fix i
  have top: "bit n i \<Longrightarrow> i < 18" using bit_nonneg_bound [OF assms] .
  consider "i < 6" | "6 \<le> i" "i < 12" | "12 \<le> i" "i < 18" | "18 \<le> i" by linarith
  then show "bit (push_bit 12 (drop_bit 12 n AND 63) OR push_bit 6 (drop_bit 6 n AND 63) OR (n AND 63)) i
      \<longleftrightarrow> bit n i"
    unfolding and_63 bit_or_iff bit_push_bit_iff bit_take_bit_iff bit_drop_bit_eq comp_def
    by cases (use top in auto)
qed

lemma order_top:
  assumes "0 \<le> n" "n \<le> 258047"
  shows "drop_bit 12 n AND 63 \<noteq> (63::int)"
proof -
  have "drop_bit 12 n = n div 4096" by (simp add: drop_bit_eq_div)
  moreover have "n div 4096 < 63" using assms by simp
  ultimately show ?thesis
    using assms by (simp add: and_63 take_bit_int_eq_self)
qed

lemma take_bit_6_bounds: "0 \<le> (k::int) AND 63 \<and> (k AND 63) < 64"
  using take_bit_int_less_exp [of 6 k] by (simp add: and_63)

lemma order_header_parse:
  assumes "order_header n = Inr hdr"
  shows "parse_order (hdr @ body) = Inr (int n, length hdr)" "hdr \<noteq> []"
    "\<forall>b\<in>set hdr. 63 \<le> b \<and> b \<le> 126"
proof -
  consider (small) "n \<le> 62" "hdr = [int n + 63]"
    | (large) "\<not> n \<le> 62" "n \<le> 258047"
        "hdr = [126, (drop_bit 12 (int n) AND 63) + 63, (drop_bit 6 (int n) AND 63) + 63,
             (int n AND 63) + 63]"
    using assms by (auto simp: order_header_def split: if_splits)
  then have "parse_order (hdr @ body) = Inr (int n, length hdr) \<and> hdr \<noteq> [] \<and>
      (\<forall>b\<in>set hdr. 63 \<le> b \<and> b \<le> 126)"
  proof cases
    case small
    then show ?thesis by (simp add: parse_order_def)
  next
    case large
    have "drop_bit 12 (int n) AND 63 \<noteq> 63" using order_top [of "int n"] large(2) by simp
    moreover have "push_bit 12 (drop_bit 12 (int n) AND 63) OR push_bit 6 (drop_bit 6 (int n) AND 63)
        OR (int n AND 63) = int n"
      by (rule order_split) (use large(2) in simp_all)
    ultimately show ?thesis
      using take_bit_6_bounds [of "int n"] take_bit_6_bounds [of "drop_bit 6 (int n)"]
        take_bit_6_bounds [of "drop_bit 12 (int n)"]
      by (simp add: parse_order_def large(3))
  qed
  then show "parse_order (hdr @ body) = Inr (int n, length hdr)" "hdr \<noteq> []"
    "\<forall>b\<in>set hdr. 63 \<le> b \<and> b \<le> 126" by auto
qed

lemma raw_clean:
  assumes "raw \<noteq> []" "\<forall>b\<in>set raw. (63::int) \<le> b"
  shows "drop_magic (strip raw) = raw"
proof -
  have "strip raw = raw" by (rule strip_clean) (use assms(2) in \<open>force simp: is_space_def\<close>)
  moreover have "take 10 raw \<noteq> graph6_magic"
    using assms by (cases raw) (auto simp: graph6_magic_def)
  ultimately show ?thesis by (simp add: drop_magic_def)
qed

definition body_ok :: "nat \<Rightarrow> int list \<Rightarrow> bool" where
  "body_ok n encoded \<longleftrightarrow>
     (\<forall>b\<in>set encoded. 63 \<le> b \<and> b \<le> 126) \<and>
     length encoded = (length (pairs n) + 5) div 6 \<and>
     (length (pairs n) mod 6 \<noteq> 0 \<longrightarrow> encoded \<noteq> [] \<longrightarrow>
        (last encoded - 63) AND (shl1 (6 - length (pairs n) mod 6) - 1) = 0)"

lemma decode_body_Inr:
  "decode_body (int n) encoded = Inr g \<longleftrightarrow>
   body_ok n encoded \<and> from_edges (int n) (map int_edge (decode_edges encoded n)) = Inr g"
proof -
  let ?L = "length (pairs n)"
  have bytes: "(\<exists>b\<in>set encoded. b < 63 \<or> 126 < b) \<longleftrightarrow> \<not> (\<forall>b\<in>set encoded. 63 \<le> b \<and> b \<le> 126)"
    by (auto simp: not_le)
  define r m where "r = (?L + 5) div 6" and "m = ?L mod 6"
  have rb: "(int ?L + 5) div 6 = int r" and m6: "int ?L mod 6 = int m"
    by (simp_all add: r_def m_def zdiv_int zmod_int)
  have sh: "nat (6 - int m) = 6 - m" by simp
  show ?thesis
    unfolding decode_body_def Let_def length_pairs_int [symmetric] bytes rb m6 sh body_ok_def
      r_def [symmetric] m_def [symmetric]
    by auto
qed

lemma from_graph6_Inr:
  "from_graph6 bytes = Inr g \<longleftrightarrow>
   (\<exists>n off. drop_magic (strip bytes) \<noteq> [] \<and>
      parse_order (drop_magic (strip bytes)) = Inr (int n, off) \<and>
      decode_body (int n) (drop off (drop_magic (strip bytes))) = Inr g)"
  (is "?l \<longleftrightarrow> ?r")
proof
  assume ?l
  then obtain m off where "drop_magic (strip bytes) \<noteq> []"
    "parse_order (drop_magic (strip bytes)) = Inr (m, off)" "0 \<le> m"
    "decode_body m (drop off (drop_magic (strip bytes))) = Inr g"
    by (auto simp: from_graph6_def Let_def rbind_Inr_iff split: if_splits)
  then show ?r by (metis nonneg_int_cases)
next
  assume ?r
  then show ?l by (auto simp: from_graph6_def Let_def)
qed

lemma from_graph6_packed:
  assumes g: "wf_graph g" and hdr: "order_header (order g) = Inr hdr"
    and p: "packs (adjacency_bits g) body"
  shows "from_graph6 (hdr @ body) = Inr g"
proof -
  let ?n = "order g"
  have raw: "drop_magic (strip (hdr @ body)) = hdr @ body"
    by (rule raw_clean) (use order_header_parse(2,3) [OF hdr] packs_bytes [OF p] in auto)
  have "from_edges (int ?n) (map int_edge (decode_edges body ?n)) = Inr g"
    unfolding decode_edges_packs [OF p]
    by (rule from_edges_of_graph [OF g]) (auto simp: distinct_pairs set_pairs set_edges [OF g])
  moreover have "body_ok ?n body"
    using packs_padding [OF p] packs_bytes [OF p] p by (auto simp: body_ok_def packs_def)
  ultimately have "decode_body (int ?n) body = Inr g" by (simp add: decode_body_Inr)
  then show ?thesis
    unfolding from_graph6_Inr raw
    using order_header_parse(1) [OF hdr, of body] order_header_parse(2) [OF hdr]
    by (intro exI [of _ ?n] exI [of _ "length hdr"]) simp
qed

subsection \<open>What the decoder accepts\<close>

lemma from_graph6_wf: "from_graph6 bytes = Inr g \<Longrightarrow> wf_graph g"
  unfolding from_graph6_Inr decode_body_Inr using from_edges_Inr(1) by blast

lemma decoded_adjacency:
  assumes "from_edges (int n) (map int_edge (decode_edges encoded n)) = Inr g"
    "k < length (pairs n)"
  shows "adjacency_bits g ! k \<longleftrightarrow> bit (encoded ! (k div 6) - 63) (5 - k mod 6)"
proof -
  obtain u v where uv: "pairs n ! k = (u, v)" by fastforce
  have g: "wf_graph g" "order g = n"
    and E: "edge_set g = endpoints ` set (map int_edge (decode_edges encoded n))"
    using from_edges_Inr(1,2,3) [OF assms(1)] by auto
  have lt: "u < v" "v < n" using nth_mem [OF assms(2)] uv by (auto simp: set_pairs)
  have sub: "set (decode_edges encoded n) \<subseteq> set (pairs n)"
    by (auto simp: decode_edges_def in_set_enumerate_eq) (metis nth_mem)
  have "has_edge g u v \<longleftrightarrow> {u, v} \<in> edge_set g"
    using lt by (simp add: edge_set_iff [OF g(1)] g(2))
  also have "\<dots> \<longleftrightarrow> (u, v) \<in> set (decode_edges encoded n)"
    using lt sub by (force simp: E doubleton_eq_iff set_pairs)
  also have "\<dots> \<longleftrightarrow> bit (encoded ! (k div 6) - 63) (5 - k mod 6)"
  proof -
    have "(u, v) \<in> set (decode_edges encoded n) \<longleftrightarrow>
        (\<exists>i<length (pairs n). pairs n ! i = (u, v) \<and> bit (encoded ! (i div 6) - 63) (5 - i mod 6))"
      by (force simp: decode_edges_def in_set_enumerate_eq image_iff)
    also have "\<dots> \<longleftrightarrow> bit (encoded ! (k div 6) - 63) (5 - k mod 6)"
      using nth_eq_iff_index_eq [OF distinct_pairs] assms(2) uv by metis
    finally show ?thesis .
  qed
  finally show ?thesis
    using assms(2) uv by (simp add: adjacency_bits_def g(2))
qed

lemma body_ok_packs:
  assumes ok: "body_ok n enc"
    and fe: "from_edges (int n) (map int_edge (decode_edges enc n)) = Inr g"
  shows "packs (adjacency_bits g) enc"
proof -
  let ?L = "length (pairs n)"
  have n: "order g = n" using from_edges_Inr(2) [OF fe] .
  have len: "length enc = (?L + 5) div 6" using ok by (simp add: body_ok_def)
  have "bit (enc ! j - 63) i \<longleftrightarrow>
      i \<le> 5 \<and> 6 * j + (5 - i) < ?L \<and> adjacency_bits g ! (6 * j + (5 - i))"
    if j: "j < length enc" for j i
  proof (cases "i \<le> 5")
    case False
    have "63 \<le> enc ! j \<and> enc ! j \<le> 126" using ok j by (auto simp: body_ok_def)
    then have "bit (enc ! j - 63) i \<Longrightarrow> i < 6" by (intro bit_nonneg_bound) auto
    with False show ?thesis by auto
  next
    case i: True
    let ?k = "6 * j + (5 - i)"
    have "?k mod 6 = (5 - i) mod 6" by (rule mod_mult_self4)
    then have k: "?k div 6 = j" "5 - ?k mod 6 = i" using i by auto
    show ?thesis
    proof (cases "?k < ?L")
      case True
      with decoded_adjacency [OF fe True] k i show ?thesis by simp
    next
      case False
      have jl: "j = length enc - 1" and r: "?L mod 6 \<noteq> 0" "i < 6 - ?L mod 6"
      proof -
        have "6 * j + 1 \<le> ?L" using j len by linarith
        with False i obtain r where L: "?L = 6 * j + r" "1 \<le> r" "r \<le> 5 - i"
          by (intro that [of "?L - 6 * j"]) auto
        then have "?L mod 6 = r" by simp
        moreover have "length enc = Suc j" using len L by linarith
        ultimately show "j = length enc - 1" "?L mod 6 \<noteq> 0" "i < 6 - ?L mod 6"
          using L i by simp_all
      qed
      have "(enc ! j - 63) AND (shl1 (6 - ?L mod 6) - 1) = 0"
        using ok r(1) j jl unfolding body_ok_def by (metis last_conv_nth list.size(3) not_less_zero)
      then have "\<not> bit ((enc ! j - 63) AND (shl1 (6 - ?L mod 6) - 1)) i" by simp
      with False r(2) show ?thesis by (simp add: bit_and_iff)
    qed
  qed
  then show ?thesis by (simp add: packs_def n len)
qed

lemma from_graph6_packs:
  assumes "from_graph6 bytes = Inr g"
  obtains off where
    "parse_order (drop_magic (strip bytes)) = Inr (int (order g), off)"
    "packs (adjacency_bits g) (drop off (drop_magic (strip bytes)))"
proof -
  from assms obtain n off where "parse_order (drop_magic (strip bytes)) = Inr (int n, off)"
    and ok: "body_ok n (drop off (drop_magic (strip bytes)))"
    and fe: "from_edges (int n)
      (map int_edge (decode_edges (drop off (drop_magic (strip bytes))) n)) = Inr g"
    unfolding from_graph6_Inr decode_body_Inr by blast
  with that from_edges_Inr(2) [OF fe] body_ok_packs [OF ok fe] show thesis by simp
qed

text \<open>The form in which graphs are written to files: the encoding and a line feed.\<close>

lemma strip_newline: "strip (bs @ [10]) = strip bs"
proof (cases "\<forall>b\<in>set bs. is_space b")
  case True
  moreover have "is_space 10" by (simp add: is_space_def)
  ultimately have "dropWhile is_space bs = []" "dropWhile is_space (bs @ [10]) = []"
    by (auto simp: dropWhile_append dest: set_dropWhileD)
  then show ?thesis by (simp only: strip_def)
next
  case False
  then show ?thesis by (auto simp: strip_def dropWhile_append1 is_space_def)
qed

lemma graph6_file_round_trip:
  assumes "wf_graph g" "to_graph6 g = Inr enc"
  shows "from_graph6 (enc @ [10]) = Inr g"
proof -
  obtain hdr where hdr: "order_header (order g) = Inr hdr"
    using assms(2) by (auto simp: to_graph6_def encode_graph6_into_def rbind_Inr_iff)
  obtain body where "to_graph6 g = Inr (hdr @ body)" "packs (adjacency_bits g) body"
    using encode_graph6_packs [OF hdr] by blast
  with from_graph6_packed [OF assms(1) hdr] assms(2)
  have "from_graph6 enc = Inr g" by (metis Inr_inject)
  then show ?thesis by (simp add: from_graph6_def strip_newline)
qed

lemma graph6_encodes:
  assumes "order g \<le> 258047"
  shows "\<exists>enc. to_graph6 g = Inr enc"
proof -
  obtain hdr where "order_header (order g) = Inr hdr"
    using assms by (cases "order g \<le> 62") (auto simp: order_header_def)
  from encode_graph6_packs [OF this] show ?thesis by blast
qed

section \<open>Properties\<close>

text \<open>
  C12. Every well-formed graph of at most 258047 vertices survives a round trip through
  graph6, and the encoding consists of printable bytes only.
\<close>

theorem graph6_round_trip:
  assumes "wf_graph g" "order g \<le> 258047"
  shows "\<exists>bytes. to_graph6 g = Inr bytes \<and> from_graph6 bytes = Inr g \<and>
    (\<forall>b\<in>set bytes. 63 \<le> b \<and> b \<le> 126)"
proof -
  obtain hdr where hdr: "order_header (order g) = Inr hdr"
    using assms(2) by (cases "order g \<le> 62") (auto simp: order_header_def)
  obtain body where b: "to_graph6 g = Inr (hdr @ body)" "packs (adjacency_bits g) body"
    using encode_graph6_packs [OF hdr] by blast
  with from_graph6_packed [OF assms(1) hdr b(2)] order_header_parse(3) [OF hdr]
    packs_bytes [OF b(2)]
  show ?thesis by auto
qed

theorem graph6_round_trip_witness:
  "to_graph6 k4 = Inr [67, 126] \<and> from_graph6 [67, 126] = Inr k4"
proof -
  have enc: "to_graph6 k4 = Inr [67, 126]" by code_simp
  have "order k4 \<le> 258047" by (simp add: k4_def)
  from graph6_round_trip [OF wf_k4 this] enc show ?thesis by auto
qed

lemma from_graph6_body_canonical:
  assumes "from_graph6 bytes = Inr g" "order_header (order g) = Inr hdr"
  shows "wf_graph g \<and>
    (\<exists>off. parse_order (drop_magic (strip bytes)) = Inr (int (order g), off) \<and>
       to_graph6 g = Inr (hdr @ drop off (drop_magic (strip bytes))))"
proof -
  obtain off where off: "parse_order (drop_magic (strip bytes)) = Inr (int (order g), off)"
    "packs (adjacency_bits g) (drop off (drop_magic (strip bytes)))"
    using from_graph6_packs [OF assms(1)] .
  obtain body where "to_graph6 g = Inr (hdr @ body)" "packs (adjacency_bits g) body"
    using encode_graph6_packs [OF assms(2)] by blast
  with packs_unique [OF off(2)] off(1) from_graph6_wf [OF assms(1)] show ?thesis by auto
qed

end
