(* ===== verification/Targets.thy ===== *)
theory Targets
  imports Subset_DP Graph6
begin

text \<open>
  The target plugins and the exact verifiers: \<open>src/src/sglab/targets/base.py\<close> (result types
  and the plugin protocol), \<open>targets/erdos_gyarfas.py\<close> (\<open>forbidden_lengths\<close>,
  \<open>verify_reference\<close>, \<open>validate_graph\<close>), \<open>targets/hidden_witness_control.py\<close> and
  \<open>verify_dynamic\<close> of \<open>verification.py\<close>.  Elapsed wall-clock times are not modelled.

  The protocol \<open>TargetPlugin\<close> is the locale \<open>target_plugin\<close>: a list of forbidden cycle
  lengths, a structural validator, an exact verifier, and the law that the verifier decides
  exactly "valid and free of forbidden cycles".  Both plugins are instances.  The research
  statement is \<open>eg_counterexample\<close>, a counterexample to the Erdos-Gyarfas conjecture.
\<close>

section \<open>Result types\<close>

datatype verify_status = VERIFIED | REJECTED | UNKNOWN | INVALID

record witness =
  kind :: string
  vertices :: "nat list"

record verify_result =
  status :: verify_status
  complete :: bool
  message :: string
  witnesses :: "witness list"
  implementation :: string
  error :: "string option"

record validation_result =
  valid :: bool
  reason :: string

definition cycle_kind :: "nat \<Rightarrow> string" where
  "cycle_kind len = ''cycle_'' @ show_nat len"

section \<open>The Erdos-Gyarfas target\<close>

text \<open>The doubling loop; it starts at 4, so the test for a positive value always holds.\<close>

function forbidden_from :: "nat \<Rightarrow> nat \<Rightarrow> nat list" where
  "forbidden_from current n =
     (if 0 < current \<and> current \<le> n then current # forbidden_from (current * 2) n else [])"
  by pat_completeness auto
termination
  by (relation "measure (\<lambda>(current, n). Suc n - current)") auto

declare forbidden_from.simps [simp del]

definition forbidden_lengths :: "nat \<Rightarrow> nat list" where
  "forbidden_lengths n = forbidden_from 4 n"

definition invalid_result :: "string \<Rightarrow> string \<Rightarrow> verify_result" where
  "invalid_result msg impl =
     \<lparr>status = INVALID, complete = True, message = msg, witnesses = [],
      implementation = impl, error = None\<rparr>"

definition rejected_result :: "string \<Rightarrow> nat \<Rightarrow> nat list \<Rightarrow> string \<Rightarrow> verify_result" where
  "rejected_result msg len cycle impl =
     \<lparr>status = REJECTED, complete = True, message = msg,
      witnesses = [\<lparr>kind = cycle_kind len, vertices = cycle\<rparr>],
      implementation = impl, error = None\<rparr>"

definition verified_result :: "string \<Rightarrow> string \<Rightarrow> verify_result" where
  "verified_result msg impl =
     \<lparr>status = VERIFIED, complete = True, message = msg, witnesses = [],
      implementation = impl, error = None\<rparr>"

definition verify_reference :: "bitgraph \<Rightarrow> verify_result" where
  "verify_reference g =
     (let impl = ''python-reference-dfs'' in
      if order g = 0 then invalid_result ''graph must be non-empty'' impl
      else if \<not> is_connected g
      then invalid_result ''minimal-candidate mode requires connectedness'' impl
      else if minimum_degree g < 3 then invalid_result ''minimum degree is below 3'' impl
      else
        (case first_some (\<lambda>len. map_option (Pair len) (find_cycle_of_length g len))
                (forbidden_lengths (order g)) of
           Some (len, cycle) \<Rightarrow>
             rejected_result (''found a forbidden cycle of length '' @ show_nat len) len cycle impl
         | None \<Rightarrow>
             verified_result
               ''no power-of-two cycle was found by the complete reference verifier'' impl))"

definition eg_validate_graph :: "bitgraph \<Rightarrow> validation_result" where
  "eg_validate_graph g =
     (if order g = 0 then \<lparr>valid = False, reason = ''graph must be non-empty''\<rparr>
      else if \<not> is_connected g then \<lparr>valid = False, reason = ''graph must be connected''\<rparr>
      else if minimum_degree g < 3 then \<lparr>valid = False, reason = ''minimum degree is below 3''\<rparr>
      else \<lparr>valid = True, reason = ''valid structural candidate''\<rparr>)"

definition eg_exact_verify :: "bitgraph \<Rightarrow> verify_result" where
  "eg_exact_verify g = verify_reference g"

section \<open>The independent verifier\<close>

definition verify_dynamic :: "bitgraph \<Rightarrow> verify_result" where
  "verify_dynamic g =
     (let impl = ''python-subset-dp'' in
      if order g = 0 then invalid_result ''graph must be non-empty'' impl
      else if \<not> is_connected g
      then invalid_result ''minimal-candidate mode requires connectedness'' impl
      else if minimum_degree g < 3 then invalid_result ''minimum degree is below 3'' impl
      else
        (case first_some (\<lambda>len. map_option (Pair len) (find_cycle_dynamic g len))
                (forbidden_lengths (order g)) of
           Some (len, cycle) \<Rightarrow>
             rejected_result (''found a forbidden cycle of length '' @ show_nat len) len cycle impl
         | None \<Rightarrow>
             verified_result
               ''no power-of-two cycle was found by the complete subset-DP verifier'' impl))"

section \<open>The hidden-witness control target\<close>

definition hw_forbidden_lengths :: "nat \<Rightarrow> nat list" where
  "hw_forbidden_lengths n = (if n = 10 then [3] else [])"

definition hw_validate_graph :: "bitgraph \<Rightarrow> validation_result" where
  "hw_validate_graph g =
     (if order g \<noteq> 10 then \<lparr>valid = False, reason = ''control target requires order ten''\<rparr>
      else if \<not> is_connected g
      then \<lparr>valid = False, reason = ''control graph must be connected''\<rparr>
      else if \<exists>v\<in>set [0..<order g]. degree g v \<noteq> 3
      then \<lparr>valid = False, reason = ''control graph must be cubic''\<rparr>
      else \<lparr>valid = True, reason = ''valid hidden-witness control candidate''\<rparr>)"

definition hw_exact_verify :: "bitgraph \<Rightarrow> verify_result" where
  "hw_exact_verify g =
     (let impl = ''python-reference-dfs'';
          validation = hw_validate_graph g
      in if \<not> valid validation then invalid_result (reason validation) impl
         else (case find_cycle_of_length g 3 of
                 Some triangle \<Rightarrow> rejected_result ''found the required triangle'' 3 triangle impl
               | None \<Rightarrow>
                   verified_result ''no triangle exists in the complete reference search'' impl))"

section \<open>Specification\<close>

definition eg_counterexample :: "bitgraph \<Rightarrow> bool" where
  "eg_counterexample g \<longleftrightarrow>
     wf_graph g \<and> 0 < order g \<and> connected_graph g \<and>
     (\<forall>u<order g. 3 \<le> card {v. v < order g \<and> has_edge g u v}) \<and>
     (\<forall>c k. is_cycle g c \<longrightarrow> length c \<noteq> 2 ^ k)"

lemma set_forbidden_from:
  "0 < c \<Longrightarrow> set (forbidden_from c n) = {c * 2 ^ k |k. c * 2 ^ k \<le> n}"
proof (induction c n rule: forbidden_from.induct)
  case (1 c n)
  show ?case
  proof (cases "c \<le> n")
    case True
    with 1 have IH: "set (forbidden_from (c * 2) n) = {c * 2 * 2 ^ k |k. c * 2 * 2 ^ k \<le> n}"
      by simp
    have "{c * 2 ^ k |k. c * 2 ^ k \<le> n} = insert c {c * 2 * 2 ^ k |k. c * 2 * 2 ^ k \<le> n}"
    proof (intro set_eqI iffI)
      fix x assume "x \<in> {c * 2 ^ k |k. c * 2 ^ k \<le> n}"
      then obtain k where "x = c * 2 ^ k" "x \<le> n" by auto
      then show "x \<in> insert c {c * 2 * 2 ^ k |k. c * 2 * 2 ^ k \<le> n}"
        by (cases k) (auto simp: mult.assoc)
    next
      fix x assume "x \<in> insert c {c * 2 * 2 ^ k |k. c * 2 * 2 ^ k \<le> n}"
      then show "x \<in> {c * 2 ^ k |k. c * 2 ^ k \<le> n}"
        using True by (auto simp: mult.assoc intro: exI [of _ 0] exI [of _ "Suc _"])
    qed
    with IH True "1.prems" show ?thesis by (subst forbidden_from.simps) simp
  next
    case False
    have "\<not> c * 2 ^ k \<le> n" for k
    proof -
      have "c \<le> c * 2 ^ k" by simp
      with False show ?thesis by linarith
    qed
    with False show ?thesis by (subst forbidden_from.simps) simp
  qed
qed

lemma set_forbidden_lengths: "set (forbidden_lengths n) = {2 ^ k |k. 2 \<le> k \<and> 2 ^ k \<le> n}"
proof -
  have "4 * 2 ^ k = (2::nat) ^ (k + 2)" for k by (simp add: power_add)
  then have "set (forbidden_lengths n) = {2 ^ (k + 2) |k. 2 ^ (k + 2) \<le> n}"
    unfolding forbidden_lengths_def by (subst set_forbidden_from) simp_all
  also have "\<dots> = {2 ^ k |k. 2 \<le> k \<and> 2 ^ k \<le> n}"
  proof (intro set_eqI iffI)
    fix x :: nat assume "x \<in> {2 ^ k |k. 2 \<le> k \<and> 2 ^ k \<le> n}"
    then obtain k where k: "x = 2 ^ k" "2 \<le> k" "x \<le> n" by auto
    then have "x = 2 ^ (k - 2 + 2)" by (simp only: le_add_diff_inverse2)
    with k(3) show "x \<in> {2 ^ (k + 2) |k. 2 ^ (k + 2) \<le> n}" by blast
  next
    fix x :: nat assume "x \<in> {2 ^ (k + 2) |k. 2 ^ (k + 2) \<le> n}"
    then obtain k where "x = 2 ^ (k + 2)" "x \<le> n" by auto
    moreover have "2 \<le> k + 2" by simp
    ultimately show "x \<in> {2 ^ k |k. 2 \<le> k \<and> 2 ^ k \<le> n}" by blast
  qed
  finally show ?thesis .
qed

lemma is_cycle_power_forbidden:
  assumes "is_cycle g c" "length c = 2 ^ k"
  shows "length c \<in> set (forbidden_lengths (order g))"
proof -
  have l: "3 \<le> length c" "length c \<le> order g" using is_cycle_length [OF assms(1)] by auto
  then have "2 \<le> k" using assms(2) by (cases k; cases "k - 1") auto
  with l assms(2) show ?thesis by (auto simp: set_forbidden_lengths)
qed

lemma eg_counterexample_iff:
  assumes "wf_graph g"
  shows "eg_counterexample g \<longleftrightarrow>
    order g \<noteq> 0 \<and> is_connected g \<and> \<not> minimum_degree g < 3 \<and>
    (\<forall>len\<in>set (forbidden_lengths (order g)). \<not> has_cycle_of_length g len)"
proof -
  have cyc: "(\<forall>c k. is_cycle g c \<longrightarrow> length c \<noteq> 2 ^ k) \<longleftrightarrow>
      (\<forall>len\<in>set (forbidden_lengths (order g)). \<not> has_cycle_of_length g len)"
  proof
    assume *: "\<forall>c k. is_cycle g c \<longrightarrow> length c \<noteq> 2 ^ k"
    show "\<forall>len\<in>set (forbidden_lengths (order g)). \<not> has_cycle_of_length g len"
      using * by (auto simp: set_forbidden_lengths has_cycle_of_length_def)
  next
    assume *: "\<forall>len\<in>set (forbidden_lengths (order g)). \<not> has_cycle_of_length g len"
    show "\<forall>c k. is_cycle g c \<longrightarrow> length c \<noteq> 2 ^ k"
      using * is_cycle_power_forbidden [of g] unfolding has_cycle_of_length_def by metis
  qed
  have "(\<forall>u<order g. 3 \<le> card {v. v < order g \<and> has_edge g u v}) \<longleftrightarrow> \<not> minimum_degree g < 3"
    if "0 < order g"
    using minimum_degree_ge [OF assms that, of 3] degree_card [OF assms] by (simp add: not_less)
  with cyc show ?thesis
    unfolding eg_counterexample_def using assms is_connected_iff [OF assms] by auto
qed

section \<open>The plugin protocol\<close>

locale target_plugin =
  fixes lengths :: "nat \<Rightarrow> nat list"
    and validate :: "bitgraph \<Rightarrow> validation_result"
    and exact_verify :: "bitgraph \<Rightarrow> verify_result"
  assumes verified: "wf_graph g \<Longrightarrow> status (exact_verify g) = VERIFIED \<longleftrightarrow>
      valid (validate g) \<and> (\<forall>len\<in>set (lengths (order g)). \<not> has_cycle_of_length g len)"
    and invalid: "wf_graph g \<Longrightarrow> status (exact_verify g) = INVALID \<longleftrightarrow> \<not> valid (validate g)"
    and rejected: "wf_graph g \<Longrightarrow> status (exact_verify g) = REJECTED \<Longrightarrow>
      \<exists>w. witnesses (exact_verify g) = [w] \<and> is_cycle g (vertices w) \<and>
          length (vertices w) \<in> set (lengths (order g)) \<and> kind w = cycle_kind (length (vertices w))"
    and decided: "wf_graph g \<Longrightarrow> status (exact_verify g) \<noteq> UNKNOWN \<and> complete (exact_verify g)"
begin

lemma rejected_iff:
  assumes "wf_graph g"
  shows "status (exact_verify g) = REJECTED \<longleftrightarrow>
    valid (validate g) \<and> (\<exists>len\<in>set (lengths (order g)). has_cycle_of_length g len)"
  using verified [OF assms] invalid [OF assms] decided [OF assms]
  by (cases "status (exact_verify g)") auto

lemma no_witness_for_verified:
  assumes "wf_graph g" "status (exact_verify g) = VERIFIED" "is_cycle g c"
  shows "length c \<notin> set (lengths (order g))"
  using assms verified [OF assms(1)] by (auto simp: has_cycle_of_length_def)

end

lemmas verifier_results =
  invalid_result_def rejected_result_def verified_result_def

interpretation eg: target_plugin forbidden_lengths eg_validate_graph eg_exact_verify
proof
  fix g assume g: "wf_graph g"
  note facts = reference.find_any_None [OF g, unfolded reference.find_any_def]
    reference.find_any_Some [OF g, unfolded reference.find_any_def]
  show "status (eg_exact_verify g) = VERIFIED \<longleftrightarrow>
      valid (eg_validate_graph g) \<and>
      (\<forall>len\<in>set (forbidden_lengths (order g)). \<not> has_cycle_of_length g len)"
    by (auto simp: eg_exact_verify_def verify_reference_def eg_validate_graph_def Let_def
        verifier_results simp flip: facts(1) split: option.splits)
  show "status (eg_exact_verify g) = INVALID \<longleftrightarrow> \<not> valid (eg_validate_graph g)"
    by (auto simp: eg_exact_verify_def verify_reference_def eg_validate_graph_def Let_def
        verifier_results split: option.splits)
  show "status (eg_exact_verify g) \<noteq> UNKNOWN \<and> complete (eg_exact_verify g)"
    by (auto simp: eg_exact_verify_def verify_reference_def Let_def verifier_results
        split: option.splits)
  show "\<exists>w. witnesses (eg_exact_verify g) = [w] \<and> is_cycle g (vertices w) \<and>
        length (vertices w) \<in> set (forbidden_lengths (order g)) \<and>
        kind w = cycle_kind (length (vertices w))"
    if "status (eg_exact_verify g) = REJECTED"
    using that facts(2)
    by (fastforce simp: eg_exact_verify_def verify_reference_def Let_def verifier_results
        split: option.splits if_splits)
qed

interpretation hw: target_plugin hw_forbidden_lengths hw_validate_graph hw_exact_verify
proof
  fix g assume g: "wf_graph g"
  have order: "valid (hw_validate_graph g) \<Longrightarrow> order g = 10"
    by (auto simp: hw_validate_graph_def split: if_splits)
  have tri: "find_cycle_of_length g 3 = None \<longleftrightarrow> \<not> has_cycle_of_length g 3"
    by (rule reference.find_None_iff [OF g])
  show "status (hw_exact_verify g) = VERIFIED \<longleftrightarrow>
      valid (hw_validate_graph g) \<and>
      (\<forall>len\<in>set (hw_forbidden_lengths (order g)). \<not> has_cycle_of_length g len)"
    using order tri
    by (auto simp: hw_exact_verify_def hw_forbidden_lengths_def Let_def verifier_results
        split: option.splits)
  show "status (hw_exact_verify g) = INVALID \<longleftrightarrow> \<not> valid (hw_validate_graph g)"
    by (auto simp: hw_exact_verify_def Let_def verifier_results split: option.splits)
  show "status (hw_exact_verify g) \<noteq> UNKNOWN \<and> complete (hw_exact_verify g)"
    by (auto simp: hw_exact_verify_def Let_def verifier_results split: option.splits)
  show "\<exists>w. witnesses (hw_exact_verify g) = [w] \<and> is_cycle g (vertices w) \<and>
        length (vertices w) \<in> set (hw_forbidden_lengths (order g)) \<and>
        kind w = cycle_kind (length (vertices w))"
    if "status (hw_exact_verify g) = REJECTED"
    using that reference.find_sound [OF g, of 3] order
    by (auto simp: hw_exact_verify_def hw_forbidden_lengths_def Let_def verifier_results
        split: option.splits if_splits)
qed

section \<open>Properties\<close>

text \<open>
  C4. The reference verifier decides the research question: its verdict on a well-formed
  graph is \<open>VERIFIED\<close> exactly for a connected counterexample to the Erdos-Gyarfas
  conjecture (minimum degree at least three, no cycle whose length is a power of two), and
  a \<open>REJECTED\<close> verdict carries a simple cycle whose length is a power of two.
\<close>

theorem verify_reference_decides:
  assumes "wf_graph g"
  shows "(status (verify_reference g) = VERIFIED \<longleftrightarrow> eg_counterexample g) \<and>
    (status (verify_reference g) = REJECTED \<longrightarrow>
       (\<exists>w k. witnesses (verify_reference g) = [w] \<and> is_cycle g (vertices w) \<and>
          length (vertices w) = 2 ^ k)) \<and>
    complete (verify_reference g)"
proof -
  have "status (verify_reference g) = VERIFIED \<longleftrightarrow> eg_counterexample g"
    using eg.verified [OF assms] unfolding eg_counterexample_iff [OF assms]
    by (auto simp: eg_exact_verify_def eg_validate_graph_def)
  moreover have "\<exists>w k. witnesses (verify_reference g) = [w] \<and> is_cycle g (vertices w) \<and>
      length (vertices w) = 2 ^ k" if "status (verify_reference g) = REJECTED"
    using eg.rejected [OF assms] that by (auto simp: eg_exact_verify_def set_forbidden_lengths)
  ultimately show ?thesis using eg.decided [OF assms] by (simp add: eg_exact_verify_def)
qed

theorem verify_reference_decides_witness: "\<not> eg_counterexample k4"
proof -
  have "status (verify_reference k4) \<noteq> VERIFIED" by code_simp
  with verify_reference_decides [OF wf_k4] show ?thesis by blast
qed

lemma verifiers_agree:
  assumes "wf_graph g"
  shows "status (verify_dynamic g) = status (verify_reference g)"
proof -
  have "first_some (\<lambda>len. map_option (Pair len) (find_cycle_dynamic g len)) ls = None \<longleftrightarrow>
      first_some (\<lambda>len. map_option (Pair len) (find_cycle_of_length g len)) ls = None" for ls
    using dynamic.find_None_iff [OF assms] reference.find_None_iff [OF assms]
    by (simp add: first_some_None)
  from this [of "forbidden_lengths (order g)"] show ?thesis
    by (auto simp: verify_dynamic_def verify_reference_def Let_def verifier_results
        split: option.splits)
qed

text \<open>The Petersen graph, the witness the control target hides.\<close>

definition petersen :: bitgraph where
  "petersen = \<lparr>order = 10, rows = [50, 69, 138, 276, 521, 385, 770, 548, 104, 208]\<rparr>"

lemma wf_petersen: "wf_graph petersen"
proof -
  have "BitGraph 10 [50, 69, 138, 276, 521, 385, 770, 548, 104, 208] = Inr petersen"
    by code_simp
  then show ?thesis by (simp add: BitGraph_Inr)
qed

lemma hw_verifier_decides:
  assumes "wf_graph g"
  shows "status (hw_exact_verify g) = VERIFIED \<longleftrightarrow>
    order g = 10 \<and> connected_graph g \<and>
    (\<forall>u<10. card {v. v < order g \<and> has_edge g u v} = 3) \<and> \<not> has_cycle_of_length g 3"
proof -
  have "valid (hw_validate_graph g) \<longleftrightarrow>
      order g = 10 \<and> connected_graph g \<and> (\<forall>u<10. card {v. v < order g \<and> has_edge g u v} = 3)"
    using is_connected_iff [OF assms] degree_card [OF assms]
    by (auto simp: hw_validate_graph_def)
  with hw.verified [OF assms] show ?thesis by (auto simp: hw_forbidden_lengths_def)
qed

end
