(* ===== verification/Cnf.thy ===== *)
theory Cnf
  imports Dpll Targets
begin

text \<open>
  The propositional encoding of the search for a counterexample in \<open>src/src/sglab/sat.py\<close>:
  \<open>EdgeVariables\<close>, \<open>base_cnf\<close>, \<open>cycle_clause\<close>, \<open>_components\<close>, \<open>connectedness_clause\<close> and
  \<open>decode_model\<close>.

  \<open>var\<close> is the numbering of unordered pairs; \<open>variable\<close> is the method, which raises on a loop.
  The comprehensions of \<open>base_cnf\<close>, \<open>connectedness_clause\<close> and \<open>decode_model\<close> only form pairs
  of different vertices and use \<open>var\<close>.  The meaning of the encoding is given by
  \<open>graph_assignment\<close>, the assignment that makes true the variables of the edges of a graph.
\<close>

section \<open>Edge variables\<close>

definition var :: "nat \<Rightarrow> nat \<Rightarrow> nat \<Rightarrow> int" where
  "var n u v =
     (let (a, b) = (if u > v then (v, u) else (u, v))
      in 1 + int a * (2 * int n - int a - 1) div 2 + (int b - int a - 1))"

definition variable :: "nat \<Rightarrow> nat \<Rightarrow> nat \<Rightarrow> int result" where
  "variable n u v = (if u = v then Inl (ValueError ''loops have no SAT variable'') else Inr (var n u v))"

definition variable_count :: "nat \<Rightarrow> nat" where
  "variable_count n = n * (n - 1) div 2"

text \<open>The vertex pairs in the order of the nested loops.\<close>

definition pairs :: "nat \<Rightarrow> (nat \<times> nat) list" where
  "pairs n = concat (map (\<lambda>u. map (Pair u) [u + 1..<n]) [0..<n])"

definition edge_of :: "nat \<Rightarrow> int \<Rightarrow> (nat \<times> nat) result" where
  "edge_of n k =
     (case find (\<lambda>(u, v). var n u v = k) (pairs n) of
        Some e \<Rightarrow> Inr e
      | None \<Rightarrow> Inl (ValueError ''variable is outside edge range''))"

section \<open>Clauses\<close>

text \<open>\<open>itertools.combinations\<close>: the sublists of length \<open>k\<close>, in lexicographic order of positions.\<close>

fun combinations :: "'a list \<Rightarrow> nat \<Rightarrow> 'a list list" where
  "combinations xs 0 = [[]]"
| "combinations [] (Suc k) = []"
| "combinations (x # xs) (Suc k) = map ((#) x) (combinations xs k) @ combinations xs (Suc k)"

definition incident :: "nat \<Rightarrow> nat \<Rightarrow> int list" where
  "incident n vertex = map (var n vertex) (filter (\<lambda>other. other \<noteq> vertex) [0..<n])"

definition base_cnf :: "nat \<Rightarrow> clause list result" where
  "base_cnf n =
     (if n < 4 then Inl (ValueError ''minimum degree 3 requires order at least 4'')
      else if n > 40 then Inl (ValueError ''the v1 SAT path is limited to order 40'')
      else Inr (concat (map (\<lambda>vertex. combinations (incident n vertex) (length (incident n vertex) - 2))
                  [0..<n]) @ [[var n 0 1]]))"

definition cycle_clause :: "nat \<Rightarrow> nat list \<Rightarrow> clause result" where
  "cycle_clause n cycle =
     (if length cycle < 3 \<or> card (set cycle) \<noteq> length cycle
      then Inl (ValueError ''cycle witness must contain distinct vertices'')
      else Inr (map (\<lambda>i. - var n (cycle ! i) (cycle ! ((i + 1) mod length cycle))) [0..<length cycle]))"

definition connectedness_clause :: "nat \<Rightarrow> nat set \<Rightarrow> clause" where
  "connectedness_clause n component =
     concat (map (\<lambda>u. map (var n u) (sorted_list_of_set ({0..<n} - component)))
       (sorted_list_of_set component))"

definition decode_model :: "nat \<Rightarrow> int list \<Rightarrow> bitgraph result" where
  "decode_model n model =
     (let positive = filter (\<lambda>literal. literal > 0) model
      in from_edges (int n) (map int_edge (filter (\<lambda>(u, v). var n u v \<in> set positive) (pairs n))))"

section \<open>Components\<close>

text \<open>
  The sets \<open>remaining\<close> and \<open>component\<close> and the stack \<open>frontier\<close>; the set \<open>remaining\<close> is a list
  without repetition, \<open>frontier.pop()\<close> takes the last element.
\<close>

definition absorb_neighbors ::
  "bitgraph \<Rightarrow> nat \<Rightarrow> nat list \<times> nat set \<times> nat list \<Rightarrow> nat list \<times> nat set \<times> nat list" where
  "absorb_neighbors g u =
     fold (\<lambda>v (remaining, component, frontier).
        if v \<in> set remaining then (removeAll v remaining, insert v component, frontier @ [v])
        else (remaining, component, frontier)) (neighbors g u)"

definition search_size :: "nat list \<times> nat set \<times> nat list \<Rightarrow> nat" where
  "search_size = (\<lambda>(remaining, _, frontier). 2 * length remaining + length frontier)"

lemma length_removeAll_mem: "v \<in> set xs \<Longrightarrow> length (removeAll v xs) < length xs"
  by (metis length_removeAll_less)

lemma absorb_neighbors_size:
  "search_size (absorb_neighbors g u s) \<le> search_size s"
  "length (fst (absorb_neighbors g u s)) \<le> length (fst s)"
proof -
  have "search_size (fold (\<lambda>v (remaining, component, frontier).
        if v \<in> set remaining then (removeAll v remaining, insert v component, frontier @ [v])
        else (remaining, component, frontier)) vs s) \<le> search_size s \<and>
    length (fst (fold (\<lambda>v (remaining, component, frontier).
        if v \<in> set remaining then (removeAll v remaining, insert v component, frontier @ [v])
        else (remaining, component, frontier)) vs s)) \<le> length (fst s)" for vs
  proof (induction vs arbitrary: s)
    case (Cons v vs)
    obtain r c f where s: "s = (r, c, f)" by (cases s)
    show ?case
    proof (cases "v \<in> set r")
      case True
      then show ?thesis
        using Cons [of "(removeAll v r, insert v c, f @ [v])"] length_removeAll_mem [OF True]
        by (simp add: s search_size_def)
    next
      case False
      then show ?thesis using Cons [of s] by (simp add: s)
    qed
  qed simp
  then show "search_size (absorb_neighbors g u s) \<le> search_size s"
    "length (fst (absorb_neighbors g u s)) \<le> length (fst s)"
    by (simp_all add: absorb_neighbors_def)
qed

function component_loop :: "bitgraph \<Rightarrow> nat list \<times> nat set \<times> nat list \<Rightarrow> nat list \<times> nat set" where
  "component_loop g (remaining, component, frontier) =
     (if frontier = [] then (remaining, component)
      else component_loop g (absorb_neighbors g (last frontier) (remaining, component, butlast frontier)))"
  by pat_completeness auto
termination
proof (relation "measure (search_size \<circ> snd)", goal_cases)
  case (2 g remaining component frontier)
  then show ?case
    using absorb_neighbors_size(1) [of g "last frontier" "(remaining, component, butlast frontier)"]
    by (auto simp: search_size_def intro: le_less_trans)
qed simp

declare component_loop.simps [simp del]

lemma component_loop_length: "length (fst (component_loop g s)) \<le> length (fst s)"
proof (induction g s rule: component_loop.induct)
  case (1 g remaining component frontier)
  then show ?case
    using absorb_neighbors_size(2) [of g "last frontier" "(remaining, component, butlast frontier)"]
    by (subst component_loop.simps) (auto intro: order_trans)
qed

function components_from :: "bitgraph \<Rightarrow> nat list \<Rightarrow> nat set list" where
  "components_from g remaining =
     (if remaining = [] then []
      else
        let start = Min (set remaining);
            (remaining', component) = component_loop g (removeAll start remaining, {start}, [start])
        in component # components_from g remaining')"
  by pat_completeness auto
termination
proof (relation "measure (length \<circ> snd)", goal_cases)
  case (2 g remaining start p remaining' component)
  then have "remaining' = fst (component_loop g (removeAll start remaining, {start}, [start]))"
    by (metis fst_conv)
  with 2 show ?case
    using component_loop_length [of g "(removeAll start remaining, {start}, [start])"]
      length_removeAll_mem [of start remaining] by simp
qed simp

declare components_from.simps [simp del]

definition components :: "bitgraph \<Rightarrow> nat set list" where
  "components g = components_from g [0..<order g]"


section \<open>The numbering of edges\<close>

definition row_offset :: "nat \<Rightarrow> nat \<Rightarrow> int" where
  "row_offset n u = int u * (2 * int n - int u - 1) div 2"

lemma row_offset_Suc: "row_offset n (Suc u) = row_offset n u + (int n - 1 - int u)"
proof -
  have "int (Suc u) * (2 * int n - int (Suc u) - 1) =
      int u * (2 * int n - int u - 1) + 2 * (int n - 1 - int u)"
    by (simp add: algebra_simps)
  then show ?thesis by (simp add: row_offset_def)
qed

lemma row_offset_mono: "u \<le> w \<Longrightarrow> w \<le> n \<Longrightarrow> row_offset n u \<le> row_offset n w"
  by (induction w rule: dec_induct) (auto simp: row_offset_Suc)

lemma row_offset_n: "row_offset n n = int (variable_count n)"
proof -
  have "row_offset n n = int (n * (n - 1)) div 2"
    by (cases n) (simp_all add: row_offset_def algebra_simps)
  then show ?thesis by (simp add: variable_count_def zdiv_int)
qed

lemma var_sym: "var n u v = var n v u"
  by (auto simp: var_def)

lemma var_less: "u < v \<Longrightarrow> var n u v = row_offset n u + int v - int u"
  by (simp add: var_def row_offset_def)

lemma var_bounds:
  assumes "u < v" "v < n"
  shows "row_offset n u < var n u v" "var n u v \<le> row_offset n (Suc u)"
  using assms by (auto simp: var_less row_offset_Suc)

lemma var_inj:
  assumes "u < v" "v < n" "x < y" "y < n" "var n u v = var n x y"
  shows "u = x \<and> v = y"
proof -
  have *: "\<not> a < c" if "a < b" "b < n" "c < d" "d < n" "var n a b = var n c d" for a b c d
  proof
    assume "a < c"
    then have "row_offset n (Suc a) \<le> row_offset n c" using that by (intro row_offset_mono) auto
    with var_bounds [OF that(1,2)] var_bounds [OF that(3,4)] that(5) show False by linarith
  qed
  have "u = x" using * [OF assms(1-5)] * [OF assms(3,4,1,2) assms(5) [symmetric]] by linarith
  with assms show ?thesis by (simp add: var_less)
qed

lemma var_range:
  assumes "u \<noteq> v" "u < n" "v < n"
  shows "0 < var n u v" "var n u v \<le> int (variable_count n)"
proof -
  have *: "0 < var n a b \<and> var n a b \<le> int (variable_count n)" if "a < b" "b < n" for a b
  proof -
    have "row_offset n 0 \<le> row_offset n a" "row_offset n (Suc a) \<le> row_offset n n"
      using that by (auto intro!: row_offset_mono)
    moreover have "row_offset n 0 = 0" by (simp add: row_offset_def)
    ultimately show ?thesis using var_bounds [OF that] by (simp add: row_offset_n)
  qed
  show "0 < var n u v" "var n u v \<le> int (variable_count n)"
    using * [of u v] * [of v u] assms var_sym [of n u v] by (cases "u < v"; simp)+
qed

lemma var_edge_inj:
  assumes "u \<noteq> v" "u < n" "v < n" "x \<noteq> y" "x < n" "y < n"
  shows "var n u v = var n x y \<longleftrightarrow> {u, v} = {x, y}"
proof
  have *: "{a, b} = {c, d}" if "a < b" "b < n" "c < d" "d < n" "var n a b = var n c d" for a b c d
    using var_inj [OF that] by simp
  assume eq: "var n u v = var n x y"
  show "{u, v} = {x, y}"
    using * [of u v x y] * [of u v y x] * [of v u x y] * [of v u y x] assms eq var_sym [of n]
    by (cases "u < v"; cases "x < y") (simp_all add: insert_commute)
next
  assume "{u, v} = {x, y}"
  then show "var n u v = var n x y" using var_sym by (auto simp: doubleton_eq_iff)
qed

lemma set_edge_pairs: "set (pairs n) = {(u, v). u < v \<and> v < n}"
proof (intro set_eqI iffI)
  fix e assume "e \<in> {(u, v). u < v \<and> v < n}"
  then show "e \<in> set (pairs n)"
    by (cases e) (auto simp: pairs_def intro!: bexI [of _ "fst e"])
qed (auto simp: pairs_def)

lemma distinct_edge_pairs: "distinct (pairs n)"
  unfolding pairs_def by (rule distinct_concat_pairs) simp_all

lemma length_edge_pairs: "int (length (pairs n)) = int (variable_count n)"
proof -
  have "int (sum_list (map (\<lambda>u. n - Suc u) [0..<k])) = row_offset n k" if "k \<le> n" for k
    using that by (induction k) (auto simp: row_offset_def [of n 0] row_offset_Suc)
  from this [of n] show ?thesis by (simp add: pairs_def length_concat comp_def row_offset_n)
qed

lemma var_image: "(\<lambda>(u, v). var n u v) ` set (pairs n) = {1..int (variable_count n)}"
proof (rule card_subset_eq)
  have "inj_on (\<lambda>(u, v). var n u v) (set (pairs n))"
    by (auto simp: inj_on_def set_edge_pairs dest: var_inj)
  then show "card ((\<lambda>(u, v). var n u v) ` set (pairs n)) = card {1..int (variable_count n)}"
    using length_edge_pairs [of n] by (simp add: card_image distinct_card [OF distinct_edge_pairs])
  show "(\<lambda>(u, v). var n u v) ` set (pairs n) \<subseteq> {1..int (variable_count n)}"
  proof (clarsimp simp: set_edge_pairs)
    fix u v assume "u < v" "v < n"
    then show "1 \<le> var n u v \<and> var n u v \<le> int (variable_count n)" using var_range [of u v n] by simp
  qed
qed simp

lemma find_unique:
  assumes "x \<in> set xs" "P x" "\<And>y. y \<in> set xs \<Longrightarrow> P y \<Longrightarrow> y = x"
  shows "find P xs = Some x"
proof (cases "find P xs")
  case None
  then have "\<not> P x" using assms(1) by (simp add: find_None_iff)
  with assms(2) show ?thesis by simp
next
  case (Some y)
  then have "y \<in> set xs" "P y" by (metis find_Some_iff nth_mem)+
  with assms(3) Some show ?thesis by simp
qed

lemma edge_of_var: "u < v \<Longrightarrow> v < n \<Longrightarrow> edge_of n (var n u v) = Inr (u, v)"
proof -
  assume uv: "u < v" "v < n"
  have "find (\<lambda>(x, y). var n x y = var n u v) (pairs n) = Some (u, v)"
    using uv by (intro find_unique) (auto simp: set_edge_pairs dest: var_inj [OF _ _ uv])
  then show ?thesis by (simp add: edge_of_def)
qed

section \<open>Assignments and graphs\<close>

definition graph_assignment :: "bitgraph \<Rightarrow> int \<Rightarrow> bool" where
  "graph_assignment g k \<longleftrightarrow> (\<exists>u v. {u, v} \<in> edge_set g \<and> var (order g) u v = k)"

lemma graph_assignment_var:
  assumes "wf_graph g" "u \<noteq> v" "u < order g" "v < order g"
  shows "graph_assignment g (var (order g) u v) \<longleftrightarrow> {u, v} \<in> edge_set g"
proof
  assume "graph_assignment g (var (order g) u v)"
  then obtain x y where e: "{x, y} \<in> edge_set g" "var (order g) x y = var (order g) u v"
    by (auto simp: graph_assignment_def)
  have "x \<noteq> y" using e(1) edge_set_no_loop [OF assms(1), of y] by auto
  moreover have "x < order g" "y < order g" using e(1) edge_set_iff [OF assms(1)] by auto
  ultimately show "{u, v} \<in> edge_set g"
    using e var_edge_inj [of x y "order g" u v] assms(2-4) by simp
qed (auto simp: graph_assignment_def)

lemma decode_model_Inr:
  obtains g where "decode_model n m = Inr g" "wf_graph g" "order g = n"
    "\<And>u v. u \<noteq> v \<Longrightarrow> u < n \<Longrightarrow> v < n \<Longrightarrow> {u, v} \<in> edge_set g \<longleftrightarrow> model_assignment m (var n u v)"
proof -
  let ?es = "filter (\<lambda>(u, v). var n u v \<in> set (filter (\<lambda>l. l > 0) m)) (pairs n)"
  have es: "set ?es = {(u, v). u < v \<and> v < n \<and> model_assignment m (var n u v)}"
    using var_range(1) by (auto simp: set_edge_pairs model_assignment_def)
  have v: "\<forall>e\<in>set (map int_edge ?es). valid_pair n e"
    by (auto simp: es valid_pair_def int_edge_def simp del: set_filter)
  have "inj_on (\<lambda>e. endpoints (int_edge e)) (set ?es)"
    by (auto simp: inj_on_def es doubleton_eq_iff simp del: set_filter)
  then have d: "distinct (map endpoints (map int_edge ?es))"
    using distinct_edge_pairs by (simp add: distinct_map comp_def)
  obtain g where g: "from_edges (int n) (map int_edge ?es) = Inr g"
    using from_edges_ok [of n "map int_edge ?es"] v d unfolding is_ok_iff by blast
  have "{u, v} \<in> edge_set g \<longleftrightarrow> model_assignment m (var n u v)" if "u \<noteq> v" "u < n" "v < n" for u v
  proof -
    have "edge_set g = (\<lambda>(x, y). {x, y}) ` set ?es"
      using from_edges_Inr(3) [OF g] by (auto simp: image_image intro!: image_cong)
    then have "{u, v} \<in> edge_set g \<longleftrightarrow> (\<exists>x y. x < y \<and> y < n \<and> model_assignment m (var n x y) \<and> {u, v} = {x, y})"
      unfolding es by auto
    also have "\<dots> \<longleftrightarrow> model_assignment m (var n u v)"
    proof
      assume "model_assignment m (var n u v)"
      then have "\<exists>x y. x < y \<and> y < n \<and> model_assignment m (var n x y) \<and> {u, v} = {x, y}"
        if "u < v" using \<open>v < n\<close> that by blast
      moreover have "\<exists>x y. x < y \<and> y < n \<and> model_assignment m (var n x y) \<and> {u, v} = {x, y}"
        if "v < u" using \<open>u < n\<close> that \<open>model_assignment m (var n u v)\<close> var_sym [of n u v]
        by (intro exI [of _ v] exI [of _ u]) (simp add: insert_commute)
      ultimately show "\<exists>x y. x < y \<and> y < n \<and> model_assignment m (var n x y) \<and> {u, v} = {x, y}"
        using that(1) nat_neq_iff by blast
    qed (use var_sym [of n u v] in \<open>auto simp: doubleton_eq_iff\<close>)
    finally show ?thesis .
  qed
  with that [of g] g from_edges_Inr(1,2) [OF g] show thesis
    by (simp add: decode_model_def)
qed

section \<open>Cardinality clauses\<close>

lemma length_combinations: "c \<in> set (combinations xs k) \<Longrightarrow> length c = k \<and> set c \<subseteq> set xs"
proof (induction xs k arbitrary: c rule: combinations.induct)
  case (3 x xs k)
  then show ?case by (force simp: image_iff)
qed auto

lemma combinations_avoid:
  "(\<exists>c\<in>set (combinations xs k). \<forall>x\<in>set c. P x) \<longleftrightarrow> k \<le> length (filter P xs)"
proof (induction xs k rule: combinations.induct)
  case (3 x xs k)
  have "(\<exists>c\<in>set (combinations (x # xs) (Suc k)). \<forall>y\<in>set c. P y) \<longleftrightarrow>
      P x \<and> (\<exists>c\<in>set (combinations xs k). \<forall>y\<in>set c. P y) \<or>
      (\<exists>c\<in>set (combinations xs (Suc k)). \<forall>y\<in>set c. P y)"
    by (auto simp: bex_Un image_iff)
  then show ?case using 3 by auto
qed auto

text \<open>Every sublist of all but two elements meets \<open>P\<close> exactly if three elements satisfy \<open>P\<close>.\<close>

lemma at_least_three:
  assumes "3 \<le> length xs"
  shows "(\<forall>c\<in>set (combinations xs (length xs - 2)). \<exists>x\<in>set c. P x) \<longleftrightarrow> 3 \<le> length (filter P xs)"
proof -
  have "(\<forall>c\<in>set (combinations xs (length xs - 2)). \<exists>x\<in>set c. P x) \<longleftrightarrow>
      \<not> length xs - 2 \<le> length (filter (\<lambda>x. \<not> P x) xs)"
    using combinations_avoid [of xs "length xs - 2" "\<lambda>x. \<not> P x"] by auto
  also have "\<dots> \<longleftrightarrow> 3 \<le> length (filter P xs)"
    using sum_length_filter_compl [of P xs] assms by linarith
  finally show ?thesis .
qed

lemma length_incident: "v < n \<Longrightarrow> length (incident n v) = n - 1"
proof -
  assume "v < n"
  have "filter (\<lambda>w. w \<noteq> v) [0..<n] = removeAll v [0..<n]"
    by (simp add: removeAll_filter_not_eq) (metis (no_types))
  then have "length (incident n v) = length (remove1 v [0..<n])"
    by (simp add: incident_def distinct_remove1_removeAll)
  with \<open>v < n\<close> show ?thesis by (simp add: length_remove1)
qed

lemma incident_degree:
  assumes "wf_graph g" "u < order g"
    and A: "\<And>v. v < order g \<Longrightarrow> v \<noteq> u \<Longrightarrow> A (var (order g) u v) \<longleftrightarrow> {u, v} \<in> edge_set g"
  shows "length (filter A (incident (order g) u)) = card {v. v < order g \<and> has_edge g u v}"
proof -
  have "length (filter A (incident (order g) u)) =
      length (filter (\<lambda>v. A (var (order g) u v)) (filter (\<lambda>v. v \<noteq> u) [0..<order g]))"
    by (simp add: incident_def filter_map comp_def)
  also have "\<dots> = card (set (filter (\<lambda>v. A (var (order g) u v)) (filter (\<lambda>v. v \<noteq> u) [0..<order g])))"
    by (rule distinct_card [symmetric]) simp
  also have "set (filter (\<lambda>v. A (var (order g) u v)) (filter (\<lambda>v. v \<noteq> u) [0..<order g])) =
      {v. v < order g \<and> has_edge g u v}"
    using A edge_set_iff [OF assms(1)] wf_bit_irrefl [OF assms(1,2)] assms(2) by auto
  finally show ?thesis .
qed

text \<open>What the base clauses mean for an assignment that describes a graph.\<close>

lemma base_cnf_meaning:
  assumes cs: "base_cnf n = Inr cs" and g: "wf_graph g" "order g = n"
    and A: "\<And>u v. u \<noteq> v \<Longrightarrow> u < n \<Longrightarrow> v < n \<Longrightarrow> A (var n u v) \<longleftrightarrow> {u, v} \<in> edge_set g"
  shows "satisfies A cs \<longleftrightarrow> (\<forall>u<n. 3 \<le> card {v. v < n \<and> has_edge g u v}) \<and> {0, 1} \<in> edge_set g"
proof -
  have n: "4 \<le> n" using cs by (auto simp: base_cnf_def split: if_splits)
  have lit: "lit_true A (var n u v) \<longleftrightarrow> A (var n u v)" if "u \<noteq> v" "u < n" "v < n" for u v
    using var_range(1) [OF that] by (simp add: lit_true_def)
  have deg: "(\<forall>c\<in>set (combinations (incident n u) (length (incident n u) - 2)). \<exists>l\<in>set c. lit_true A l)
      \<longleftrightarrow> 3 \<le> card {v. v < n \<and> has_edge g u v}" if u: "u < n" for u
  proof -
    have "(\<exists>l\<in>set c. lit_true A l) \<longleftrightarrow> (\<exists>l\<in>set c. A l)"
      if "c \<in> set (combinations (incident n u) (length (incident n u) - 2))" for c
    proof -
      have "set c \<subseteq> set (incident n u)" using length_combinations [OF that] by blast
      moreover have "\<forall>l\<in>set (incident n u). lit_true A l = A l"
        unfolding incident_def using lit [OF _ u] by auto
      ultimately show ?thesis by blast
    qed
    then have "(\<forall>c\<in>set (combinations (incident n u) (length (incident n u) - 2)). \<exists>l\<in>set c. lit_true A l)
        \<longleftrightarrow> 3 \<le> length (filter A (incident n u))"
      using at_least_three [of "incident n u" A] length_incident [OF u] n by simp
    then show ?thesis using incident_degree [of g u A] g u A by simp
  qed
  have "satisfies A cs \<longleftrightarrow>
      (\<forall>u<n. \<forall>c\<in>set (combinations (incident n u) (length (incident n u) - 2)). \<exists>l\<in>set c. lit_true A l) \<and>
      lit_true A (var n 0 1)"
    using cs by (auto simp: base_cnf_def satisfies_def split: if_splits)
  also have "\<dots> \<longleftrightarrow> (\<forall>u<n. 3 \<le> card {v. v < n \<and> has_edge g u v}) \<and> {0, 1} \<in> edge_set g"
    using deg lit [of 0 1] A [of 0 1] n by auto
  finally show ?thesis .
qed

section \<open>The component search\<close>

definition reach :: "bitgraph \<Rightarrow> nat \<Rightarrow> nat set" where
  "reach g u = {v. (u, v) \<in> (arcs g)\<^sup>*}"

lemma absorb_neighbors_sets:
  assumes "absorb_neighbors g u (r, c, f) = (r', c', f')"
  shows "set r' = set r - set (neighbors g u)" "c' = c \<union> (set (neighbors g u) \<inter> set r)"
    "set f' = set f \<union> (set (neighbors g u) \<inter> set r)"
proof -
  let ?step = "\<lambda>v (remaining, component, frontier).
        if v \<in> set remaining then (removeAll v remaining, insert v component, frontier @ [v])
        else (remaining, component, frontier)"
  have "fold ?step vs (r, c, f) = (r', c', f') \<Longrightarrow>
      set r' = set r - set vs \<and> c' = c \<union> (set vs \<inter> set r) \<and> set f' = set f \<union> (set vs \<inter> set r)" for vs
  proof (induction vs arbitrary: r c f)
    case (Cons v vs)
    show ?case
    proof (cases "v \<in> set r")
      case True
      with Cons.prems have "fold ?step vs (removeAll v r, insert v c, f @ [v]) = (r', c', f')" by simp
      from Cons.IH [OF this] True show ?thesis by auto
    next
      case False
      with Cons.prems have "fold ?step vs (r, c, f) = (r', c', f')" by simp
      from Cons.IH [OF this] False show ?thesis by auto
    qed
  qed simp
  with assms show "set r' = set r - set (neighbors g u)" "c' = c \<union> (set (neighbors g u) \<inter> set r)"
    "set f' = set f \<union> (set (neighbors g u) \<inter> set r)"
    unfolding absorb_neighbors_def by blast+
qed

lemma set_neighbors_arcs: "wf_graph g \<Longrightarrow> u < order g \<Longrightarrow> set (neighbors g u) = {v. (u, v) \<in> arcs g}"
  by (auto simp: set_neighbors arcs_def)

lemma arcs_closed_reach: "(\<And>x y. (x, y) \<in> arcs g \<Longrightarrow> x \<in> S \<Longrightarrow> y \<in> S) \<Longrightarrow> u \<in> S \<Longrightarrow> reach g u \<subseteq> S"
proof
  fix v assume S: "\<And>x y. (x, y) \<in> arcs g \<Longrightarrow> x \<in> S \<Longrightarrow> y \<in> S" "u \<in> S" "v \<in> reach g u"
  from S(3) have "(u, v) \<in> (arcs g)\<^sup>*" by (simp add: reach_def)
  then show "v \<in> S" using S(1,2) by (induction rule: rtrancl_induct) blast+
qed

definition closed :: "bitgraph \<Rightarrow> nat set \<Rightarrow> bool" where
  "closed g R \<longleftrightarrow> R \<subseteq> {..<order g} \<and> (\<forall>(x, y)\<in>arcs g. x \<in> R \<longrightarrow> y \<in> R)"

lemma component_loop_reach:
  assumes "wf_graph g" "closed g R" "set r \<union> c = R" "set r \<inter> c = {}" "set f \<subseteq> c" "s \<in> c"
    "c \<subseteq> reach g s" "\<forall>u\<in>c - set f. \<forall>v. (u, v) \<in> arcs g \<longrightarrow> v \<in> c"
  shows "snd (component_loop g (r, c, f)) = reach g s \<and>
    set (fst (component_loop g (r, c, f))) = R - reach g s"
  using assms
proof (induction g "(r, c, f)" arbitrary: r c f rule: component_loop.induct)
  case (1 g r c f)
  note g = "1.prems"(1,2)
  show ?case
  proof (cases "f = []")
    case True
    have "reach g s \<subseteq> c" using "1.prems" True by (intro arcs_closed_reach) auto
    with "1.prems" True show ?thesis by (auto simp: component_loop.simps)
  next
    case False
    let ?u = "last f"
    obtain r' c' f' where st: "absorb_neighbors g ?u (r, c, butlast f) = (r', c', f')"
      by (cases "absorb_neighbors g ?u (r, c, butlast f)") auto
    note s = absorb_neighbors_sets [OF st]
    have "f = butlast f @ [?u]" using False by simp
    then have f: "set f = insert ?u (set (butlast f))" by (metis Un_insert_right empty_set list.simps(15) set_append sup_bot_right)
    have u: "?u \<in> c" "?u < order g" "?u \<in> reach g s"
      using f "1.prems"(2,3,5,7) by (auto simp: closed_def)
    have nb: "set (neighbors g ?u) = {v. (?u, v) \<in> arcs g}" by (rule set_neighbors_arcs [OF g(1) u(2)])
    have nR: "v \<in> R" if "(?u, v) \<in> arcs g" for v
      using g(2) that u(1) "1.prems"(3) by (auto simp: closed_def)
    have "snd (component_loop g (r', c', f')) = reach g s \<and>
        set (fst (component_loop g (r', c', f'))) = R - reach g s"
    proof (rule "1.hyps" [OF False, unfolded st, OF refl g])
      show "set r' \<union> c' = R" "set r' \<inter> c' = {}" "set f' \<subseteq> c'" "s \<in> c'"
        using s f "1.prems"(3-6) by auto
      have "v \<in> reach g s" if "(?u, v) \<in> arcs g" for v
        using u(3) that by (auto simp: reach_def intro: rtrancl_into_rtrancl)
      then show "c' \<subseteq> reach g s" using s(2) nb "1.prems"(7) by auto
      show "\<forall>x\<in>c' - set f'. \<forall>v. (x, v) \<in> arcs g \<longrightarrow> v \<in> c'"
      proof (intro ballI allI impI)
        fix x v assume x: "x \<in> c' - set f'" "(x, v) \<in> arcs g"
        show "v \<in> c'"
        proof (cases "x = ?u")
          case True
          then show ?thesis using x(2) nR [of v] nb s(2) "1.prems"(3) by auto
        next
          case False
          then have "x \<in> c - set f" using x(1) s(2,3) f by auto
          then show ?thesis using x(2) "1.prems"(8) s(2) by auto
        qed
      qed
    qed
    then show ?thesis using False st by (subst (1 2) component_loop.simps) simp
  qed
qed

lemma reach_refl: "u \<in> reach g u"
  by (simp add: reach_def)

lemma reach_eq: "wf_graph g \<Longrightarrow> v \<in> reach g u \<Longrightarrow> reach g v = reach g u"
  unfolding reach_def using arcs_rtrancl_sym by (auto intro: rtrancl_trans)

lemma closed_reach:
  assumes "closed g R" "u \<in> R"
  shows "reach g u \<subseteq> R"
  using assms by (intro arcs_closed_reach) (auto simp: closed_def)

lemma closed_diff:
  assumes "wf_graph g" "closed g R"
  shows "closed g (R - reach g u)"
proof -
  have "y \<notin> reach g u" if "(x, y) \<in> arcs g" "x \<notin> reach g u" for x y
    using that arcs_sym [OF assms(1)] by (auto simp: reach_def intro: rtrancl_into_rtrancl)
  with assms(2) show ?thesis by (auto simp: closed_def)
qed

lemma components_from_spec:
  assumes "wf_graph g" "closed g (set r)"
  shows "set (components_from g r) = reach g ` set r \<and> distinct (components_from g r) \<and>
    (r \<noteq> [] \<longrightarrow> hd (components_from g r) = reach g (Min (set r)))"
  using assms
proof (induction g r rule: components_from.induct)
  case (1 g r)
  show ?case
  proof (cases "r = []")
    case True
    then show ?thesis by (simp add: components_from.simps)
  next
    case False
    let ?s = "Min (set r)"
    obtain r' c where loop: "component_loop g (removeAll ?s r, {?s}, [?s]) = (r', c)" by fastforce
    have s: "?s \<in> set r" using False by simp
    have res: "c = reach g ?s" "set r' = set r - reach g ?s"
      using component_loop_reach [OF "1.prems", of "removeAll ?s r" "{?s}" "[?s]" ?s] s loop reach_refl
      by auto
    have IH: "set (components_from g r') = reach g ` set r'" "distinct (components_from g r')"
      using "1.IH" [OF False refl loop [symmetric] refl "1.prems"(1)] closed_diff [OF "1.prems"] res(2)
      by auto
    have eq: "components_from g r = c # components_from g r'"
      using False loop by (subst components_from.simps) (simp add: Let_def)
    have "reach g ` set r = insert c (reach g ` set r')"
    proof (intro set_eqI iffI)
      fix C assume "C \<in> reach g ` set r"
      then obtain u where u: "u \<in> set r" "C = reach g u" by auto
      show "C \<in> insert c (reach g ` set r')"
        using u reach_eq [OF "1.prems"(1), of u ?s] res by (cases "u \<in> reach g ?s") auto
    qed (use s res in auto)
    moreover have "c \<notin> reach g ` set r'"
      using res reach_refl by auto
    ultimately show ?thesis using IH eq res(1) by simp
  qed
qed

lemma connected_iff_reach:
  assumes "wf_graph g" "0 < order g"
  shows "connected_graph g \<longleftrightarrow> (\<forall>u<order g. reach g u = reach g 0)"
proof
  assume *: "\<forall>u<order g. reach g u = reach g 0"
  show "connected_graph g" unfolding connected_graph_def
  proof (intro allI impI)
    fix u v assume "u < order g" "v < order g"
    with * have "reach g u = reach g v" by metis
    then have "v \<in> reach g u" using reach_refl by blast
    then show "(u, v) \<in> (arcs g)\<^sup>*" by (simp add: reach_def)
  qed
next
  assume c: "connected_graph g"
  show "\<forall>u<order g. reach g u = reach g 0"
  proof (intro allI impI)
    fix u assume "u < order g"
    with c assms(2) have "u \<in> reach g 0" by (simp add: connected_graph_def reach_def)
    then show "reach g u = reach g 0" by (rule reach_eq [OF assms(1)])
  qed
qed

lemma components_spec:
  assumes "wf_graph g" "0 < order g"
  shows "set (components g) = reach g ` {..<order g}" "distinct (components g)"
    "components g = reach g 0 # tl (components g)"
    "length (components g) > 1 \<longleftrightarrow> \<not> connected_graph g"
proof -
  have "closed g (set [0..<order g])" by (auto simp: closed_def arcs_def)
  note c = components_from_spec [OF assms(1) this, folded components_def]
  show set: "set (components g) = reach g ` {..<order g}" and d: "distinct (components g)"
    using c by (auto simp: atLeast0LessThan)
  have "Min {0..<order g} = 0" using assms(2) by (intro Min_eqI) auto
  then have "hd (components g) = reach g 0" using c assms(2) by simp
  moreover have ne: "components g \<noteq> []" using set assms(2) by auto
  ultimately show hd: "components g = reach g 0 # tl (components g)" by (metis list.collapse)
  have "length (components g) > 1 \<longleftrightarrow> (\<exists>u<order g. reach g u \<noteq> reach g 0)"
  proof
    assume l: "length (components g) > 1"
    then have "components g ! 1 \<in> set (components g)" "components g ! 1 \<noteq> components g ! 0"
      using nth_eq_iff_index_eq [OF d, of 1 0] ne by auto
    moreover have "components g ! 0 = reach g 0" using hd by (metis nth_Cons_0)
    ultimately show "\<exists>u<order g. reach g u \<noteq> reach g 0"
      unfolding set by (metis imageE lessThan_iff)
  next
    assume "\<exists>u<order g. reach g u \<noteq> reach g 0"
    then have "set (components g) \<noteq> {reach g 0}" using set by auto
    with hd have "tl (components g) \<noteq> []" by (metis empty_set list.simps(15))
    with hd show "length (components g) > 1" by (metis length_Cons length_greater_0_conv less_Suc_eq_0_disj One_nat_def Suc_less_eq)
  qed
  also have "\<dots> \<longleftrightarrow> \<not> connected_graph g" using connected_iff_reach [OF assms] by blast
  finally show "length (components g) > 1 \<longleftrightarrow> \<not> connected_graph g" .
qed

section \<open>Learned clauses\<close>

definition describes :: "nat \<Rightarrow> (int \<Rightarrow> bool) \<Rightarrow> bitgraph \<Rightarrow> bool" where
  "describes n A g \<longleftrightarrow> wf_graph g \<and> order g = n \<and>
     (\<forall>u<n. \<forall>v<n. u \<noteq> v \<longrightarrow> (A (var n u v) \<longleftrightarrow> {u, v} \<in> edge_set g))"

lemma describes_graph_assignment: "wf_graph g \<Longrightarrow> describes (order g) (graph_assignment g) g"
  by (simp add: describes_def graph_assignment_var)

lemma describes_edge:
  assumes "describes n A g" "u < n" "v < n" "u \<noteq> v"
  shows "A (var n u v) \<longleftrightarrow> has_edge g u v" "lit_true A (var n u v) \<longleftrightarrow> has_edge g u v"
    "lit_true A (- var n u v) \<longleftrightarrow> \<not> has_edge g u v"
proof -
  show e: "A (var n u v) \<longleftrightarrow> has_edge g u v"
    using assms edge_set_iff [of g u v] by (simp add: describes_def)
  show "lit_true A (var n u v) \<longleftrightarrow> has_edge g u v" "lit_true A (- var n u v) \<longleftrightarrow> \<not> has_edge g u v"
    using var_range(1) [OF assms(4,2,3)] e by (simp_all add: lit_true_def)
qed

lemma successively_wrap:
  assumes "c \<noteq> []"
  shows "(\<forall>i<length c. P (c ! i) (c ! ((i + 1) mod length c))) \<longleftrightarrow> successively P c \<and> P (last c) (hd c)"
proof -
  obtain k where k: "length c = Suc k" using assms by (cases c) auto
  have "(\<forall>i<Suc k. P (c ! i) (c ! ((i + 1) mod Suc k))) \<longleftrightarrow>
      (\<forall>i<k. P (c ! i) (c ! Suc i)) \<and> P (c ! k) (c ! 0)"
    unfolding less_Suc_eq [of _ k] by (auto 0 3)
  with k assms show ?thesis by (simp add: successively_conv_nth last_conv_nth hd_conv_nth)
qed

lemma cycle_clause_meaning:
  assumes A: "describes n A g" and cl: "cycle_clause n c = Inr cl" and c: "set c \<subseteq> {..<n}"
  shows "(\<exists>l\<in>set cl. lit_true A l) \<longleftrightarrow> \<not> is_cycle g c"
proof -
  let ?k = "length c" and ?nx = "\<lambda>i. (i + 1) mod length c"
  have k: "3 \<le> ?k" "distinct c" and cl': "cl = map (\<lambda>i. - var n (c ! i) (c ! ?nx i)) [0..<?k]"
    using cl by (auto simp: cycle_clause_def card_distinct split: if_splits)
  have lit: "lit_true A (- var n (c ! i) (c ! ?nx i)) \<longleftrightarrow> \<not> has_edge g (c ! i) (c ! ?nx i)" if "i < ?k" for i
  proof (rule describes_edge(3) [OF A])
    have nx: "?nx i < ?k" using that by (metis gr_implies_not0 mod_less_divisor neq0_conv)
    show "c ! i < n" "c ! ?nx i < n" using c nth_mem [OF that] nth_mem [OF nx] by auto
    have "?nx i \<noteq> i" using k(1) that by (cases "Suc i = ?k") auto
    then show "c ! i \<noteq> c ! ?nx i" using k(2) that nx by (simp add: nth_eq_iff_index_eq)
  qed
  have "(\<exists>l\<in>set cl. lit_true A l) \<longleftrightarrow> \<not> (\<forall>i<?k. has_edge g (c ! i) (c ! ?nx i))"
    using lit by (auto simp: cl' Bex_def)
  also have "\<dots> \<longleftrightarrow> \<not> is_cycle g c"
  proof -
    have "c \<noteq> []" "order g = n" using k(1) A by (auto simp: describes_def)
    then show ?thesis using successively_wrap [of c "has_edge g"] k c by (simp add: is_cycle_def)
  qed
  finally show ?thesis .
qed

lemma connectedness_clause_meaning:
  assumes A: "describes n A g" and C: "C \<subseteq> {..<n}"
  shows "(\<exists>l\<in>set (connectedness_clause n C). lit_true A l) \<longleftrightarrow>
    (\<exists>u\<in>C. \<exists>v\<in>{..<n} - C. has_edge g u v)"
proof -
  have "finite C" using C finite_subset by blast
  then have "set (connectedness_clause n C) = (\<Union>u\<in>C. var n u ` ({..<n} - C))"
    by (simp add: connectedness_clause_def atLeast0LessThan)
  moreover have "lit_true A (var n u v) \<longleftrightarrow> has_edge g u v" if "u \<in> C" "v \<in> {..<n} - C" for u v
    using that C by (intro describes_edge(2) [OF A]) auto
  ultimately show ?thesis by auto
qed

lemma crossing_edge:
  assumes "connected_graph g" "C \<subseteq> {..<order g}" "u \<in> C" "v < order g" "v \<notin> C"
  shows "\<exists>x\<in>C. \<exists>y\<in>{..<order g} - C. has_edge g x y"
proof (rule ccontr)
  assume no: "\<not> (\<exists>x\<in>C. \<exists>y\<in>{..<order g} - C. has_edge g x y)"
  have "reach g u \<subseteq> C" using no assms(3) by (intro arcs_closed_reach) (auto simp: arcs_def)
  moreover have "v \<in> reach g u" using assms by (auto simp: connected_graph_def reach_def)
  ultimately show False using assms(5) by blast
qed

lemma no_crossing_edge: "wf_graph g \<Longrightarrow> x \<in> reach g u \<Longrightarrow> x < order g \<Longrightarrow> y < order g \<Longrightarrow> y \<notin> reach g u \<Longrightarrow> \<not> has_edge g x y"
  by (auto simp: reach_def arcs_def intro: rtrancl_into_rtrancl)

section \<open>Edge variables and components\<close>

lemma edge_variables_bijective:
  "(edge_of n k = Inr (u, v) \<longleftrightarrow> u < v \<and> v < n \<and> variable n u v = Inr k) \<and>
   (is_ok (edge_of n k) \<longleftrightarrow> 1 \<le> k \<and> k \<le> int (variable_count n)) \<and>
   variable n u v = variable n v u"
proof (intro conjI)
  show "edge_of n k = Inr (u, v) \<longleftrightarrow> u < v \<and> v < n \<and> variable n u v = Inr k"
  proof
    assume "edge_of n k = Inr (u, v)"
    then have "find (\<lambda>(x, y). var n x y = k) (pairs n) = Some (u, v)"
      by (auto simp: edge_of_def split: option.splits)
    then have "(u, v) \<in> set (pairs n)" "var n u v = k"
      by (metis (mono_tags, lifting) case_prod_conv find_Some_iff nth_mem)+
    then show "u < v \<and> v < n \<and> variable n u v = Inr k" by (auto simp: set_edge_pairs variable_def)
  qed (auto simp: variable_def edge_of_var)
  have "is_ok (edge_of n k) \<longleftrightarrow> (\<exists>e\<in>set (pairs n). (\<lambda>(x, y). var n x y) e = k)"
  proof -
    have "is_ok (edge_of n k) \<longleftrightarrow> find (\<lambda>(x, y). var n x y = k) (pairs n) \<noteq> None"
      by (auto simp: edge_of_def split: option.splits)
    then show ?thesis unfolding find_None_iff case_prod_unfold by blast
  qed
  also have "\<dots> \<longleftrightarrow> k \<in> (\<lambda>(x, y). var n x y) ` set (pairs n)" by blast
  finally show "is_ok (edge_of n k) \<longleftrightarrow> 1 \<le> k \<and> k \<le> int (variable_count n)"
    unfolding var_image by simp
  show "variable n u v = variable n v u" by (simp add: variable_def var_sym)
qed

lemma components_exact:
  assumes "wf_graph g" "0 < order g"
  shows "set (components g) = {{v. (u, v) \<in> (arcs g)\<^sup>*} |u. u < order g} \<and> distinct (components g) \<and>
    hd (components g) = {v. (0, v) \<in> (arcs g)\<^sup>*} \<and>
    (length (components g) > 1 \<longleftrightarrow> \<not> is_connected g)"
proof -
  have "hd (components g) = reach g 0" using components_spec(3) [OF assms] by (metis list.sel(1))
  then show ?thesis
    using components_spec(1,2,4) [OF assms] is_connected_iff [OF assms(1)] by (auto simp: reach_def)
qed

end
