(* ===== verification/Json.thy ===== *)
theory Json
  imports Prelude "HOL-Library.AList"
begin

text \<open>
  JSON values and the fragment of Python's dynamic typing the sources use on them:
  \<open>isinstance\<close> tests, \<open>dict.get\<close>, item assignment (a dictionary is an association list in
  insertion order), hashability, and membership of an arbitrary value in a set of strings,
  which raises on an unhashable value.  Floats are rationals with the special values
  (rounding is not modelled).
\<close>

datatype py_float = Fin rat | PosInf | NegInf | NaN

datatype json =
    JNull
  | JBool bool
  | JInt int
  | JFloat py_float
  | JStr string
  | JList "json list"
  | JObj "(string \<times> json) list"

type_synonym json_obj = "(string \<times> json) list"

definition isfinite :: "py_float \<Rightarrow> bool" where
  "isfinite x = (case x of Fin _ \<Rightarrow> True | _ \<Rightarrow> False)"

text \<open>The comparison \<open>x < 0\<close>; it is False on a NaN.\<close>

definition py_negative :: "py_float \<Rightarrow> bool" where
  "py_negative x = (case x of Fin r \<Rightarrow> r < 0 | NegInf \<Rightarrow> True | _ \<Rightarrow> False)"

definition py_positive :: "py_float \<Rightarrow> bool" where
  "py_positive x = (case x of Fin r \<Rightarrow> 0 < r | PosInf \<Rightarrow> True | _ \<Rightarrow> False)"

definition dict_get :: "json_obj \<Rightarrow> string \<Rightarrow> json" where
  "dict_get d k = (case map_of d k of None \<Rightarrow> JNull | Some v \<Rightarrow> v)"

definition dict_set :: "string \<Rightarrow> json \<Rightarrow> json_obj \<Rightarrow> json_obj" where
  "dict_set k v d = AList.update k v d"

definition hashable :: "json \<Rightarrow> bool" where
  "hashable j = (case j of JList _ \<Rightarrow> False | JObj _ \<Rightarrow> False | _ \<Rightarrow> True)"

text \<open>\<open>value in {...}\<close> for a set of string literals.\<close>

definition in_string_set :: "json \<Rightarrow> string list \<Rightarrow> bool result" where
  "in_string_set j names =
     (if hashable j then Inr (\<exists>s\<in>set names. j = JStr s)
      else Inl (TypeError ''unhashable type''))"

text \<open>A value that is an \<open>int\<close> and not a \<open>bool\<close> (Python's \<open>bool\<close> is a subclass of \<open>int\<close>).\<close>

definition strict_int :: "json \<Rightarrow> int option" where
  "strict_int j = (case j of JInt i \<Rightarrow> Some i | _ \<Rightarrow> None)"

definition json_bool :: "json \<Rightarrow> bool option" where
  "json_bool j = (case j of JBool b \<Rightarrow> Some b | _ \<Rightarrow> None)"

definition json_list :: "json \<Rightarrow> json list option" where
  "json_list j = (case j of JList xs \<Rightarrow> Some xs | _ \<Rightarrow> None)"

definition json_obj :: "json \<Rightarrow> json_obj option" where
  "json_obj j = (case j of JObj d \<Rightarrow> Some d | _ \<Rightarrow> None)"

text \<open>All elements as non-bool integers, or \<open>None\<close> when an element is something else.\<close>

definition strict_ints :: "json list \<Rightarrow> int list option" where
  "strict_ints xs =
     (if \<forall>x\<in>set xs. strict_int x \<noteq> None then Some (map (\<lambda>x. the (strict_int x)) xs) else None)"

lemma strict_int_Some [simp]: "strict_int j = Some i \<longleftrightarrow> j = JInt i"
  by (cases j) (auto simp: strict_int_def)

lemma strict_int_JInt [simp]: "strict_int (JInt i) = Some i"
  by (simp add: strict_int_def)

lemma json_bool_Some [simp]: "json_bool j = Some b \<longleftrightarrow> j = JBool b"
  by (cases j) (auto simp: json_bool_def)

lemma json_list_Some [simp]: "json_list j = Some xs \<longleftrightarrow> j = JList xs"
  by (cases j) (auto simp: json_list_def)

lemma json_obj_Some [simp]: "json_obj j = Some d \<longleftrightarrow> j = JObj d"
  by (cases j) (auto simp: json_obj_def)

lemma strict_ints_Some: "strict_ints xs = Some is \<longleftrightarrow> xs = map JInt is"
proof
  assume "strict_ints xs = Some is"
  then have "\<forall>x\<in>set xs. strict_int x \<noteq> None" "is = map (\<lambda>x. the (strict_int x)) xs"
    by (auto simp: strict_ints_def split: if_splits)
  then show "xs = map JInt is" by (auto simp: comp_def intro!: map_idI [symmetric])
next
  assume "xs = map JInt is"
  then show "strict_ints xs = Some is" by (simp add: strict_ints_def comp_def)
qed

lemma strict_ints_JInt [simp]: "strict_ints (map JInt is) = Some is"
  by (simp add: strict_ints_Some)

lemma dict_get_set [simp]: "dict_get (dict_set k v d) k' = (if k' = k then v else dict_get d k')"
  by (simp add: dict_get_def dict_set_def update_conv)

lemma dict_get_Cons [simp]: "dict_get ((k, v) # d) k' = (if k' = k then v else dict_get d k')"
  by (simp add: dict_get_def)

lemma dict_get_Nil [simp]: "dict_get [] k = JNull"
  by (simp add: dict_get_def)

lemma in_string_set_Inr [result_facts]:
  "in_string_set j names = Inr b \<longleftrightarrow> hashable j \<and> b = (\<exists>s\<in>set names. j = JStr s)"
  by (auto simp: in_string_set_def)

section \<open>Text helpers\<close>

definition lower_char :: "char \<Rightarrow> char" where
  "lower_char c = (let n = of_char c :: nat in if 65 \<le> n \<and> n \<le> 90 then char_of (n + 32) else c)"

definition lower :: "string \<Rightarrow> string" where
  "lower s = map lower_char s"

fun contains :: "string \<Rightarrow> string \<Rightarrow> bool" where
  "contains pat [] = (pat = [])"
| "contains pat (c # s) = (take (length pat) (c # s) = pat \<or> contains pat s)"

text \<open>
  \<open>pat in str(value).lower()\<close>.  The text of a container is made of the texts of its
  members (the escape sequences of \<open>repr\<close> are not modelled); numbers and constants have no
  text of interest.
\<close>

fun mentions :: "string \<Rightarrow> json \<Rightarrow> bool" where
  "mentions pat (JStr s) = contains pat (lower s)"
| "mentions pat (JList xs) = (\<exists>x\<in>set xs. mentions pat x)"
| "mentions pat (JObj d) = (\<exists>(k, v)\<in>set d. contains pat (lower k) \<or> mentions pat v)"
| "mentions pat _ = False"

end
