(* ===== verification/Cegar.thy ===== *)
theory Cegar
  imports Cnf Json
begin

text \<open>
  Counterexample-guided search over the encoding, \<open>src/src/sglab/sat.py\<close>: \<open>tiny_cegar\<close> with the
  built-in solver, and \<open>run_pysat_cegar\<close> with its worker, its interruption handling and its
  artifacts.

  \<open>refute\<close> is the body the two loops share: decode the model, look at the components, run the
  reference verifier, and produce the clause that excludes the model.  \<open>tiny_cegar\<close> is a
  \<open>partial_function\<close> whose totality is a theorem.

  The external solver is an environment: how its construction ended, and one event per
  iteration of the loop (the deadline was found expired, the solver answered unsatisfiable
  with an optional proof, or it returned a model; no further event is an expired deadline).
  Nothing is assumed about its models.  The file \<open>learned.jsonl\<close> is the list of its lines;
  hashes, time stamps and the environment report of the metadata are not modelled.
\<close>

section \<open>One iteration\<close>

datatype refutation =
    Candidate bitgraph
  | Disconnected "nat set" clause
  | ForbiddenCycle "nat list" clause

definition refute :: "nat \<Rightarrow> int list \<Rightarrow> refutation result" where
  "refute n model =
     rbind (decode_model n model) (\<lambda>graph.
       let comps = components graph
       in if length comps > 1
          then Inr (Disconnected (hd comps) (connectedness_clause n (hd comps)))
          else
            let res = verify_reference graph
            in if status res = VERIFIED then Inr (Candidate graph)
               else (case witnesses res of
                       [] \<Rightarrow> Inl IndexError
                     | w # _ \<Rightarrow> rbind (cycle_clause n (vertices w))
                                  (\<lambda>cl. Inr (ForbiddenCycle (vertices w) cl))))"

section \<open>The built-in loop\<close>

datatype tiny_learned = LearnedConnectedness clause | LearnedCycle "nat list" clause

datatype tiny_outcome = UNSAT_GROUND_TRUTH | SAT_CANDIDATE

record tiny_result =
  tiny_outcome :: tiny_outcome
  tiny_iterations :: nat
  tiny_graph6 :: "int list option"
  tiny_learned :: "tiny_learned list"

partial_function (option) cegar_loop ::
  "(clause list \<Rightarrow> nat \<Rightarrow> int list option) \<Rightarrow> nat \<Rightarrow> clause list \<Rightarrow> tiny_learned list \<Rightarrow> nat \<Rightarrow>
   tiny_result result option" where
  "cegar_loop solve n clauses learned iterations =
     (case solve clauses (variable_count n) of
        None \<Rightarrow> Some (Inr \<lparr>tiny_outcome = UNSAT_GROUND_TRUTH, tiny_iterations = iterations,
                          tiny_graph6 = None, tiny_learned = learned\<rparr>)
      | Some model \<Rightarrow>
          (case refute n model of
             Inl e \<Rightarrow> Some (Inl e)
           | Inr r \<Rightarrow>
               (case r of
                  Candidate graph \<Rightarrow>
                    Some (rbind (to_graph6 graph) (\<lambda>bytes.
                      Inr \<lparr>tiny_outcome = SAT_CANDIDATE, tiny_iterations = Suc iterations,
                           tiny_graph6 = Some bytes, tiny_learned = learned\<rparr>))
                | Disconnected part cl \<Rightarrow>
                    cegar_loop solve n (clauses @ [cl]) (learned @ [LearnedConnectedness cl]) (Suc iterations)
                | ForbiddenCycle cyc cl \<Rightarrow>
                    cegar_loop solve n (clauses @ [cl]) (learned @ [LearnedCycle cyc cl]) (Suc iterations))))"

declare cegar_loop.simps [code]

definition tiny_cegar :: "nat \<Rightarrow> tiny_result result option" where
  "tiny_cegar n =
     (if n > 6 then Some (Inl (ValueError ''the built-in DPLL solver is limited to order 6''))
      else (case base_cnf n of
              Inl e \<Rightarrow> Some (Inl e)
            | Inr clauses \<Rightarrow> cegar_loop solve_dpll n clauses [] 0))"

section \<open>Ground truth by enumeration\<close>

text \<open>
  \<open>nauty_ground_truth\<close>: the external generator is a parameter, its exit status and the lines of
  its output; empty lines and header lines (starting with \<open>>\<close>) are skipped.
\<close>

datatype ground_truth = GengFailed string | GengChecked nat nat

definition check_line :: "int list \<Rightarrow> nat \<times> nat \<Rightarrow> (nat \<times> nat) result" where
  "check_line bytes = (\<lambda>(checked, counterexamples).
     if bytes = [] \<or> hd bytes = 62 then Inr (checked, counterexamples)
     else rbind (from_graph6 bytes) (\<lambda>graph.
       Inr (Suc checked,
            if status (verify_reference graph) = VERIFIED then Suc counterexamples else counterexamples)))"

definition nauty_ground_truth :: "string \<Rightarrow> int list list \<Rightarrow> ground_truth result" where
  "nauty_ground_truth st output =
     (if st \<noteq> ''OK'' then Inr (GengFailed st)
      else rbind (fold_result check_line output (0, 0)) (\<lambda>(checked, counterexamples).
        Inr (GengChecked checked counterexamples)))"

section \<open>Files\<close>

definition show_int :: "int \<Rightarrow> string" where
  "show_int i = (if i < 0 then CHR ''-'' # show_nat (nat (- i)) else show_nat (nat i))"

fun join :: "string \<Rightarrow> string list \<Rightarrow> string" where
  "join sep [] = []"
| "join sep [x] = x"
| "join sep (x # y # xs) = x @ sep @ join sep (y # xs)"

definition dimacs_clause :: "clause \<Rightarrow> string" where
  "dimacs_clause clause = join '' '' (map show_int clause) @ '' 0'' @ [CHR 0x0A]"

definition write_dimacs_stream :: "nat \<Rightarrow> nat \<Rightarrow> clause list \<Rightarrow> string" where
  "write_dimacs_stream variables clause_count clauses =
     ''p cnf '' @ show_nat variables @ '' '' @ show_nat clause_count @ [CHR 0x0A] @
     concat (map dimacs_clause clauses)"

definition write_dimacs :: "nat \<Rightarrow> clause list \<Rightarrow> string" where
  "write_dimacs variables clauses = write_dimacs_stream variables (length clauses) clauses"

text \<open>The parsed lines of \<open>learned.jsonl\<close>; \<open>None\<close> is a line that is not JSON.\<close>

definition valid_learned_clause :: "nat \<Rightarrow> json option \<Rightarrow> clause option" where
  "valid_learned_clause variables line =
     (case line of
        Some (JObj d) \<Rightarrow>
          (case dict_get d ''clause'' of
             JList xs \<Rightarrow>
               (case strict_ints xs of
                  Some ls \<Rightarrow>
                    if ls \<noteq> [] \<and> (\<forall>l\<in>set ls. l \<noteq> 0 \<and> \<bar>l\<bar> \<le> int variables) then Some ls else None
                | None \<Rightarrow> None)
           | _ \<Rightarrow> None)
      | _ \<Rightarrow> None)"

definition valid_learned_clauses :: "nat \<Rightarrow> json option list \<Rightarrow> clause list" where
  "valid_learned_clauses variables entries = List.map_filter (valid_learned_clause variables) entries"

text \<open>The record of a learned clause and the text \<open>json.dumps(record, sort_keys=True)\<close> plus newline.\<close>

definition learned_record :: "refutation \<Rightarrow> json" where
  "learned_record r =
     (case r of
        Candidate _ \<Rightarrow> JNull
      | Disconnected part cl \<Rightarrow>
          JObj [(''kind'', JStr ''connectedness''),
                (''component'', JList (map (JInt \<circ> int) (sorted_list_of_set part))),
                (''clause'', JList (map JInt cl))]
      | ForbiddenCycle cyc cl \<Rightarrow>
          JObj [(''kind'', JStr ''cycle''), (''vertices'', JList (map (JInt \<circ> int) cyc)),
                (''clause'', JList (map JInt cl))])"

definition json_ints :: "int list \<Rightarrow> string" where
  "json_ints xs = ''['' @ join '', '' (map show_int xs) @ '']''"

definition learned_line :: "refutation \<Rightarrow> string" where
  "learned_line r =
     (let quote = (\<lambda>s. [CHR 0x22] @ s @ [CHR 0x22])
      in case r of
        Candidate _ \<Rightarrow> []
      | Disconnected part cl \<Rightarrow>
          ''{'' @ quote ''clause'' @ '': '' @ json_ints cl @ '', '' @
          quote ''component'' @ '': '' @ json_ints (map int (sorted_list_of_set part)) @ '', '' @
          quote ''kind'' @ '': '' @ quote ''connectedness'' @ ''}'' @ [CHR 0x0A]
      | ForbiddenCycle cyc cl \<Rightarrow>
          ''{'' @ quote ''clause'' @ '': '' @ json_ints cl @ '', '' @
          quote ''kind'' @ '': '' @ quote ''cycle'' @ '', '' @
          quote ''vertices'' @ '': '' @ json_ints (map int cyc) @ ''}'' @ [CHR 0x0A])"

section \<open>The loop around an external solver\<close>

definition MAX_SAT_CLAUSES :: nat where "MAX_SAT_CLAUSES = 1000000"
definition MAX_LEARNED_BYTES :: nat where "MAX_LEARNED_BYTES = 64 * 1024 * 1024"
definition MAX_PROOF_BYTES :: nat where "MAX_PROOF_BYTES = 64 * 1024 * 1024"

datatype sat_event =
    Deadline
  | Unsat "string list option"
  | Model "int list option"

record pysat_state =
  ps_clauses :: "clause list"
  ps_learned_count :: nat
  ps_learned_rows :: "json list"
  ps_learned_bytes :: nat
  ps_iterations :: nat
  ps_outcome :: string
  ps_detail :: "string option"
  ps_proof_preserved :: "bool option"
  ps_candidate :: "int list option"

text \<open>
  The proof writer: the number of bytes is bounded, a longer proof is removed again.  An empty
  proof is not written at all.
\<close>

fun proof_exceeds :: "nat \<Rightarrow> string list \<Rightarrow> bool" where
  "proof_exceeds bytes [] = False"
| "proof_exceeds bytes (row # lns) =
     (let bytes' = bytes + length row + 1 in if bytes' > MAX_PROOF_BYTES then True else proof_exceeds bytes' lns)"

definition preserve_proof :: "string list option \<Rightarrow> bool option" where
  "preserve_proof proof =
     (case proof of
        None \<Rightarrow> None
      | Some lns \<Rightarrow> if lns = [] then None else Some (\<not> proof_exceeds 0 lns))"

text \<open>Storing a learned clause, or stopping at a storage bound.\<close>

definition learn :: "refutation \<Rightarrow> clause \<Rightarrow> pysat_state \<Rightarrow> pysat_state option" where
  "learn r cl s =
     (if length (ps_clauses s) \<ge> MAX_SAT_CLAUSES
         \<or> ps_learned_bytes s + length (learned_line r) > MAX_LEARNED_BYTES
      then None
      else Some (s\<lparr>ps_clauses := ps_clauses s @ [cl], ps_learned_count := Suc (ps_learned_count s),
                   ps_learned_rows := ps_learned_rows s @ [learned_record r],
                   ps_learned_bytes := ps_learned_bytes s + length (learned_line r)\<rparr>))"

definition storage_bound :: "pysat_state \<Rightarrow> pysat_state" where
  "storage_bound s =
     s\<lparr>ps_outcome := ''UNKNOWN_RESOURCE_LIMIT'', ps_detail := Some ''CEGAR_STORAGE_BOUND_REACHED''\<rparr>"

definition deadline_reached :: "pysat_state \<Rightarrow> pysat_state" where
  "deadline_reached s =
     s\<lparr>ps_outcome := ''UNKNOWN_TIMEOUT'', ps_detail := Some ''UNKNOWN_TIMEOUT''\<rparr>"

text \<open>An exception leaves the loop; the state then is what the files hold.\<close>

fun pysat_loop :: "nat \<Rightarrow> sat_event list \<Rightarrow> pysat_state \<Rightarrow> unit result \<times> pysat_state" where
  "pysat_loop n [] s = (Inr (), deadline_reached s)"
| "pysat_loop n (Deadline # evs) s = (Inr (), deadline_reached s)"
| "pysat_loop n (Unsat proof # evs) s =
     (Inr (), s\<lparr>ps_detail := Some ''UNSAT_WITHOUT_CHECKED_CERTIFICATE'',
               ps_proof_preserved := preserve_proof proof\<rparr>)"
| "pysat_loop n (Model m # evs) s =
     (let s1 = s\<lparr>ps_iterations := Suc (ps_iterations s)\<rparr>
      in case refute n (case m of None \<Rightarrow> [] | Some ls \<Rightarrow> ls) of
           Inl e \<Rightarrow> (Inl e, s1)
         | Inr r \<Rightarrow>
             (case r of
                Candidate graph \<Rightarrow>
                  (case to_graph6 graph of
                     Inl e \<Rightarrow> (Inl e, s1)
                   | Inr bytes \<Rightarrow>
                       (Inr (), s1\<lparr>ps_outcome := ''NO_RESULT_WITHIN_BUDGET'',
                                  ps_detail := Some ''SAT_CANDIDATE_REQUIRES_SECOND_VERIFIER'',
                                  ps_candidate := Some (bytes @ [10])\<rparr>))
              | Disconnected part cl \<Rightarrow>
                  (case learn r cl s1 of
                     None \<Rightarrow> (Inr (), storage_bound s1)
                   | Some s2 \<Rightarrow> pysat_loop n evs s2)
              | ForbiddenCycle cyc cl \<Rightarrow>
                  (case learn r cl s1 of
                     None \<Rightarrow> (Inr (), storage_bound s1)
                   | Some s2 \<Rightarrow> pysat_loop n evs s2)))"

text \<open>How constructing the solver ended.\<close>

datatype solver_start = ImportFailed string | StartFailed string | PlainSolver | ProofSolver

record sat_metadata =
  m_status :: string
  m_detail :: "string option"
  m_error :: "string option"
  m_seed_applied :: "bool option"
  m_proof_enabled :: "bool option"
  m_iterations :: nat
  m_learned_clauses :: nat
  m_proof_preserved :: "bool option"
  m_proof_checked :: "bool option"

text \<open>The files of the output directory.\<close>

record sat_files =
  f_learned :: "json option list"
  f_candidate :: "int list option"
  f_instance :: "string option"

definition initial_state :: "clause list \<Rightarrow> pysat_state" where
  "initial_state clauses =
     \<lparr>ps_clauses = clauses, ps_learned_count = 0, ps_learned_rows = [], ps_learned_bytes = 0,
      ps_iterations = 0, ps_outcome = ''NO_RESULT_WITHIN_BUDGET'', ps_detail = None,
      ps_proof_preserved = None, ps_candidate = None\<rparr>"

definition no_files :: sat_files where
  "no_files = \<lparr>f_learned = [], f_candidate = None, f_instance = None\<rparr>"

definition failure_metadata :: "string \<Rightarrow> sat_metadata" where
  "failure_metadata err =
     \<lparr>m_status = ''TOOL_FAILURE'', m_detail = None, m_error = Some err, m_seed_applied = None,
      m_proof_enabled = None, m_iterations = 0, m_learned_clauses = 0, m_proof_preserved = None,
      m_proof_checked = None\<rparr>"

definition run_pysat_cegar_inner ::
  "nat \<Rightarrow> solver_start \<Rightarrow> bool \<Rightarrow> sat_event list \<Rightarrow> sat_metadata result \<times> sat_files" where
  "run_pysat_cegar_inner n begin_solver seed_applied evs =
     (case base_cnf n of
        Inl e \<Rightarrow> (Inl e, no_files)
      | Inr clauses \<Rightarrow>
          let failed = (\<lambda>err. (Inr (failure_metadata err),
                no_files\<lparr>f_instance := Some (write_dimacs (variable_count n) clauses)\<rparr>));
              run = (\<lambda>proof_enabled.
                case pysat_loop n evs (initial_state clauses) of
                  (Inl e, s) \<Rightarrow>
                    (Inl e, no_files\<lparr>f_learned := map Some (ps_learned_rows s)\<rparr>)
                | (Inr _, s) \<Rightarrow>
                    (Inr \<lparr>m_status = ps_outcome s, m_detail = ps_detail s, m_error = None,
                          m_seed_applied = Some seed_applied, m_proof_enabled = Some proof_enabled,
                          m_iterations = ps_iterations s, m_learned_clauses = ps_learned_count s,
                          m_proof_preserved = ps_proof_preserved s, m_proof_checked = Some False\<rparr>,
                     \<lparr>f_learned = map Some (ps_learned_rows s), f_candidate = ps_candidate s,
                      f_instance = Some (write_dimacs (variable_count n) (ps_clauses s))\<rparr>))
          in case begin_solver of
               ImportFailed err \<Rightarrow> failed err
             | StartFailed err \<Rightarrow> failed err
             | PlainSolver \<Rightarrow> run False
             | ProofSolver \<Rightarrow> run True)"

definition preserve_interrupted_sat ::
  "nat \<Rightarrow> string \<Rightarrow> string \<Rightarrow> string option \<Rightarrow> sat_files \<Rightarrow> sat_metadata result \<times> sat_files" where
  "preserve_interrupted_sat n st detail err files =
     (case base_cnf n of
        Inl e \<Rightarrow> (Inl e, files)
      | Inr clauses \<Rightarrow>
          let learned = valid_learned_clauses (variable_count n) (f_learned files)
          in (Inr \<lparr>m_status = st, m_detail = Some detail, m_error = err, m_seed_applied = None,
                   m_proof_enabled = None, m_iterations = 0, m_learned_clauses = length learned,
                   m_proof_preserved = None, m_proof_checked = Some False\<rparr>,
              files\<lparr>f_instance := Some (write_dimacs_stream (variable_count n)
                 (length clauses + length learned) (clauses @ learned))\<rparr>))"

text \<open>
  What happened to the worker process: it could not be started, it was still alive at the
  deadline and killed, it left no result, it reported an exception (of type \<open>MemoryError\<close> or
  another), or it returned the metadata.  With a killed or vanished worker the files are what
  it had written until then.
\<close>

datatype sat_worker =
    WorkerNotStarted string
  | WorkerKilled sat_files
  | WorkerVanished "int option" sat_files
  | WorkerRaised bool string sat_files
  | WorkerReturned sat_metadata sat_files

text \<open>\<open>_pysat_worker\<close>; \<open>describe\<close> is the text of an exception.\<close>

definition pysat_worker ::
  "(py_error \<Rightarrow> string) \<Rightarrow> nat \<Rightarrow> solver_start \<Rightarrow> bool \<Rightarrow> sat_event list \<Rightarrow> sat_worker" where
  "pysat_worker describe n begin_solver seed_applied evs =
     (case run_pysat_cegar_inner n begin_solver seed_applied evs of
        (Inl e, files) \<Rightarrow> WorkerRaised False (describe e) files
      | (Inr metadata, files) \<Rightarrow> WorkerReturned metadata files)"

definition run_pysat_cegar ::
  "nat \<Rightarrow> py_float \<Rightarrow> int \<Rightarrow> bool \<Rightarrow> sat_worker \<Rightarrow> sat_metadata result \<times> sat_files" where
  "run_pysat_cegar n timeout_seconds memory_limit_bytes directory_empty worker =
     (if \<not> isfinite timeout_seconds \<or> \<not> py_positive timeout_seconds
      then (Inl (ValueError ''SAT timeout must be positive''), no_files)
      else if memory_limit_bytes < 0
      then (Inl (ValueError ''SAT memory limit cannot be negative''), no_files)
      else if \<not> directory_empty
      then (Inl (ValueError ''SAT output directory must be empty''), no_files)
      else (case worker of
        WorkerNotStarted err \<Rightarrow>
          preserve_interrupted_sat n ''TOOL_FAILURE'' ''SOLVER_PROCESS_START_FAILED'' (Some err) no_files
      | WorkerKilled files \<Rightarrow>
          preserve_interrupted_sat n ''UNKNOWN_TIMEOUT'' ''UNKNOWN_TIMEOUT'' None files
      | WorkerVanished exitcode files \<Rightarrow>
          if memory_limit_bytes \<noteq> 0 \<and> exitcode \<notin> {Some 0, None}
          then preserve_interrupted_sat n ''UNKNOWN_MEMORY_LIMIT'' ''UNKNOWN_MEMORY_LIMIT''
                 (Some ''solver process produced no result'') files
          else preserve_interrupted_sat n ''TOOL_FAILURE'' ''SOLVER_PROCESS_FAILED''
                 (Some ''solver process produced no result'') files
      | WorkerRaised memory_error err files \<Rightarrow>
          if memory_error
          then preserve_interrupted_sat n ''UNKNOWN_MEMORY_LIMIT'' ''UNKNOWN_MEMORY_LIMIT'' (Some err) files
          else preserve_interrupted_sat n ''TOOL_FAILURE'' ''SOLVER_PROCESS_FAILED'' (Some err) files
      | WorkerReturned metadata files \<Rightarrow> (Inr metadata, files)))"

section \<open>Relabelling\<close>

text \<open>Moving two given vertices to 0 and 1.\<close>

definition relabel :: "nat \<Rightarrow> nat \<Rightarrow> nat \<Rightarrow> nat" where
  "relabel a b =
     (let s = (\<lambda>x. if x = a then 0 else if x = 0 then a else x)
      in (\<lambda>x. let y = s x; c = s b in if y = c then 1 else if y = 1 then c else y))"

lemma relabel:
  assumes "a \<noteq> b" "a < n" "b < n" "2 \<le> n"
  shows "relabel a b a = 0" "relabel a b b = 1" "bij_betw (relabel a b) {..<n} {..<n}"
proof -
  let ?p = "relabel a b"
  show "?p a = 0" "?p b = 1" using assms by (auto simp: relabel_def Let_def)
  have inj: "inj ?p" using assms(1) by (auto simp: inj_def relabel_def Let_def split: if_splits)
  have "?p ` {..<n} \<subseteq> {..<n}" using assms by (auto simp: relabel_def Let_def split: if_splits)
  moreover have i: "inj_on ?p {..<n}" using inj by (rule inj_on_subset) simp
  ultimately show "bij_betw ?p {..<n} {..<n}"
    by (metis bij_betw_def endo_inj_surj finite_lessThan)
qed

lemma relabelled_graph:
  assumes g: "wf_graph g" and p: "bij_betw p {..<order g} {..<order g}"
  obtains h where "wf_graph h" "order h = order g"
    "\<And>u v. u < order g \<Longrightarrow> v < order g \<Longrightarrow> has_edge h (p u) (p v) \<longleftrightarrow> has_edge g u v"
proof -
  let ?n = "order g"
  let ?es = "map (\<lambda>(u, v). int_edge (p u, p v)) (edges g)"
  have pl: "p u < ?n" if "u < ?n" for u using p that by (auto simp: bij_betw_def)
  have pi: "p u = p v \<longleftrightarrow> u = v" if "u < ?n" "v < ?n" for u v
    using p that by (auto simp: bij_betw_def inj_on_def)
  have ed: "u < ?n \<and> v < ?n \<and> u \<noteq> v \<and> has_edge g u v" if "(u, v) \<in> set (edges g)" for u v
    using that by (auto simp: set_edges [OF g])
  have v: "\<forall>e\<in>set ?es. valid_pair ?n e"
    using ed pl pi by (auto simp: valid_pair_def int_edge_def)
  have "inj_on (\<lambda>(u, v). {p u, p v}) (set (edges g))"
  proof (rule inj_onI, clarsimp)
    fix u v x y assume "(u, v) \<in> set (edges g)" "(x, y) \<in> set (edges g)" "{p u, p v} = {p x, p y}"
    then show "u = x \<and> v = y" using pi by (auto simp: set_edges [OF g] doubleton_eq_iff)
  qed
  then have d: "distinct (map endpoints ?es)"
    using distinct_edges [of g] unfolding case_prod_unfold by (simp add: distinct_map comp_def)
  obtain h where h: "from_edges (int ?n) ?es = Inr h"
    using from_edges_ok [of ?n ?es] v d unfolding is_ok_iff by blast
  note hs = from_edges_Inr(1-3) [OF h]
  have E: "edge_set h = (\<lambda>(u, v). {p u, p v}) ` set (edges g)"
    using hs(3) by (auto simp: image_image case_prod_beta)
  have "has_edge h (p u) (p v) \<longleftrightarrow> has_edge g u v" if uv: "u < ?n" "v < ?n" for u v
  proof -
    have "has_edge h (p u) (p v) \<longleftrightarrow> {p u, p v} \<in> edge_set h"
      using edge_set_iff [OF hs(1)] pl uv hs(2) by auto
    also have "\<dots> \<longleftrightarrow> (\<exists>x y. (x, y) \<in> set (edges g) \<and> {u, v} = {x, y})"
      unfolding E using pi uv ed by (fastforce simp: doubleton_eq_iff)
    also have "\<dots> \<longleftrightarrow> has_edge g u v"
    proof
      assume e: "has_edge g u v"
      then have "u \<noteq> v" using wf_bit_irrefl [OF g uv(1)] by auto
      then have "(u, v) \<in> set (edges g) \<or> (v, u) \<in> set (edges g)"
        using e uv wf_bit_sym [OF g uv] by (auto simp: set_edges [OF g])
      then show "\<exists>x y. (x, y) \<in> set (edges g) \<and> {u, v} = {x, y}"
        by (metis insert_commute)
    qed (use uv wf_bit_sym [OF g uv] in \<open>auto simp: set_edges [OF g] doubleton_eq_iff\<close>)
    finally show ?thesis .
  qed
  with that hs(1,2) show thesis by blast
qed

lemma rtrancl_relabel:
  assumes "(u, v) \<in> (arcs g)\<^sup>*" "\<And>x y. (x, y) \<in> arcs g \<Longrightarrow> (p x, p y) \<in> arcs h"
  shows "(p u, p v) \<in> (arcs h)\<^sup>*"
  using assms(1) by (induction rule: rtrancl_induct) (auto intro: rtrancl_into_rtrancl assms(2))

lemma eg_counterexample_relabel:
  assumes c: "eg_counterexample g" and p: "bij_betw p {..<order g} {..<order g}"
    and h: "wf_graph h" "order h = order g"
    and E: "\<And>u v. u < order g \<Longrightarrow> v < order g \<Longrightarrow> has_edge h (p u) (p v) \<longleftrightarrow> has_edge g u v"
  shows "eg_counterexample h"
proof -
  let ?n = "order g" and ?q = "inv_into {..<order g} p"
  have c': "0 < ?n" "connected_graph g" "\<And>u. u < ?n \<Longrightarrow> 3 \<le> card {v. v < ?n \<and> has_edge g u v}"
    "\<And>c k. is_cycle g c \<Longrightarrow> length c \<noteq> 2 ^ k"
    using c by (auto simp: eg_counterexample_def)
  have pl: "p u < ?n" if "u < ?n" for u using p that by (auto simp: bij_betw_def)
  have q: "?q x < ?n" "p (?q x) = x" if "x < ?n" for x
    using p that f_inv_into_f [of x p "{..<?n}"] inv_into_into [of x p "{..<?n}"] by (auto simp: bij_betw_def)
  have Eq: "has_edge g (?q x) (?q y) \<longleftrightarrow> has_edge h x y" if "x < ?n" "y < ?n" for x y
    using E [of "?q x" "?q y"] q that by simp
  have "connected_graph h" unfolding connected_graph_def h(2)
  proof (intro allI impI)
    fix u v assume uv: "u < ?n" "v < ?n"
    have "(?q u, ?q v) \<in> (arcs g)\<^sup>*" using c'(2) q uv by (simp add: connected_graph_def)
    then have "(p (?q u), p (?q v)) \<in> (arcs h)\<^sup>*"
      by (rule rtrancl_relabel) (use E pl h(2) in \<open>auto simp: arcs_def\<close>)
    then show "(u, v) \<in> (arcs h)\<^sup>*" using q uv by simp
  qed
  moreover have "3 \<le> card {v. v < ?n \<and> has_edge h u v}" if u: "u < ?n" for u
  proof -
    have inj: "inj_on p {v. v < ?n \<and> has_edge g (?q u) v}"
      using p by (auto simp: bij_betw_def intro: inj_on_subset)
    have "p ` {v. v < ?n \<and> has_edge g (?q u) v} \<subseteq> {v. v < ?n \<and> has_edge h u v}"
      using E [OF q(1) [OF u]] q(2) [OF u] pl by auto
    from card_mono [OF _ this] card_image [OF inj] c'(3) [OF q(1) [OF u]] show ?thesis by simp
  qed
  moreover have "length c \<noteq> 2 ^ k" if c: "is_cycle h c" for c k
  proof -
    have sub: "set c \<subseteq> {..<?n}" using c h(2) by (simp add: is_cycle_def)
    have ne: "c \<noteq> []" using c by (auto simp: is_cycle_def)
    have "successively (\<lambda>x y. has_edge g (?q x) (?q y)) c = successively (has_edge h) c"
      using Eq sub by (intro successively_cong) auto
    moreover have "has_edge g (?q (last c)) (?q (hd c)) = has_edge h (last c) (hd c)"
      using Eq sub ne last_in_set hd_in_set by blast
    moreover have "inj_on ?q (set c)"
      using q(2) sub by (intro inj_on_inverseI [of _ p]) auto
    moreover have "set (map ?q c) \<subseteq> {..<?n}" using q(1) sub by auto
    ultimately have "is_cycle g (map ?q c)"
      using c ne by (simp add: is_cycle_def distinct_map successively_map last_map hd_map)
    from c'(4) [OF this] show ?thesis by simp
  qed
  ultimately show ?thesis using c'(1) h unfolding eg_counterexample_def by simp
qed

lemma eg_counterexample_symmetry:
  assumes "eg_counterexample g"
  obtains h where "eg_counterexample h" "order h = order g" "{0, 1} \<in> edge_set h"
proof -
  have g: "wf_graph g" "0 < order g" "3 \<le> card {v. v < order g \<and> has_edge g 0 v}"
    using assms by (auto simp: eg_counterexample_def)
  then have "{v. v < order g \<and> has_edge g 0 v} \<noteq> {}" by (metis card.empty not_numeral_le_zero)
  then obtain b where b: "b < order g" "has_edge g 0 b" by blast
  then have "0 \<noteq> b" using wf_bit_irrefl [OF g(1,2)] by (intro notI) simp
  note r = relabel [OF this g(2) b(1)]
  have two: "2 \<le> order g" using b(1) \<open>0 \<noteq> b\<close> by simp
  obtain h where h: "wf_graph h" "order h = order g"
    "\<And>u v. u < order g \<Longrightarrow> v < order g \<Longrightarrow> has_edge h (relabel 0 b u) (relabel 0 b v) \<longleftrightarrow> has_edge g u v"
    by (rule relabelled_graph [OF g(1) r(3) [OF two]]) blast
  have "{0, 1} \<in> edge_set h"
    using h(3) [OF g(2) b(1)] b(2) r(1,2) two h(2) edge_set_iff [OF h(1), of 0 1] by simp
  with that eg_counterexample_relabel [OF assms r(3) [OF two] h] h(2) show thesis by blast
qed

section \<open>Learning is sound and makes progress\<close>

text \<open>Every counterexample with the edge between 0 and 1 satisfies the clauses.\<close>

definition implied :: "nat \<Rightarrow> clause list \<Rightarrow> bool" where
  "implied n cs \<longleftrightarrow>
     (\<forall>h. eg_counterexample h \<and> order h = n \<and> {0, 1} \<in> edge_set h \<longrightarrow> satisfies (graph_assignment h) cs)"

lemma implied_no_counterexample:
  assumes "implied n cs" "\<And>A. \<not> satisfies A cs" "order g = n"
  shows "\<not> eg_counterexample g"
  using assms eg_counterexample_symmetry [of g] unfolding implied_def by metis

lemma wf_clauses_append [simp]: "wf_clauses n (cs @ ds) \<longleftrightarrow> wf_clauses n cs \<and> wf_clauses n ds"
  by (auto simp: wf_clauses_def)

lemma implied_append [simp]: "implied n (cs @ ds) \<longleftrightarrow> implied n cs \<and> implied n ds"
  by (auto simp: implied_def)

lemma var_literal:
  "u \<noteq> v \<Longrightarrow> u < n \<Longrightarrow> v < n \<Longrightarrow> var n u v \<noteq> 0 \<and> \<bar>var n u v\<bar> \<le> int (variable_count n)"
  using var_range [of u v n] by auto

lemma base_cnf_wf:
  assumes "base_cnf n = Inr cs"
  shows "wf_clauses (variable_count n) cs" "4 \<le> n" "n \<le> 40" "implied n cs"
proof -
  show n: "4 \<le> n" "n \<le> 40" using assms by (auto simp: base_cnf_def split: if_splits)
  have "wf_clauses (variable_count n) (combinations (incident n u) k)" if "u < n" for u k
  proof -
    have "l \<noteq> 0 \<and> \<bar>l\<bar> \<le> int (variable_count n)" if "l \<in> set (incident n u)" for l
      using that var_literal [of u _ n] \<open>u < n\<close> unfolding incident_def by auto
    then show ?thesis using length_combinations unfolding wf_clauses_def by blast
  qed
  then have "wf_clauses (variable_count n)
      (concat (map (\<lambda>v. combinations (incident n v) (length (incident n v) - 2)) [0..<n]))"
    unfolding wf_clauses_def by fastforce
  moreover have "wf_clauses (variable_count n) [[var n 0 1]]"
    using var_literal [of 0 1 n] n by (simp add: wf_clauses_def)
  moreover have "cs = concat (map (\<lambda>v. combinations (incident n v) (length (incident n v) - 2)) [0..<n]) @
      [[var n 0 1]]"
    using assms n by (simp add: base_cnf_def)
  ultimately show "wf_clauses (variable_count n) cs" by (simp only: wf_clauses_append)
  show "implied n cs" unfolding implied_def
  proof (intro allI impI)
    fix h assume h: "eg_counterexample h \<and> order h = n \<and> {0, 1} \<in> edge_set h"
    then have "wf_graph h" by (simp add: eg_counterexample_def)
    with base_cnf_meaning [OF assms, of h "graph_assignment h"] h graph_assignment_var [of h]
    show "satisfies (graph_assignment h) cs" by (auto simp: eg_counterexample_def)
  qed
qed

text \<open>A clause that may be learned from a model: well-formed, implied, and false in the model.\<close>

definition good_clause :: "nat \<Rightarrow> int list \<Rightarrow> clause \<Rightarrow> bool" where
  "good_clause n m cl \<longleftrightarrow> cl \<noteq> [] \<and> wf_clauses (variable_count n) [cl] \<and> implied n [cl] \<and>
     \<not> satisfies (model_assignment m) [cl]"

lemma good_connectedness:
  assumes g: "describes n (model_assignment m) g" "0 < n" "\<not> connected_graph g"
  shows "good_clause n m (connectedness_clause n (reach g 0))"
proof -
  let ?C = "reach g 0" and ?cl = "connectedness_clause n (reach g 0)"
  have wf: "wf_graph g" "order g = n" using g(1) by (auto simp: describes_def)
  have C: "?C \<subseteq> {..<n}"
    using wf g(2) by (intro arcs_closed_reach) (auto simp: arcs_def)
  have fin: "finite ?C" using C finite_subset by blast
  obtain v where v: "v < n" "v \<notin> ?C"
    using g(2,3) wf connected_iff_reach [OF wf(1)] reach_eq [OF wf(1)] by metis
  have set: "set ?cl = (\<Union>u\<in>?C. var n u ` ({..<n} - ?C))"
    using fin by (simp add: connectedness_clause_def atLeast0LessThan)
  have "wf_clauses (variable_count n) [?cl]"
  proof -
    have "l \<noteq> 0 \<and> \<bar>l\<bar> \<le> int (variable_count n)" if l: "l \<in> set ?cl" for l
    proof -
      obtain x y where "x \<in> ?C" "y \<in> {..<n} - ?C" "l = var n x y" using l unfolding set by blast
      then show ?thesis using C var_literal [of x y n] by auto
    qed
    then show ?thesis by (simp add: wf_clauses_def)
  qed
  moreover have "implied n [?cl]" unfolding implied_def
  proof (intro allI impI)
    fix h assume h: "eg_counterexample h \<and> order h = n \<and> {0, 1} \<in> edge_set h"
    then have "wf_graph h" "connected_graph h" by (auto simp: eg_counterexample_def)
    with h v C crossing_edge [of h ?C 0 v] reach_refl
      connectedness_clause_meaning [of n "graph_assignment h" h ?C] describes_graph_assignment [of h]
    show "satisfies (graph_assignment h) [?cl]" by auto
  qed
  moreover have "\<not> satisfies (model_assignment m) [?cl]"
    using connectedness_clause_meaning [OF g(1) C] no_crossing_edge [OF wf(1), of _ 0] wf(2) C by auto
  moreover have "?cl \<noteq> []" using set v reach_refl by fastforce
  ultimately show ?thesis by (simp add: good_clause_def)
qed

lemma good_cycle:
  assumes g: "describes n (model_assignment m) g" "is_cycle g c" "length c = 2 ^ k"
  obtains cl where "cycle_clause n c = Inr cl" "good_clause n m cl"
proof -
  have c: "3 \<le> length c" "distinct c" "set c \<subseteq> {..<n}" using g by (auto simp: is_cycle_def describes_def)
  let ?cl = "map (\<lambda>i. - var n (c ! i) (c ! ((i + 1) mod length c))) [0..<length c]"
  have cl: "cycle_clause n c = Inr ?cl" using c by (simp add: cycle_clause_def distinct_card)
  have lit: "c ! i \<noteq> c ! ((i + 1) mod length c) \<and> c ! i < n \<and> c ! ((i + 1) mod length c) < n"
    if i: "i < length c" for i
  proof -
    have nx: "(i + 1) mod length c < length c" using i by (intro mod_less_divisor) auto
    have "(i + 1) mod length c \<noteq> i" using c(1) i by (cases "Suc i = length c") auto
    then have "c ! i \<noteq> c ! ((i + 1) mod length c)" using c(2) nx i nth_eq_iff_index_eq by metis
    moreover have "c ! i < n" "c ! ((i + 1) mod length c) < n"
      using c(3) nth_mem [OF i] nth_mem [OF nx] by auto
    ultimately show ?thesis by simp
  qed
  have "wf_clauses (variable_count n) [?cl]"
    unfolding wf_clauses_def using lit var_literal by auto
  moreover have "implied n [?cl]" unfolding implied_def
  proof (intro allI impI)
    fix h assume h: "eg_counterexample h \<and> order h = n \<and> {0, 1} \<in> edge_set h"
    then have "\<not> is_cycle h c" "wf_graph h" using g(3) by (auto simp: eg_counterexample_def)
    with h cycle_clause_meaning [OF _ cl c(3), of "graph_assignment h" h] describes_graph_assignment [of h]
    show "satisfies (graph_assignment h) [?cl]" by auto
  qed
  moreover have "\<not> satisfies (model_assignment m) [?cl]"
    using cycle_clause_meaning [OF g(1) cl c(3)] g(2) by simp
  moreover have "?cl \<noteq> []" using c(1) by auto
  ultimately have "good_clause n m ?cl" by (simp add: good_clause_def)
  with cl that show thesis by blast
qed

text \<open>What one iteration yields, whatever the model is.\<close>

lemma refute_cases:
  assumes "0 < n"
  obtains (invalid) "refute n m = Inl IndexError"
  | (candidate) g where "refute n m = Inr (Candidate g)" "eg_counterexample g" "order g = n"
  | (disconnected) C cl where "refute n m = Inr (Disconnected C cl)" "good_clause n m cl" "finite C"
  | (forbidden) c cl where "refute n m = Inr (ForbiddenCycle c cl)" "good_clause n m cl"
proof -
  obtain g where g: "decode_model n m = Inr g" "wf_graph g" "order g = n"
    "\<And>u v. u \<noteq> v \<Longrightarrow> u < n \<Longrightarrow> v < n \<Longrightarrow> {u, v} \<in> edge_set g \<longleftrightarrow> model_assignment m (var n u v)"
    by (rule decode_model_Inr [of n m]) blast
  have d: "describes n (model_assignment m) g" using g(2-4) by (simp add: describes_def)
  note comps = components_spec [OF g(2), unfolded g(3), OF assms]
  show thesis
  proof (cases "length (components g) > 1")
    case True
    have "refute n m = Inr (Disconnected (reach g 0) (connectedness_clause n (reach g 0)))"
      using True g(1) comps(3) by (auto simp: refute_def Let_def) (metis list.sel(1))+
    moreover have "finite (reach g 0)"
    proof -
      have "reach g 0 \<subseteq> {..<n}" using g(3) assms by (intro arcs_closed_reach) (auto simp: arcs_def)
      then show ?thesis using finite_subset by blast
    qed
    ultimately show thesis using disconnected good_connectedness [OF d assms] comps(4) True by blast
  next
    case False
    show thesis
    proof (cases "status (verify_reference g)")
      case VERIFIED
      then have "eg_counterexample g"
        using eg.verified [OF g(2)] unfolding eg_counterexample_iff [OF g(2)]
        by (auto simp: eg_exact_verify_def eg_validate_graph_def split: if_splits)
      with VERIFIED False g(1,3) show thesis using candidate [of g] by (simp add: refute_def Let_def)
    next
      case REJECTED
      then obtain w k where w: "witnesses (verify_reference g) = [w]" "is_cycle g (vertices w)"
        "length (vertices w) = 2 ^ k"
        using eg.rejected [OF g(2)] by (auto simp: eg_exact_verify_def set_forbidden_lengths)
      obtain cl where "cycle_clause n (vertices w) = Inr cl" "good_clause n m cl"
        using good_cycle [OF d w(2,3)] .
      with REJECTED False g(1) w(1) show thesis
        using forbidden [of "vertices w" cl] by (simp add: refute_def Let_def)
    next
      case INVALID
      then have "witnesses (verify_reference g) = []"
        by (auto simp: verify_reference_def Let_def verifier_results split: if_splits option.splits)
      with INVALID False g(1) show thesis using invalid by (simp add: refute_def Let_def)
    next
      case UNKNOWN
      then show thesis using eg.decided [OF g(2)] by (simp add: eg_exact_verify_def)
    qed
  qed
qed

lemma refute_valid:
  assumes "base_cnf n = Inr bs" "satisfies (model_assignment m) bs"
  shows "refute n m \<noteq> Inl IndexError"
proof -
  have n: "4 \<le> n" using base_cnf_wf(2) [OF assms(1)] .
  obtain g where g: "decode_model n m = Inr g" "wf_graph g" "order g = n"
    "\<And>u v. u \<noteq> v \<Longrightarrow> u < n \<Longrightarrow> v < n \<Longrightarrow> {u, v} \<in> edge_set g \<longleftrightarrow> model_assignment m (var n u v)"
    by (rule decode_model_Inr [of n m]) blast
  have n0: "0 < order g" using n g(3) by simp
  have "\<forall>u<n. 3 \<le> degree g u"
    using base_cnf_meaning [OF assms(1) g(2,3), of "model_assignment m"] assms(2) g(4) degree_card [OF g(2)] g(3)
    by auto
  then have deg: "\<not> minimum_degree g < 3"
    using minimum_degree_ge [OF g(2) n0, of 3] g(3) by (simp add: not_less)
  show ?thesis
  proof (cases "length (components g) > 1")
    case True
    then show ?thesis using g(1) by (simp add: refute_def Let_def)
  next
    case False
    then have "valid (eg_validate_graph g)"
      using components_spec(4) [OF g(2) n0] is_connected_iff [OF g(2)] deg n0 by (simp add: eg_validate_graph_def)
    then have "status (verify_reference g) = VERIFIED \<or> status (verify_reference g) = REJECTED"
      using eg.invalid [OF g(2)] eg.decided [OF g(2)]
      by (cases "status (verify_reference g)") (auto simp: eg_exact_verify_def)
    then show ?thesis
    proof
      assume r: "status (verify_reference g) = REJECTED"
      then obtain w where "witnesses (verify_reference g) = [w]"
        using eg.rejected [OF g(2)] by (auto simp: eg_exact_verify_def)
      then show ?thesis using False g(1) r by (auto simp: refute_def Let_def cycle_clause_def)
    qed (use False g(1) in \<open>simp add: refute_def Let_def\<close>)
  qed
qed

text \<open>The models over the numbered variables; a good clause removes at least one.\<close>

definition models :: "nat \<Rightarrow> clause list \<Rightarrow> int set set" where
  "models n cs = {S. S \<subseteq> {1..int (variable_count n)} \<and> satisfies (\<lambda>v. v \<in> S) cs}"

lemma finite_models: "finite (models n cs)"
  by (rule finite_subset [of _ "Pow {1..int (variable_count n)}"]) (auto simp: models_def)

lemma satisfies_restrict:
  assumes "wf_clauses N cs"
  shows "satisfies (\<lambda>v. v \<in> {v. 1 \<le> v \<and> v \<le> int N \<and> A v}) cs \<longleftrightarrow> satisfies A cs"
proof -
  have "lit_true (\<lambda>v. v \<in> {v. 1 \<le> v \<and> v \<le> int N \<and> A v}) l = lit_true A l"
    if "c \<in> set cs" "l \<in> set c" for c l
  proof -
    have "l \<noteq> 0" "\<bar>l\<bar> \<le> int N" using assms that by (auto simp: wf_clauses_def)
    then show ?thesis by (auto simp: lit_true_def)
  qed
  then show ?thesis unfolding satisfies_def by blast
qed

lemma models_decrease:
  assumes "wf_clauses (variable_count n) (cs @ [cl])" "satisfies A cs" "\<not> satisfies A [cl]"
  shows "card (models n (cs @ [cl])) < card (models n cs)"
proof (rule psubset_card_mono [OF finite_models psubsetI])
  let ?S = "{v. 1 \<le> v \<and> v \<le> int (variable_count n) \<and> A v}"
  show "models n (cs @ [cl]) \<subseteq> models n cs" by (auto simp: models_def)
  have "satisfies (\<lambda>v. v \<in> ?S) cs" "\<not> satisfies (\<lambda>v. v \<in> ?S) [cl]"
    using satisfies_restrict [of "variable_count n" cs A] satisfies_restrict [of "variable_count n" "[cl]" A] assms
    by (simp_all del: satisfies_Cons mem_Collect_eq)
  moreover have "?S \<subseteq> {1..int (variable_count n)}" by auto
  ultimately have "?S \<in> models n cs" "?S \<notin> models n (cs @ [cl])"
    unfolding models_def by (simp_all del: satisfies_Cons)
  then show "models n (cs @ [cl]) \<noteq> models n cs" by blast
qed

text \<open>What the loop promises.\<close>

definition decided :: "nat \<Rightarrow> tiny_result \<Rightarrow> bool" where
  "decided n r \<longleftrightarrow>
     (case tiny_outcome r of
        UNSAT_GROUND_TRUTH \<Rightarrow> tiny_graph6 r = None \<and> (\<forall>g. order g = n \<longrightarrow> \<not> eg_counterexample g)
      | SAT_CANDIDATE \<Rightarrow>
          \<exists>g bytes. eg_counterexample g \<and> order g = n \<and> to_graph6 g = Inr bytes \<and> tiny_graph6 r = Some bytes)"

context sat_solver
begin

lemma cegar_loop_decides:
  assumes "base_cnf n = Inr bs" "wf_clauses (variable_count n) cs" "implied n cs"
    "\<And>A. satisfies A cs \<Longrightarrow> satisfies A bs"
  shows "\<exists>r. cegar_loop solve n cs learned i = Some (Inr r) \<and> decided n r"
  using assms(2-4)
proof (induction "card (models n cs)" arbitrary: cs learned i rule: less_induct)
  case less
  show ?case
  proof (cases "solve cs (variable_count n)")
    case None
    have "\<not> eg_counterexample g" if "order g = n" for g
      using implied_no_counterexample [OF less.prems(2) _ that] unsat [OF less.prems(1) None] by blast
    then show ?thesis
      using None by (subst cegar_loop.simps) (simp add: decided_def)
  next
    case (Some m)
    have sat: "satisfies (model_assignment m) cs" by (rule model [OF less.prems(1) Some])
    have next_round: "\<exists>r. cegar_loop solve n (cs @ [cl]) l j = Some (Inr r) \<and> decided n r"
      if cl: "good_clause n m cl" for cl l j
    proof (rule less.hyps)
      show "wf_clauses (variable_count n) (cs @ [cl])" "implied n (cs @ [cl])"
        using cl less.prems by (simp_all add: good_clause_def)
      then show "card (models n (cs @ [cl])) < card (models n cs)"
        using models_decrease sat cl by (simp add: good_clause_def)
      show "satisfies A bs" if "satisfies A (cs @ [cl])" for A using less.prems(3) that by simp
    qed
    have "0 < n" using base_cnf_wf(2) [OF assms(1)] by simp
    then show ?thesis
    proof (cases rule: refute_cases [of n m])
      case invalid
      then show ?thesis using refute_valid [OF assms(1) less.prems(3) [OF sat]] by simp
    next
      case (candidate g)
      have "wf_graph g" "order g \<le> 258047"
        using candidate base_cnf_wf(3) [OF assms(1)] by (auto simp: eg_counterexample_def)
      then obtain bytes where "to_graph6 g = Inr bytes" using graph6_encodes by blast
      then show ?thesis using Some candidate by (subst cegar_loop.simps) (auto simp: decided_def)
    next
      case (disconnected C cl)
      then show ?thesis using Some next_round by (subst cegar_loop.simps) simp
    next
      case (forbidden c cl)
      then show ?thesis using Some next_round by (subst cegar_loop.simps) simp
    qed
  qed
qed

end

section \<open>The loop around an external solver keeps its files sound\<close>

definition pysat_inv :: "nat \<Rightarrow> clause list \<Rightarrow> pysat_state \<Rightarrow> bool" where
  "pysat_inv n bs s \<longleftrightarrow>
     (\<exists>ls. ps_clauses s = bs @ ls \<and> ps_learned_count s = length ls \<and> implied n ls \<and>
        map (\<lambda>j. valid_learned_clause (variable_count n) (Some j)) (ps_learned_rows s) = map Some ls \<and>
        ps_learned_bytes s \<le> MAX_LEARNED_BYTES) \<and>
     (\<forall>bytes. ps_candidate s = Some bytes \<longrightarrow>
        (\<exists>g enc. eg_counterexample g \<and> order g = n \<and> to_graph6 g = Inr enc \<and> bytes = enc @ [10]))"

lemma valid_learned_record:
  assumes "r = Disconnected C cl \<or> r = ForbiddenCycle c cl" "good_clause n m cl"
  shows "valid_learned_clause (variable_count n) (Some (learned_record r)) = Some cl"
proof -
  have "cl \<noteq> []" "\<forall>l\<in>set cl. l \<noteq> 0 \<and> \<bar>l\<bar> \<le> int (variable_count n)"
    using assms(2) by (auto simp: good_clause_def wf_clauses_def)
  with assms(1) show ?thesis
    by (auto simp: learned_record_def valid_learned_clause_def)
qed

lemma learn_inv:
  assumes "pysat_inv n bs s" "r = Disconnected C cl \<or> r = ForbiddenCycle c cl" "good_clause n m cl"
    "learn r cl s = Some s'"
  shows "pysat_inv n bs s'"
proof -
  obtain ls where ls: "ps_clauses s = bs @ ls" "ps_learned_count s = length ls" "implied n ls"
    "map (\<lambda>j. valid_learned_clause (variable_count n) (Some j)) (ps_learned_rows s) = map Some ls"
    using assms(1) by (auto simp: pysat_inv_def)
  have s': "ps_clauses s' = bs @ ls @ [cl]" "ps_learned_count s' = length (ls @ [cl])"
    "ps_learned_rows s' = ps_learned_rows s @ [learned_record r]" "ps_candidate s' = ps_candidate s"
    "ps_learned_bytes s' \<le> MAX_LEARNED_BYTES"
    using assms(4) ls by (auto simp: learn_def split: if_splits)
  have "implied n (ls @ [cl])" using ls(3) assms(3) by (simp add: good_clause_def)
  moreover have "map (\<lambda>j. valid_learned_clause (variable_count n) (Some j)) (ps_learned_rows s') = map Some (ls @ [cl])"
    using ls(4) s'(3) valid_learned_record [OF assms(2,3)] by simp
  ultimately show ?thesis
    using s' assms(1) unfolding pysat_inv_def by (intro conjI exI [of _ "ls @ [cl]"]) auto
qed

lemma pysat_inv_keep:
  assumes "pysat_inv n bs s"
  shows "pysat_inv n bs (deadline_reached s)" "pysat_inv n bs (storage_bound s)"
    "pysat_inv n bs (s\<lparr>ps_iterations := i\<rparr>)" "pysat_inv n bs (s\<lparr>ps_detail := d, ps_proof_preserved := p\<rparr>)"
  using assms by (simp_all add: pysat_inv_def deadline_reached_def storage_bound_def)

lemma pysat_loop_inv: "0 < n \<Longrightarrow> pysat_inv n bs s \<Longrightarrow> pysat_inv n bs (snd (pysat_loop n evs s))"
proof (induction n evs s rule: pysat_loop.induct)
  case (4 n m evs s)
  let ?s1 = "s\<lparr>ps_iterations := Suc (ps_iterations s)\<rparr>"
  let ?m = "case m of None \<Rightarrow> [] | Some ls \<Rightarrow> ls"
  have s1: "pysat_inv n bs ?s1" by (rule pysat_inv_keep(3) [OF "4.prems"(2)])
  have learned: "pysat_inv n bs (snd (case learn r cl ?s1 of
      None \<Rightarrow> (Inr (), storage_bound ?s1) | Some s2 \<Rightarrow> pysat_loop n evs s2))"
    if r: "r = Disconnected C cl \<or> r = ForbiddenCycle c cl" "good_clause n ?m cl" "refute n ?m = Inr r" for r C c cl
  proof (cases "learn r cl ?s1")
    case None
    then show ?thesis using pysat_inv_keep(2) [OF s1] by simp
  next
    case (Some s2)
    from learn_inv [OF s1 r(1,2) Some] have "pysat_inv n bs s2" .
    then show ?thesis using "4.IH" "4.prems"(1) r(1,3) Some by auto
  qed
  from "4.prems"(1) show ?case
  proof (cases rule: refute_cases [of n ?m])
    case invalid
    then show ?thesis using s1 by (simp add: Let_def)
  next
    case (candidate g)
    then show ?thesis
      using s1 by (cases "to_graph6 g") (auto simp: Let_def pysat_inv_def)
  next
    case (disconnected C cl)
    then show ?thesis using learned [of "Disconnected C cl" C cl] by (simp add: Let_def)
  next
    case (forbidden c cl)
    then show ?thesis using learned [of "ForbiddenCycle c cl" _ cl c] by (simp add: Let_def)
  qed
qed (simp_all add: pysat_inv_keep)

lemma pysat_inv_init: "pysat_inv n bs (initial_state bs)"
  by (simp add: pysat_inv_def initial_state_def implied_def)

lemma valid_learned_clauses_rows:
  assumes "map (\<lambda>j. valid_learned_clause v (Some j)) js = map Some ls"
  shows "valid_learned_clauses v (map Some (take k js) @ replicate i None) = take k ls"
proof -
  have none: "valid_learned_clause v None = None" by (simp add: valid_learned_clause_def)
  have "List.map_filter (valid_learned_clause v) (replicate i None) = []"
    using none by (induction i) (simp_all add: List.map_filter_simps)
  moreover have "List.map_filter (valid_learned_clause v) (map Some (take k js)) = take k ls"
    using assms
  proof (induction js arbitrary: ls k)
    case (Cons j js)
    then obtain l ls' where "ls = l # ls'" by (cases ls) auto
    with Cons show ?case by (cases k) (auto simp: List.map_filter_simps)
  qed (simp add: List.map_filter_simps)
  ultimately show ?thesis by (simp add: valid_learned_clauses_def map_filter_def)
qed

section \<open>Properties\<close>

text \<open>
  C8. The counterexample-guided loop with the built-in solver settles its order: for every
  order from four to six it returns, it reports \<open>UNSAT_GROUND_TRUTH\<close> only if no graph of that
  order is a counterexample (the symmetry break on the edge between 0 and 1 loses nothing),
  and \<open>SAT_CANDIDATE\<close> only with the graph6 text of a counterexample of that order.
\<close>

theorem tiny_cegar_decides:
  assumes "4 \<le> n" "n \<le> 6"
  shows "\<exists>r. tiny_cegar n = Some (Inr r) \<and> decided n r"
proof -
  obtain bs where bs: "base_cnf n = Inr bs" using assms by (simp add: base_cnf_def)
  then have "\<exists>r. cegar_loop solve_dpll n bs [] 0 = Some (Inr r) \<and> decided n r"
    using dpll.cegar_loop_decides base_cnf_wf by blast
  then show ?thesis using assms bs by (simp add: tiny_cegar_def)
qed

theorem tiny_cegar_decides_witness:
  "map_option (map_sum id tiny_outcome) (tiny_cegar 4) = Some (Inr UNSAT_GROUND_TRUTH) \<and>
   (\<nexists>g. order g = 4 \<and> eg_counterexample g)"
proof -
  have o: "map_option (map_sum id tiny_outcome) (tiny_cegar 4) = Some (Inr UNSAT_GROUND_TRUTH)"
    by code_simp
  obtain r where "tiny_cegar 4 = Some (Inr r)" "decided 4 r" using tiny_cegar_decides [of 4] by auto
  with o show ?thesis by (simp add: decided_def)
qed

text \<open>
  C34. The artifacts of a finished solver run are sound whatever the external solver answered:
  the stored instance consists of the base clauses followed by the learned ones, reading the
  file of learned clauses back gives exactly these, every counterexample of the order with
  the edge between 0 and 1 satisfies the instance, so that an unsatisfiable instance rules out
  every counterexample of that order; a stored candidate is a counterexample.
\<close>

theorem pysat_artifacts_sound:
  assumes "run_pysat_cegar_inner n begin_solver seed evs = (Inr md, files)"
  shows "\<exists>bs ls. base_cnf n = Inr bs \<and>
    f_instance files = Some (write_dimacs (variable_count n) (bs @ ls)) \<and>
    valid_learned_clauses (variable_count n) (f_learned files) = ls \<and>
    m_learned_clauses md = length ls \<and> implied n (bs @ ls) \<and>
    ((\<forall>A. \<not> satisfies A (bs @ ls)) \<longrightarrow> (\<forall>g. order g = n \<longrightarrow> \<not> eg_counterexample g)) \<and>
    (\<forall>bytes. f_candidate files = Some bytes \<longrightarrow>
       (\<exists>g enc. eg_counterexample g \<and> order g = n \<and> to_graph6 g = Inr enc \<and> bytes = enc @ [10]))"
proof -
  obtain bs where bs: "base_cnf n = Inr bs"
    using assms by (cases "base_cnf n") (auto simp: run_pysat_cegar_inner_def)
  have imp: "implied n bs" and n: "0 < n" using base_cnf_wf [OF bs] by auto
  show ?thesis
  proof (cases "f_learned files = [] \<and> f_candidate files = None \<and> m_learned_clauses md = 0 \<and>
      f_instance files = Some (write_dimacs (variable_count n) bs)")
    case True
    then show ?thesis
      using bs imp implied_no_counterexample [OF imp]
      by (intro exI [of _ bs] exI [of _ "[]"]) (auto simp: valid_learned_clauses_def List.map_filter_simps)
  next
    case False
    obtain u s where s: "pysat_loop n evs (initial_state bs) = (Inr u, s)"
      "f_instance files = Some (write_dimacs (variable_count n) (ps_clauses s))"
      "f_learned files = map Some (ps_learned_rows s)" "f_candidate files = ps_candidate s"
      "m_learned_clauses md = ps_learned_count s"
      using assms bs False
      by (auto simp: run_pysat_cegar_inner_def Let_def no_files_def failure_metadata_def
          split: solver_start.splits prod.splits sum.splits)
    have inv: "pysat_inv n bs s"
      using pysat_loop_inv [OF n pysat_inv_init, of bs evs] s(1) by simp
    then obtain ls where ls: "ps_clauses s = bs @ ls" "ps_learned_count s = length ls" "implied n ls"
      "map (\<lambda>j. valid_learned_clause (variable_count n) (Some j)) (ps_learned_rows s) = map Some ls"
      by (auto simp: pysat_inv_def)
    have len: "length (ps_learned_rows s) = length ls" using map_eq_imp_length_eq [OF ls(4)] by simp
    have "valid_learned_clauses (variable_count n) (f_learned files) = ls"
      using valid_learned_clauses_rows [OF ls(4), of "length ls" 0] s(3) len by simp
    moreover have "implied n (bs @ ls)" using imp ls(3) by simp
    ultimately show ?thesis
      using bs s ls inv implied_no_counterexample [of n "bs @ ls"]
      by (intro exI [of _ bs] exI [of _ ls]) (auto simp: pysat_inv_def)
  qed
qed

definition k4_cycle :: refutation where
  "k4_cycle = ForbiddenCycle [0, 1, 2, 3] [- 1, - 4, - 6, - 3]"

lemma refute_k4: "refute 4 [1, 2, 3, 4, 5, 6] = Inr k4_cycle"
  by code_simp

lemma pysat_loop_k4:
  assumes "length (ps_clauses s) < 100" "ps_learned_bytes s = 0"
  shows "pysat_loop 4 [Model (Some [1, 2, 3, 4, 5, 6]), Unsat None] s =
    (Inr (), s\<lparr>ps_iterations := Suc (ps_iterations s), ps_clauses := ps_clauses s @ [[- 1, - 4, - 6, - 3]],
       ps_learned_count := Suc (ps_learned_count s),
       ps_learned_rows := ps_learned_rows s @ [learned_record k4_cycle],
       ps_learned_bytes := length (learned_line k4_cycle),
       ps_detail := Some ''UNSAT_WITHOUT_CHECKED_CERTIFICATE'', ps_proof_preserved := None\<rparr>)"
proof -
  have "length (learned_line k4_cycle) < 100" by code_simp
  then have "learn k4_cycle [- 1, - 4, - 6, - 3] (s\<lparr>ps_iterations := Suc (ps_iterations s)\<rparr>) =
      Some (s\<lparr>ps_iterations := Suc (ps_iterations s), ps_clauses := ps_clauses s @ [[- 1, - 4, - 6, - 3]],
        ps_learned_count := Suc (ps_learned_count s),
        ps_learned_rows := ps_learned_rows s @ [learned_record k4_cycle],
        ps_learned_bytes := length (learned_line k4_cycle)\<rparr>)"
    using assms by (simp add: learn_def MAX_SAT_CLAUSES_def MAX_LEARNED_BYTES_def)
  then show ?thesis using refute_k4 by (simp add: Let_def k4_cycle_def preserve_proof_def)
qed

theorem pysat_artifacts_sound_witness:
  "valid_learned_clauses (variable_count 4)
     (f_learned (snd (run_pysat_cegar_inner 4 PlainSolver True
        [Model (Some [1, 2, 3, 4, 5, 6]), Unsat None]))) = [[- 1, - 4, - 6, - 3]]"
proof -
  let ?run = "run_pysat_cegar_inner 4 PlainSolver True [Model (Some [1, 2, 3, 4, 5, 6]), Unsat None]"
  obtain bs where bs: "base_cnf 4 = Inr bs" "length bs < 100"
  proof -
    have "case base_cnf 4 of Inl _ \<Rightarrow> False | Inr bs \<Rightarrow> length bs < 100" by code_simp
    then show ?thesis using that by (cases "base_cnf 4") auto
  qed
  have "length (ps_clauses (initial_state bs)) < 100" "ps_learned_bytes (initial_state bs) = 0"
    using bs(2) by (simp_all add: initial_state_def)
  note loop = pysat_loop_k4 [OF this]
  obtain md files where run: "?run = (Inr md, files)"
    "f_instance files = Some (write_dimacs (variable_count 4) (bs @ [[- 1, - 4, - 6, - 3]]))"
    "f_learned files = [Some (learned_record k4_cycle)]"
    using bs(1) loop by (simp add: run_pysat_cegar_inner_def initial_state_def)
  obtain ls where ls: "valid_learned_clauses (variable_count 4) (f_learned files) = ls"
    "m_learned_clauses md = length ls"
    using pysat_artifacts_sound [OF run(1)] by blast
  moreover have "valid_learned_clauses (variable_count 4) [Some (learned_record k4_cycle)] = [[- 1, - 4, - 6, - 3]]"
    by code_simp
  ultimately show ?thesis using run(1,3) by simp
qed

text \<open>
  C35. An interrupted run loses no soundness: when the worker is killed after any number of
  iterations, with any prefix of its learned clauses on disk and possibly a line that was cut
  off, the preserved instance is the base clauses followed by exactly that prefix, and an
  unsatisfiable preserved instance still rules out every counterexample of the order.
\<close>

theorem interrupted_run_preserves_instance:
  assumes "base_cnf n = Inr bs" "pysat_loop n evs (initial_state bs) = (res, s)"
    and "f_learned files = map Some (take k (ps_learned_rows s)) @ replicate i None"
    and "isfinite t" "py_positive t" "0 \<le> memory"
  shows "\<exists>ls md. ps_clauses s = bs @ ls \<and>
    run_pysat_cegar n t memory True (WorkerKilled files) =
      (Inr md, files\<lparr>f_instance := Some (write_dimacs (variable_count n) (bs @ take k ls))\<rparr>) \<and>
    m_status md = ''UNKNOWN_TIMEOUT'' \<and> m_learned_clauses md = length (take k ls) \<and>
    ((\<forall>A. \<not> satisfies A (bs @ take k ls)) \<longrightarrow> (\<forall>g. order g = n \<longrightarrow> \<not> eg_counterexample g))"
proof -
  have "implied n bs" "0 < n" using base_cnf_wf [OF assms(1)] by auto
  then have "pysat_inv n bs s" using pysat_loop_inv [OF _ pysat_inv_init, of n bs evs] assms(2) by simp
  then obtain ls where ls: "ps_clauses s = bs @ ls" "implied n ls"
    "map (\<lambda>j. valid_learned_clause (variable_count n) (Some j)) (ps_learned_rows s) = map Some ls"
    by (auto simp: pysat_inv_def)
  have v: "valid_learned_clauses (variable_count n) (f_learned files) = take k ls"
    using valid_learned_clauses_rows [OF ls(3)] assms(3) by simp
  have "implied n (bs @ take k ls)"
    using ls(2) \<open>implied n bs\<close> by (metis append_take_drop_id implied_append)
  then have "(\<forall>A. \<not> satisfies A (bs @ take k ls)) \<longrightarrow> (\<forall>g. order g = n \<longrightarrow> \<not> eg_counterexample g)"
    using implied_no_counterexample by blast
  then show ?thesis
    using ls(1) v assms(1,4-6)
    by (intro exI [of _ ls])
      (simp add: run_pysat_cegar_def preserve_interrupted_sat_def write_dimacs_def Let_def)
qed

theorem interrupted_run_preserves_instance_witness:
  "\<exists>bs md. base_cnf 4 = Inr bs \<and>
     run_pysat_cegar 4 (Fin 5) 0 True
       (WorkerKilled (no_files\<lparr>f_learned := [Some (learned_record k4_cycle), None]\<rparr>)) =
     (Inr md, no_files\<lparr>f_learned := [Some (learned_record k4_cycle), None],
        f_instance := Some (write_dimacs (variable_count 4) (bs @ [[- 1, - 4, - 6, - 3]]))\<rparr>) \<and>
     m_learned_clauses md = 1"
proof -
  obtain bs where bs: "base_cnf 4 = Inr bs" "length bs < 100"
  proof -
    have "case base_cnf 4 of Inl _ \<Rightarrow> False | Inr bs \<Rightarrow> length bs < 100" by code_simp
    then show ?thesis using that by (cases "base_cnf 4") auto
  qed
  have "length (ps_clauses (initial_state bs)) < 100" "ps_learned_bytes (initial_state bs) = 0"
    using bs(2) by (simp_all add: initial_state_def)
  note loop = pysat_loop_k4 [OF this]
  have t: "isfinite (Fin 5)" "py_positive (Fin 5)" by (simp_all add: isfinite_def py_positive_def)
  let ?files = "no_files\<lparr>f_learned := [Some (learned_record k4_cycle), None]\<rparr>"
  from interrupted_run_preserves_instance [OF bs(1) loop, of ?files 1 1 "Fin 5" 0] t
  obtain md where "run_pysat_cegar 4 (Fin 5) 0 True (WorkerKilled ?files) =
     (Inr md, ?files\<lparr>f_instance := Some (write_dimacs (variable_count 4) (bs @ [[- 1, - 4, - 6, - 3]]))\<rparr>)"
    "m_learned_clauses md = 1"
    by (auto simp: initial_state_def)
  with bs(1) show ?thesis by simp
qed

end
