(* ===== verification/Rng.thy ===== *)
theory Rng
  imports Prelude "HOL-Library.Multiset"
begin

text \<open>
  The pseudo random generator of the standard library, \<open>random.Random\<close>.  The generator is
  modelled by the list of its future raw draws: each use takes one draw and reduces it to
  the range it needs, so that every sequence of results the generator can produce is the
  behaviour of some list.  (A list that runs out continues with zeros.)  Statements that hold
  for every list therefore hold for every seed.
\<close>

type_synonym rng = "nat list"

definition randbelow :: "nat \<Rightarrow> rng \<Rightarrow> nat \<times> rng" where
  "randbelow k r = (case r of [] \<Rightarrow> (0, []) | x # xs \<Rightarrow> (x mod k, xs))"

definition choice :: "'a list \<Rightarrow> rng \<Rightarrow> ('a \<times> rng) result" where
  "choice xs r =
     (if xs = [] then Inl IndexError
      else let (i, r') = randbelow (length xs) r in Inr (xs ! i, r'))"

text \<open>\<open>random() < 0.55\<close>: the draw is a multiple of \<open>2^-53\<close>, and the nearest float to 0.55 is
  4953959590107546 of these units.\<close>

definition random_below_055 :: "rng \<Rightarrow> bool \<times> rng" where
  "random_below_055 r = (let (k, r') = randbelow (2 ^ 53) r in (k < 4953959590107546, r'))"

text \<open>\<open>sample(xs, 2)\<close>: two different positions.\<close>

definition sample2 :: "'a list \<Rightarrow> rng \<Rightarrow> (('a \<times> 'a) \<times> rng) result" where
  "sample2 xs r =
     (if length xs < 2 then Inl (ValueError ''Sample larger than population or is negative'')
      else
        let (i, r1) = randbelow (length xs) r;
            pool = xs[i := last xs];
            (j, r2) = randbelow (length xs - 1) r1
        in Inr ((xs ! i, pool ! j), r2))"

definition swap :: "nat \<Rightarrow> nat \<Rightarrow> 'a list \<Rightarrow> 'a list" where
  "swap i j xs = xs[i := xs ! j, j := xs ! i]"

text \<open>\<open>shuffle\<close>: exchange each position, from the last down to the second, with an earlier one.\<close>

fun shuffle_from :: "nat \<Rightarrow> 'a list \<Rightarrow> rng \<Rightarrow> 'a list \<times> rng" where
  "shuffle_from 0 xs r = (xs, r)"
| "shuffle_from (Suc i) xs r =
     (let (j, r') = randbelow (Suc (Suc i)) r in shuffle_from i (swap (Suc i) j xs) r')"

definition shuffle :: "'a list \<Rightarrow> rng \<Rightarrow> 'a list \<times> rng" where
  "shuffle xs r = shuffle_from (length xs - 1) xs r"

text \<open>\<open>xs.pop(i)\<close>.\<close>

definition pop_at :: "nat \<Rightarrow> 'a list \<Rightarrow> 'a \<times> 'a list" where
  "pop_at i xs = (xs ! i, take i xs @ drop (Suc i) xs)"

lemma randbelow_less: "0 < k \<Longrightarrow> fst (randbelow k r) < k"
  by (cases r) (simp_all add: randbelow_def)

lemma choice_Inr: "choice xs r = Inr (x, r') \<Longrightarrow> x \<in> set xs"
  using randbelow_less [of "length xs" r]
  by (auto simp: choice_def Let_def split: prod.splits if_splits)

lemma choice_ok: "xs \<noteq> [] \<Longrightarrow> \<exists>x r'. choice xs r = Inr (x, r') \<and> x \<in> set xs"
  using choice_Inr [of xs r] by (fastforce simp: choice_def Let_def split: prod.splits)

lemma sample2_Inr:
  assumes "sample2 xs r = Inr ((x, y), r')"
  shows "x \<in> set xs \<and> y \<in> set xs" and "distinct xs \<Longrightarrow> x \<noteq> y"
proof -
  obtain i r1 j where i: "randbelow (length xs) r = (i, r1)"
    "randbelow (length xs - 1) r1 = (j, r')" "x = xs ! i" "y = xs[i := last xs] ! j" "2 \<le> length xs"
    using assms by (auto simp: sample2_def Let_def split: prod.splits if_splits)
  then have b: "i < length xs" "j < length xs - 1"
    using randbelow_less [of "length xs" r] randbelow_less [of "length xs - 1" r1] by (auto simp del: length_greater_0_conv)
  have "xs \<noteq> []" using i(5) by auto
  then have "last xs \<in> set xs" "last xs = xs ! (length xs - 1)" by (simp_all add: last_conv_nth)
  then show "x \<in> set xs \<and> y \<in> set xs" using i b by (auto simp: nth_list_update)
  show "distinct xs \<Longrightarrow> x \<noteq> y"
    using i b \<open>last xs = _\<close> by (auto simp: nth_list_update nth_eq_iff_index_eq)
qed

lemma sample2_ok: "2 \<le> length xs \<Longrightarrow> \<exists>x y r'. sample2 xs r = Inr ((x, y), r')"
  by (auto simp: sample2_def Let_def split: prod.splits)

lemma mset_swap_pos: "i < length xs \<Longrightarrow> j < length xs \<Longrightarrow> mset (swap i j xs) = mset xs"
  by (simp add: swap_def mset_swap)

lemma mset_shuffle_from: "i < length xs \<Longrightarrow> mset (fst (shuffle_from i xs r)) = mset xs"
proof (induction i xs r rule: shuffle_from.induct)
  case (2 i xs r)
  obtain j r' where j: "randbelow (Suc (Suc i)) r = (j, r')" by fastforce
  then have "j < length xs" using randbelow_less [of "Suc (Suc i)" r] 2(2) by auto
  with 2 j show ?case by (simp add: mset_swap_pos) (simp add: swap_def)
qed simp

lemma mset_shuffle [simp]: "mset (fst (shuffle xs r)) = mset xs"
  by (cases xs) (simp_all add: shuffle_def mset_shuffle_from)

lemma mset_pop_at: "i < length xs \<Longrightarrow> pop_at i xs = (x, ys) \<Longrightarrow> mset xs = add_mset x (mset ys)"
proof -
  assume i: "i < length xs" and p: "pop_at i xs = (x, ys)"
  have "mset xs = mset (take i xs @ xs ! i # drop (Suc i) xs)" using id_take_nth_drop [OF i] by simp
  with p show ?thesis by (auto simp: pop_at_def)
qed

lemma pop_at_shorter: "vs \<noteq> [] \<Longrightarrow> length (snd (pop_at i (butlast vs))) < length vs"
  by (cases vs rule: rev_cases) (auto simp: pop_at_def min_def)

end
