(* ===== verification/Mutation.thy ===== *)
theory Mutation
  imports Targets Rng
begin

text \<open>
  Candidate mutation, \<open>src/src/sglab/targets/erdos_gyarfas.py\<close>: the mutation profile, the
  cache of forbidden witness edges, the two-edge switch and \<open>mutate_with_delta\<close>.

  A graph object is a pair of its identity (a number, compared by \<open>is\<close>) and its value.  The
  configuration dictionary holds mutable objects (profile and cache), so the operations
  return it updated.  The forbidden lengths are a parameter: the methods run on either plugin
  and call its own \<open>forbidden_lengths\<close>.  A configuration entry may be absent or of the wrong type.  Clock
  readings are not modelled: the nanosecond counters that \<open>mutate_with_delta\<close> feeds from the
  clock keep their values.
\<close>

type_synonym edge = "nat \<times> nat"
type_synonym graph_object = "nat \<times> bitgraph"

datatype 'a cfg = Absent | Mistyped | Given 'a

record mutation_result =
  mr_graph :: bitgraph
  removed_edges :: "edge list"
  added_edges :: "edge list"

definition unchanged :: "bitgraph \<Rightarrow> mutation_result" where
  "unchanged g = \<lparr>mr_graph = g, removed_edges = [], added_edges = []\<rparr>"

section \<open>The mutation profile\<close>

definition PROFILED_FORBIDDEN_LENGTHS :: "nat list" where
  "PROFILED_FORBIDDEN_LENGTHS = [4, 8, 16, 32, 64, 128]"

record mutation_profile =
  uniform_evaluations :: nat
  uniform_ns :: nat
  targeted_evaluations :: nat
  targeted_ns :: nat
  random_restart_evaluations :: nat
  random_restart_ns :: nat
  witness_cache_lookups :: nat
  witness_cache_hits :: nat
  witness_cache_misses :: nat
  witness_searches :: nat
  witness_search_ns :: nat
  witness_search_length_ns :: "nat list"
  witness_search_length_nodes :: "nat list"
  witness_search_length_calls :: "nat list"
  witness_edge_materialization_ns :: nat
  switch_attempts :: nat
  partner_edge_sampling_ns :: nat
  candidate_construction_ns :: nat
  connectivity_validation_ns :: nat
  graph_family_validation_ns :: nat

definition new_mutation_profile :: mutation_profile where
  "new_mutation_profile =
     \<lparr>uniform_evaluations = 0, uniform_ns = 0, targeted_evaluations = 0, targeted_ns = 0,
      random_restart_evaluations = 0, random_restart_ns = 0, witness_cache_lookups = 0,
      witness_cache_hits = 0, witness_cache_misses = 0, witness_searches = 0,
      witness_search_ns = 0,
      witness_search_length_ns = replicate (length PROFILED_FORBIDDEN_LENGTHS) 0,
      witness_search_length_nodes = replicate (length PROFILED_FORBIDDEN_LENGTHS) 0,
      witness_search_length_calls = replicate (length PROFILED_FORBIDDEN_LENGTHS) 0,
      witness_edge_materialization_ns = 0, switch_attempts = 0, partner_edge_sampling_ns = 0,
      candidate_construction_ns = 0, connectivity_validation_ns = 0,
      graph_family_validation_ns = 0\<rparr>"

text \<open>\<open>reset\<close> zeroes the scalar counters and then the list entries one by one.\<close>

definition zero_prefix :: "nat \<Rightarrow> nat list \<Rightarrow> nat list" where
  "zero_prefix k xs = fold (\<lambda>i ys. ys[i := 0]) [0..<k] xs"

definition mutation_profile_reset :: "mutation_profile \<Rightarrow> mutation_profile" where
  "mutation_profile_reset p =
     (let k = length PROFILED_FORBIDDEN_LENGTHS in
      p\<lparr>uniform_evaluations := 0, uniform_ns := 0, targeted_evaluations := 0, targeted_ns := 0,
        random_restart_evaluations := 0, random_restart_ns := 0, witness_cache_lookups := 0,
        witness_cache_hits := 0, witness_cache_misses := 0, witness_searches := 0,
        witness_search_ns := 0, witness_edge_materialization_ns := 0, switch_attempts := 0,
        partner_edge_sampling_ns := 0, candidate_construction_ns := 0,
        connectivity_validation_ns := 0, graph_family_validation_ns := 0,
        witness_search_length_ns := zero_prefix k (witness_search_length_ns p),
        witness_search_length_nodes := zero_prefix k (witness_search_length_nodes p),
        witness_search_length_calls := zero_prefix k (witness_search_length_calls p)\<rparr>)"

definition record_operator :: "string \<Rightarrow> nat \<Rightarrow> mutation_profile \<Rightarrow> mutation_profile" where
  "record_operator operator elapsed_ns p =
     (if operator = ''uniform_two_edge_switch''
      then p\<lparr>uniform_evaluations := uniform_evaluations p + 1,
             uniform_ns := uniform_ns p + elapsed_ns\<rparr>
      else if operator = ''forbidden_cycle_break_switch''
      then p\<lparr>targeted_evaluations := targeted_evaluations p + 1,
             targeted_ns := targeted_ns p + elapsed_ns\<rparr>
      else p\<lparr>random_restart_evaluations := random_restart_evaluations p + 1,
             random_restart_ns := random_restart_ns p + elapsed_ns\<rparr>)"

text \<open>\<open>xs.index(x)\<close>.\<close>

fun list_index :: "'a \<Rightarrow> 'a list \<Rightarrow> nat result" where
  "list_index x [] = Inl (ValueError ''not in list'')"
| "list_index x (y # ys) = (if x = y then Inr 0 else rbind (list_index x ys) (\<lambda>i. Inr (Suc i)))"

section \<open>Forbidden witness edges\<close>

definition sort_pair :: "edge \<Rightarrow> edge" where
  "sort_pair e = (min (fst e) (snd e), max (fst e) (snd e))"

definition witness_edges :: "nat list \<Rightarrow> edge list" where
  "witness_edges w = map (\<lambda>i. sort_pair (w ! i, w ! ((i + 1) mod length w))) [0..<length w]"

definition record_search ::
  "nat \<Rightarrow> nat \<Rightarrow> mutation_profile option \<Rightarrow> mutation_profile option result" where
  "record_search len nodes prof =
     (case prof of
        None \<Rightarrow> Inr None
      | Some p \<Rightarrow>
          rbind (list_index len PROFILED_FORBIDDEN_LENGTHS) (\<lambda>i.
            Inr (Some (p\<lparr>
              witness_search_length_nodes := (witness_search_length_nodes p)
                [i := witness_search_length_nodes p ! i + nodes],
              witness_search_length_calls := (witness_search_length_calls p)
                [i := witness_search_length_calls p ! i + 1]\<rparr>))))"

definition search_step ::
  "bitgraph \<Rightarrow> nat \<Rightarrow> nat list list \<times> mutation_profile option \<Rightarrow>
   (nat list list \<times> mutation_profile option) result" where
  "search_step g len = (\<lambda>(found_so_far, prof).
     rbind (find_cycles_of_length_bounded_profiled g len 1 (Some 4096)) (\<lambda>(fs, _, nodes).
     rbind (record_search len nodes prof) (\<lambda>prof'.
       Inr (found_so_far @ fs, prof'))))"

definition compute_forbidden_witness_edge_choices ::
  "(nat \<Rightarrow> nat list) \<Rightarrow> bitgraph \<Rightarrow> mutation_profile option \<Rightarrow> (edge list list \<times> mutation_profile option) result" where
  "compute_forbidden_witness_edge_choices lens g prof =
     rbind (fold_result (search_step g) (lens (order g)) ([], prof))
       (\<lambda>(ws, prof1).
         let prof2 = map_option (\<lambda>p. p\<lparr>witness_searches := witness_searches p + 1\<rparr>) prof1
         in Inr (map witness_edges ws, prof2))"

record witness_context =
  ctx_enabled :: bool
  ctx_graph :: "nat option"
  ctx_choices :: "edge list list"

definition new_mutation_context :: "bool \<Rightarrow> witness_context" where
  "new_mutation_context cache_enabled =
     \<lparr>ctx_enabled = cache_enabled, ctx_graph = None, ctx_choices = []\<rparr>"

definition choices_for ::
  "(nat \<Rightarrow> nat list) \<Rightarrow> graph_object \<Rightarrow> witness_context \<Rightarrow> mutation_profile option \<Rightarrow>
   (edge list list \<times> witness_context \<times> mutation_profile option) result" where
  "choices_for lens obj ctx prof =
     (let prof1 = map_option (\<lambda>p. p\<lparr>witness_cache_lookups := witness_cache_lookups p + 1\<rparr>) prof
      in if ctx_enabled ctx \<and> ctx_graph ctx = Some (fst obj)
         then Inr (ctx_choices ctx, ctx,
           map_option (\<lambda>p. p\<lparr>witness_cache_hits := witness_cache_hits p + 1\<rparr>) prof1)
         else
           let prof2 = map_option (\<lambda>p. p\<lparr>witness_cache_misses := witness_cache_misses p + 1\<rparr>) prof1
           in rbind (compute_forbidden_witness_edge_choices lens (snd obj) prof2) (\<lambda>(choices, prof3).
                Inr (choices,
                  if ctx_enabled ctx
                  then ctx\<lparr>ctx_graph := Some (fst obj), ctx_choices := choices\<rparr> else ctx,
                  prof3)))"

definition invalidate :: "witness_context \<Rightarrow> witness_context" where
  "invalidate ctx = ctx\<lparr>ctx_graph := None, ctx_choices := []\<rparr>"

definition forbidden_witness_edge_choices ::
  "(nat \<Rightarrow> nat list) \<Rightarrow> graph_object \<Rightarrow> witness_context option \<Rightarrow> mutation_profile option \<Rightarrow>
   (edge list list \<times> witness_context option \<times> mutation_profile option) result" where
  "forbidden_witness_edge_choices lens obj context prof =
     (case context of
        Some ctx \<Rightarrow> rbind (choices_for lens obj ctx prof) (\<lambda>(c, ctx', p). Inr (c, Some ctx', p))
      | None \<Rightarrow> rbind (compute_forbidden_witness_edge_choices lens (snd obj) prof)
          (\<lambda>(c, p). Inr (c, None, p)))"

section \<open>The two-edge switch\<close>

text \<open>\<open>math.ceil(4 * n / 7)\<close>; the quotient is never within rounding distance of an integer.\<close>

definition minimal_structure_valid :: "bitgraph \<Rightarrow> bool" where
  "minimal_structure_valid g =
     (let degree_three = length (filter (\<lambda>u. degree g u = 3) [0..<order g]);
          high = (\<lambda>u. 4 \<le> degree g u)
      in if degree_three < (4 * order g + 6) div 7 then False
         else if \<exists>(u, v)\<in>set (edges g). high u \<and> high v then False
         else \<forall>u\<in>set [0..<order g]. \<exists>v\<in>set (neighbors g u). degree g v = 3)"

fun try_pairings ::
  "bitgraph \<Rightarrow> edge \<Rightarrow> edge \<Rightarrow> string \<Rightarrow> (edge \<times> edge) list \<Rightarrow> mutation_result option result" where
  "try_pairings g e1 e2 mode [] = Inr None"
| "try_pairings g e1 e2 mode ((p, q) # rest) =
     (let x = sort_pair p; y = sort_pair q
      in if x = y \<or> has_edge g (fst x) (snd x) \<or> has_edge g (fst y) (snd y)
         then try_pairings g e1 e2 mode rest
         else rbind (with_edges g [int_edge x, int_edge y] [int_edge e1, int_edge e2]) (\<lambda>candidate.
           if is_connected candidate \<and>
              (mode = ''minimal_structure_mixed_degree'' \<longrightarrow> minimal_structure_valid candidate)
           then Inr (Some \<lparr>mr_graph = candidate, removed_edges = [e1, e2], added_edges = [x, y]\<rparr>)
           else try_pairings g e1 e2 mode rest))"

definition two_edge_switch ::
  "bitgraph \<Rightarrow> edge \<Rightarrow> edge \<Rightarrow> rng \<Rightarrow> string \<Rightarrow> (mutation_result option \<times> rng) result" where
  "two_edge_switch g e1 e2 r mode =
     (case (e1, e2) of ((a, b), (c, d)) \<Rightarrow>
        if \<not> distinct [a, b, c, d] then Inr (None, r)
        else
          let (k, r') = randbelow 2 r;
              pairings = (if k = 0 then [((a, c), (b, d)), ((a, d), (b, c))]
                          else [((a, d), (b, c)), ((a, c), (b, d))])
          in rbind (try_pairings g e1 e2 mode pairings) (\<lambda>res. Inr (res, r')))"

section \<open>Mutation\<close>

record mutation_config =
  cfg_mode :: "string option"
  cfg_operator :: "string option"
  cfg_profile :: "mutation_profile cfg"
  cfg_choices :: "edge list list option"
  cfg_context :: "witness_context cfg"

definition missing_edges :: "bitgraph \<Rightarrow> edge list" where
  "missing_edges g =
     [(u, v). u \<leftarrow> [0..<order g], v \<leftarrow> [u + 1..<order g], \<not> has_edge g u v]"

definition removable_edges :: "bitgraph \<Rightarrow> edge list" where
  "removable_edges g = filter (\<lambda>(u, v). degree g u > 3 \<and> degree g v > 3) (edges g)"

text \<open>The first part of the unrestricted mode: add an edge, or remove one.\<close>

definition mutate_unrestricted :: "bitgraph \<Rightarrow> rng \<Rightarrow> (mutation_result option \<times> rng) result" where
  "mutate_unrestricted g r =
     (let (low, r1) = random_below_055 r
      in if low \<and> missing_edges g \<noteq> []
         then rbind (choice (missing_edges g) r1) (\<lambda>(addition, r2).
              rbind (with_edges g [int_edge addition] []) (\<lambda>h.
                Inr (Some \<lparr>mr_graph = h, removed_edges = [], added_edges = [addition]\<rparr>, r2)))
         else if removable_edges g \<noteq> []
         then rbind (choice (removable_edges g) r1) (\<lambda>(e, r2).
              rbind (with_edges g [] [int_edge e]) (\<lambda>candidate.
                if is_connected candidate
                then Inr (Some \<lparr>mr_graph = candidate,
                       removed_edges =
                         filter (\<lambda>(u, v). \<not> has_edge candidate u v) (edges g),
                       added_edges = []\<rparr>, r2)
                else Inr (None, r2)))
         else Inr (None, r1))"

fun uniform_attempts ::
  "bitgraph \<Rightarrow> edge list \<Rightarrow> string \<Rightarrow> nat \<Rightarrow> rng \<Rightarrow> (mutation_result \<times> rng) result" where
  "uniform_attempts g es mode 0 r = Inr (unchanged g, r)"
| "uniform_attempts g es mode (Suc k) r =
     rbind (sample2 es r) (\<lambda>((e1, e2), r1).
     rbind (two_edge_switch g e1 e2 r1 mode) (\<lambda>(res, r2).
       case res of Some mr \<Rightarrow> Inr (mr, r2) | None \<Rightarrow> uniform_attempts g es mode k r2))"

fun targeted_attempts ::
  "bitgraph \<Rightarrow> edge list \<Rightarrow> edge list \<Rightarrow> string \<Rightarrow> nat \<Rightarrow> rng \<Rightarrow> mutation_profile option \<Rightarrow>
   (mutation_result \<times> rng \<times> mutation_profile option) result" where
  "targeted_attempts g wes es mode 0 r prof = Inr (unchanged g, r, prof)"
| "targeted_attempts g wes es mode (Suc k) r prof =
     (let prof1 = map_option (\<lambda>p. p\<lparr>switch_attempts := switch_attempts p + 1\<rparr>) prof
      in rbind (choice wes r) (\<lambda>(e1, r1).
         rbind (choice es r1) (\<lambda>(e2, r2).
         rbind (two_edge_switch g e1 e2 r2 mode) (\<lambda>(res, r3).
           case res of Some mr \<Rightarrow> Inr (mr, r3, prof1)
           | None \<Rightarrow> targeted_attempts g wes es mode k r3 prof1))))"

text \<open>Where the targeted operator takes its choices from; a given list wins over the cache.\<close>

definition select_choices ::
  "(nat \<Rightarrow> nat list) \<Rightarrow> graph_object \<Rightarrow> mutation_config \<Rightarrow> mutation_profile option \<Rightarrow>
   (edge list list \<times> witness_context cfg \<times> mutation_profile option) result" where
  "select_choices lens obj cfg prof =
     (case cfg_choices cfg of
        Some cs \<Rightarrow> Inr (cs, cfg_context cfg, prof)
      | None \<Rightarrow>
          (case cfg_context cfg of
             Mistyped \<Rightarrow> Inl (TypeError ''forbidden_witness_context must be a ForbiddenWitnessContext'')
           | Given ctx \<Rightarrow> rbind (choices_for lens obj ctx prof) (\<lambda>(cs, ctx', p). Inr (cs, Given ctx', p))
           | Absent \<Rightarrow> rbind (compute_forbidden_witness_edge_choices lens (snd obj) prof)
               (\<lambda>(cs, p). Inr (cs, Absent, p))))"

definition profile_cfg :: "mutation_profile option \<Rightarrow> mutation_profile cfg" where
  "profile_cfg prof = (case prof of None \<Rightarrow> Absent | Some p \<Rightarrow> Given p)"

definition mutate_targeted ::
  "(nat \<Rightarrow> nat list) \<Rightarrow> graph_object \<Rightarrow> edge list \<Rightarrow> string \<Rightarrow> rng \<Rightarrow> mutation_config \<Rightarrow>
   (mutation_result \<times> rng \<times> mutation_config) result" where
  "mutate_targeted lens obj es mode r cfg =
     (let g = snd obj in
      rbind (case cfg_profile cfg of
               Mistyped \<Rightarrow> Inl (TypeError ''mutation_profile must be a MutationProfileAccumulator'')
             | Absent \<Rightarrow> Inr None | Given p \<Rightarrow> Inr (Some p)) (\<lambda>prof.
      rbind (select_choices lens obj cfg prof) (\<lambda>(choices, context, prof1).
        let cfg1 = (\<lambda>p. cfg\<lparr>cfg_context := context, cfg_profile := profile_cfg p\<rparr>)
        in rbind (if choices = [] then Inr ([], r) else choice choices r) (\<lambda>(wes, r1).
           if wes = [] then Inr (unchanged g, r1, cfg1 prof1)
           else rbind (targeted_attempts g wes es mode 64 r1 prof1) (\<lambda>(mr, r2, prof2).
             Inr (mr, r2, cfg1 prof2))))))"

definition mutate_with_delta ::
  "(nat \<Rightarrow> nat list) \<Rightarrow> graph_object \<Rightarrow> rng \<Rightarrow> mutation_config \<Rightarrow> (mutation_result \<times> rng \<times> mutation_config) result" where
  "mutate_with_delta lens obj r cfg =
     (let g = snd obj;
          mode = (case cfg_mode cfg of None \<Rightarrow> ''cubic_first'' | Some m \<Rightarrow> m);
          operator = (case cfg_operator cfg of None \<Rightarrow> ''uniform_two_edge_switch'' | Some f \<Rightarrow> f)
      in if operator \<notin> {''uniform_two_edge_switch'', ''forbidden_cycle_break_switch''}
         then Inl (ValueError (''unsupported mutation operator: '' @ operator))
         else
           rbind (if mode = ''unrestricted_min_degree_3'' then mutate_unrestricted g r
                  else Inr (None, r)) (\<lambda>(early, r1).
             case early of
               Some mr \<Rightarrow> Inr (mr, r1, cfg)
             | None \<Rightarrow>
                 let es = edges g
                 in if length es < 2 then Inr (unchanged g, r1, cfg)
                    else if operator = ''forbidden_cycle_break_switch''
                    then mutate_targeted lens obj es mode r1 cfg
                    else rbind (uniform_attempts g es mode 64 r1)
                           (\<lambda>(mr, r2). Inr (mr, r2, cfg))))"

definition mutate ::
  "(nat \<Rightarrow> nat list) \<Rightarrow> graph_object \<Rightarrow> rng \<Rightarrow> mutation_config \<Rightarrow> (bitgraph \<times> rng \<times> mutation_config) result" where
  "mutate lens obj r cfg =
     rbind (mutate_with_delta lens obj r cfg) (\<lambda>(mr, r', cfg'). Inr (mr_graph mr, r', cfg'))"

section \<open>Degrees under edge edits\<close>

definition ends :: "edge \<Rightarrow> nat set" where
  "ends e = {fst e, snd e}"

lemma ends_Pair [simp]: "ends (a, b) = {a, b}"
  by (simp add: ends_def)

lemma int_edge_nonneg [simp]: "0 \<le> fst (int_edge e)" "0 \<le> snd (int_edge e)"
  by (cases e; simp add: int_edge_def)+

lemma endpoints_ends [simp]: "endpoints (int_edge e) = ends e"
  by (cases e) (simp add: ends_def)

lemma degree_incident:
  assumes "wf_graph g" "u < order g"
  shows "degree g u = card {e \<in> edge_set g. u \<in> e}"
proof -
  have "bij_betw (\<lambda>v. {u, v}) {v. v < order g \<and> has_edge g u v} {e \<in> edge_set g. u \<in> e}"
  proof (rule bij_betw_imageI)
    show "inj_on (\<lambda>v. {u, v}) {v. v < order g \<and> has_edge g u v}"
      by (auto simp: inj_on_def doubleton_eq_iff)
    have "e \<in> (\<lambda>v. {u, v}) ` {v. v < order g \<and> has_edge g u v}" if "e \<in> edge_set g" "u \<in> e" for e
    proof -
      from that(1) obtain x y where "e = {x, y}" by (rule edge_set_elim)
      with that have "e = {x, y}" "{x, y} \<in> edge_set g" "u = x \<or> u = y" by auto
      then obtain v where "e = {u, v}" "{u, v} \<in> edge_set g" by (metis insert_commute)
      with edge_set_iff [OF assms(1)] show ?thesis by auto
    qed
    then show "(\<lambda>v. {u, v}) ` {v. v < order g \<and> has_edge g u v} = {e \<in> edge_set g. u \<in> e}"
      using edge_set_iff [OF assms(1)] assms(2) by auto
  qed
  from bij_betw_same_card [OF this] show ?thesis by (simp add: degree_card [OF assms])
qed

lemma finite_edge_set: "finite (edge_set g)"
proof -
  have "edge_set g = (\<lambda>(u, v). {u, v}) ` arcs g" by (auto simp: edge_set_def)
  then show ?thesis using finite_arcs by simp
qed

text \<open>Replacing the edges \<open>R\<close> by \<open>A\<close> changes a degree by the difference of the incidences.\<close>

lemma degree_edit:
  assumes "wf_graph g" "wf_graph h" "order h = order g" "u < order g"
    and "edge_set h = (edge_set g - R) \<union> A" "R \<subseteq> edge_set g" "A \<inter> (edge_set g - R) = {}"
  shows "degree h u + card {e \<in> R. u \<in> e} = degree g u + card {e \<in> A. u \<in> e}"
proof -
  let ?I = "\<lambda>X. {e \<in> X. u \<in> e}"
  have fin: "finite (?I (edge_set g))" "finite (?I (edge_set h))" by (simp_all add: finite_edge_set)
  have "?I A \<subseteq> ?I (edge_set h)" using assms(5) by auto
  then have A: "finite (?I A)" using fin(2) finite_subset by blast
  have R: "?I R \<subseteq> ?I (edge_set g)" using assms(6) by auto
  have "?I (edge_set h) = (?I (edge_set g) - ?I R) \<union> ?I A" using assms(5) by auto
  moreover have "(?I (edge_set g) - ?I R) \<inter> ?I A = {}" using assms(7) by auto
  ultimately have "card (?I (edge_set h)) = card (?I (edge_set g) - ?I R) + card (?I A)"
    using fin A by (simp add: card_Un_disjoint)
  moreover have "card (?I (edge_set g) - ?I R) + card (?I R) = card (?I (edge_set g))"
    using fin(1) R by (simp add: card_Diff_subset finite_subset card_mono)
  ultimately show ?thesis
    using assms(1-4) by (simp add: degree_incident)
qed

lemma card_incident_pair:
  assumes "distinct [a, b, c, d]"
  shows "card {e \<in> {{a, b}, {c, d}}. u \<in> e} = of_bool (u \<in> {a, b, c, d})"
proof -
  have "{e \<in> {{a, b}, {c, d}}. u \<in> e} =
      (if u \<in> {a, b} then {{a, b}} else if u \<in> {c, d} then {{c, d}} else {})"
    using assms by auto
  then show ?thesis by auto
qed

section \<open>The switch\<close>

text \<open>
  What every mutation promises of its delta: a well-formed graph on the same vertices that
  differs from the parent in exactly the reported edges.
\<close>

definition delta_ok :: "bitgraph \<Rightarrow> mutation_result \<Rightarrow> bool" where
  "delta_ok g mr \<longleftrightarrow>
     wf_graph (mr_graph mr) \<and> order (mr_graph mr) = order g \<and>
     distinct (map ends (removed_edges mr)) \<and> distinct (map ends (added_edges mr)) \<and>
     ends ` set (removed_edges mr) \<subseteq> edge_set g \<and>
     ends ` set (added_edges mr) \<inter> edge_set g = {} \<and>
     edge_set (mr_graph mr) =
       (edge_set g - ends ` set (removed_edges mr)) \<union> ends ` set (added_edges mr)"

definition switched :: "bitgraph \<Rightarrow> string \<Rightarrow> mutation_result \<Rightarrow> bool" where
  "switched g mode mr \<longleftrightarrow>
     delta_ok g mr \<and> is_connected (mr_graph mr) \<and>
     degree_sequence (mr_graph mr) = degree_sequence g \<and>
     (mode = ''minimal_structure_mixed_degree'' \<longrightarrow> minimal_structure_valid (mr_graph mr))"

lemma delta_ok_unchanged: "wf_graph g \<Longrightarrow> delta_ok g (unchanged g)"
  by (simp add: delta_ok_def unchanged_def)

lemma degree_sequence_eqI:
  assumes "wf_graph g" "wf_graph h" "order h = order g" "\<And>u. u < order g \<Longrightarrow> degree h u = degree g u"
  shows "degree_sequence h = degree_sequence g"
  using assms by (auto simp: degree_sequence_def degree_def wf_length intro!: nth_equalityI)

lemma degree_sequence_nth: "wf_graph g \<Longrightarrow> u < order g \<Longrightarrow> degree_sequence g ! u = degree g u"
  by (simp add: degree_sequence_def degree_def wf_length)

lemma ends_sort_pair [simp]: "ends (sort_pair e) = ends e"
  by (auto simp: ends_def sort_pair_def min_def max_def)

lemma has_edge_sort_pair:
  assumes "wf_graph g" "fst e < order g" "snd e < order g"
  shows "has_edge g (fst (sort_pair e)) (snd (sort_pair e)) \<longleftrightarrow> ends e \<in> edge_set g"
  using assms edge_set_iff [OF assms(1), of "fst e" "snd e"] wf_bit_sym [OF assms]
  by (auto simp: sort_pair_def ends_def min_def max_def)

lemma valid_pair_sort_pair:
  "fst e < n \<Longrightarrow> snd e < n \<Longrightarrow> fst e \<noteq> snd e \<Longrightarrow> valid_pair n (int_edge (sort_pair e))"
  by (auto simp: valid_pair_def int_edge_def sort_pair_def)

lemma switch_candidate:
  assumes g: "wf_graph g" and ab: "ends e1 = {a, b}" "ends e2 = {c, d}"
    and e: "{a, b} \<in> edge_set g" "{c, d} \<in> edge_set g"
    and d: "distinct [a, b, c, d]" and n: "{a, c} \<notin> edge_set g" "{b, d} \<notin> edge_set g"
    and h: "with_edges g [int_edge (sort_pair (a, c)), int_edge (sort_pair (b, d))]
              [int_edge e1, int_edge e2] = Inr h"
  shows "delta_ok g \<lparr>mr_graph = h, removed_edges = [e1, e2],
      added_edges = [sort_pair (a, c), sort_pair (b, d)]\<rparr>"
    and "degree_sequence h = degree_sequence g"
proof -
  note res = with_edges_Inr [OF g h]
  have E: "edge_set h = (edge_set g - {{a, b}, {c, d}}) \<union> {{a, c}, {b, d}}"
    using res(3) by (simp add: ab)
  show "delta_ok g \<lparr>mr_graph = h, removed_edges = [e1, e2],
      added_edges = [sort_pair (a, c), sort_pair (b, d)]\<rparr>"
  proof -
    have "{a, b} \<noteq> {c, d}" "{a, c} \<noteq> {b, d}" using d by (auto simp: doubleton_eq_iff)
    then show ?thesis using res(1,2) E e n by (simp add: delta_ok_def ab)
  qed
  show "degree_sequence h = degree_sequence g"
  proof (rule degree_sequence_eqI [OF g res(1,2)])
    fix u assume u: "u < order g"
    have "degree h u + card {e \<in> {{a, b}, {c, d}}. u \<in> e} =
        degree g u + card {e \<in> {{a, c}, {b, d}}. u \<in> e}"
      using e n by (intro degree_edit [OF g res(1,2) u E]) auto
    moreover have "card {e \<in> {{a, b}, {c, d}}. u \<in> e} = card {e \<in> {{a, c}, {b, d}}. u \<in> e}"
    proof -
      have "distinct [a, c, b, d]" using d by auto
      moreover have "u \<in> {a, b, c, d} \<longleftrightarrow> u \<in> {a, c, b, d}" by auto
      ultimately show ?thesis by (simp only: card_incident_pair [OF d] card_incident_pair)
    qed
    ultimately show "degree h u = degree g u" by linarith
  qed
qed

lemma switch_constructs:
  assumes g: "wf_graph g" and ab: "ends e1 = {a, b}" "ends e2 = {c, d}"
    and e: "{a, b} \<in> edge_set g" "{c, d} \<in> edge_set g"
    and d: "distinct [a, b, c, d]" and n: "{a, c} \<notin> edge_set g" "{b, d} \<notin> edge_set g"
  shows "\<exists>h. with_edges g [int_edge (sort_pair (a, c)), int_edge (sort_pair (b, d))]
              [int_edge e1, int_edge e2] = Inr h"
proof -
  have lt: "a < order g" "b < order g" "c < order g" "d < order g"
    using e edge_set_iff [OF g] by auto
  have "is_ok (with_edges g [int_edge (sort_pair (a, c)), int_edge (sort_pair (b, d))]
              [int_edge e1, int_edge e2])"
  proof (rule with_edges_ok [OF g])
    show "\<forall>e\<in>set [int_edge e1, int_edge e2]. 0 \<le> fst e \<and> 0 \<le> snd e \<and> endpoints e \<in> edge_set g"
      using e by (auto simp: ab)
    show "\<forall>e\<in>set [int_edge (sort_pair (a, c)), int_edge (sort_pair (b, d))]. valid_pair (order g) e"
      using lt d by (auto intro!: valid_pair_sort_pair)
    show "distinct (map endpoints [int_edge (sort_pair (a, c)), int_edge (sort_pair (b, d))])"
      using d by (auto simp: doubleton_eq_iff)
    show "endpoints ` set [int_edge (sort_pair (a, c)), int_edge (sort_pair (b, d))] \<inter>
        (edge_set g - endpoints ` set [int_edge e1, int_edge e2]) = {}"
      using n by (simp add: ab)
  qed
  then show ?thesis by (auto simp: is_ok_iff)
qed

lemma try_pairings_step:
  assumes g: "wf_graph g" and ab: "ends e1 = {a, b}" "ends e2 = {c, d}"
    and e: "{a, b} \<in> edge_set g" "{c, d} \<in> edge_set g" and d: "distinct [a, b, c, d]"
    and rest: "\<exists>res. try_pairings g e1 e2 mode rest = Inr res \<and>
      (\<forall>mr. res = Some mr \<longrightarrow> switched g mode mr)"
  shows "\<exists>res. try_pairings g e1 e2 mode (((a, c), (b, d)) # rest) = Inr res \<and>
      (\<forall>mr. res = Some mr \<longrightarrow> switched g mode mr)"
proof -
  have lt: "a < order g" "b < order g" "c < order g" "d < order g"
    using e edge_set_iff [OF g] by auto
  have ne: "sort_pair (a, c) \<noteq> sort_pair (b, d)" using d by (auto simp: sort_pair_def min_def max_def)
  have he: "has_edge g (fst (sort_pair (a, c))) (snd (sort_pair (a, c))) \<longleftrightarrow> {a, c} \<in> edge_set g"
    "has_edge g (fst (sort_pair (b, d))) (snd (sort_pair (b, d))) \<longleftrightarrow> {b, d} \<in> edge_set g"
    using has_edge_sort_pair [OF g, of "(a, c)"] has_edge_sort_pair [OF g, of "(b, d)"] lt
    by (simp_all only: fst_conv snd_conv ends_def)
  show ?thesis
  proof (cases "{a, c} \<in> edge_set g \<or> {b, d} \<in> edge_set g")
    case True
    then have "try_pairings g e1 e2 mode (((a, c), (b, d)) # rest) = try_pairings g e1 e2 mode rest"
      by (simp only: try_pairings.simps Let_def he) auto
    with rest show ?thesis by simp
  next
    case False
    then obtain h where h: "with_edges g [int_edge (sort_pair (a, c)), int_edge (sort_pair (b, d))]
              [int_edge e1, int_edge e2] = Inr h"
      using switch_constructs [OF g ab e d] by blast
    note sw = switch_candidate [OF g ab e d _ _ h]
    have "try_pairings g e1 e2 mode (((a, c), (b, d)) # rest) =
        (if is_connected h \<and> (mode = ''minimal_structure_mixed_degree'' \<longrightarrow> minimal_structure_valid h)
         then Inr (Some \<lparr>mr_graph = h, removed_edges = [e1, e2],
           added_edges = [sort_pair (a, c), sort_pair (b, d)]\<rparr>)
         else try_pairings g e1 e2 mode rest)"
      using False ne by (simp only: try_pairings.simps Let_def he h rbind_def sum.case) auto
    with rest sw False show ?thesis by (auto simp: switched_def)
  qed
qed

lemma two_edge_switch_ok:
  assumes g: "wf_graph g" and e: "ends e1 \<in> edge_set g" "ends e2 \<in> edge_set g"
  shows "\<exists>res r'. two_edge_switch g e1 e2 r mode = Inr (res, r') \<and>
    (\<forall>mr. res = Some mr \<longrightarrow> switched g mode mr)"
proof -
  obtain a b c d where ab: "e1 = (a, b)" "e2 = (c, d)" by fastforce
  show ?thesis
  proof (cases "distinct [a, b, c, d]")
    case False
    then show ?thesis by (auto simp: two_edge_switch_def ab)
  next
    case True
    then have d: "distinct [a, b, c, d]" "distinct [a, b, d, c]" by auto
    have E: "{a, b} \<in> edge_set g" "{c, d} \<in> edge_set g" "{d, c} \<in> edge_set g"
      using e by (auto simp: ab ends_def insert_commute)
    have en: "ends e1 = {a, b}" "ends e2 = {c, d}" "ends e2 = {d, c}" by (auto simp: ab ends_def)
    note step1 = try_pairings_step [OF g en(1,2) E(1,2) d(1)]
      and step2 = try_pairings_step [OF g en(1,3) E(1,3) d(2)]
    have none: "\<exists>res. try_pairings g e1 e2 mode [] = Inr res \<and>
      (\<forall>mr. res = Some mr \<longrightarrow> switched g mode mr)" by simp
    obtain k r' where k: "randbelow 2 r = (k, r')" by fastforce
    show ?thesis
      using step1 [OF step2 [OF none]] step2 [OF step1 [OF none]] True
      unfolding two_edge_switch_def ab prod.case k Let_def
      by (auto simp: ab rbind_def simp del: try_pairings.simps)
  qed
qed

section \<open>Validity is preserved\<close>

definition eg_valid :: "bitgraph \<Rightarrow> bool" where
  "eg_valid g = valid (eg_validate_graph g)"

lemma eg_valid_iff:
  assumes "wf_graph g"
  shows "eg_valid g \<longleftrightarrow>
    0 < order g \<and> connected_graph g \<and> (\<forall>u<order g. 3 \<le> degree g u)"
  using is_connected_iff [OF assms] minimum_degree_ge [OF assms, of 3]
  by (auto simp: eg_valid_def eg_validate_graph_def not_less)

definition mutated :: "bitgraph \<Rightarrow> string \<Rightarrow> mutation_result \<Rightarrow> bool" where
  "mutated g mode mr \<longleftrightarrow>
     delta_ok g mr \<and> eg_valid (mr_graph mr) \<and>
     (mode \<noteq> ''unrestricted_min_degree_3'' \<longrightarrow>
        degree_sequence (mr_graph mr) = degree_sequence g) \<and>
     (mode = ''minimal_structure_mixed_degree'' \<and> minimal_structure_valid g \<longrightarrow>
        minimal_structure_valid (mr_graph mr))"

lemma mutated_unchanged: "wf_graph g \<Longrightarrow> eg_valid g \<Longrightarrow> mutated g mode (unchanged g)"
  by (simp add: mutated_def delta_ok_unchanged) (simp add: unchanged_def)

lemma mutated_switched:
  assumes "wf_graph g" "eg_valid g" "switched g mode mr"
  shows "mutated g mode mr"
proof -
  let ?h = "mr_graph mr"
  have h: "wf_graph ?h" "order ?h = order g" "degree_sequence ?h = degree_sequence g" "is_connected ?h"
    using assms(3) by (auto simp: switched_def delta_ok_def)
  have "degree ?h u = degree g u" if "u < order g" for u
    using that h degree_sequence_nth [OF h(1)] degree_sequence_nth [OF assms(1)] by metis
  then have "eg_valid ?h"
    using assms(2) h is_connected_iff [OF h(1)]
    by (simp add: eg_valid_iff [OF h(1)] eg_valid_iff [OF assms(1)])
  with assms(3) show ?thesis by (simp add: mutated_def switched_def)
qed

lemma connected_graph_mono:
  assumes "wf_graph g" "wf_graph h" "order h = order g" "edge_set g \<subseteq> edge_set h" "connected_graph g"
  shows "connected_graph h"
proof -
  have "arcs g \<subseteq> arcs h"
  proof (rule subrelI)
    fix u v assume "(u, v) \<in> arcs g"
    then have uv: "u < order g" "v < order g" "bit (rows g ! u) v" by (auto simp: arcs_def)
    then have "{u, v} \<in> edge_set h" using edge_set_iff [OF assms(1), of u v] assms(4) by blast
    with uv assms(3) edge_set_iff [OF assms(2), of u v] show "(u, v) \<in> arcs h" by (auto simp: arcs_def)
  qed
  then have "(arcs g)\<^sup>* \<subseteq> (arcs h)\<^sup>*" by (rule rtrancl_mono)
  with assms(3,5) show ?thesis by (auto simp: connected_graph_def)
qed

lemma ends_edges: "wf_graph g \<Longrightarrow> ends ` set (edges g) = edge_set g"
  by (simp add: edge_set_edges image_image)

lemma ends_missing_edges:
  assumes "wf_graph g" "e \<in> set (missing_edges g)"
  shows "ends e \<notin> edge_set g" "valid_pair (order g) (int_edge e)"
  using assms edge_set_iff [OF assms(1)]
  by (auto simp: missing_edges_def valid_pair_def int_edge_def)

lemma add_edge_ok:
  assumes g: "wf_graph g" "eg_valid g" and e: "e \<in> set (missing_edges g)"
  shows "\<exists>h. with_edges g [int_edge e] [] = Inr h \<and>
    mutated g ''unrestricted_min_degree_3'' \<lparr>mr_graph = h, removed_edges = [], added_edges = [e]\<rparr>"
proof -
  note m = ends_missing_edges [OF g(1) e]
  have "is_ok (with_edges g [int_edge e] [])"
    by (rule with_edges_ok [OF g(1)]) (use m in auto)
  then obtain h where h: "with_edges g [int_edge e] [] = Inr h" by (auto simp: is_ok_iff)
  note res = with_edges_Inr [OF g(1) h]
  have E: "edge_set h = (edge_set g - {}) \<union> {ends e}" using res(3) by simp
  have "degree g u \<le> degree h u" if "u < order g" for u
    using degree_edit [OF g(1) res(1,2) that E] m(1) by simp
  then have "eg_valid h"
    using g res(1,2) connected_graph_mono [OF g(1) res(1,2)] E
    by (force simp: eg_valid_iff [OF g(1)] eg_valid_iff [OF res(1)])
  with h res(1,2) E m(1) show ?thesis by (simp add: mutated_def delta_ok_def)
qed

lemma distinct_ends_filter: "wf_graph g \<Longrightarrow> distinct (map ends (filter P (edges g)))"
  using inj_on_endpoints_edges [of g] distinct_edges [of g]
  by (auto simp: distinct_map inj_on_def)

lemma removed_report:
  assumes "wf_graph g" "wf_graph h" "order h = order g"
  shows "ends ` set (filter (\<lambda>(u, v). \<not> has_edge h u v) (edges g)) = edge_set g - edge_set h"
proof -
  have "has_edge h u v \<longleftrightarrow> {u, v} \<in> edge_set h" if "(u, v) \<in> set (edges g)" for u v
    using that edge_set_iff [OF assms(2), of u v] assms(3) by (auto simp: set_edges [OF assms(1)])
  then have "ends ` set (filter (\<lambda>(u, v). \<not> has_edge h u v) (edges g)) =
      ends ` {e \<in> set (edges g). ends e \<notin> edge_set h}"
    by (intro arg_cong [where f = "image ends"]) auto
  also have "\<dots> = ends ` set (edges g) - edge_set h" by auto
  finally show ?thesis by (simp add: ends_edges [OF assms(1)])
qed

lemma remove_edge_ok:
  assumes g: "wf_graph g" "eg_valid g" and e: "e \<in> set (removable_edges g)"
  shows "\<exists>h. with_edges g [] [int_edge e] = Inr h \<and> (is_connected h \<longrightarrow>
    mutated g ''unrestricted_min_degree_3'' \<lparr>mr_graph = h,
      removed_edges = filter (\<lambda>(u, v). \<not> has_edge h u v) (edges g), added_edges = []\<rparr>)"
proof -
  have e: "ends e \<in> edge_set g" "\<forall>u\<in>ends e. 3 < degree g u"
    using e ends_edges [OF g(1)] by (auto simp: removable_edges_def)
  have "is_ok (with_edges g [] [int_edge e])"
    by (rule with_edges_ok [OF g(1)]) (use e in auto)
  then obtain h where h: "with_edges g [] [int_edge e] = Inr h" by (auto simp: is_ok_iff)
  note res = with_edges_Inr [OF g(1) h]
  have E: "edge_set h = (edge_set g - {ends e}) \<union> {}" using res(3) by simp
  have "3 \<le> degree h u" if "u < order g" for u
  proof -
    have "degree h u + card {f \<in> {ends e}. u \<in> f} = degree g u + card {f \<in> {}. u \<in> f}"
      using e(1) by (intro degree_edit [OF g(1) res(1,2) that E]) auto
    moreover have "{f \<in> {ends e}. u \<in> f} = (if u \<in> ends e then {ends e} else {})" by auto
    then have "card {f \<in> {ends e}. u \<in> f} = of_bool (u \<in> ends e)" by simp
    moreover have "3 \<le> degree g u" using g that by (simp add: eg_valid_iff [OF g(1)])
    ultimately show ?thesis using e(2) by (cases "u \<in> ends e") (auto simp only: of_bool_eq card.empty)
  qed
  moreover have "0 < order h" using g res(2) by (simp add: eg_valid_iff [OF g(1)])
  ultimately have "is_connected h \<longrightarrow> eg_valid h"
    using res(2) is_connected_iff [OF res(1)] by (auto simp: eg_valid_iff [OF res(1)])
  moreover have "edge_set g - edge_set h = {ends e}" using E e(1) by auto
  ultimately show ?thesis
    using h res(1,2) E e(1) removed_report [OF g(1) res(1,2)] distinct_ends_filter [OF g(1)]
    by (simp add: mutated_def delta_ok_def)
qed

lemma mutate_unrestricted_ok:
  assumes "wf_graph g" "eg_valid g"
  shows "\<exists>res r'. mutate_unrestricted g r = Inr (res, r') \<and>
    (\<forall>mr. res = Some mr \<longrightarrow> mutated g ''unrestricted_min_degree_3'' mr)"
proof -
  obtain low r1 where low: "random_below_055 r = (low, r1)" by fastforce
  consider "low" "missing_edges g \<noteq> []" | "\<not> (low \<and> missing_edges g \<noteq> [])" "removable_edges g \<noteq> []"
    | "\<not> (low \<and> missing_edges g \<noteq> [])" "removable_edges g = []" by blast
  then show ?thesis
  proof cases
    case 1
    obtain e r2 where "choice (missing_edges g) r1 = Inr (e, r2)" "e \<in> set (missing_edges g)"
      using choice_ok [OF 1(2)] by blast
    with add_edge_ok [OF assms] 1 low show ?thesis
      by (fastforce simp: mutate_unrestricted_def rbind_def)
  next
    case 2
    obtain e r2 where "choice (removable_edges g) r1 = Inr (e, r2)" "e \<in> set (removable_edges g)"
      using choice_ok [OF 2(2)] by blast
    with remove_edge_ok [OF assms, of e] 2 low show ?thesis
      by (auto simp: mutate_unrestricted_def rbind_def simp del: has_edge_bit)
  next
    case 3
    with low show ?thesis by (auto simp: mutate_unrestricted_def)
  qed
qed

lemma uniform_attempts_ok:
  assumes "wf_graph g" "eg_valid g" "ends ` set es \<subseteq> edge_set g" "2 \<le> length es"
  shows "\<exists>mr r'. uniform_attempts g es mode k r = Inr (mr, r') \<and> mutated g mode mr"
proof (induction k arbitrary: r)
  case 0
  then show ?case by (simp add: mutated_unchanged [OF assms(1,2)])
next
  case (Suc k)
  obtain e1 e2 r1 where s: "sample2 es r = Inr ((e1, e2), r1)" using sample2_ok [OF assms(4)] by blast
  then have "ends e1 \<in> edge_set g" "ends e2 \<in> edge_set g" using sample2_Inr(1) [OF s] assms(3) by auto
  then obtain res r2 where t: "two_edge_switch g e1 e2 r1 mode = Inr (res, r2)"
    "\<forall>mr. res = Some mr \<longrightarrow> switched g mode mr"
    using two_edge_switch_ok [OF assms(1)] by blast
  with s Suc mutated_switched [OF assms(1,2)] show ?case
    by (cases res) (auto simp: rbind_def)
qed

lemma targeted_attempts_ok:
  assumes "wf_graph g" "eg_valid g" "ends ` set es \<subseteq> edge_set g" "es \<noteq> []"
    and "ends ` set wes \<subseteq> edge_set g" "wes \<noteq> []"
  shows "\<exists>mr r' p'. targeted_attempts g wes es mode k r p = Inr (mr, r', p') \<and> mutated g mode mr"
proof (induction k arbitrary: r p)
  case 0
  then show ?case by (simp add: mutated_unchanged [OF assms(1,2)])
next
  case (Suc k)
  obtain e1 r1 where e1: "choice wes r = Inr (e1, r1)" "e1 \<in> set wes"
    using choice_ok [OF assms(6)] by blast
  obtain e2 r2 where e2: "choice es r1 = Inr (e2, r2)" "e2 \<in> set es"
    using choice_ok [OF assms(4)] by blast
  have "ends e1 \<in> edge_set g" "ends e2 \<in> edge_set g" using e1 e2 assms(3,5) by auto
  then obtain res r3 where "two_edge_switch g e1 e2 r2 mode = Inr (res, r3)"
    "\<forall>mr. res = Some mr \<longrightarrow> switched g mode mr"
    using two_edge_switch_ok [OF assms(1)] by blast
  with e1 e2 Suc mutated_switched [OF assms(1,2)] show ?case
    by (cases res) (auto simp: rbind_def)
qed

section \<open>Witness choices and their cache\<close>

lemma search_total:
  "\<exists>fs ex nodes. find_cycles_of_length_bounded_profiled g len 1 (Some 4096) = Inr (fs, ex, nodes)"
  by (auto simp: find_cycles_of_length_bounded_profiled_def Let_def)

lemma witness_edges_ok:
  assumes "is_cycle g w"
  shows "ends ` set (witness_edges w) \<subseteq> edge_set g \<and> witness_edges w \<noteq> []"
proof -
  have w: "3 \<le> length w" "set w \<subseteq> {..<order g}" "successively (has_edge g) w"
    "has_edge g (last w) (hd w)" using assms by (auto simp: is_cycle_def)
  have "{w ! i, w ! ((i + 1) mod length w)} \<in> edge_set g" if i: "i < length w" for i
  proof -
    have "(i + 1) mod length w < length w" using w(1) by (intro mod_less_divisor) linarith
    from nth_mem [OF this] nth_mem [OF i] w(2)
    have "w ! i < order g" "w ! ((i + 1) mod length w) < order g" by blast+
    moreover have "has_edge g (w ! i) (w ! ((i + 1) mod length w))"
    proof (cases "Suc i < length w")
      case True
      then show ?thesis using successively_conv_nth [of "has_edge g" w] w(3) by simp
    next
      case False
      with i have "i = length w - 1" by simp
      moreover have "w \<noteq> []" using w(1) by auto
      ultimately have "w ! i = last w" "w ! ((i + 1) mod length w) = hd w"
        using w(1) by (simp_all add: last_conv_nth hd_conv_nth)
      with w(4) show ?thesis by (simp only:)
    qed
    ultimately show ?thesis unfolding edge_set_def arcs_def by blast
  qed
  then have "ends e \<in> edge_set g" if "e \<in> set (witness_edges w)" for e
    using that by (auto simp: witness_edges_def)
  moreover have "witness_edges w \<noteq> []" using w(1) by (auto simp: witness_edges_def)
  ultimately show ?thesis by auto
qed

definition choices_ok :: "bitgraph \<Rightarrow> edge list list \<Rightarrow> bool" where
  "choices_ok g cs \<longleftrightarrow> (\<forall>c\<in>set cs. ends ` set c \<subseteq> edge_set g)"

definition profiled :: "(nat \<Rightarrow> nat list) \<Rightarrow> bitgraph \<Rightarrow> mutation_profile option \<Rightarrow> bool" where
  "profiled lens g prof \<longleftrightarrow>
     prof = None \<or> set (lens (order g)) \<subseteq> set PROFILED_FORBIDDEN_LENGTHS"

lemma list_index_ok: "x \<in> set xs \<Longrightarrow> \<exists>i. list_index x xs = Inr i"
  by (induction xs) (auto simp: rbind_def)

lemma list_index_error: "x \<notin> set xs \<Longrightarrow> list_index x xs = Inl (ValueError ''not in list'')"
  by (induction xs) (auto simp: rbind_def)

lemma eg_profiled:
  assumes "order g < 256"
  shows "profiled forbidden_lengths g prof"
proof -
  have "len \<in> set PROFILED_FORBIDDEN_LENGTHS" if len: "len \<in> set (forbidden_lengths (order g))" for len
  proof -
    obtain k where k: "len = 2 ^ k" "2 \<le> k" "2 ^ k \<le> order g"
      using len by (auto simp: set_forbidden_lengths)
    have "(2::nat) ^ k < 2 ^ 8" using k(3) assms by simp
    then have "k < 8" by (rule power_less_imp_less_exp [rotated]) simp
    with k(2) have "k = 2 \<or> k = 3 \<or> k = 4 \<or> k = 5 \<or> k = 6 \<or> k = 7" by linarith
    then show ?thesis unfolding k(1) PROFILED_FORBIDDEN_LENGTHS_def by auto
  qed
  then show ?thesis by (auto simp: profiled_def)
qed

lemma record_search_ok:
  assumes "profiled lens g prof" "len \<in> set (lens (order g))"
  shows "\<exists>prof'. record_search len nodes prof = Inr prof' \<and> profiled lens g prof'"
proof (cases prof)
  case (Some p)
  then have "len \<in> set PROFILED_FORBIDDEN_LENGTHS" using assms by (auto simp: profiled_def)
  with list_index_ok [OF this] assms(1) Some show ?thesis
    by (auto simp: record_search_def profiled_def rbind_def)
qed (simp add: record_search_def profiled_def)

lemma search_fold_ok:
  assumes "wf_graph g"
  shows "set ls \<subseteq> set (lens (order g)) \<Longrightarrow> profiled lens g prof \<Longrightarrow>
    \<forall>w\<in>set ws. is_cycle g w \<Longrightarrow>
    \<exists>ws' prof'. fold_result (search_step g) ls (ws, prof) = Inr (ws', prof') \<and>
      (\<forall>w\<in>set ws'. is_cycle g w)"
proof (induction ls arbitrary: ws prof)
  case (Cons len ls)
  obtain fs ex nodes where f: "find_cycles_of_length_bounded_profiled g len 1 (Some 4096) = Inr (fs, ex, nodes)"
    using search_total by blast
  have "\<forall>c\<in>set fs. is_cycle g c"
    using profiled_correct(1) [OF assms f] by (auto simp: canonical_cycle_def rooted_cycle_def)
  moreover obtain prof1 where "record_search len nodes prof = Inr prof1" "profiled lens g prof1"
    using record_search_ok [OF Cons.prems(2), of len nodes] Cons.prems(1) by auto
  ultimately show ?case
    using Cons.IH [of prof1 "ws @ fs"] Cons.prems f by (simp add: search_step_def rbind_def ball_Un)
qed simp

lemma compute_choices_ok:
  assumes "wf_graph g" "profiled lens g prof"
  shows "\<exists>cs prof'. compute_forbidden_witness_edge_choices lens g prof = Inr (cs, prof') \<and> choices_ok g cs"
proof -
  obtain ws prof' where "fold_result (search_step g) (lens (order g)) ([], prof) = Inr (ws, prof')"
    "\<forall>w\<in>set ws. is_cycle g w"
    using search_fold_ok [OF assms(1) subset_refl assms(2), of "[]"] by auto
  with witness_edges_ok show ?thesis
    by (auto simp: compute_forbidden_witness_edge_choices_def rbind_def choices_ok_def)
qed

text \<open>
  The state of a configuration between calls: a cached entry for the identity of a graph
  object holds the choices computed for its value, a caller-supplied list consists of edges
  of the graph, and the entries have the expected types.
\<close>

definition cache_ok :: "(nat \<Rightarrow> nat list) \<Rightarrow> (nat \<Rightarrow> bitgraph) \<Rightarrow> witness_context \<Rightarrow> bool" where
  "cache_ok lens heap ctx \<longleftrightarrow> (\<forall>oid. ctx_graph ctx = Some oid \<longrightarrow>
     (\<exists>prof. compute_forbidden_witness_edge_choices lens (heap oid) None = Inr (ctx_choices ctx, prof)))"

definition config_ok :: "(nat \<Rightarrow> nat list) \<Rightarrow> (nat \<Rightarrow> bitgraph) \<Rightarrow> nat \<Rightarrow> mutation_config \<Rightarrow> bool" where
  "config_ok lens heap oid cfg \<longleftrightarrow>
     cfg_operator cfg \<in> {None, Some ''uniform_two_edge_switch'', Some ''forbidden_cycle_break_switch''} \<and>
     cfg_profile cfg \<noteq> Mistyped \<and> cfg_context cfg \<noteq> Mistyped \<and>
     (\<forall>p. cfg_profile cfg = Given p \<longrightarrow> profiled lens (heap oid) (Some p)) \<and>
     (\<forall>cs. cfg_choices cfg = Some cs \<longrightarrow> choices_ok (heap oid) cs) \<and>
     (\<forall>ctx. cfg_context cfg = Given ctx \<longrightarrow> cache_ok lens heap ctx)"

lemma record_search_profile_free:
  "record_search len nodes prof = Inr prof' \<Longrightarrow> record_search len nodes None = Inr None"
  by (simp add: record_search_def)

lemma search_fold_profile_free:
  "fold_result (search_step g) ls (ws, prof) = Inr (ws', prof') \<Longrightarrow>
   fold_result (search_step g) ls (ws, None) = Inr (ws', None)"
proof (induction ls arbitrary: ws prof)
  case (Cons len ls)
  then obtain ws1 prof1 where s: "search_step g len (ws, prof) = Inr (ws1, prof1)"
    "fold_result (search_step g) ls (ws1, prof1) = Inr (ws', prof')"
    by (auto simp: rbind_Inr_iff)
  from s(1) have "search_step g len (ws, None) = Inr (ws1, None)"
    by (auto simp: search_step_def rbind_Inr_iff record_search_def)
  with Cons.IH [OF s(2)] show ?case by (simp add: rbind_def)
qed simp

text \<open>The profile only observes: it does not change the computed choices.\<close>

lemma compute_profile_free:
  assumes "compute_forbidden_witness_edge_choices lens g prof = Inr (cs, prof')"
  shows "compute_forbidden_witness_edge_choices lens g None = Inr (cs, None)"
proof -
  from assms obtain ws p where "fold_result (search_step g) (lens (order g)) ([], prof) = Inr (ws, p)"
    "cs = map witness_edges ws"
    by (auto simp: compute_forbidden_witness_edge_choices_def rbind_Inr_iff)
  with search_fold_profile_free [OF this(1)] show ?thesis
    by (simp add: compute_forbidden_witness_edge_choices_def rbind_def)
qed

lemma choices_for_transparent:
  assumes "cache_ok lens heap ctx" "choices_for lens (oid, heap oid) ctx prof = Inr (cs, ctx', prof')"
  shows "compute_forbidden_witness_edge_choices lens (heap oid) None = Inr (cs, None)" "cache_ok lens heap ctx'"
proof -
  show *: "compute_forbidden_witness_edge_choices lens (heap oid) None = Inr (cs, None)"
  proof (cases "ctx_enabled ctx \<and> ctx_graph ctx = Some oid")
    case True
    with assms have "\<exists>p. compute_forbidden_witness_edge_choices lens (heap oid) None = Inr (cs, p)"
      by (auto simp: choices_for_def cache_ok_def)
    then show ?thesis using compute_profile_free by blast
  next
    case False
    with assms(2) obtain p p' where "compute_forbidden_witness_edge_choices lens (heap oid) p = Inr (cs, p')"
      unfolding choices_for_def Let_def by (auto simp: rbind_Inr_iff)
    then show ?thesis by (rule compute_profile_free)
  qed
  from assms show "cache_ok lens heap ctx'"
    using * by (auto simp: choices_for_def cache_ok_def rbind_Inr_iff Let_def split: if_splits)
qed

lemma choices_for_ok:
  assumes "wf_graph (heap oid)" "profiled lens (heap oid) prof" "cache_ok lens heap ctx"
  shows "\<exists>cs ctx' prof'. choices_for lens (oid, heap oid) ctx prof = Inr (cs, ctx', prof') \<and>
    choices_ok (heap oid) cs"
proof -
  let ?g = "heap oid"
  obtain cs ctx' prof' where c: "choices_for lens (oid, ?g) ctx prof = Inr (cs, ctx', prof')"
  proof (cases "ctx_enabled ctx \<and> ctx_graph ctx = Some oid")
    case True
    then show ?thesis using that by (simp add: choices_for_def)
  next
    case False
    let ?p = "map_option (\<lambda>p. p\<lparr>witness_cache_misses := witness_cache_misses p + 1\<rparr>)
      (map_option (\<lambda>p. p\<lparr>witness_cache_lookups := witness_cache_lookups p + 1\<rparr>) prof)"
    have "profiled lens ?g ?p" using assms(2) by (simp add: profiled_def)
    then obtain cs p' where "compute_forbidden_witness_edge_choices lens ?g ?p = Inr (cs, p')"
      using compute_choices_ok [OF assms(1)] by blast
    with False that show ?thesis
      unfolding choices_for_def Let_def by (simp only: fst_conv snd_conv if_False rbind_def sum.case prod.case)
  qed
  then have "compute_forbidden_witness_edge_choices lens ?g None = Inr (cs, None)"
    using choices_for_transparent(1) [OF assms(3)] by blast
  moreover obtain cs' p where "compute_forbidden_witness_edge_choices lens ?g None = Inr (cs', p)"
    "choices_ok ?g cs'"
    using compute_choices_ok [OF assms(1), of lens None] by (auto simp: profiled_def)
  ultimately show ?thesis using c by auto
qed

lemma select_choices_ok:
  assumes "wf_graph (heap oid)" "config_ok lens heap oid cfg" "profiled lens (heap oid) prof"
  shows "\<exists>cs cx prof'. select_choices lens (oid, heap oid) cfg prof = Inr (cs, cx, prof') \<and>
    choices_ok (heap oid) cs"
proof (cases "cfg_choices cfg")
  case None
  show ?thesis
  proof (cases "cfg_context cfg")
    case Absent
    then show ?thesis
      using compute_choices_ok [OF assms(1,3)] None by (auto simp: select_choices_def rbind_def)
  next
    case (Given ctx)
    then have "cache_ok lens heap ctx" using assms(2) by (simp add: config_ok_def)
    from choices_for_ok [where heap = heap, OF assms(1,3) this] None Given show ?thesis
      by (auto simp: select_choices_def rbind_def)
  qed (use assms(2) in \<open>simp add: config_ok_def\<close>)
qed (use assms(2) in \<open>simp add: config_ok_def select_choices_def\<close>)

lemma mutate_targeted_ok:
  assumes "wf_graph (heap oid)" "eg_valid (heap oid)" "config_ok lens heap oid cfg"
    and "ends ` set es \<subseteq> edge_set (heap oid)" "es \<noteq> []"
  shows "\<exists>mr r' cfg'. mutate_targeted lens (oid, heap oid) es mode r cfg = Inr (mr, r', cfg') \<and>
    mutated (heap oid) mode mr"
proof -
  let ?g = "heap oid"
  obtain prof where p: "profiled lens ?g prof"
    "(case cfg_profile cfg of
        Mistyped \<Rightarrow> Inl (TypeError ''mutation_profile must be a MutationProfileAccumulator'')
      | Absent \<Rightarrow> Inr None | Given p \<Rightarrow> Inr (Some p)) = (Inr prof :: mutation_profile option result)"
    using assms(3) by (cases "cfg_profile cfg") (auto simp: config_ok_def profiled_def)
  obtain cs cx prof1 where cs: "select_choices lens (oid, ?g) cfg prof = Inr (cs, cx, prof1)"
    "choices_ok ?g cs"
    using select_choices_ok [OF assms(1,3) p(1)] by blast
  obtain wes r1 where w: "(if cs = [] then Inr ([], r) else choice cs r) = Inr (wes, r1)"
    "ends ` set wes \<subseteq> edge_set ?g"
  proof (cases "cs = []")
    case True
    then show ?thesis using that by simp
  next
    case False
    with choice_ok [OF this, of r] cs(2) that show ?thesis by (auto simp: choices_ok_def)
  qed
  show ?thesis
  proof (cases "wes = []")
    case True
    with p cs w show ?thesis
      by (simp add: mutate_targeted_def rbind_def mutated_unchanged [OF assms(1,2)])
  next
    case False
    obtain mr r2 prof2 where "targeted_attempts ?g wes es mode 64 r1 prof1 = Inr (mr, r2, prof2)"
      "mutated ?g mode mr"
      using targeted_attempts_ok [OF assms(1,2,4,5) w(2) False] by blast
    with False p cs w show ?thesis by (simp add: mutate_targeted_def rbind_def)
  qed
qed

lemma mutate_with_delta_ok:
  assumes "wf_graph (heap oid)" "eg_valid (heap oid)" "config_ok lens heap oid cfg"
  shows "\<exists>mr r' cfg'. mutate_with_delta lens (oid, heap oid) r cfg = Inr (mr, r', cfg') \<and>
    mutated (heap oid) (case cfg_mode cfg of None \<Rightarrow> ''cubic_first'' | Some m \<Rightarrow> m) mr"
proof -
  let ?g = "heap oid" and ?mode = "case cfg_mode cfg of None \<Rightarrow> ''cubic_first'' | Some m \<Rightarrow> m"
    and ?op = "case cfg_operator cfg of None \<Rightarrow> ''uniform_two_edge_switch'' | Some f \<Rightarrow> f"
  have opr: "?op \<in> {''uniform_two_edge_switch'', ''forbidden_cycle_break_switch''}"
    using assms(3) by (auto simp: config_ok_def)
  obtain early r1 where e: "(if ?mode = ''unrestricted_min_degree_3'' then mutate_unrestricted ?g r
      else Inr (None, r)) = Inr (early, r1)" "\<forall>mr. early = Some mr \<longrightarrow> mutated ?g ?mode mr"
    using mutate_unrestricted_ok [OF assms(1,2), of r] by (cases "?mode = ''unrestricted_min_degree_3''") auto
  have unfold: "mutate_with_delta lens (oid, ?g) r cfg = (case early of
        Some mr \<Rightarrow> Inr (mr, r1, cfg)
      | None \<Rightarrow> if length (edges ?g) < 2 then Inr (unchanged ?g, r1, cfg)
          else if ?op = ''forbidden_cycle_break_switch''
          then mutate_targeted lens (oid, ?g) (edges ?g) ?mode r1 cfg
          else rbind (uniform_attempts ?g (edges ?g) ?mode 64 r1) (\<lambda>(mr, r2). Inr (mr, r2, cfg)))"
    using opr unfolding mutate_with_delta_def Let_def snd_conv
    by (simp only: e(1) rbind_def sum.case prod.case if_False not_True_eq_False)
  show ?thesis
  proof (cases early)
    case (Some mr)
    with unfold e(2) show ?thesis by simp
  next
    case None
    have es: "ends ` set (edges ?g) \<subseteq> edge_set ?g" using ends_edges [OF assms(1)] by simp
    consider "length (edges ?g) < 2" | "2 \<le> length (edges ?g)" "?op = ''forbidden_cycle_break_switch''"
      | "2 \<le> length (edges ?g)" "?op \<noteq> ''forbidden_cycle_break_switch''" by linarith
    then show ?thesis
    proof cases
      case 1
      with unfold None show ?thesis by (simp add: mutated_unchanged [OF assms(1,2)])
    next
      case 2
      then have "edges ?g \<noteq> []" by auto
      from mutate_targeted_ok [where heap = heap, OF assms es this] unfold None 2 show ?thesis by simp
    next
      case 3
      from uniform_attempts_ok [OF assms(1,2) es 3(1), of ?mode 64 r1] obtain mr r2 where
        "uniform_attempts ?g (edges ?g) ?mode 64 r1 = Inr (mr, r2)" "mutated ?g ?mode mr" by blast
      with unfold None 3 show ?thesis by (simp add: rbind_def)
    qed
  qed
qed

section \<open>Properties\<close>

text \<open>
  C10. Mutation never fails on a well-formed configuration and keeps a valid candidate valid,
  whatever the random generator draws: the result is a well-formed, connected graph of minimum
  degree three on the same vertices that differs from the parent by exactly the reported
  delta; outside the unrestricted mode all degrees are preserved, and in the mixed-degree mode
  so is the minimal structure.
\<close>

theorem mutate_preserves_validity:
  assumes "wf_graph (heap oid)" "valid (eg_validate_graph (heap oid))" "config_ok lens heap oid cfg"
  shows "\<exists>mr r' cfg'. mutate_with_delta lens (oid, heap oid) r cfg = Inr (mr, r', cfg') \<and>
    delta_ok (heap oid) mr \<and> valid (eg_validate_graph (mr_graph mr)) \<and>
    (cfg_mode cfg \<noteq> Some ''unrestricted_min_degree_3'' \<longrightarrow>
       degree_sequence (mr_graph mr) = degree_sequence (heap oid)) \<and>
    (cfg_mode cfg = Some ''minimal_structure_mixed_degree'' \<and> minimal_structure_valid (heap oid) \<longrightarrow>
       minimal_structure_valid (mr_graph mr))"
proof -
  obtain mr r' cfg' where "mutate_with_delta lens (oid, heap oid) r cfg = Inr (mr, r', cfg')"
    "mutated (heap oid) (case cfg_mode cfg of None \<Rightarrow> ''cubic_first'' | Some m \<Rightarrow> m) mr"
    using mutate_with_delta_ok [OF assms(1) _ assms(3), of r] assms(2) by (auto simp: eg_valid_def)
  then show ?thesis by (cases "cfg_mode cfg") (auto simp: mutated_def eg_valid_def)
qed

definition default_config :: mutation_config where
  "default_config = \<lparr>cfg_mode = None, cfg_operator = Some ''forbidden_cycle_break_switch'',
     cfg_profile = Given new_mutation_profile, cfg_choices = None,
     cfg_context = Given (new_mutation_context True)\<rparr>"

theorem mutate_preserves_validity_witness:
  "\<exists>mr r' cfg'. mutate_with_delta forbidden_lengths (7, petersen) [5, 3, 1] default_config = Inr (mr, r', cfg') \<and>
     degree_sequence (mr_graph mr) = degree_sequence petersen"
proof -
  have "valid (eg_validate_graph petersen)" by code_simp
  moreover have "config_ok forbidden_lengths (\<lambda>_. petersen) 7 default_config"
    by (simp add: config_ok_def default_config_def cache_ok_def new_mutation_context_def eg_profiled petersen_def)
  ultimately show ?thesis
    using mutate_preserves_validity [of "\<lambda>_. petersen" 7 forbidden_lengths default_config "[5, 3, 1]"] wf_petersen
    by (auto simp: default_config_def)
qed

lemma two_edge_switch_preserves_degrees:
  assumes "wf_graph g" "ends e1 \<in> edge_set g" "ends e2 \<in> edge_set g"
  shows "\<exists>res r'. two_edge_switch g e1 e2 r mode = Inr (res, r') \<and>
    (\<forall>mr. res = Some mr \<longrightarrow> delta_ok g mr \<and> is_connected (mr_graph mr) \<and>
       degree_sequence (mr_graph mr) = degree_sequence g)"
  using two_edge_switch_ok [OF assms] unfolding switched_def by blast

text \<open>
  C38. The witness cache is transparent: as long as the identity of a graph object determines
  its value, a cached lookup returns the choices that a fresh computation on the graph would
  return, and the cache stays consistent.
\<close>

theorem witness_cache_transparent:
  assumes "cache_ok lens heap ctx" "choices_for lens (oid, heap oid) ctx prof = Inr (cs, ctx', prof')"
  shows "compute_forbidden_witness_edge_choices lens (heap oid) None = Inr (cs, None) \<and>
    cache_ok lens heap ctx' \<and> cache_ok lens heap (invalidate ctx')"
  using choices_for_transparent [OF assms] by (simp add: invalidate_def cache_ok_def)

theorem witness_cache_transparent_witness:
  "compute_forbidden_witness_edge_choices forbidden_lengths k4 None = Inr ([[(0, 1), (1, 2), (2, 3), (0, 3)]], None)"
proof -
  have "choices_for forbidden_lengths (1, k4) (new_mutation_context True) None =
      Inr ([[(0, 1), (1, 2), (2, 3), (0, 3)]],
        \<lparr>ctx_enabled = True, ctx_graph = Some 1, ctx_choices = [[(0, 1), (1, 2), (2, 3), (0, 3)]]\<rparr>, None)"
    by code_simp
  moreover have "cache_ok forbidden_lengths (\<lambda>_. k4) (new_mutation_context True)"
    by (simp add: cache_ok_def new_mutation_context_def)
  ultimately show ?thesis using witness_cache_transparent [of forbidden_lengths "\<lambda>_. k4"] by blast
qed

lemma control_target_profile_raises:
  assumes "order g = 10"
  shows "compute_forbidden_witness_edge_choices hw_forbidden_lengths g (Some p) =
    Inl (ValueError ''not in list'')"
proof -
  obtain fs ex nodes where "find_cycles_of_length_bounded_profiled g 3 1 (Some 4096) = Inr (fs, ex, nodes)"
    using search_total by blast
  moreover have "list_index 3 PROFILED_FORBIDDEN_LENGTHS = Inl (ValueError ''not in list'')"
    by (rule list_index_error) (simp add: PROFILED_FORBIDDEN_LENGTHS_def)
  ultimately show ?thesis
    by (simp add: compute_forbidden_witness_edge_choices_def hw_forbidden_lengths_def assms
        search_step_def record_search_def rbind_def)
qed

end
