(* ===== verification/Scoring.thy ===== *)
theory Scoring
  imports Mutation Json
begin

text \<open>
  Scores of candidates: \<open>ScoreResult\<close> of \<open>src/src/sglab/targets/base.py\<close>,
  \<open>CycleCountResult\<close> of \<open>score_worker.py\<close>, and the score profile, the assembly of a score from
  counted cycles, the profile payloads and the explanations of
  \<open>targets/erdos_gyarfas.py\<close> and \<open>targets/hidden_witness_control.py\<close>.  The novelty (a float)
  is a rational number.  Clock readings are not modelled: counters that are fed from the
  clock keep their values, those fed from reported times are updated.
\<close>

record cycle_count_result =
  cc_length :: nat
  cc_count :: nat
  cc_complete :: bool
  cc_nodes :: nat
  cc_elapsed_ns :: nat

record score_result =
  s_valid :: bool
  witness_counts :: "(nat \<times> nat) list"
  weighted_penalty :: nat
  s_complete :: bool
  novelty :: rat
  simplicity :: nat

text \<open>Python's \<open>round\<close>: to the nearest integer, a tie goes to the even neighbour.\<close>

definition py_round :: "rat \<Rightarrow> int" where
  "py_round x =
     (let f = \<lfloor>x\<rfloor>; d = x - of_int f
      in if d < 1 / 2 then f else if d > 1 / 2 then f + 1 else if even f then f else f + 1)"

type_synonym score_key = "int \<times> int \<times> int \<times> int \<times> int"

definition ordering_key :: "score_result \<Rightarrow> score_key" where
  "ordering_key s =
     (if s_valid s then 0 else 1, int (sum_list (map snd (witness_counts s))),
      int (weighted_penalty s), - py_round (novelty s * 1000000), int (simplicity s))"

text \<open>The lexicographic order of tuples.\<close>

fun key_less :: "score_key \<Rightarrow> score_key \<Rightarrow> bool" where
  "key_less (a, b, c, d, e) (a', b', c', d', e') \<longleftrightarrow>
     a < a' \<or> a = a' \<and> (b < b' \<or> b = b' \<and> (c < c' \<or> c = c' \<and> (d < d' \<or> d = d' \<and> e < e')))"

definition key_le :: "score_key \<Rightarrow> score_key \<Rightarrow> bool" where
  "key_le k l \<longleftrightarrow> key_less k l \<or> k = l"

section \<open>The score profile\<close>

definition PROFILED_CYCLE_LENGTHS :: "nat list" where
  "PROFILED_CYCLE_LENGTHS = [3, 4, 8, 16, 32, 64, 128]"

record score_profile =
  graph_validation_ns :: nat
  witness_counting_ns :: nat
  score_calculation_ns :: nat
  cycle_ns :: "nat list"
  cycle_nodes :: "nat list"
  cycle_evaluations :: "nat list"
  cycle_complete :: "nat list"
  cycle_cutoff :: "nat list"

definition new_score_profile :: score_profile where
  "new_score_profile =
     (let zeros = replicate (length PROFILED_CYCLE_LENGTHS) 0 in
      \<lparr>graph_validation_ns = 0, witness_counting_ns = 0, score_calculation_ns = 0,
       cycle_ns = zeros, cycle_nodes = zeros, cycle_evaluations = zeros,
       cycle_complete = zeros, cycle_cutoff = zeros\<rparr>)"

definition score_profile_reset :: "score_profile \<Rightarrow> score_profile" where
  "score_profile_reset p =
     (let k = length PROFILED_CYCLE_LENGTHS in
      p\<lparr>graph_validation_ns := 0, witness_counting_ns := 0, score_calculation_ns := 0,
        cycle_ns := zero_prefix k (cycle_ns p), cycle_nodes := zero_prefix k (cycle_nodes p),
        cycle_evaluations := zero_prefix k (cycle_evaluations p),
        cycle_complete := zero_prefix k (cycle_complete p),
        cycle_cutoff := zero_prefix k (cycle_cutoff p)\<rparr>)"

definition cycle_field :: "nat \<Rightarrow> string \<Rightarrow> string" where
  "cycle_field len sfx = ''cycle_'' @ show_nat len @ sfx"

definition score_profile_payload :: "score_profile \<Rightarrow> (string \<times> nat) list" where
  "score_profile_payload p =
     concat (map (\<lambda>(i, len).
       [(cycle_field len ''_ns'', cycle_ns p ! i),
        (cycle_field len ''_nodes'', cycle_nodes p ! i),
        (cycle_field len ''_evaluations'', cycle_evaluations p ! i),
        (cycle_field len ''_complete'', cycle_complete p ! i),
        (cycle_field len ''_cutoff'', cycle_cutoff p ! i)])
       (enumerate 0 PROFILED_CYCLE_LENGTHS))"

definition add_at :: "nat \<Rightarrow> nat \<Rightarrow> nat list \<Rightarrow> nat list" where
  "add_at i k xs = xs[i := xs ! i + k]"

definition record_count ::
  "bool \<Rightarrow> nat \<Rightarrow> nat \<times> cycle_count_result \<Rightarrow> score_profile \<Rightarrow> score_profile result" where
  "record_count cutoff tot = (\<lambda>(index_in_results, r) p.
     rbind (list_index (cc_length r) PROFILED_CYCLE_LENGTHS) (\<lambda>i.
       let is_cutoff = (cutoff \<and> Suc index_in_results = tot)
       in Inr (p\<lparr>witness_counting_ns := witness_counting_ns p + cc_elapsed_ns r,
                 cycle_ns := add_at i (cc_elapsed_ns r) (cycle_ns p),
                 cycle_nodes := add_at i (cc_nodes r) (cycle_nodes p),
                 cycle_evaluations := add_at i 1 (cycle_evaluations p),
                 cycle_cutoff := add_at i (of_bool is_cutoff) (cycle_cutoff p),
                 cycle_complete :=
                   add_at i (of_bool (\<not> is_cutoff \<and> cc_complete r)) (cycle_complete p)\<rparr>)))"

definition record_cycle_count_profile ::
  "cycle_count_result list \<Rightarrow> score_profile \<Rightarrow> bool \<Rightarrow> score_profile result" where
  "record_cycle_count_profile results p cutoff =
     fold_result (record_count cutoff (length results)) (enumerate 0 results) p"

section \<open>Assembling a score\<close>

definition invalid_score :: "bitgraph \<Rightarrow> score_result" where
  "invalid_score g = \<lparr>s_valid = False, witness_counts = [], weighted_penalty = 10 ^ 9,
     s_complete = True, novelty = 0, simplicity = graph_size g\<rparr>"

definition count_step ::
  "nat \<Rightarrow> cycle_count_result \<Rightarrow>
   (nat \<times> nat) list \<times> nat \<times> bool \<times> score_profile option \<Rightarrow>
   ((nat \<times> nat) list \<times> nat \<times> bool \<times> score_profile option) result" where
  "count_step cap r = (\<lambda>(counts, weighted, exhaustive, prof).
     let k = min (cc_count r) cap
     in rbind (case prof of None \<Rightarrow> Inr None
               | Some p \<Rightarrow> rbind (record_cycle_count_profile [r] p False) (\<lambda>p'. Inr (Some p')))
          (\<lambda>prof'. Inr (counts @ [(cc_length r, k)],
                        weighted + k * max 1 (64 div cc_length r),
                        exhaustive \<and> cc_count r \<le> cap \<and> cc_complete r, prof')))"

text \<open>
  The lengths and the validator are those of the plugin the method runs on; a caller may
  pass the validation it already made, tied to a graph.
\<close>

definition score_from_cycle_counts ::
  "(nat \<Rightarrow> nat list) \<Rightarrow> (bitgraph \<Rightarrow> validation_result) \<Rightarrow> bitgraph \<Rightarrow> nat \<Rightarrow>
   cycle_count_result list \<Rightarrow> score_profile option \<Rightarrow> (bitgraph \<times> validation_result) option \<Rightarrow>
   (score_result \<times> score_profile option) result" where
  "score_from_cycle_counts plugin_lengths validate g cap results prof vctx =
     (if (case vctx of None \<Rightarrow> False | Some (h, _) \<Rightarrow> h \<noteq> g)
      then Inl (ValueError ''validation context belongs to a different graph'')
      else
        let validation = (case vctx of Some (_, v) \<Rightarrow> v | None \<Rightarrow> validate g)
        in if \<not> valid validation then Inr (invalid_score g, prof)
           else if map cc_length results \<noteq> plugin_lengths (order g)
           then Inl (ValueError ''cycle-count backend returned unexpected lengths'')
           else rbind (fold_result (count_step cap) results ([], 0, True, prof))
             (\<lambda>(counts, weighted, exhaustive, prof').
               Inr (\<lparr>s_valid = True, witness_counts = counts, weighted_penalty = weighted,
                     s_complete = exhaustive, novelty = 0, simplicity = graph_size g\<rparr>, prof')))"

section \<open>Reports\<close>

definition verify_status_name :: "verify_status \<Rightarrow> string" where
  "verify_status_name s = (case s of VERIFIED \<Rightarrow> ''VERIFIED'' | REJECTED \<Rightarrow> ''REJECTED''
     | UNKNOWN \<Rightarrow> ''UNKNOWN'' | INVALID \<Rightarrow> ''INVALID'')"

definition explain :: "bitgraph \<Rightarrow> verify_result \<Rightarrow> json_obj" where
  "explain g r =
     [(''target'', JStr ''erdos_gyarfas''), (''order'', JInt (int (order g))),
      (''size'', JInt (int (graph_size g))),
      (''minimum_degree'', JInt (int (minimum_degree g))),
      (''status'', JStr (verify_status_name (status r))), (''complete'', JBool (complete r)),
      (''message'', JStr (message r)),
      (''witnesses'', JList (map (\<lambda>w. JObj [(''kind'', JStr (kind w)),
         (''vertices'', JList (map (\<lambda>v. JInt (int v)) (vertices w)))]) (witnesses r)))]"

definition hw_explain :: "bitgraph \<Rightarrow> verify_result \<Rightarrow> json_obj" where
  "hw_explain g r =
     dict_set ''control_only'' (JBool True)
       (dict_set ''target'' (JStr ''m6_hidden_witness_control_v1'') (explain g r))"

definition jnat :: "nat \<Rightarrow> json" where
  "jnat k = JInt (int k)"

definition mutation_profile_payload :: "bool \<Rightarrow> mutation_profile \<Rightarrow> json_obj" where
  "mutation_profile_payload cache_enabled p =
     [(''witness_cache_enabled'', JBool cache_enabled),
      (''uniform_evaluations'', jnat (uniform_evaluations p)),
      (''uniform_ns'', jnat (uniform_ns p)),
      (''targeted_evaluations'', jnat (targeted_evaluations p)),
      (''targeted_ns'', jnat (targeted_ns p)),
      (''random_restart_evaluations'', jnat (random_restart_evaluations p)),
      (''random_restart_ns'', jnat (random_restart_ns p)),
      (''witness_cache_lookups'', jnat (witness_cache_lookups p)),
      (''witness_cache_hits'', jnat (witness_cache_hits p)),
      (''witness_cache_misses'', jnat (witness_cache_misses p)),
      (''witness_cache_hit_rate'',
         JFloat (Fin (if witness_cache_lookups p \<noteq> 0
                      then of_nat (witness_cache_hits p) / of_nat (witness_cache_lookups p)
                      else 0))),
      (''witness_searches'', jnat (witness_searches p)),
      (''witness_search_ns'', jnat (witness_search_ns p)),
      (''witness_edge_materialization_ns'', jnat (witness_edge_materialization_ns p)),
      (''switch_attempts'', jnat (switch_attempts p)),
      (''partner_edge_sampling_ns'', jnat (partner_edge_sampling_ns p)),
      (''candidate_construction_ns'', jnat (candidate_construction_ns p)),
      (''connectivity_validation_ns'', jnat (connectivity_validation_ns p)),
      (''graph_family_validation_ns'', jnat (graph_family_validation_ns p))] @
     concat (map (\<lambda>(i, len).
       [(''witness_search_cycle_'' @ show_nat len @ ''_ns'', jnat (witness_search_length_ns p ! i)),
        (''witness_search_cycle_'' @ show_nat len @ ''_nodes'',
           jnat (witness_search_length_nodes p ! i)),
        (''witness_search_cycle_'' @ show_nat len @ ''_calls'',
           jnat (witness_search_length_calls p ! i))])
       (enumerate 0 PROFILED_FORBIDDEN_LENGTHS))"

section \<open>What the assembled score says\<close>

lemma count_step_Inr:
  assumes "count_step cap r (counts, w, ex, prof) = Inr (counts', w', ex', prof')"
  shows "counts' = counts @ [(cc_length r, min (cc_count r) cap)]"
    "w' = w + min (cc_count r) cap * max 1 (64 div cc_length r)"
    "ex' \<longleftrightarrow> ex \<and> cc_count r \<le> cap \<and> cc_complete r"
  using assms by (auto simp: count_step_def Let_def rbind_Inr_iff)

lemma fold_count_step:
  assumes "fold_result (count_step cap) rs (counts, w, ex, prof) = Inr (counts', w', ex', prof')"
  shows "counts' = counts @ map (\<lambda>r. (cc_length r, min (cc_count r) cap)) rs"
    "w' = w + (\<Sum>r\<leftarrow>rs. min (cc_count r) cap * max 1 (64 div cc_length r))"
    "ex' \<longleftrightarrow> ex \<and> (\<forall>r\<in>set rs. cc_count r \<le> cap \<and> cc_complete r)"
proof -
  have "counts' = counts @ map (\<lambda>r. (cc_length r, min (cc_count r) cap)) rs \<and>
    w' = w + (\<Sum>r\<leftarrow>rs. min (cc_count r) cap * max 1 (64 div cc_length r)) \<and>
    (ex' \<longleftrightarrow> ex \<and> (\<forall>r\<in>set rs. cc_count r \<le> cap \<and> cc_complete r))"
    using assms
  proof (induction rs arbitrary: counts w ex prof)
    case (Cons r rs)
    then obtain c1 w1 e1 p1 where s: "count_step cap r (counts, w, ex, prof) = Inr (c1, w1, e1, p1)"
      "fold_result (count_step cap) rs (c1, w1, e1, p1) = Inr (counts', w', ex', prof')"
      by (auto simp: rbind_Inr_iff)
    from Cons.IH [OF s(2)] count_step_Inr [OF s(1)] show ?case by auto
  qed simp
  then show "counts' = counts @ map (\<lambda>r. (cc_length r, min (cc_count r) cap)) rs"
    "w' = w + (\<Sum>r\<leftarrow>rs. min (cc_count r) cap * max 1 (64 div cc_length r))"
    "ex' \<longleftrightarrow> ex \<and> (\<forall>r\<in>set rs. cc_count r \<le> cap \<and> cc_complete r)" by blast+
qed

text \<open>The documented contract of a count backend: a complete count is the number of cycles
  of that length, without rotations and reversals.\<close>

definition honest_counts :: "bitgraph \<Rightarrow> cycle_count_result list \<Rightarrow> bool" where
  "honest_counts g rs \<longleftrightarrow> (\<forall>r\<in>set rs. cc_complete r \<longrightarrow>
     cc_count r = card {c. canonical_cycle g c \<and> length c = cc_length r})"

lemma finite_canonical: "finite {c. canonical_cycle g c \<and> length c = len}"
proof (rule finite_subset)
  show "{c. canonical_cycle g c \<and> length c = len} \<subseteq> {c. set c \<subseteq> {..<order g} \<and> length c = len}"
    by (auto simp: canonical_cycle_def rooted_cycle_def is_cycle_def)
  show "finite {c. set c \<subseteq> {..<order g} \<and> length c = len}" by (rule finite_lists_length_eq) simp
qed

lemma no_canonical_iff:
  assumes "wf_graph g"
  shows "card {c. canonical_cycle g c \<and> length c = len} = 0 \<longleftrightarrow> \<not> has_cycle_of_length g len"
proof -
  have "{c. canonical_cycle g c \<and> length c = len} = {} \<longleftrightarrow> \<not> has_cycle_of_length g len"
  proof
    assume none: "{c. canonical_cycle g c \<and> length c = len} = {}"
    show "\<not> has_cycle_of_length g len"
    proof
      assume "has_cycle_of_length g len"
      then obtain c where "is_cycle g c" "length c = len" by (auto simp: has_cycle_of_length_def)
      with cycle_canonical [OF assms this(1)] none show False by fastforce
    qed
  next
    assume "\<not> has_cycle_of_length g len"
    then show "{c. canonical_cycle g c \<and> length c = len} = {}"
      by (auto simp: has_cycle_of_length_def canonical_cycle_def rooted_cycle_def)
  qed
  then show ?thesis by (simp add: card_eq_0_iff finite_canonical)
qed

section \<open>Profile invariant\<close>

definition score_profile_ok :: "score_profile \<Rightarrow> bool" where
  "score_profile_ok p \<longleftrightarrow>
     length (cycle_ns p) = 7 \<and> length (cycle_nodes p) = 7 \<and> length (cycle_evaluations p) = 7 \<and>
     length (cycle_complete p) = 7 \<and> length (cycle_cutoff p) = 7 \<and>
     sum_list (cycle_ns p) = witness_counting_ns p \<and>
     (\<forall>i<7. cycle_complete p ! i + cycle_cutoff p ! i \<le> cycle_evaluations p ! i)"

lemma list_index_less: "list_index x xs = Inr i \<Longrightarrow> i < length xs \<and> xs ! i = x"
  by (induction xs arbitrary: i) (auto simp: rbind_Inr_iff split: if_splits)

lemma length_add_at [simp]: "length (add_at i k xs) = length xs"
  by (simp add: add_at_def)

lemma nth_add_at: "j < length xs \<Longrightarrow> add_at i k xs ! j = xs ! j + (if i = j then k else 0)"
  by (auto simp: add_at_def nth_list_update)

lemma sum_add_at: "i < length xs \<Longrightarrow> sum_list (add_at i k xs) = sum_list xs + k"
  by (simp add: add_at_def sum_list_update)

lemma record_count_ok:
  assumes "record_count cutoff tot ir p = Inr p'" "score_profile_ok p"
  shows "score_profile_ok p'" "sum_list (cycle_evaluations p') = sum_list (cycle_evaluations p) + 1"
proof -
  obtain k r where ir: "ir = (k, r)" by fastforce
  obtain i where i: "list_index (cc_length r) PROFILED_CYCLE_LENGTHS = Inr i"
    using assms(1) ir by (auto simp: record_count_def rbind_Inr_iff)
  then have "i < 7" using list_index_less [OF i] by (simp add: PROFILED_CYCLE_LENGTHS_def)
  with assms i ir show "score_profile_ok p'"
    "sum_list (cycle_evaluations p') = sum_list (cycle_evaluations p) + 1"
    by (auto simp: record_count_def rbind_def Let_def score_profile_ok_def sum_add_at nth_add_at
        le_SucI)
qed

lemma fold_record_ok:
  assumes "fold_result (record_count cutoff tot) irs p = Inr p'" "score_profile_ok p"
  shows "score_profile_ok p' \<and>
    sum_list (cycle_evaluations p') = sum_list (cycle_evaluations p) + length irs"
  using assms
proof (induction irs arbitrary: p)
  case (Cons ir irs)
  then obtain p1 where p1: "record_count cutoff tot ir p = Inr p1"
    "fold_result (record_count cutoff tot) irs p1 = Inr p'" by (auto simp: rbind_Inr_iff)
  from Cons.IH [OF p1(2)] record_count_ok [OF p1(1) Cons.prems(2)] show ?case by simp
qed simp

lemma all_less_upt: "(\<forall>i<n. P i) \<longleftrightarrow> list_all P [0..<n]"
  by (auto simp: list_all_iff)

section \<open>Properties\<close>

text \<open>
  C18. The score separates counterexamples: for a plugin and an honest count backend whose
  counts are all complete, the key starts with (0, 0) -- structurally valid and no counted
  witness -- exactly when the graph is valid and has no cycle of a forbidden length; then
  the weighted penalty is zero as well.
\<close>

theorem score_zero_iff_counterexample:
  assumes "wf_graph g" "0 < cap" "honest_counts g results" "\<forall>r\<in>set results. cc_complete r"
    and "score_from_cycle_counts lens validate g cap results prof None = Inr (s, prof')"
  shows "((s_valid s \<and> sum_list (map snd (witness_counts s)) = 0) \<longleftrightarrow>
      valid (validate g) \<and> (\<forall>len\<in>set (lens (order g)). \<not> has_cycle_of_length g len)) \<and>
    (s_valid s \<and> sum_list (map snd (witness_counts s)) = 0 \<longrightarrow> weighted_penalty s = 0)"
proof (cases "valid (validate g)")
  case False
  with assms(5) have "s = invalid_score g" by (simp add: score_from_cycle_counts_def)
  with False show ?thesis by (simp add: invalid_score_def)
next
  case True
  obtain ws ex where lens: "map cc_length results = lens (order g)"
    and fold: "fold_result (count_step cap) results ([], 0, True, prof) =
      Inr (witness_counts s, weighted_penalty s, ex, prof')" and v: "s_valid s"
    using assms(5) True by (auto simp: score_from_cycle_counts_def rbind_Inr_iff split: if_splits)
  have zero: "min (cc_count r) cap = 0 \<longleftrightarrow> \<not> has_cycle_of_length g (cc_length r)" if "r \<in> set results" for r
  proof -
    have "cc_count r = card {c. canonical_cycle g c \<and> length c = cc_length r}"
      using that assms(3,4) by (auto simp: honest_counts_def)
    moreover have "min (cc_count r) cap = 0 \<longleftrightarrow> cc_count r = 0" using assms(2) by auto
    ultimately show ?thesis using no_canonical_iff [OF assms(1), of "cc_length r"] by metis
  qed
  have "sum_list (map snd (witness_counts s)) = 0 \<longleftrightarrow> (\<forall>r\<in>set results. min (cc_count r) cap = 0)"
    unfolding fold_count_step(1) [OF fold] by simp
  moreover have "(\<forall>r\<in>set results. min (cc_count r) cap = 0) \<longleftrightarrow>
      (\<forall>len\<in>set (lens (order g)). \<not> has_cycle_of_length g len)"
    using zero by (simp flip: lens)
  moreover have "(\<forall>r\<in>set results. min (cc_count r) cap = 0) \<longrightarrow> weighted_penalty s = 0"
    unfolding fold_count_step(2) [OF fold] by auto
  ultimately show ?thesis using True v by blast
qed

theorem score_zero_iff_counterexample_witness:
  "\<exists>s. score_from_cycle_counts hw_forbidden_lengths hw_validate_graph petersen 10
       [\<lparr>cc_length = 3, cc_count = 0, cc_complete = True, cc_nodes = 40, cc_elapsed_ns = 5\<rparr>] None None
     = Inr (s, None) \<and> s_valid s \<and> sum_list (map snd (witness_counts s)) = 0"
proof -
  let ?rs = "[\<lparr>cc_length = 3, cc_count = 0, cc_complete = True, cc_nodes = 40, cc_elapsed_ns = 5\<rparr>]"
  have v: "valid (hw_validate_graph petersen)" by code_simp
  have none: "\<not> has_cycle_of_length petersen 3"
  proof -
    have "find_cycle_of_length petersen 3 = None" by code_simp
    with reference.find_None_iff [OF wf_petersen] show ?thesis by blast
  qed
  have "hw_forbidden_lengths (order petersen) = [3]" by (simp add: hw_forbidden_lengths_def petersen_def)
  then obtain s where s: "score_from_cycle_counts hw_forbidden_lengths hw_validate_graph petersen 10 ?rs None None
      = Inr (s, None)"
    using v by (simp add: score_from_cycle_counts_def count_step_def rbind_def)
  have "honest_counts petersen ?rs"
    using no_canonical_iff [OF wf_petersen, of 3] none by (simp add: honest_counts_def)
  from score_zero_iff_counterexample [OF wf_petersen _ this _ s] v none s show ?thesis
    by (simp add: hw_forbidden_lengths_def petersen_def)
qed

lemma record_cycle_count_profile_ok:
  assumes "record_cycle_count_profile results p cutoff = Inr p'" "score_profile_ok p"
  shows "score_profile_ok p' \<and>
    sum_list (cycle_evaluations p') = sum_list (cycle_evaluations p) + length results"
  using fold_record_ok [OF assms(1) [unfolded record_cycle_count_profile_def] assms(2)] by simp

end
