(* ===== verification/Score_Worker.thy ===== *)
theory Score_Worker
  imports Scoring
begin

text \<open>
  The client of the persistent score worker, \<open>src/src/sglab/score_worker.py\<close>: binary frames,
  the cache of prepared request plans, the request and the validation of the response.

  Bytes are natural numbers.  The worker process is an environment: whether it is alive,
  whether a write succeeds, and the sequence of read events (a chunk of bytes, an empty chunk
  at the end of the stream, or a timeout; no further event is a timeout as well).  The
  operations return their result together with the updated client, also after an error.
  Timing measurements are not modelled.
\<close>

section \<open>Packing\<close>

fun le_bytes :: "nat \<Rightarrow> nat \<Rightarrow> nat list" where
  "le_bytes 0 v = []"
| "le_bytes (Suc k) v = v mod 256 # le_bytes k (v div 256)"

fun from_le :: "nat list \<Rightarrow> nat" where
  "from_le [] = 0"
| "from_le (b # bs) = b + 256 * from_le bs"

text \<open>An unsigned field of \<open>k\<close> bytes; a value out of range raises \<open>struct.error\<close>.\<close>

definition pack_u :: "nat \<Rightarrow> int \<Rightarrow> nat list result" where
  "pack_u k v = (if 0 \<le> v \<and> v < 256 ^ k then Inr (le_bytes k (nat v)) else Inl StructError)"

fun pack_fields :: "(nat \<times> int) list \<Rightarrow> nat list result" where
  "pack_fields [] = Inr []"
| "pack_fields ((k, v) # fs) =
     rbind (pack_u k v) (\<lambda>bs. rbind (pack_fields fs) (\<lambda>rest. Inr (bs @ rest)))"

fun unpack_fields :: "nat list \<Rightarrow> nat list \<Rightarrow> nat list" where
  "unpack_fields [] bs = []"
| "unpack_fields (k # ks) bs = from_le (take k bs) # unpack_fields ks (drop k bs)"

definition PROTOCOL_VERSION :: int where "PROTOCOL_VERSION = 2"
definition COMMAND_SCORE :: int where "COMMAND_SCORE = 1"
definition COMMAND_QUIT :: int where "COMMAND_QUIT = 2"
definition STATUS_OK :: nat where "STATUS_OK = 0"
definition STATUS_DOMINATED :: nat where "STATUS_DOMINATED = 2"
definition MAXIMUM_FRAME_BYTES :: nat where "MAXIMUM_FRAME_BYTES = 64 * 1024"

text \<open>\<open>b"SGSC"\<close> and \<open>b"SGSR"\<close>.\<close>

definition request_magic :: "nat list" where "request_magic = [83, 71, 83, 67]"
definition response_magic :: "nat list" where "response_magic = [83, 71, 83, 82]"

definition request_prefix :: "int \<Rightarrow> int \<Rightarrow> nat list result" where
  "request_prefix command payload_bytes =
     rbind (pack_fields [(2, PROTOCOL_VERSION), (2, command), (4, payload_bytes)])
       (\<lambda>bs. Inr (request_magic @ bs))"

section \<open>The client\<close>

datatype read_event = Timeout | Chunk "nat list"

record worker_process =
  alive :: bool
  writable :: bool
  events :: "read_event list"

type_synonym plan_key = "nat \<times> int list \<times> int \<times> int \<times> bool \<times> bool \<times> bool \<times> bool"

record request_plan =
  plan_key :: plan_key
  word_count :: nat
  length_bytes :: nat
  payload_bytes :: nat
  packed_lengths :: "nat list"
  prefix_bytes :: "nat list"

record score_client =
  binary_exists :: bool
  cutoff_longest_first :: bool
  prepared_request_cache_enabled :: bool
  prepared_request_plan :: "request_plan option"
  process :: "worker_process option"
  request_id :: nat

definition new_client :: "bool \<Rightarrow> py_float \<Rightarrow> int \<Rightarrow> bool \<Rightarrow> bool \<Rightarrow> score_client result" where
  "new_client exists timeout_seconds memory_limit_bytes longest_first cache_enabled =
     (if \<not> py_positive timeout_seconds \<and> timeout_seconds \<noteq> NaN
      then Inl (ValueError ''score-worker timeout must be positive'')
      else if memory_limit_bytes < 16 * 1024 * 1024
      then Inl (ValueError ''score-worker memory limit is too small'')
      else Inr \<lparr>binary_exists = exists, cutoff_longest_first = longest_first,
        prepared_request_cache_enabled = cache_enabled, prepared_request_plan = None,
        process = None, request_id = 0\<rparr>)"

text \<open>\<open>spawned\<close> is the process the operating system starts, \<open>None\<close> for an \<open>OSError\<close>.\<close>

definition start :: "worker_process option \<Rightarrow> score_client \<Rightarrow> unit result \<times> score_client" where
  "start spawned c =
     (case process c of
        Some p \<Rightarrow> if alive p then (Inr (), c) else
          (if \<not> binary_exists c then (Inl (RuntimeError ''score worker is unavailable''), c)
           else (case spawned of None \<Rightarrow> (Inl (RuntimeError ''could not start score worker''), c)
                 | Some q \<Rightarrow> (Inr (), c\<lparr>process := Some q\<rparr>)))
      | None \<Rightarrow>
          (if \<not> binary_exists c then (Inl (RuntimeError ''score worker is unavailable''), c)
           else (case spawned of None \<Rightarrow> (Inl (RuntimeError ''could not start score worker''), c)
                 | Some q \<Rightarrow> (Inr (), c\<lparr>process := Some q\<rparr>))))"

text \<open>Closing always forgets the process; the bytes written are the quit request.\<close>

definition close :: "score_client \<Rightarrow> nat list \<times> score_client" where
  "close c =
     (case process c of
        None \<Rightarrow> ([], c)
      | Some p \<Rightarrow>
          ((if alive p \<and> writable p
            then (case request_prefix COMMAND_QUIT 0 of Inr bs \<Rightarrow> bs | Inl _ \<Rightarrow> []) else []),
           c\<lparr>process := None\<rparr>))"

definition restart :: "worker_process option \<Rightarrow> score_client \<Rightarrow> unit result \<times> score_client" where
  "restart spawned c = start spawned (snd (close c))"

definition active_process :: "score_client \<Rightarrow> worker_process result" where
  "active_process c =
     (case process c of
        None \<Rightarrow> Inl (RuntimeError ''score worker is not running'')
      | Some p \<Rightarrow> if alive p then Inr p else Inl (RuntimeError ''score worker is not running''))"

section \<open>Request plans\<close>

definition make_key ::
  "score_client \<Rightarrow> nat \<Rightarrow> int list \<Rightarrow> int \<Rightarrow> int \<Rightarrow> bool \<Rightarrow> bool \<Rightarrow> bool \<Rightarrow> plan_key" where
  "make_key c n lengths limit node_budget cutoff_enabled cutoff_inclusive compact_dominated =
     (n, lengths, limit, node_budget, cutoff_enabled, cutoff_inclusive, compact_dominated,
      cutoff_longest_first c)"

text \<open>The checks and the packing of a fresh plan; both only depend on the key.\<close>

definition fresh_plan :: "plan_key \<Rightarrow> request_plan result" where
  "fresh_plan key =
     (case key of (n, lengths, limit, node_budget, cutoff_enabled, cutoff_inclusive,
         compact_dominated, longest_first) \<Rightarrow>
        if limit < 1 \<or> node_budget < 1
        then Inl (ValueError ''score-worker bounds must be positive'')
        else if length lengths > 64 \<or> (\<exists>len\<in>set lengths. len < 3 \<or> len > int n)
            \<or> sorted_list_of_set (set lengths) \<noteq> lengths
        then Inl (ValueError (''score-worker lengths must be unique, increasing and '' @
                              ''between 3 and the graph order''))
        else if compact_dominated \<and> \<not> cutoff_enabled
        then Inl (ValueError ''compact dominated responses require a cutoff'')
        else
          let words = (n + 63) div 64;
              lbytes = length lengths * 2;
              pbytes = lbytes + n * words * 8
          in rbind (pack_fields (map (Pair 2) lengths)) (\<lambda>packed.
             rbind (request_prefix COMMAND_SCORE (int pbytes)) (\<lambda>prefix.
               Inr \<lparr>plan_key = key, word_count = words, length_bytes = lbytes,
                    payload_bytes = pbytes, packed_lengths = packed, prefix_bytes = prefix\<rparr>)))"

definition prepare_request_plan ::
  "score_client \<Rightarrow> plan_key \<Rightarrow> request_plan result \<times> score_client" where
  "prepare_request_plan c key =
     (if prepared_request_cache_enabled c \<and>
         (case prepared_request_plan c of None \<Rightarrow> False | Some p \<Rightarrow> plan_key p = key)
      then (Inr (the (prepared_request_plan c)), c)
      else (case fresh_plan key of
              Inl e \<Rightarrow> (Inl e, c)
            | Inr p \<Rightarrow> (Inr p, if prepared_request_cache_enabled c
                              then c\<lparr>prepared_request_plan := Some p\<rparr> else c)))"

section \<open>Requests\<close>

definition pack_row :: "nat \<Rightarrow> int \<Rightarrow> nat list result" where
  "pack_row words row =
     rbind (pack_u 8 (row AND (2 ^ 64 - 1))) (\<lambda>low.
       if words = 2 then rbind (pack_u 8 (drop_bit 64 row)) (\<lambda>high. Inr (low @ high))
       else Inr low)"

fun pack_rows :: "nat \<Rightarrow> int list \<Rightarrow> nat list result" where
  "pack_rows words [] = Inr []"
| "pack_rows words (row # rs) =
     rbind (pack_row words row) (\<lambda>bs. rbind (pack_rows words rs) (\<lambda>rest. Inr (bs @ rest)))"

text \<open>The buffer is allocated with zeros and filled from the start.\<close>

definition request_payload :: "request_plan \<Rightarrow> bitgraph \<Rightarrow> nat list result" where
  "request_payload plan g =
     rbind (pack_rows (word_count plan) (rows g)) (\<lambda>body.
       let filled = packed_lengths plan @ body
       in Inr (filled @ replicate (payload_bytes plan - length filled) 0))"

definition request_frame ::
  "score_client \<Rightarrow> request_plan \<Rightarrow> bitgraph \<Rightarrow> nat \<Rightarrow> int list \<Rightarrow> int \<Rightarrow> int \<Rightarrow>
   (int \<times> int \<times> int) option \<Rightarrow> bool \<Rightarrow> bool \<Rightarrow> nat list result" where
  "request_frame c plan g rid lengths limit node_budget cutoff cutoff_inclusive compact_dominated =
     rbind (request_payload plan g) (\<lambda>payload.
     rbind (pack_fields
       [(8, int rid), (2, int (order g)), (2, int (word_count plan)), (4, limit), (4, node_budget),
        (4, case cutoff of None \<Rightarrow> 0
            | Some _ \<Rightarrow> 1 OR (if cutoff_longest_first c then 2 else 0) OR
                        (if compact_dominated then 4 else 0)),
        (4, case cutoff of None \<Rightarrow> 0 | Some (a, _, _) \<Rightarrow> a),
        (4, case cutoff of None \<Rightarrow> 0 | Some (_, b, _) \<Rightarrow> b),
        (4, case cutoff of None \<Rightarrow> 0 | Some (_, _, d) \<Rightarrow> d),
        (4, of_bool cutoff_inclusive), (2, int (length lengths)), (2, 0)]) (\<lambda>body.
       let request = prefix_bytes plan @ body @ payload
       in if length request > MAXIMUM_FRAME_BYTES
          then Inl (RuntimeError ''score-worker request is oversized'') else Inr request))"

section \<open>Responses\<close>

fun read_exact :: "nat \<Rightarrow> read_event list \<Rightarrow> nat list result \<times> read_event list" where
  "read_exact 0 evs = (Inr [], evs)"
| "read_exact (Suc n) [] = (Inl (RuntimeError ''score-worker request timed out''), [])"
| "read_exact (Suc n) (Timeout # evs) =
     (Inl (RuntimeError ''score-worker request timed out''), evs)"
| "read_exact (Suc n) (Chunk c # evs) =
     (if c = [] then (Inl (RuntimeError ''score worker closed its response''), evs)
      else if length c > Suc n then (Inr (take (Suc n) c), Chunk (drop (Suc n) c) # evs)
      else (case read_exact (Suc n - length c) evs of
              (Inr rest, evs') \<Rightarrow> (Inr (c @ rest), evs')
            | (Inl e, evs') \<Rightarrow> (Inl e, evs')))"

record response_header =
  h_magic :: "nat list"
  h_version :: nat
  h_status :: nat
  h_id :: nat
  h_count :: nat
  h_reserved :: nat
  h_payload :: nat

definition parse_header :: "nat list \<Rightarrow> response_header" where
  "parse_header bs =
     (case unpack_fields [2, 2, 8, 2, 2, 4] (drop 4 bs) of
        [version, st, rid, n, reserved, payload] \<Rightarrow>
          \<lparr>h_magic = take 4 bs, h_version = version, h_status = st, h_id = rid, h_count = n,
           h_reserved = reserved, h_payload = payload\<rparr>
      | _ \<Rightarrow> \<lparr>h_magic = [], h_version = 0, h_status = 0, h_id = 0, h_count = 0,
              h_reserved = 0, h_payload = 0\<rparr>)"

definition header_ok :: "nat \<Rightarrow> response_header \<Rightarrow> bool" where
  "header_ok rid h \<longleftrightarrow>
     h_magic h = response_magic \<and> int (h_version h) = PROTOCOL_VERSION \<and> h_id h = rid \<and>
     h_reserved h = 0 \<and> h_payload h = h_count h * 24 \<and> h_payload h \<le> MAXIMUM_FRAME_BYTES"

definition parse_record :: "nat list \<Rightarrow> cycle_count_result result" where
  "parse_record bs =
     (case unpack_fields [2, 1, 1, 4, 8, 8] bs of
        [len, flag, reserved, k, nodes, elapsed] \<Rightarrow>
          if flag \<notin> {0, 1} \<or> reserved \<noteq> 0
          then Inl (RuntimeError ''invalid score-worker count record'')
          else Inr \<lparr>cc_length = len, cc_count = k, cc_complete = (flag = 1),
                    cc_nodes = nodes, cc_elapsed_ns = elapsed\<rparr>
      | _ \<Rightarrow> Inl StructError)"

fun parse_records :: "nat \<Rightarrow> nat list \<Rightarrow> cycle_count_result list result" where
  "parse_records 0 bs = Inr []"
| "parse_records (Suc n) bs =
     rbind (parse_record (take 24 bs)) (\<lambda>r.
     rbind (parse_records n (drop 24 bs)) (\<lambda>rs. Inr (r # rs)))"

record score_response =
  results :: "cycle_count_result list"
  dominated :: bool

definition check_lengths :: "nat \<Rightarrow> int list \<Rightarrow> cycle_count_result list \<Rightarrow> score_response result" where
  "check_lengths st lengths rs =
     (let got = map (\<lambda>r. int (cc_length r)) rs;
          bad = Inl (RuntimeError ''score worker returned unexpected cycle lengths'')
      in if st = STATUS_OK
         then if got \<noteq> lengths then bad else Inr \<lparr>results = rs, dominated = False\<rparr>
         else if got \<noteq> sort got \<or> length (remdups got) \<noteq> length got
             \<or> (\<exists>len\<in>set got. len \<notin> set lengths)
         then bad else Inr \<lparr>results = rs, dominated = st = STATUS_DOMINATED\<rparr>)"

definition read_response ::
  "nat \<Rightarrow> int list \<Rightarrow> read_event list \<Rightarrow> score_response result \<times> read_event list" where
  "read_response rid lengths evs =
     (case read_exact 24 evs of
        (Inl e, evs1) \<Rightarrow> (Inl e, evs1)
      | (Inr bytes, evs1) \<Rightarrow>
          let h = parse_header bytes
          in if \<not> header_ok rid h
             then (Inl (RuntimeError ''invalid score-worker response header''), evs1)
             else (case read_exact (h_payload h) evs1 of
                     (Inl e, evs2) \<Rightarrow> (Inl e, evs2)
                   | (Inr payload, evs2) \<Rightarrow>
                       ((if h_status h \<notin> {STATUS_OK, STATUS_DOMINATED}
                         then Inl (RuntimeError ''score worker rejected the request'')
                         else rbind (parse_records (h_count h) payload)
                                (check_lengths (h_status h) lengths)), evs2)))"

section \<open>Scoring\<close>

definition ensure_running ::
  "worker_process option \<Rightarrow> score_client \<Rightarrow> unit result \<times> score_client" where
  "ensure_running spawned c =
     (case process c of
        None \<Rightarrow> start spawned c
      | Some p \<Rightarrow> if alive p then (Inr (), c)
                  else (Inl (RuntimeError ''score worker exited before request''), c))"

definition exchange ::
  "score_client \<Rightarrow> worker_process \<Rightarrow> request_plan \<Rightarrow> bitgraph \<Rightarrow> int list \<Rightarrow> int \<Rightarrow> int \<Rightarrow>
   (int \<times> int \<times> int) option \<Rightarrow> bool \<Rightarrow> bool \<Rightarrow> score_response result \<times> score_client" where
  "exchange c p plan g lengths limit node_budget cutoff cutoff_inclusive compact_dominated =
     (let rid = Suc (request_id c); c1 = c\<lparr>request_id := rid\<rparr>
      in case request_frame c1 plan g rid lengths limit node_budget cutoff cutoff_inclusive
            compact_dominated of
           Inl e \<Rightarrow> (Inl e, c1)
         | Inr request \<Rightarrow>
             if \<not> writable p then (Inl (RuntimeError ''score-worker request failed''), c1)
             else (case read_response rid lengths (events p) of
                     (res, evs) \<Rightarrow> (res, c1\<lparr>process := Some (p\<lparr>events := evs\<rparr>)\<rparr>)))"

definition score ::
  "worker_process option \<Rightarrow> score_client \<Rightarrow> bitgraph \<Rightarrow> int list \<Rightarrow> int \<Rightarrow> int \<Rightarrow>
   (int \<times> int \<times> int) option \<Rightarrow> bool \<Rightarrow> bool \<Rightarrow> score_response result \<times> score_client" where
  "score spawned c g lengths limit node_budget cutoff cutoff_inclusive compact_dominated =
     (case prepare_request_plan c (make_key c (order g) lengths limit node_budget
             (cutoff \<noteq> None) cutoff_inclusive compact_dominated) of
        (Inl e, c1) \<Rightarrow> (Inl e, c1)
      | (Inr plan, c1) \<Rightarrow>
          (case ensure_running spawned c1 of
             (Inl e, c2) \<Rightarrow> (Inl e, c2)
           | (Inr _, c2) \<Rightarrow>
               (case active_process c2 of
                  Inl e \<Rightarrow> (Inl e, c2)
                | Inr p \<Rightarrow> exchange c2 p plan g lengths limit node_budget cutoff
                    cutoff_inclusive compact_dominated)))"

section \<open>Packing and unpacking\<close>

lemma length_le_bytes [simp]: "length (le_bytes k v) = k"
  by (induction k arbitrary: v) simp_all

lemma le_bytes_numeral:
  "le_bytes (numeral k) v = v mod 256 # le_bytes (pred_numeral k) (v div 256)"
  by (simp only: numeral_eq_Suc [of k] le_bytes.simps)

lemma from_le_le_bytes: "from_le (le_bytes k v) = v mod 256 ^ k"
proof (induction k arbitrary: v)
  case (Suc k)
  have "v mod 256 ^ Suc k = v mod 256 + 256 * (v div 256 mod 256 ^ k)"
    by (simp add: mod_mult2_eq)
  with Suc show ?case by simp
qed simp

lemma le_bytes_append: "le_bytes (a + b) v = le_bytes a v @ le_bytes b (v div 256 ^ a)"
  by (induction a arbitrary: v) (simp_all add: div_mult2_eq)

lemma le_bytes_mod: "le_bytes a (v mod 256 ^ a) = le_bytes a v"
proof (induction a arbitrary: v)
  case (Suc a)
  have "v mod 256 ^ Suc a mod 256 = v mod 256" by (simp add: mod_mod_cancel)
  moreover have "v mod 256 ^ Suc a div 256 = v div 256 mod 256 ^ a"
    by (simp add: mod_mult2_eq)
  ultimately show ?case by (simp only: le_bytes.simps Suc)
qed simp

lemma pack_u_Inr:
  assumes "pack_u k v = Inr bs"
  shows "length bs = k" "from_le bs = nat v" "0 \<le> v" "v < 256 ^ k"
proof -
  show v: "0 \<le> v" "v < 256 ^ k" "length bs = k" using assms by (auto simp: pack_u_def split: if_splits)
  have "nat v < 256 ^ k" using v by (simp add: nat_less_iff)
  then show "from_le bs = nat v"
    using assms v by (auto simp: pack_u_def from_le_le_bytes)
qed

lemma pack_fields_Inr:
  "pack_fields fs = Inr bs \<Longrightarrow>
   length bs = sum_list (map fst fs) \<and>
   unpack_fields (map fst fs) (bs @ rest) = map (\<lambda>f. nat (snd f)) fs"
proof (induction fs arbitrary: bs)
  case (Cons f fs)
  obtain k v where f: "f = (k, v)" by fastforce
  obtain b1 b2 where b: "pack_u k v = Inr b1" "pack_fields fs = Inr b2" "bs = b1 @ b2"
    using Cons.prems f by (auto simp: rbind_Inr_iff)
  with Cons.IH [OF b(2)] pack_u_Inr [OF b(1)] f show ?case by simp
qed simp

lemma unpack_fields_append:
  "unpack_fields (ks @ ls) bs = unpack_fields ks bs @ unpack_fields ls (drop (sum_list ks) bs)"
  by (induction ks arbitrary: bs) (simp_all add: add.commute)

section \<open>Rows\<close>

definition words_of :: "nat \<Rightarrow> nat" where
  "words_of n = (n + 63) div 64"

lemma pack_row_Inr:
  assumes "pack_row w row = Inr bs" "0 \<le> row" "row < 2 ^ (64 * w)" "w = 1 \<or> w = 2"
  shows "bs = le_bytes (8 * w) (nat row)"
proof -
  have low: "row AND (2 ^ 64 - 1) = row mod 2 ^ 64"
    unfolding mask_eq_exp_minus_1 [symmetric] take_bit_eq_mask [symmetric] take_bit_eq_mod ..
  have high: "drop_bit 64 row = row div 2 ^ 64" by (simp add: drop_bit_eq_div)
  have p: "(256::nat) ^ 8 = 2 ^ 64" "(256::int) ^ 8 = 2 ^ 64" by simp_all
  have l: "le_bytes 8 (nat (row mod 2 ^ 64)) = le_bytes 8 (nat row)"
    using le_bytes_mod [of 8 "nat row"] assms(2) unfolding p by (simp add: nat_mod_distrib)
  from assms(4) show ?thesis
  proof
    assume w: "w = 1"
    with assms(1) l show ?thesis unfolding pack_row_def low
      by (auto simp: rbind_Inr_iff pack_u_def split: if_splits)
  next
    assume w: "w = 2"
    have "bs = le_bytes 8 (nat row) @ le_bytes 8 (nat (row div 2 ^ 64))"
      using assms(1) l w unfolding pack_row_def low high
      by (auto simp: rbind_Inr_iff pack_u_def split: if_splits)
    then show ?thesis
      using le_bytes_append [of 8 8 "nat row"] w assms(2) unfolding p by (simp add: nat_div_distrib)
  qed
qed

lemma pack_rows_Inr:
  assumes "w = 1 \<or> w = 2" "\<forall>row\<in>set rs. 0 \<le> row \<and> row < 2 ^ (64 * w)"
  shows "pack_rows w rs = Inr bs \<Longrightarrow> bs = concat (map (\<lambda>row. le_bytes (8 * w) (nat row)) rs)"
  using assms(2)
proof (induction rs arbitrary: bs)
  case (Cons row rs)
  then obtain b1 b2 where "pack_row w row = Inr b1" "pack_rows w rs = Inr b2" "bs = b1 @ b2"
    by (auto simp: rbind_Inr_iff)
  with Cons pack_row_Inr [OF _ _ _ assms(1), of row b1] show ?case by simp
qed simp

lemma length_concat_equal: "\<forall>x\<in>set xs. length (f x) = k \<Longrightarrow> length (concat (map f xs)) = k * length xs"
  by (induction xs) auto

lemma concat_chunk:
  assumes "\<forall>x\<in>set xs. length (f x) = k" "i < length xs"
  shows "take k (drop (i * k) (concat (map f xs) @ rest)) = f (xs ! i)"
  using assms
proof (induction xs arbitrary: i)
  case (Cons x xs)
  then show ?case by (cases i) simp_all
qed simp

section \<open>Plans and frames\<close>

lemma words_of_small: "n \<le> 128 \<Longrightarrow> 0 < n \<Longrightarrow> words_of n = 1 \<or> words_of n = 2"
  by (auto simp: words_of_def)

lemma words_of_bound: "n \<le> 64 * words_of n"
  by (simp add: words_of_def)

lemma fresh_plan_Inr:
  assumes "fresh_plan (n, lengths, limit, budget, ce, ci, cd, lf) = Inr p"
  shows "word_count p = words_of n" "length_bytes p = 2 * length lengths"
    "payload_bytes p = 2 * length lengths + n * words_of n * 8"
    "pack_fields (map (Pair 2) lengths) = Inr (packed_lengths p)"
    "request_prefix COMMAND_SCORE (int (payload_bytes p)) = Inr (prefix_bytes p)"
    "plan_key p = (n, lengths, limit, budget, ce, ci, cd, lf)"
    "0 < limit" "0 < budget" "\<forall>len\<in>set lengths. 3 \<le> len \<and> len \<le> int n" "sorted lengths" "distinct lengths"
proof -
  have ne: "\<not> (limit < 1 \<or> budget < 1)" "\<not> (length lengths > 64 \<or> (\<exists>len\<in>set lengths. len < 3 \<or> len > int n)
      \<or> sorted_list_of_set (set lengths) \<noteq> lengths)" "\<not> (cd \<and> \<not> ce)"
    using assms unfolding fresh_plan_def prod.case by (auto split: if_splits)
  show "word_count p = words_of n" "length_bytes p = 2 * length lengths"
    "payload_bytes p = 2 * length lengths + n * words_of n * 8"
    "pack_fields (map (Pair 2) lengths) = Inr (packed_lengths p)"
    "request_prefix COMMAND_SCORE (int (payload_bytes p)) = Inr (prefix_bytes p)"
    "plan_key p = (n, lengths, limit, budget, ce, ci, cd, lf)"
    using assms ne unfolding fresh_plan_def prod.case
    by (auto simp: Let_def rbind_Inr_iff words_of_def)
  show "0 < limit" "0 < budget" "\<forall>len\<in>set lengths. 3 \<le> len \<and> len \<le> int n" using ne by auto
  have "sorted_list_of_set (set lengths) = lengths" using ne by blast
  then show "sorted lengths" "distinct lengths"
    using sorted_sorted_list_of_set [of "set lengths"] distinct_sorted_list_of_set [of "set lengths"]
    by simp_all
qed

lemma request_prefix_Inr:
  assumes "request_prefix cmd pb = Inr bs"
  shows "length bs = 12" "take 4 bs = request_magic"
    "unpack_fields [2, 2, 4] (drop 4 bs @ rest) = [2, nat cmd, nat pb]"
proof -
  obtain b where b: "pack_fields [(2, PROTOCOL_VERSION), (2, cmd), (4, pb)] = Inr b" "bs = request_magic @ b"
    using assms by (auto simp: request_prefix_def rbind_Inr_iff)
  from pack_fields_Inr [OF b(1), of rest] b(2)
  show "length bs = 12" "take 4 bs = request_magic"
    "unpack_fields [2, 2, 4] (drop 4 bs @ rest) = [2, nat cmd, nat pb]"
    by (simp_all add: request_magic_def PROTOCOL_VERSION_def del: unpack_fields.simps)
qed

lemma request_payload_Inr:
  assumes "request_payload p g = Inr bs" "wf_graph g" "order g \<le> 128"
    and "word_count p = words_of (order g)" "pack_fields (map (Pair 2) lengths) = Inr (packed_lengths p)"
    and "payload_bytes p = 2 * length lengths + order g * words_of (order g) * 8"
  shows "bs = packed_lengths p @ concat (map (\<lambda>row. le_bytes (8 * words_of (order g)) (nat row)) (rows g))"
    "length bs = payload_bytes p" "length (packed_lengths p) = 2 * length lengths"
proof -
  let ?n = "order g" and ?w = "words_of (order g)"
  let ?body = "concat (map (\<lambda>row. le_bytes (8 * ?w) (nat row)) (rows g))"
  show pl: "length (packed_lengths p) = 2 * length lengths"
    using pack_fields_Inr [OF assms(5), of "[]"] by (simp add: comp_def sum_list_triv)
  have lb: "length ?body = ?n * ?w * 8"
    using length_concat_equal [of "rows g" "\<lambda>row. le_bytes (8 * ?w) (nat row)" "8 * ?w"] wf_length [OF assms(2)]
    by simp
  obtain body where body: "pack_rows ?w (rows g) = Inr body"
    "bs = packed_lengths p @ body @ replicate (payload_bytes p - length (packed_lengths p @ body)) 0"
    using assms(1,4) by (auto simp: request_payload_def rbind_Inr_iff Let_def)
  have "body = ?body"
  proof (cases "?n = 0")
    case True
    then show ?thesis using body(1) wf_length [OF assms(2)] by auto
  next
    case False
    have "\<forall>row\<in>set (rows g). 0 \<le> row \<and> row < 2 ^ (64 * ?w)"
    proof
      fix row assume "row \<in> set (rows g)"
      then obtain u where "u < ?n" "row = rows g ! u" using wf_length [OF assms(2)] by (auto simp: in_set_conv_nth)
      then have "0 \<le> row" "row < 2 ^ ?n" using assms(2) by (auto simp: wf_graph_def)
      moreover have "(2::int) ^ ?n \<le> 2 ^ (64 * ?w)" using words_of_bound by (intro power_increasing) auto
      ultimately show "0 \<le> row \<and> row < 2 ^ (64 * ?w)" by linarith
    qed
    with pack_rows_Inr [OF words_of_small [OF assms(3)] _ body(1)] False show ?thesis by simp
  qed
  with body(2) lb pl assms(6)
  show "bs = packed_lengths p @ ?body" "length bs = payload_bytes p" by simp_all
qed

section \<open>Reading\<close>

lemma read_exact_Chunk_Inr:
  assumes "read_exact (Suc n) (Chunk c # evs) = (Inr bs, evs')"
  obtains (split) "length c > Suc n" "bs = take (Suc n) c" "evs' = Chunk (drop (Suc n) c) # evs"
  | (more) rest where "c \<noteq> []" "length c \<le> Suc n" "bs = c @ rest"
      "read_exact (Suc n - length c) evs = (Inr rest, evs')"
proof (cases "c = [] \<or> length c > Suc n")
  case True
  then show thesis using assms split by (cases "c = []") simp_all
next
  case False
  obtain res evs1 where r: "read_exact (Suc n - length c) evs = (res, evs1)" by fastforce
  with False assms obtain rest where "res = Inr rest" "bs = c @ rest" "evs1 = evs'"
    by (cases res) simp_all
  with False r show thesis using more by simp
qed

lemma read_exact_length: "read_exact n evs = (Inr bs, evs') \<Longrightarrow> length bs = n"
proof (induction n evs arbitrary: bs rule: read_exact.induct)
  case (4 n c evs)
  from "4.prems" show ?case
  proof (cases rule: read_exact_Chunk_Inr)
    case (more rest)
    have "length rest = Suc n - length c" using more by (intro "4.IH") simp_all
    with more show ?thesis by simp
  qed simp
qed simp_all

text \<open>The bytes that have been received, and those that a read leaves in the pipe.\<close>

fun stream :: "read_event list \<Rightarrow> nat list" where
  "stream [] = []"
| "stream (Timeout # evs) = stream evs"
| "stream (Chunk c # evs) = c @ stream evs"

lemma read_exact_stream: "read_exact n evs = (Inr bs, evs') \<Longrightarrow> stream evs = bs @ stream evs'"
proof (induction n evs arbitrary: bs rule: read_exact.induct)
  case (4 n c evs)
  from "4.prems" show ?case
  proof (cases rule: read_exact_Chunk_Inr)
    case split
    then show ?thesis by (simp flip: append_assoc)
  next
    case (more rest)
    have "stream evs = rest @ stream evs'" using more by (intro "4.IH") simp_all
    with more show ?thesis by simp
  qed
qed simp_all

lemma parse_records_length: "parse_records n bs = Inr rs \<Longrightarrow> length rs = n"
  by (induction n arbitrary: bs rs) (auto simp: rbind_Inr_iff)

lemma check_lengths_Inr:
  assumes "check_lengths st lengths rs = Inr resp"
  shows "results resp = rs"
    and "dominated resp \<longrightarrow> sorted (map cc_length rs) \<and> distinct (map cc_length rs) \<and>
      (\<forall>r\<in>set rs. int (cc_length r) \<in> set lengths)"
    and "\<not> dominated resp \<longrightarrow> st \<noteq> STATUS_DOMINATED \<and> (st = STATUS_OK \<longrightarrow> map (\<lambda>r. int (cc_length r)) rs = lengths)"
proof -
  let ?got = "map (\<lambda>r. int (cc_length r)) rs"
  show "results resp = rs"
    and "\<not> dominated resp \<longrightarrow> st \<noteq> STATUS_DOMINATED \<and> (st = STATUS_OK \<longrightarrow> ?got = lengths)"
    using assms by (auto simp: check_lengths_def Let_def STATUS_OK_def STATUS_DOMINATED_def split: if_splits)
  have "sorted ?got \<and> distinct ?got \<and> (\<forall>r\<in>set rs. int (cc_length r) \<in> set lengths)" if "dominated resp"
  proof -
    have c: "?got = sort ?got" "length (remdups ?got) = length ?got" "\<forall>len\<in>set ?got. len \<in> set lengths"
      using assms that by (auto simp: check_lengths_def Let_def split: if_splits)
    have "sorted ?got" using c(1) sorted_sort by metis
    moreover have "distinct ?got" using c(2) by (metis card_distinct length_remdups_card_conv)
    ultimately show ?thesis using c(3) by simp
  qed
  moreover have "sorted ?got \<longleftrightarrow> sorted (map cc_length rs)"
    by (simp add: sorted_iff_nth_mono)
  moreover have "distinct ?got \<longleftrightarrow> distinct (map cc_length rs)"
    by (simp add: distinct_map inj_on_def)
  ultimately show "dominated resp \<longrightarrow> sorted (map cc_length rs) \<and> distinct (map cc_length rs) \<and>
      (\<forall>r\<in>set rs. int (cc_length r) \<in> set lengths)" by simp
qed

lemma check_lengths_dominated:
  "check_lengths st lengths rs = Inr resp \<Longrightarrow> dominated resp \<longleftrightarrow> st = STATUS_DOMINATED"
  by (auto simp: check_lengths_def Let_def STATUS_OK_def STATUS_DOMINATED_def split: if_splits)

lemma read_response_Inr:
  assumes "read_response rid lengths evs = (Inr resp, evs')"
  obtains hdr payload where "stream evs = hdr @ payload @ stream evs'" "length hdr = 24"
    "header_ok rid (parse_header hdr)" "length payload = 24 * length (results resp)"
    "h_status (parse_header hdr) \<in> {STATUS_OK, STATUS_DOMINATED}"
    "check_lengths (h_status (parse_header hdr)) lengths (results resp) = Inr resp"
proof -
  obtain hdr evs1 where h: "read_exact 24 evs = (Inr hdr, evs1)" "header_ok rid (parse_header hdr)"
    using assms by (auto simp: read_response_def Let_def split: prod.splits sum.splits if_splits)
  obtain payload where p: "read_exact (h_payload (parse_header hdr)) evs1 = (Inr payload, evs')"
    "h_status (parse_header hdr) \<in> {STATUS_OK, STATUS_DOMINATED}"
    "rbind (parse_records (h_count (parse_header hdr)) payload)
      (check_lengths (h_status (parse_header hdr)) lengths) = Inr resp"
    using assms h by (auto simp: read_response_def Let_def split: prod.splits sum.splits if_splits)
  obtain rs where rs: "parse_records (h_count (parse_header hdr)) payload = Inr rs"
    "check_lengths (h_status (parse_header hdr)) lengths rs = Inr resp"
    using p(3) by (auto simp: rbind_Inr_iff)
  have res: "results resp = rs" using check_lengths_Inr(1) [OF rs(2)] .
  have "length payload = 24 * length rs"
    using read_exact_length [OF p(1)] h(2) parse_records_length [OF rs(1)] by (simp add: header_ok_def)
  with that [of hdr payload] read_exact_stream [OF h(1)] read_exact_stream [OF p(1)]
    read_exact_length [OF h(1)] h(2) p(2) rs(2) res show thesis by simp
qed

section \<open>Reachable clients\<close>

text \<open>The states a client can be in: constructed, then driven by its public operations.\<close>

inductive reachable_client :: "score_client \<Rightarrow> bool" where
  new: "new_client exists timeout memory longest cache = Inr c \<Longrightarrow> reachable_client c"
| start: "reachable_client c \<Longrightarrow> reachable_client (snd (start spawned c))"
| close: "reachable_client c \<Longrightarrow> reachable_client (snd (close c))"
| restart: "reachable_client c \<Longrightarrow> reachable_client (snd (restart spawned c))"
| score: "reachable_client c \<Longrightarrow>
    reachable_client (snd (score spawned c g lengths limit budget cutoff inclusive cmp))"

definition plan_ok :: "score_client \<Rightarrow> bool" where
  "plan_ok c \<longleftrightarrow> (\<forall>p. prepared_request_plan c = Some p \<longrightarrow> fresh_plan (plan_key p) = Inr p)"

lemma plan_ok_cong: "prepared_request_plan c' = prepared_request_plan c \<Longrightarrow> plan_ok c' = plan_ok c"
  by (simp add: plan_ok_def)

lemma start_keeps [simp]:
  "prepared_request_plan (snd (start spawned c)) = prepared_request_plan c"
  "request_id (snd (start spawned c)) = request_id c"
  by (simp_all add: start_def split: option.split)

lemma close_keeps [simp]: "prepared_request_plan (snd (close c)) = prepared_request_plan c"
  by (simp add: close_def split: option.split)

lemma ensure_running_keeps [simp]:
  "prepared_request_plan (snd (ensure_running spawned c)) = prepared_request_plan c"
  "request_id (snd (ensure_running spawned c)) = request_id c"
  by (simp_all add: ensure_running_def split: option.split)

lemma exchange_keeps [simp]:
  "prepared_request_plan (snd (exchange c p plan g lengths limit budget cutoff inclusive cmp)) =
   prepared_request_plan c"
  by (simp add: exchange_def Let_def split: sum.split prod.split)

lemma fresh_plan_key: "fresh_plan key = Inr p \<Longrightarrow> plan_key p = key"
  by (auto simp: fresh_plan_def Let_def rbind_Inr_iff split: prod.splits if_splits)

lemma prepare_request_plan_fresh:
  assumes "plan_ok c"
  shows "fst (prepare_request_plan c key) = fresh_plan key"
    and "plan_ok (snd (prepare_request_plan c key))"
  using assms
  by (auto simp: prepare_request_plan_def plan_ok_def dest: fresh_plan_key
      split: sum.splits option.splits if_splits)

lemma prepare_request_plan_id [simp]:
  "request_id (snd (prepare_request_plan c key)) = request_id c"
  by (simp add: prepare_request_plan_def split: sum.split)

text \<open>What a scoring request did when it got past its plan and found a running worker.\<close>

lemma score_cases:
  obtains (plan) e where "fst (score spawned c g lengths limit budget cutoff inclusive cmp) = Inl e"
      "prepared_request_plan (snd (score spawned c g lengths limit budget cutoff inclusive cmp)) =
       prepared_request_plan (snd (prepare_request_plan c (make_key c (order g) lengths limit budget
         (cutoff \<noteq> None) inclusive cmp)))"
  | (sent) plan c1 c2 p where
      "prepare_request_plan c (make_key c (order g) lengths limit budget (cutoff \<noteq> None) inclusive cmp) =
       (Inr plan, c1)" "c2 = snd (ensure_running spawned c1)" "active_process c2 = Inr p"
      "score spawned c g lengths limit budget cutoff inclusive cmp =
       exchange c2 p plan g lengths limit budget cutoff inclusive cmp"
proof -
  let ?key = "make_key c (order g) lengths limit budget (cutoff \<noteq> None) inclusive cmp"
  obtain r c1 where r: "prepare_request_plan c ?key = (r, c1)" by fastforce
  obtain e c2 where e: "ensure_running spawned c1 = (e, c2)" by fastforce
  have c2: "prepared_request_plan c2 = prepared_request_plan c1"
    using ensure_running_keeps(1) [of spawned c1] e by simp
  show thesis
  proof (cases r)
    case (Inl x)
    with r plan [of x] show thesis by (simp add: score_def)
  next
    case r': (Inr pl)
    show thesis
    proof (cases e)
      case (Inl x)
      with r r' e c2 plan [of x] show thesis by (simp add: score_def)
    next
      case (Inr u)
      show thesis
      proof (cases "active_process c2")
        case (Inl x)
        with r r' e c2 Inr plan [of x] show thesis by (simp add: score_def)
      next
        case p: (Inr p)
        with r r' e Inr sent [of pl c1 c2 p] show thesis by (simp add: score_def)
      qed
    qed
  qed
qed

lemma score_plan_ok:
  assumes "plan_ok c"
  shows "plan_ok (snd (score spawned c g lengths limit budget cutoff inclusive cmp))"
proof (cases rule: score_cases [of spawned c g lengths limit budget cutoff inclusive cmp])
  case (plan e)
  then show ?thesis using prepare_request_plan_fresh(2) [OF assms] plan_ok_cong by blast
next
  case (sent plan c1 c2 p)
  have "plan_ok c1" using prepare_request_plan_fresh(2) [OF assms] sent(1) by (metis snd_conv)
  then have "plan_ok c2" using plan_ok_cong [of c2 c1] sent(2) by simp
  then show ?thesis using plan_ok_cong [of "snd (score spawned c g lengths limit budget cutoff inclusive cmp)" c2]
    sent(4) by simp
qed

lemma reachable_plan_ok: "reachable_client c \<Longrightarrow> plan_ok c"
proof (induction rule: reachable_client.induct)
  case (new exists timeout memory longest cache c)
  then have "prepared_request_plan c = None" by (auto simp: new_client_def split: if_splits)
  then show ?case by (simp add: plan_ok_def)
next
  case (score c spawned g lengths limit budget cutoff inclusive cmp)
  from score.IH show ?case by (rule score_plan_ok)
qed (simp_all add: plan_ok_def restart_def)

section \<open>An example exchange\<close>

definition demo_client :: score_client where
  "demo_client = \<lparr>binary_exists = True, cutoff_longest_first = True, prepared_request_cache_enabled = True,
     prepared_request_plan = None, process = None, request_id = 0\<rparr>"

definition demo_frame :: "nat list" where
  "demo_frame = [83, 71, 83, 67, 2, 0, 1, 0, 34, 0, 0, 0, 1, 0, 0, 0, 0, 0, 0, 0, 4, 0, 1, 0, 10, 0, 0, 0,
     100, 0, 0, 0, 3, 0, 0, 0, 1, 0, 0, 0, 2, 0, 0, 0, 3, 0, 0, 0, 1, 0, 0, 0, 1, 0, 0, 0,
     4, 0, 14, 0, 0, 0, 0, 0, 0, 0, 13, 0, 0, 0, 0, 0, 0, 0, 11, 0, 0, 0, 0, 0, 0, 0,
     7, 0, 0, 0, 0, 0, 0, 0]"

definition demo_plan :: request_plan where
  "demo_plan = \<lparr>plan_key = (4, [4], 10, 100, True, True, False, True), word_count = 1, length_bytes = 2,
     payload_bytes = 34, packed_lengths = [4, 0], prefix_bytes = [83, 71, 83, 67, 2, 0, 1, 0, 34, 0, 0, 0]\<rparr>"

definition demo_worker :: worker_process where
  "demo_worker = \<lparr>alive = True, writable = True,
     events = [Chunk [83, 71, 83, 82, 2, 0, 0, 0, 1, 0, 0, 0], Chunk [0, 0, 0, 0, 1, 0, 0, 0, 24, 0, 0, 0],
       Chunk [4, 0, 1, 0, 3, 0, 0, 0, 9, 0, 0, 0, 0, 0, 0, 0, 5, 0, 0, 0, 0, 0, 0, 0]]\<rparr>"

definition demo_response :: score_response where
  "demo_response = \<lparr>results = [\<lparr>cc_length = 4, cc_count = 3, cc_complete = True, cc_nodes = 9,
     cc_elapsed_ns = 5\<rparr>], dominated = False\<rparr>"

lemma demo_fresh_plan: "fresh_plan (4, [4], 10, 100, True, True, False, True) = Inr demo_plan"
proof -
  have "pack_fields (map (Pair 2) [4]) = Inr [4, 0]" by (simp add: pack_u_def le_bytes_numeral)
  moreover have "request_prefix COMMAND_SCORE (int 34) = Inr [83, 71, 83, 67, 2, 0, 1, 0, 34, 0, 0, 0]"
    by (simp add: request_prefix_def pack_u_def le_bytes_numeral PROTOCOL_VERSION_def COMMAND_SCORE_def
        request_magic_def)
  ultimately show ?thesis unfolding fresh_plan_def prod.case Let_def demo_plan_def by simp
qed

lemma demo_request_frame:
  "cutoff_longest_first c \<Longrightarrow>
   request_frame c demo_plan k4 (Suc 0) [4] 10 100 (Some (1, 2, 3)) True False = Inr demo_frame"
  by (simp add: request_frame_def request_payload_def pack_row_def pack_u_def Let_def demo_plan_def
      MAXIMUM_FRAME_BYTES_def le_bytes_numeral k4_def demo_frame_def)

lemma demo_read: "read_response 1 [4] (events demo_worker) = (Inr demo_response, [])"
proof -
  have h: "read_exact 24 (events demo_worker) =
    (Inr [83, 71, 83, 82, 2, 0, 0, 0, 1, 0, 0, 0, 0, 0, 0, 0, 1, 0, 0, 0, 24, 0, 0, 0],
     [Chunk [4, 0, 1, 0, 3, 0, 0, 0, 9, 0, 0, 0, 0, 0, 0, 0, 5, 0, 0, 0, 0, 0, 0, 0]])"
    by code_simp
  have r: "parse_header [83, 71, 83, 82, 2, 0, 0, 0, 1, 0, 0, 0, 0, 0, 0, 0, 1, 0, 0, 0, 24, 0, 0, 0] =
    \<lparr>h_magic = [83, 71, 83, 82], h_version = 2, h_status = 0, h_id = 1, h_count = 1, h_reserved = 0,
     h_payload = 24\<rparr>"
    by (simp add: parse_header_def)
  have b: "read_exact 24 [Chunk [4, 0, 1, 0, 3, 0, 0, 0, 9, 0, 0, 0, 0, 0, 0, 0, 5, 0, 0, 0, 0, 0, 0, 0]] =
    (Inr [4, 0, 1, 0, 3, 0, 0, 0, 9, 0, 0, 0, 0, 0, 0, 0, 5, 0, 0, 0, 0, 0, 0, 0], [])"
    by code_simp
  show ?thesis unfolding read_response_def h r prod.case sum.case Let_def
    using b by (simp add: header_ok_def response_magic_def PROTOCOL_VERSION_def MAXIMUM_FRAME_BYTES_def
        STATUS_OK_def STATUS_DOMINATED_def parse_record_def check_lengths_def demo_response_def)
qed

section \<open>Properties\<close>

lemma request_frame_decodes:
  assumes g: "wf_graph g" "order g \<le> 128"
    and plan: "fresh_plan (make_key c (order g) lengths limit budget ce inclusive cmp) = Inr plan"
    and frame: "request_frame c plan g rid lengths limit budget (Some (x, y, z)) inclusive cmp = Inr frame"
  shows "length frame = 56 + payload_bytes plan \<and> take 4 frame = request_magic \<and>
    unpack_fields [2, 2, 4] (drop 4 frame) = [2, 1, payload_bytes plan] \<and>
    unpack_fields [8, 2, 2, 4, 4, 4, 4, 4, 4, 4, 2, 2] (drop 12 frame) =
      [rid, order g, words_of (order g), nat limit, nat budget,
       nat (1 OR (if cutoff_longest_first c then 2 else 0) OR (if cmp then 4 else 0)),
       nat x, nat y, nat z, of_bool inclusive, length lengths, 0] \<and>
    unpack_fields (replicate (length lengths) 2) (drop 56 frame) = map nat lengths \<and>
    (\<forall>u<order g. from_le (take (8 * words_of (order g))
       (drop (56 + 2 * length lengths + u * (8 * words_of (order g))) frame)) = nat (rows g ! u))"
proof -
  let ?n = "order g" and ?w = "words_of (order g)"
  note p = fresh_plan_Inr [OF plan [unfolded make_key_def]]
  obtain payload body where pl: "request_payload plan g = Inr payload"
    and b: "pack_fields
       [(8, int rid), (2, int ?n), (2, int ?w), (4, limit), (4, budget),
        (4, 1 OR (if cutoff_longest_first c then 2 else 0) OR (if cmp then 4 else 0)),
        (4, x), (4, y), (4, z), (4, of_bool inclusive), (2, int (length lengths)), (2, 0)] = Inr body"
    and f: "frame = prefix_bytes plan @ body @ payload"
    using frame p(1) by (auto simp: request_frame_def rbind_Inr_iff Let_def split: if_splits)
  note pre = request_prefix_Inr [OF p(5)] and pay = request_payload_Inr [OF pl g p(1,4,3)]
  note bf = pack_fields_Inr [OF b, of payload]
  have lens: "length body = 44" using bf by simp
  have rows: "from_le (take (8 * ?w) (drop (56 + 2 * length lengths + u * (8 * ?w)) frame)) = nat (rows g ! u)"
    if u: "u < ?n" for u
  proof -
    let ?f = "\<lambda>row. le_bytes (8 * ?w) (nat row)"
    have "drop (56 + 2 * length lengths + u * (8 * ?w)) frame = drop (u * (8 * ?w)) (concat (map ?f (rows g)))"
      using f pre(1) lens pay(1,3) by (simp add: add.commute)
    then have "take (8 * ?w) (drop (56 + 2 * length lengths + u * (8 * ?w)) frame) = ?f (rows g ! u)"
      using concat_chunk [of "rows g" ?f "8 * ?w" u "[]"] u wf_length [OF g(1)] by simp
    moreover have "nat (rows g ! u) < 256 ^ (8 * ?w)"
    proof -
      have "0 \<le> rows g ! u" "rows g ! u < 2 ^ ?n" using g u by (auto simp: wf_graph_def)
      then have "nat (rows g ! u) < 2 ^ ?n" by (simp add: nat_less_iff)
      also have "(2::nat) ^ ?n \<le> 2 ^ (64 * ?w)" using words_of_bound by (intro power_increasing) auto
      also have "(2::nat) ^ (64 * ?w) = 256 ^ (8 * ?w)"
        using power_mult [of "2::nat" 8 "8 * ?w"] by simp
      finally show ?thesis .
    qed
    ultimately show ?thesis by (simp add: from_le_le_bytes)
  qed
  have "unpack_fields (replicate (length lengths) 2) (drop 56 frame) = map nat lengths"
    using pack_fields_Inr [OF p(4), of "concat (map (\<lambda>row. le_bytes (8 * ?w) (nat row)) (rows g))"] f pre(1) lens pay(1)
    by (simp add: comp_def map_replicate_const)
  moreover have "unpack_fields [2, 2, 4] (drop 4 frame) = [2, 1, payload_bytes plan]"
    using pre(3) [of "body @ payload"] f pre(1) by (simp add: COMMAND_SCORE_def del: unpack_fields.simps)
  moreover have "unpack_fields [8, 2, 2, 4, 4, 4, 4, 4, 4, 4, 2, 2] (drop 12 frame) =
      [rid, ?n, ?w, nat limit, nat budget,
       nat (1 OR (if cutoff_longest_first c then 2 else 0) OR (if cmp then 4 else 0)),
       nat x, nat y, nat z, of_bool inclusive, length lengths, 0]"
    using bf f pre(1) by (simp del: unpack_fields.simps)
  ultimately show ?thesis
    using rows f pre(1,2) lens pay(2) by simp
qed


lemma prepared_plans_are_fresh:
  assumes "reachable_client c"
  shows "fst (prepare_request_plan c key) = fresh_plan key"
  using prepare_request_plan_fresh(1) [OF reachable_plan_ok [OF assms]] .

text \<open>
  C33. An accepted response belongs to its request: scoring succeeds only if the bytes read
  from the worker start with a well-formed header that carries this request's number, which
  is the successor of the previous one, and the record section has the announced size.  A
  complete response has a record for exactly the requested lengths in their order; a
  dominated response has records for some of them, in increasing order and without repetition.
\<close>

theorem score_accepts_only_its_response:
  assumes "score spawned c g lengths limit budget cutoff inclusive cmp = (Inr resp, c')"
  shows "request_id c' = Suc (request_id c) \<and>
    (\<exists>hdr payload rest p. process (snd (ensure_running spawned c)) = Some p \<and> alive p \<and>
       stream (events p) = hdr @ payload @ rest \<and> length hdr = 24 \<and>
       header_ok (Suc (request_id c)) (parse_header hdr) \<and> length payload = 24 * length (results resp) \<and>
       (dominated resp \<longleftrightarrow> h_status (parse_header hdr) = STATUS_DOMINATED)) \<and>
    (if dominated resp
     then sorted (map cc_length (results resp)) \<and> distinct (map cc_length (results resp)) \<and>
       (\<forall>r\<in>set (results resp). int (cc_length r) \<in> set lengths)
     else map (\<lambda>r. int (cc_length r)) (results resp) = lengths)"
proof (cases rule: score_cases [of spawned c g lengths limit budget cutoff inclusive cmp])
  case (plan e)
  then show ?thesis using assms by simp
next
  case (sent plan c1 c2 p)
  have id: "request_id c1 = request_id c" "request_id c2 = request_id c"
    using prepare_request_plan_id [of c] sent(1,2) by (metis snd_conv ensure_running_keeps(2))+
  have c1: "process c1 = process c" "binary_exists c1 = binary_exists c"
    using sent(1) by (auto simp: prepare_request_plan_def split: if_splits sum.splits)
  have "process (snd (ensure_running spawned c)) = process c2"
    using sent(2) c1 by (simp add: ensure_running_def start_def split: option.split)
  moreover have p: "process c2 = Some p" "alive p"
    using sent(3) by (auto simp: active_process_def split: option.splits if_splits)
  obtain evs where r: "read_response (Suc (request_id c)) lengths (events p) = (Inr resp, evs)"
    "request_id c' = Suc (request_id c)"
    using assms sent(4) id by (auto simp: exchange_def Let_def split: sum.splits prod.splits if_splits)
  from read_response_Inr [OF r(1)] obtain hdr payload where h: "stream (events p) = hdr @ payload @ stream evs"
    "length hdr = 24" "header_ok (Suc (request_id c)) (parse_header hdr)"
    "length payload = 24 * length (results resp)"
    "h_status (parse_header hdr) \<in> {STATUS_OK, STATUS_DOMINATED}"
    "check_lengths (h_status (parse_header hdr)) lengths (results resp) = Inr resp" .
  note k = check_lengths_Inr [OF h(6)]
  have "dominated resp \<longleftrightarrow> h_status (parse_header hdr) = STATUS_DOMINATED"
    using check_lengths_dominated [OF h(6)] .
  ultimately show ?thesis using r(2) h p k by auto
qed

theorem score_accepts_only_its_response_witness:
  "score (Some demo_worker) demo_client k4 [4] 10 100 (Some (1, 2, 3)) True False =
     (Inr demo_response, demo_client\<lparr>prepared_request_plan := Some demo_plan,
        process := Some (demo_worker\<lparr>events := []\<rparr>), request_id := 1\<rparr>) \<and>
   map (\<lambda>r. int (cc_length r)) (results demo_response) = [4]"
proof -
  have k4: "order k4 = 4" by (simp add: k4_def)
  have s: "score (Some demo_worker) demo_client k4 [4] 10 100 (Some (1, 2, 3)) True False =
     (Inr demo_response, demo_client\<lparr>prepared_request_plan := Some demo_plan,
        process := Some (demo_worker\<lparr>events := []\<rparr>), request_id := 1\<rparr>)"
    using demo_fresh_plan demo_read
    by (simp add: score_def make_key_def prepare_request_plan_def demo_client_def k4 ensure_running_def
        start_def active_process_def exchange_def Let_def demo_request_frame demo_worker_def)
  from score_accepts_only_its_response [OF this] s show ?thesis
    by (simp add: demo_response_def)
qed

end
