(* ===== verification/Seeds.thy ===== *)
theory Seeds
  imports Mutation
begin

text \<open>
  Seed generation, \<open>ErdosGyarfasPlugin.generate_seed\<close> of
  \<open>src/src/sglab/targets/erdos_gyarfas.py\<close>: a Hamiltonian cycle plus a random matching for
  the cubic modes, a random pairing of degree stubs for the mixed-degree mode, both with a
  bounded number of attempts.  The trace object is always present (a caller that passes
  none does not look at it); it is updated on success and on every error.

  Python sets of edges are lists without duplicates.  Their iteration order does not matter:
  the graph built from them only depends on the set.
\<close>

record seed_trace =
  generator_mode :: string
  attempts :: nat
  retry_budget :: nat
  failure_category :: "string option"

definition new_seed_trace :: seed_trace where
  "new_seed_trace =
     \<lparr>generator_mode = [], attempts = 0, retry_budget = 0, failure_category = None\<rparr>"

definition set_add :: "'a \<Rightarrow> 'a list \<Rightarrow> 'a list" where
  "set_add x xs = (if x \<in> set xs then xs else xs @ [x])"

section \<open>Cubic seeds\<close>

definition cycle_edges :: "nat \<Rightarrow> edge list" where
  "cycle_edges n = remdups (map (\<lambda>u. sort_pair (u, (u + 1) mod n)) [0..<n])"

lemma rbind_cong [fundef_cong]:
  "m = m' \<Longrightarrow> (\<And>x. m' = Inr x \<Longrightarrow> f x = h x) \<Longrightarrow> rbind m f = rbind m' h"
  by (auto simp: rbind_def split: sum.splits)

function match_loop ::
  "edge list \<Rightarrow> nat list \<Rightarrow> edge list \<Rightarrow> rng \<Rightarrow> (nat list \<times> edge list \<times> rng) result" where
  "match_loop cyc vs m r =
     (if vs = [] then Inr (vs, m, r)
      else
        let u = last vs; vs1 = butlast vs;
            choices = filter (\<lambda>i. sort_pair (u, vs1 ! i) \<notin> set cyc) [0..<length vs1]
        in if choices = [] then Inr (vs1, m, r)
           else rbind (choice choices r) (\<lambda>(i, r1).
             match_loop cyc (snd (pop_at i vs1)) (set_add (sort_pair (u, fst (pop_at i vs1))) m) r1))"
  by pat_completeness auto
termination
  by (relation "measure (\<lambda>(cyc, vs, m, r). length vs)") (auto intro: pop_at_shorter)

declare match_loop.simps [simp del]

fun cubic_attempts ::
  "nat \<Rightarrow> nat \<Rightarrow> nat \<Rightarrow> rng \<Rightarrow> (bitgraph option \<times> nat \<times> rng) result" where
  "cubic_attempts n 0 attempt r = Inr (None, attempt, r)"
| "cubic_attempts n (Suc k) attempt r =
     (let (vs, r1) = shuffle [0..<n] r
      in rbind (match_loop (cycle_edges n) vs [] r1) (\<lambda>(rest, m, r2).
           if rest = [] \<and> length m = n div 2
           then rbind (from_edges (int n) (map int_edge (remdups (cycle_edges n @ m)))) (\<lambda>g.
                  Inr (Some g, Suc attempt, r2))
           else cubic_attempts n k (Suc attempt) r2))"

section \<open>Mixed-degree seeds\<close>

definition high_count :: "nat \<Rightarrow> nat" where
  "high_count n =
     (let h = min (if n mod 2 = 0 then 2 else 1) (max 1 (3 * n div 7));
          degrees = replicate h 4 @ replicate (n - h) 3
      in if odd (sum_list degrees :: nat) then h + 1 else h)"

definition seed_degrees :: "nat \<Rightarrow> nat list" where
  "seed_degrees n = replicate (high_count n) 4 @ replicate (n - high_count n) 3"

definition initial_stubs :: "nat list \<Rightarrow> nat list" where
  "initial_stubs degrees =
     concat (map (\<lambda>(v, d). replicate d v) (enumerate 0 degrees))"

function stub_loop ::
  "nat \<Rightarrow> nat list \<Rightarrow> edge list \<Rightarrow> rng \<Rightarrow> (bool \<times> edge list \<times> rng) result" where
  "stub_loop high stubs es r =
     (if stubs = [] then Inr (True, es, r)
      else
        let u = last stubs; stubs1 = butlast stubs;
            choices = filter (\<lambda>i. u \<noteq> stubs1 ! i \<and> sort_pair (u, stubs1 ! i) \<notin> set es \<and>
                \<not> (u < high \<and> stubs1 ! i < high)) [0..<length stubs1]
        in if choices = [] then Inr (False, es, r)
           else rbind (choice choices r) (\<lambda>(i, r1).
             stub_loop high (snd (pop_at i stubs1))
               (set_add (sort_pair (u, fst (pop_at i stubs1))) es) r1))"
  by pat_completeness auto
termination
  by (relation "measure (\<lambda>(high, stubs, es, r). length stubs)") (auto intro: pop_at_shorter)

declare stub_loop.simps [simp del]

fun mixed_attempts ::
  "nat \<Rightarrow> nat \<Rightarrow> nat \<Rightarrow> rng \<Rightarrow> (bitgraph option \<times> nat \<times> rng) result" where
  "mixed_attempts n 0 attempt r = Inr (None, attempt, r)"
| "mixed_attempts n (Suc k) attempt r =
     (let (stubs, r1) = shuffle (initial_stubs (seed_degrees n)) r
      in rbind (stub_loop (high_count n) stubs [] r1) (\<lambda>(ok, es, r2).
           if ok
           then rbind (from_edges (int n) (map int_edge es)) (\<lambda>g.
                  if is_connected g \<and>
                     (\<forall>u\<in>set [0..<n]. \<exists>v\<in>set (neighbors g u). degree g v = 3)
                  then Inr (Some g, Suc attempt, r2)
                  else mixed_attempts n k (Suc attempt) r2)
           else mixed_attempts n k (Suc attempt) r2))"

section \<open>The generator\<close>

definition seed_config_error :: "int cfg \<Rightarrow> string \<Rightarrow> py_error option" where
  "seed_config_error order_cfg mode =
     (case order_cfg of
        Absent \<Rightarrow> Some KeyError
      | Mistyped \<Rightarrow> Some (TypeError ''order'')
      | Given n \<Rightarrow>
          if n < 4 then Some (ValueError ''order must be at least 4'')
          else if mode \<notin> {''cubic_first'', ''minimal_structure_mixed_degree'',
              ''unrestricted_min_degree_3''}
          then Some (ValueError (''unsupported mode: '' @ mode))
          else if mode = ''cubic_first'' \<and> n mod 2 \<noteq> 0
          then Some (ValueError ''cubic graphs require an even order'')
          else if mode = ''minimal_structure_mixed_degree'' \<and> n < 5
          then Some (ValueError ''minimal_structure_mixed_degree requires order at least 5'')
          else None)"

text \<open>The outcome of the attempts, with the failure recorded in the trace.\<close>

definition finish_seed ::
  "string \<Rightarrow> string \<Rightarrow> seed_trace \<Rightarrow> (bitgraph option \<times> nat \<times> rng) result \<Rightarrow>
   (bitgraph \<times> rng) result \<times> seed_trace" where
  "finish_seed msg category tr outcome =
     (case outcome of
        Inl e \<Rightarrow> (Inl e,
          if failure_category tr = None
          then tr\<lparr>failure_category := Some ''other_implementation_failure''\<rparr> else tr)
      | Inr (Some g, k, r) \<Rightarrow> (Inr (g, r), tr\<lparr>attempts := k\<rparr>)
      | Inr (None, k, r) \<Rightarrow>
          (Inl (RuntimeError msg), tr\<lparr>attempts := k, failure_category := Some category\<rparr>))"

definition generate_seed ::
  "rng \<Rightarrow> int cfg \<Rightarrow> string option \<Rightarrow> seed_trace \<Rightarrow> (bitgraph \<times> rng) result \<times> seed_trace" where
  "generate_seed r order_cfg mode_cfg tr =
     (let mode = (case mode_cfg of None \<Rightarrow> ''cubic_first'' | Some m \<Rightarrow> m);
          tr1 = (case order_cfg of Given _ \<Rightarrow> tr\<lparr>generator_mode := mode\<rparr> | _ \<Rightarrow> tr)
      in case seed_config_error order_cfg mode of
           Some e \<Rightarrow> (Inl e, tr1\<lparr>failure_category := Some ''invalid_generator_configuration''\<rparr>)
         | None \<Rightarrow>
             let n = (case order_cfg of Given k \<Rightarrow> nat k | _ \<Rightarrow> 0);
                 mode1 = (if mode = ''unrestricted_min_degree_3'' \<and> odd n
                          then ''minimal_structure_mixed_degree'' else mode);
                 tr2 = tr1\<lparr>generator_mode := mode1\<rparr>
             in if mode1 = ''minimal_structure_mixed_degree''
                then finish_seed ''failed to generate a mixed-degree seed within retry budget''
                       ''mixed_degree_stub_construction_exhaustion''
                       (tr2\<lparr>retry_budget := 2000\<rparr>) (mixed_attempts n 2000 0 r)
                else finish_seed ''failed to generate a cubic seed within retry budget''
                       ''cubic_matching_construction_exhaustion''
                       (tr2\<lparr>retry_budget := 200\<rparr>) (cubic_attempts n 200 0 r))"

section \<open>Degrees of a graph built from a list\<close>

text \<open>Lists of edges written smaller endpoint first.\<close>

definition sorted_edges :: "nat \<Rightarrow> edge list \<Rightarrow> bool" where
  "sorted_edges n es \<longleftrightarrow> distinct es \<and> (\<forall>(u, v)\<in>set es. u < v \<and> v < n)"

definition incidence :: "nat \<Rightarrow> edge list \<Rightarrow> nat" where
  "incidence u es = length (filter (\<lambda>e. u \<in> ends e) es)"

lemma incidence_simps [simp]:
  "incidence u [] = 0"
  "incidence u (es @ fs) = incidence u es + incidence u fs"
  "incidence u (e # es) = of_bool (u \<in> ends e) + incidence u es"
  by (simp_all add: incidence_def)

lemma inj_on_ends: "sorted_edges n es \<Longrightarrow> inj_on ends (set es)"
proof (rule inj_onI)
  fix e f assume es: "sorted_edges n es" "e \<in> set es" "f \<in> set es" and eq: "ends e = ends f"
  then have "fst e < snd e" "fst f < snd f" by (auto simp: sorted_edges_def)
  with eq show "e = f" by (cases e; cases f) (auto simp: doubleton_eq_iff)
qed

lemma sorted_edges_graph:
  assumes "sorted_edges n es"
  obtains g where "from_edges (int n) (map int_edge es) = Inr g" "wf_graph g" "order g = n"
    "edge_set g = ends ` set es" "\<And>u. u < n \<Longrightarrow> degree g u = incidence u es"
proof -
  have "\<forall>e\<in>set (map int_edge es). valid_pair n e"
    using assms by (auto simp: sorted_edges_def valid_pair_def int_edge_def)
  moreover have d: "distinct (map ends es)"
    using inj_on_ends [OF assms] assms by (simp add: distinct_map sorted_edges_def)
  ultimately have "is_ok (from_edges (int n) (map int_edge es))"
    by (simp add: from_edges_ok comp_def)
  then obtain g where g: "from_edges (int n) (map int_edge es) = Inr g" by (auto simp: is_ok_iff)
  note res = from_edges_Inr [OF g]
  have E: "edge_set g = ends ` set es" using res(3) by (simp add: image_image)
  have "degree g u = incidence u es" if "u < n" for u
  proof -
    have "degree g u = card (ends ` {e \<in> set es. u \<in> ends e})"
      using that res(1,2) E by (simp add: degree_incident) (auto intro: arg_cong [where f = card])
    also have "\<dots> = card (set (filter (\<lambda>e. u \<in> ends e) es))"
      using inj_on_subset [OF inj_on_ends [OF assms]] by (subst card_image) auto
    also have "\<dots> = incidence u es"
      unfolding incidence_def using assms by (intro distinct_card) (simp add: sorted_edges_def)
    finally show ?thesis .
  qed
  with that g res(1,2) E show thesis by blast
qed

lemma sorted_edges_add:
  assumes "sorted_edges n es" "u < n" "v < n" "u \<noteq> v" "sort_pair (u, v) \<notin> set es"
  shows "sorted_edges n (es @ [sort_pair (u, v)])"
  using assms by (auto simp: sorted_edges_def sort_pair_def)

section \<open>The matching loop\<close>

definition matching_inv :: "nat \<Rightarrow> edge list \<Rightarrow> nat list \<Rightarrow> edge list \<Rightarrow> bool" where
  "matching_inv n cyc vs m \<longleftrightarrow>
     distinct vs \<and> set vs \<subseteq> {..<n} \<and> sorted_edges n m \<and> set m \<inter> set cyc = {} \<and>
     (\<forall>u<n. incidence u m = of_bool (u \<notin> set vs)) \<and> 2 * length m + length vs = n"

lemma incidence_zero: "incidence u es = 0 \<longleftrightarrow> (\<forall>e\<in>set es. u \<notin> ends e)"
  by (simp add: incidence_def filter_empty_conv)

lemma mset_snoc_pop:
  assumes "vs \<noteq> []" "i < length (butlast vs)" "pop_at i (butlast vs) = (v, vs2)"
  shows "mset vs = {#last vs, v#} + mset vs2"
proof -
  have "mset vs = add_mset (last vs) (mset (butlast vs))"
    using assms(1) by (metis add.commute append_butlast_last_id mset.simps mset_append mset_single_iff_right
        add_mset_add_single)
  with mset_pop_at [OF assms(2,3)] show ?thesis by simp
qed

lemma matching_inv_step:
  assumes inv: "matching_inv n cyc vs m" and vs: "vs \<noteq> []" and i: "i < length (butlast vs)"
    and pop: "pop_at i (butlast vs) = (v, vs2)" and c: "sort_pair (last vs, v) \<notin> set cyc"
  shows "matching_inv n cyc vs2 (set_add (sort_pair (last vs, v)) m)"
proof -
  let ?u = "last vs" and ?e = "sort_pair (last vs, v)"
  note ms = mset_snoc_pop [OF vs i pop]
  then have s: "set vs = {?u, v} \<union> set vs2" by (metis set_mset_mset set_mset_union set_mset_add_mset_insert
      set_mset_empty insert_is_Un Un_assoc)
  have len: "length vs = Suc (Suc (length vs2))" using arg_cong [OF ms, of size] by simp
  have "distinct vs" using inv by (simp add: matching_inv_def)
  then have d: "distinct vs2" "?u \<noteq> v" "?u \<notin> set vs2" "v \<notin> set vs2"
  proof -
    have "distinct (?u # v # vs2)"
      using \<open>distinct vs\<close> ms by (metis add_mset_add_single mset.simps(2) mset_eq_imp_distinct_iff
          union_mset_add_mset_left empty_neutral(1))
    then show "distinct vs2" "?u \<noteq> v" "?u \<notin> set vs2" "v \<notin> set vs2" by auto
  qed
  have uv: "?u < n" "v < n" using inv s by (auto simp: matching_inv_def)
  have "incidence ?u m = 0" using inv uv s by (simp add: matching_inv_def)
  then have new: "?e \<notin> set m" by (force simp: incidence_zero)
  then have add: "set_add ?e m = m @ [?e]" by (simp add: set_add_def)
  have srt: "sorted_edges n (m @ [?e])"
    using inv uv d(2) new by (intro sorted_edges_add) (auto simp: matching_inv_def)
  have inc: "incidence x (m @ [?e]) = of_bool (x \<notin> set vs2)" if "x < n" for x
    using inv that s d uv by (auto simp: matching_inv_def)
  have sub: "set vs2 \<subseteq> {..<n}" "set (m @ [?e]) \<inter> set cyc = {}" "2 * length (m @ [?e]) + length vs2 = n"
    using inv s c len by (auto simp: matching_inv_def)
  show ?thesis unfolding matching_inv_def add using d(1) srt inc sub by blast
qed

lemma choice_index:
  assumes "choice (filter P [0..<k]) r = Inr (i, r')"
  shows "i < k \<and> P i"
  using choice_Inr [OF assms] by simp

lemma match_loop_Inr:
  assumes "match_loop cyc vs m r = Inr (rest, m', r')" "matching_inv n cyc vs m" "even n"
    "rest = []" "length m' = n div 2"
  shows "matching_inv n cyc [] m'"
  using assms
proof (induction cyc vs m r rule: match_loop.induct)
  case (1 cyc vs m r)
  show ?case
  proof (cases "vs = []")
    case True
    with "1.prems" show ?thesis by (subst (asm) match_loop.simps) simp
  next
    case False
    let ?ch = "filter (\<lambda>i. sort_pair (last vs, butlast vs ! i) \<notin> set cyc) [0..<length (butlast vs)]"
    have len: "2 * length m + length vs = n" using "1.prems"(2) by (simp add: matching_inv_def)
    have ne: "?ch \<noteq> []"
    proof
      assume "?ch = []"
      with False "1.prems"(1) have r: "rest = butlast vs" "m' = m"
        by (subst (asm) match_loop.simps, simp)+
      with "1.prems"(4) False have "length vs = 1" by (cases vs rule: rev_cases) auto
      with len r "1.prems"(3) show False by presburger
    qed
    obtain i r1 where ch: "choice ?ch r = Inr (i, r1)" using choice_ok [OF ne] by blast
    obtain v vs2 where pop: "pop_at i (butlast vs) = (v, vs2)" by fastforce
    have i: "i < length (butlast vs)" "sort_pair (last vs, v) \<notin> set cyc"
      using choice_index [OF ch] pop by (auto simp: pop_at_def)
    have "match_loop cyc vs2 (set_add (sort_pair (last vs, v)) m) r1 = Inr (rest, m', r')"
      using "1.prems"(1) False ne ch pop by (subst (asm) match_loop.simps) (simp add: Let_def rbind_def)
    with "1.IH" [OF False refl refl refl ne ch refl] pop "1.prems"(3-)
      matching_inv_step [OF "1.prems"(2) False i(1) pop i(2)]
    show ?thesis by simp
  qed
qed

lemma match_loop_total: "\<exists>res. match_loop cyc vs m r = Inr res"
proof (induction cyc vs m r rule: match_loop.induct)
  case (1 cyc vs m r)
  let ?ch = "filter (\<lambda>i. sort_pair (last vs, butlast vs ! i) \<notin> set cyc) [0..<length (butlast vs)]"
  show ?case
  proof (cases "vs = [] \<or> ?ch = []")
    case True
    then show ?thesis by (subst match_loop.simps) (auto simp: Let_def)
  next
    case False
    then obtain i r1 where ch: "choice ?ch r = Inr (i, r1)" using choice_ok [of ?ch r] by blast
    from "1.IH" [OF _ refl refl refl _ ch refl] False ch show ?thesis
      by (subst match_loop.simps) (auto simp: Let_def rbind_def)
  qed
qed

section \<open>The cycle\<close>

lemma cycle_edge_bounds:
  fixes u n :: nat
  shows "3 \<le> n \<Longrightarrow> u < n \<Longrightarrow> (u + 1) mod n < n \<and> (u + 1) mod n \<noteq> u"
  by (cases "u + 1 = n") auto

lemma inj_on_cycle_edges:
  assumes "3 \<le> n"
  shows "inj_on (\<lambda>u. sort_pair (u, (u + 1) mod n)) {..<n}"
proof (rule inj_onI)
  fix u v assume uv: "u \<in> {..<n}" "v \<in> {..<n}"
    and "sort_pair (u, (u + 1) mod n) = sort_pair (v, (v + 1) mod n)"
  then have "ends (u, (u + 1) mod n) = ends (v, (v + 1) mod n)" by (metis ends_sort_pair)
  then consider "u = v" | "u = (v + 1) mod n" "v = (u + 1) mod n" by (auto simp: doubleton_eq_iff)
  then show "u = v"
  proof cases
    case 2
    have wrap: "x + 1 = n \<and> (x + 1) mod n = 0 \<or> (x + 1) mod n = x + 1" if "x < n" for x
      using that by (cases "x + 1 = n") auto
    from wrap [of v] wrap [of u] uv 2 [symmetric]
    have "v + 1 = n \<and> u = 0 \<or> u = v + 1" "u + 1 = n \<and> v = 0 \<or> v = u + 1"
      by (simp_all only: lessThan_iff simp_thms)
    with assms show ?thesis by presburger
  qed
qed

lemma cycle_edges_eq:
  "3 \<le> n \<Longrightarrow> cycle_edges n = map (\<lambda>u. sort_pair (u, (u + 1) mod n)) [0..<n]"
  unfolding cycle_edges_def
  using inj_on_cycle_edges [of n] by (subst distinct_remdups_id) (auto simp: distinct_map atLeast0LessThan)

lemma sorted_cycle_edges:
  assumes "3 \<le> n"
  shows "sorted_edges n (cycle_edges n)"
proof -
  have "distinct (cycle_edges n)" by (simp add: cycle_edges_def)
  moreover have "fst (sort_pair (u, (u + 1) mod n)) < snd (sort_pair (u, (u + 1) mod n)) \<and>
      snd (sort_pair (u, (u + 1) mod n)) < n" if "u < n" for u
    using cycle_edge_bounds [OF assms that] that by (auto simp: sort_pair_def min_def max_def)
  ultimately show ?thesis
    unfolding sorted_edges_def cycle_edges_eq [OF assms] by (auto simp: case_prod_beta)
qed

lemma incidence_cycle:
  assumes "3 \<le> n" "u < n"
  shows "incidence u (cycle_edges n) = 2"
proof -
  let ?p = "(u + (n - 1)) mod n"
  have p: "?p < n" "?p \<noteq> u" using assms by (cases u; auto simp: mod_if)+
  have "u = (i + 1) mod n \<longleftrightarrow> i = ?p" if "i < n" for i
    using assms that by (cases u; cases "Suc i = n") (auto simp: mod_if)
  then have "{i. i < n \<and> (u = i \<or> u = (i + 1) mod n)} = {u, ?p}" using assms(2) p by auto
  then have "card {i. i < n \<and> (u = i \<or> u = (i + 1) mod n)} = 2" using p by simp
  moreover have "incidence u (cycle_edges n) =
      length (filter (\<lambda>i. u = i \<or> u = (i + 1) mod n) [0..<n])"
    by (simp add: cycle_edges_eq [OF assms(1)] incidence_def filter_map comp_def)
  moreover have "\<dots> = card {i. i < n \<and> (u = i \<or> u = (i + 1) mod n)}"
    by (subst distinct_card [symmetric]) (auto intro!: arg_cong [where f = card])
  ultimately show ?thesis by simp
qed

lemma cycle_connects:
  assumes g: "wf_graph g" "3 \<le> order g" and sub: "ends ` set (cycle_edges (order g)) \<subseteq> edge_set g"
  shows "connected_graph g"
proof -
  have step: "(u, Suc u) \<in> arcs g" if "Suc u < order g" for u
  proof -
    have "sort_pair (u, (u + 1) mod order g) \<in> set (cycle_edges (order g))"
      unfolding cycle_edges_eq [OF g(2)] set_map by (rule imageI) (use that in simp)
    then have "ends (sort_pair (u, (u + 1) mod order g)) \<in> edge_set g" using sub by blast
    with that edge_set_iff [OF g(1), of u "Suc u"] show ?thesis by (simp add: arcs_def)
  qed
  have "(0, k) \<in> (arcs g)\<^sup>*" if "k < order g" for k
    using that
  proof (induction k)
    case (Suc k)
    with step [of k] show ?case by (meson Suc_lessD rtrancl.rtrancl_into_rtrancl)
  qed simp
  then show ?thesis
    unfolding connected_graph_def by (meson arcs_rtrancl_sym [OF g(1)] rtrancl_trans)
qed

section \<open>Cubic seeds are cubic\<close>

definition cubic_seed :: "nat \<Rightarrow> bitgraph \<Rightarrow> bool" where
  "cubic_seed n g \<longleftrightarrow>
     wf_graph g \<and> order g = n \<and> connected_graph g \<and> (\<forall>u<n. degree g u = 3)"

lemma matching_graph:
  assumes "3 \<le> n" "matching_inv n (cycle_edges n) [] m"
  shows "\<exists>g. from_edges (int n) (map int_edge (remdups (cycle_edges n @ m))) = Inr g \<and> cubic_seed n g"
proof -
  have m: "sorted_edges n m" "set m \<inter> set (cycle_edges n) = {}" "\<forall>u<n. incidence u m = 1"
    using assms(2) by (auto simp: matching_inv_def)
  note cyc = sorted_cycle_edges [OF assms(1)]
  have d: "distinct (cycle_edges n @ m)" using m cyc by (auto simp: sorted_edges_def)
  then have rd: "remdups (cycle_edges n @ m) = cycle_edges n @ m" by (rule distinct_remdups_id)
  have "sorted_edges n (cycle_edges n @ m)" using m(1) cyc d by (auto simp: sorted_edges_def)
  then obtain g where g: "from_edges (int n) (map int_edge (cycle_edges n @ m)) = Inr g"
    "wf_graph g" "order g = n" "edge_set g = ends ` set (cycle_edges n @ m)"
    "\<And>u. u < n \<Longrightarrow> degree g u = incidence u (cycle_edges n @ m)"
    by (rule sorted_edges_graph) blast
  have "connected_graph g"
    using g(3,4) assms(1) by (intro cycle_connects [OF g(2)]) auto
  moreover have "\<forall>u<n. degree g u = 3"
    using g(5) m(3) incidence_cycle [OF assms(1)] by simp
  ultimately show ?thesis using g(1-3) unfolding rd cubic_seed_def by blast
qed

lemma matching_inv_start:
  assumes "mset vs = mset [0..<n]"
  shows "matching_inv n cyc vs []"
proof -
  have "set vs = {..<n}" using mset_eq_setD [OF assms] by (simp add: atLeast0LessThan)
  moreover have "distinct vs" using assms by (metis distinct_upt mset_eq_imp_distinct_iff)
  moreover have "length vs = n" using mset_eq_length [OF assms] by simp
  ultimately show ?thesis by (simp add: matching_inv_def sorted_edges_def)
qed

lemma cubic_attempts_ok:
  assumes "3 \<le> n" "even n"
  shows "\<exists>res a' r'. cubic_attempts n k a r = Inr (res, a', r') \<and>
    (\<forall>g. res = Some g \<longrightarrow> cubic_seed n g)"
proof (induction k arbitrary: a r)
  case (Suc k)
  obtain vs r1 where vs: "shuffle [0..<n] r = (vs, r1)" by fastforce
  then have "mset vs = mset [0..<n]" using mset_shuffle [of "[0..<n]" r] by simp
  note inv = matching_inv_start [OF this, of "cycle_edges n"]
  obtain rest m r2 where m: "match_loop (cycle_edges n) vs [] r1 = Inr (rest, m, r2)"
    using match_loop_total [of "cycle_edges n" vs "[]" r1] by auto
  show ?case
  proof (cases "rest = [] \<and> length m = n div 2")
    case True
    with match_loop_Inr [OF m inv assms(2)] have "matching_inv n (cycle_edges n) [] m" by blast
    from matching_graph [OF assms(1) this] vs m True show ?thesis by (auto simp: rbind_def)
  next
    case False
    then have "cubic_attempts n (Suc k) a r = cubic_attempts n k (Suc a) r2"
      using vs m by (auto simp: rbind_def)
    with Suc show ?thesis by simp
  qed
qed simp

section \<open>Mixed-degree seeds\<close>

definition stub_inv :: "nat \<Rightarrow> nat \<Rightarrow> nat list \<Rightarrow> nat list \<Rightarrow> edge list \<Rightarrow> bool" where
  "stub_inv n high degs stubs es \<longleftrightarrow>
     set stubs \<subseteq> {..<n} \<and> sorted_edges n es \<and>
     (\<forall>u<n. count (mset stubs) u + incidence u es = degs ! u) \<and>
     (\<forall>(u, v)\<in>set es. \<not> (u < high \<and> v < high))"

lemma stub_inv_step:
  assumes inv: "stub_inv n high degs stubs es" and ne: "stubs \<noteq> []" and i: "i < length (butlast stubs)"
    and pop: "pop_at i (butlast stubs) = (v, stubs2)"
    and c: "last stubs \<noteq> v" "sort_pair (last stubs, v) \<notin> set es" "\<not> (last stubs < high \<and> v < high)"
  shows "stub_inv n high degs stubs2 (set_add (sort_pair (last stubs, v)) es)"
proof -
  let ?u = "last stubs" and ?e = "sort_pair (last stubs, v)"
  note ms = mset_snoc_pop [OF ne i pop]
  then have "set_mset (mset stubs) = set_mset ({#?u, v#} + mset stubs2)" by simp
  then have s: "set stubs = {?u, v} \<union> set stubs2" by simp
  have uv: "?u < n" "v < n" using inv s by (auto simp: stub_inv_def)
  have add: "set_add ?e es = es @ [?e]" using c by (simp add: set_add_def)
  have srt: "sorted_edges n (es @ [?e])"
    using inv uv c by (intro sorted_edges_add) (auto simp: stub_inv_def)
  have "count (mset stubs2) x + incidence x (es @ [?e]) = count (mset stubs) x + incidence x es" for x
    using c(1) by (auto simp: ms)
  then have inc: "\<forall>x<n. count (mset stubs2) x + incidence x (es @ [?e]) = degs ! x"
    using inv unfolding stub_inv_def by presburger
  have "\<forall>(a, b)\<in>set (es @ [?e]). \<not> (a < high \<and> b < high)"
    using inv c(3) by (auto simp: stub_inv_def sort_pair_def min_def max_def)
  with srt inc s inv show ?thesis unfolding stub_inv_def add by auto
qed

lemma stub_loop_Inr:
  assumes "stub_loop high stubs es r = Inr (ok, es', r')" "stub_inv n high degs stubs es" "ok"
  shows "stub_inv n high degs [] es'"
  using assms
proof (induction high stubs es r rule: stub_loop.induct)
  case (1 high stubs es r)
  show ?case
  proof (cases "stubs = []")
    case True
    with "1.prems" show ?thesis by (subst (asm) stub_loop.simps) simp
  next
    case False
    let ?P = "\<lambda>i. last stubs \<noteq> butlast stubs ! i \<and> sort_pair (last stubs, butlast stubs ! i) \<notin> set es \<and>
      \<not> (last stubs < high \<and> butlast stubs ! i < high)"
    let ?ch = "filter ?P [0..<length (butlast stubs)]"
    have ne: "?ch \<noteq> []" using "1.prems"(1,3) False by (subst (asm) stub_loop.simps) (auto simp: Let_def)
    obtain i r1 where ch: "choice ?ch r = Inr (i, r1)" using choice_ok [OF ne] by blast
    obtain v stubs2 where pop: "pop_at i (butlast stubs) = (v, stubs2)" by fastforce
    then have v: "v = butlast stubs ! i" by (simp add: pop_at_def)
    note i = choice_index [OF ch]
    have "stub_loop high stubs2 (set_add (sort_pair (last stubs, v)) es) r1 = Inr (ok, es', r')"
      using "1.prems"(1) False ne ch pop by (subst (asm) stub_loop.simps) (simp only: Let_def if_False rbind_def sum.case prod.case fst_conv snd_conv)
    with "1.IH" [OF False refl refl refl ne ch refl] pop "1.prems"(3)
      stub_inv_step [OF "1.prems"(2) False _ pop] i v
    show ?thesis by simp
  qed
qed

lemma stub_loop_total: "\<exists>res. stub_loop high stubs es r = Inr res"
proof (induction high stubs es r rule: stub_loop.induct)
  case (1 high stubs es r)
  let ?ch = "filter (\<lambda>i. last stubs \<noteq> butlast stubs ! i \<and> sort_pair (last stubs, butlast stubs ! i) \<notin> set es \<and>
      \<not> (last stubs < high \<and> butlast stubs ! i < high)) [0..<length (butlast stubs)]"
  show ?case
  proof (cases "stubs = [] \<or> ?ch = []")
    case True
    then show ?thesis by (subst stub_loop.simps) (auto simp: Let_def)
  next
    case False
    then obtain i r1 where ch: "choice ?ch r = Inr (i, r1)" using choice_ok [of ?ch r] by blast
    from "1.IH" [OF _ refl refl refl _ ch refl] False ch show ?thesis
      by (subst stub_loop.simps) (simp add: Let_def rbind_def)
  qed
qed

lemma count_stubs_from:
  "count (mset (concat (map (\<lambda>(v, d). replicate d v) (enumerate k ds)))) u =
   (if k \<le> u \<and> u < k + length ds then ds ! (u - k) else 0)"
proof (induction ds arbitrary: k)
  case (Cons d ds)
  show ?case
  proof (cases "u = k")
    case False
    then show ?thesis using Cons [of "Suc k"] by (auto simp: nth_Cons' Suc_diff_le)
  qed (use Cons [of "Suc k"] in auto)
qed simp

lemma high_count_value:
  assumes "5 \<le> n"
  shows "high_count n = (if even n then 2 else 1)"
proof -
  have "max 1 (3 * n div 7) \<ge> 2" using assms by auto
  then have h: "min (if n mod 2 = 0 then 2 else 1) (max 1 (3 * n div 7)) = (if even n then 2 else 1)"
    by (auto simp: even_iff_mod_2_eq_zero)
  let ?h = "if even n then 2 else 1 :: nat"
  have "even (4 * ?h + 3 * (n - ?h))" using assms by simp
  moreover have "sum_list (replicate ?h 4 @ replicate (n - ?h) 3) = 4 * ?h + 3 * (n - ?h)"
    by (simp add: sum_list_replicate)
  ultimately show ?thesis unfolding high_count_def Let_def h by (simp only: if_False not_True_eq_False)
qed

lemma seed_degrees_nth:
  assumes "5 \<le> n" "u < n"
  shows "seed_degrees n ! u = (if u < high_count n then 4 else 3)"
  using assms by (auto simp: seed_degrees_def nth_append high_count_value)

definition mixed_seed :: "nat \<Rightarrow> bitgraph \<Rightarrow> bool" where
  "mixed_seed n g \<longleftrightarrow>
     wf_graph g \<and> order g = n \<and> connected_graph g \<and> minimal_structure_valid g \<and>
     (\<forall>u<n. degree g u = (if u < high_count n then 4 else 3))"

lemma stub_graph:
  assumes n: "5 \<le> n" and inv: "stub_inv n (high_count n) (seed_degrees n) [] es"
  shows "\<exists>g. from_edges (int n) (map int_edge es) = Inr g \<and>
    (is_connected g \<and> (\<forall>u<n. \<exists>v\<in>set (neighbors g u). degree g v = 3) \<longrightarrow> mixed_seed n g)"
proof -
  have "sorted_edges n es" using inv by (simp add: stub_inv_def)
  then obtain g where g: "from_edges (int n) (map int_edge es) = Inr g" "wf_graph g" "order g = n"
    "edge_set g = ends ` set es" "\<And>u. u < n \<Longrightarrow> degree g u = incidence u es"
    by (rule sorted_edges_graph) blast
  have deg: "degree g u = (if u < high_count n then 4 else 3)" if "u < n" for u
    using inv that g(5) seed_degrees_nth [OF n that] by (simp add: stub_inv_def)
  have no_high: "\<not> (4 \<le> degree g u \<and> 4 \<le> degree g v)" if "(u, v) \<in> set (edges g)" for u v
  proof -
    have "ends (u, v) \<in> edge_set g" using that ends_edges [OF g(2)] by blast
    then obtain a b where ab: "(a, b) \<in> set es" "{u, v} = {a, b}" by (auto simp: g(4))
    then have "\<not> (a < high_count n \<and> b < high_count n)" "a < n" "b < n"
      using inv by (auto simp: stub_inv_def sorted_edges_def)
    with deg [of a] deg [of b] ab(2) show ?thesis by (auto simp: doubleton_eq_iff)
  qed
  have "filter (\<lambda>u. degree g u = 3) [0..<n] = filter (\<lambda>u. \<not> u < high_count n) [0..<n]"
    by (rule filter_cong) (auto simp: deg)
  moreover have "set (filter (\<lambda>u. \<not> u < high_count n) [0..<n]) = {high_count n..<n}" by auto
  then have "length (filter (\<lambda>u. \<not> u < high_count n) [0..<n]) = n - high_count n"
    using distinct_card [of "filter (\<lambda>u. \<not> u < high_count n) [0..<n]"] by (simp only:) simp
  ultimately have "length (filter (\<lambda>u. degree g u = 3) [0..<n]) = n - high_count n" by simp
  moreover have "(4 * n + 6) div 7 \<le> n - high_count n"
  proof -
    have "4 * n + 6 < (n - high_count n + 1) * 7"
      using n unfolding high_count_value [OF n] by (cases "n = 5") auto
    then have "(4 * n + 6) div 7 < n - high_count n + 1" by (rule less_mult_imp_div_less)
    then show ?thesis by simp
  qed
  ultimately have "(\<forall>u<n. \<exists>v\<in>set (neighbors g u). degree g v = 3) \<longrightarrow> minimal_structure_valid g"
    using no_high by (auto simp: minimal_structure_valid_def g(3))
  with g deg is_connected_iff [OF g(2)] show ?thesis by (auto simp: mixed_seed_def)
qed

lemma stub_inv_start:
  assumes "5 \<le> n" "mset stubs = mset (initial_stubs (seed_degrees n))"
  shows "stub_inv n high (seed_degrees n) stubs []"
proof -
  have len: "length (seed_degrees n) = n" using assms(1) by (simp add: seed_degrees_def high_count_value)
  have c: "count (mset stubs) u = (if u < n then seed_degrees n ! u else 0)" for u
    unfolding assms(2) initial_stubs_def using count_stubs_from [of 0 "seed_degrees n" u] by (simp add: len)
  have "u < n" if "u \<in> set stubs" for u
    using that c [of u] by (auto simp: count_eq_zero_iff split: if_splits)
  with c show ?thesis by (auto simp: stub_inv_def sorted_edges_def)
qed

lemma mixed_attempts_ok:
  assumes n: "5 \<le> n"
  shows "\<exists>res a' r'. mixed_attempts n k a r = Inr (res, a', r') \<and>
    (\<forall>g. res = Some g \<longrightarrow> mixed_seed n g)"
proof (induction k arbitrary: a r)
  case (Suc k)
  obtain stubs r1 where st: "shuffle (initial_stubs (seed_degrees n)) r = (stubs, r1)" by fastforce
  then have "mset stubs = mset (initial_stubs (seed_degrees n))"
    using mset_shuffle [of "initial_stubs (seed_degrees n)" r] by simp
  note inv = stub_inv_start [OF n this, of "high_count n"]
  obtain ok es r2 where es: "stub_loop (high_count n) stubs [] r1 = Inr (ok, es, r2)"
    using stub_loop_total [of "high_count n" stubs "[]" r1] by auto
  show ?case
  proof (cases ok)
    case True
    from stub_graph [OF n stub_loop_Inr [OF es inv True]] obtain g where
      g: "from_edges (int n) (map int_edge es) = Inr g"
      "is_connected g \<and> (\<forall>u<n. \<exists>v\<in>set (neighbors g u). degree g v = 3) \<longrightarrow> mixed_seed n g" by blast
    with Suc [of "Suc a" r2] st es True show ?thesis by (auto simp: rbind_def)
  next
    case False
    with Suc [of "Suc a" r2] st es show ?thesis by (simp add: rbind_def)
  qed
qed simp

text \<open>What the configuration check and the mode fallback guarantee for the two constructions.\<close>

lemma seed_config_ok:
  assumes "seed_config_error (Given n) m = None"
  shows "4 \<le> n" "m = ''cubic_first'' \<and> even n \<or>
    m = ''minimal_structure_mixed_degree'' \<and> 5 \<le> n \<or> m = ''unrestricted_min_degree_3''"
proof -
  have c: "\<not> n < 4" "m \<in> {''cubic_first'', ''minimal_structure_mixed_degree'', ''unrestricted_min_degree_3''}"
    "\<not> (m = ''cubic_first'' \<and> n mod 2 \<noteq> 0)" "\<not> (m = ''minimal_structure_mixed_degree'' \<and> n < 5)"
    using assms unfolding seed_config_error_def cfg.case by (simp_all only: split: if_split_asm) auto
  show "4 \<le> n" using c(1) by simp
  from c(2) consider "m = ''cubic_first''" | "m = ''minimal_structure_mixed_degree''"
    | "m = ''unrestricted_min_degree_3''" by blast
  then show "m = ''cubic_first'' \<and> even n \<or>
    m = ''minimal_structure_mixed_degree'' \<and> 5 \<le> n \<or> m = ''unrestricted_min_degree_3''"
  proof cases
    case 1
    with c(3) have "n mod 2 = 0" by blast
    then have "even n" by presburger
    with 1 show ?thesis by blast
  next
    case 2
    with c(4) have "5 \<le> n" by linarith
    with 2 show ?thesis by blast
  qed blast
qed

lemma seed_mode_cases:
  assumes "seed_config_error (Given n) m = None"
  defines "m1 \<equiv> (if m = ''unrestricted_min_degree_3'' \<and> odd (nat n)
    then ''minimal_structure_mixed_degree'' else m)"
  obtains "m1 = ''minimal_structure_mixed_degree''" "5 \<le> nat n"
    | "m1 \<noteq> ''minimal_structure_mixed_degree''" "3 \<le> nat n" "even (nat n)"
proof -
  note ok = seed_config_ok [OF assms(1)]
  have odd: "odd (nat n) \<Longrightarrow> 5 \<le> nat n"
    using ok(1) by (cases "n = 4") (auto simp: le_nat_iff)
  have three: "3 \<le> nat n" and nat: "5 \<le> n \<Longrightarrow> 5 \<le> nat n"
    and ev: "even n \<Longrightarrow> even (nat n)"
    using ok(1) by (auto simp: even_nat_iff)
  from ok(2) consider "m1 = m" "m = ''cubic_first''" "even n"
    | "m1 = m" "m = ''minimal_structure_mixed_degree''" "5 \<le> n"
    | "m1 = m" "m = ''unrestricted_min_degree_3''" "even (nat n)"
    | "m1 = ''minimal_structure_mixed_degree''" "odd (nat n)"
    unfolding m1_def by (cases "odd (nat n)") auto
  then show thesis
  proof cases
    case 1 then show ?thesis using that(2) three ev by simp
  next
    case 2 then show ?thesis using that(1) nat by simp
  next
    case 3 then show ?thesis using that(2) three by simp
  next
    case 4 then show ?thesis using that(1) odd by simp
  qed
qed

lemma generate_seed_eq:
  assumes "seed_config_error (Given n) (case mode of None \<Rightarrow> ''cubic_first'' | Some m \<Rightarrow> m) = None"
  defines "m \<equiv> (case mode of None \<Rightarrow> ''cubic_first'' | Some m \<Rightarrow> m)"
  defines "m1 \<equiv> (if m = ''unrestricted_min_degree_3'' \<and> odd (nat n)
    then ''minimal_structure_mixed_degree'' else m)"
  shows "generate_seed r (Given n) mode tr =
      (let tr2 = tr\<lparr>generator_mode := m1\<rparr>
       in if m1 = ''minimal_structure_mixed_degree''
          then finish_seed ''failed to generate a mixed-degree seed within retry budget''
                 ''mixed_degree_stub_construction_exhaustion''
                 (tr2\<lparr>retry_budget := 2000\<rparr>) (mixed_attempts (nat n) 2000 0 r)
          else finish_seed ''failed to generate a cubic seed within retry budget''
                 ''cubic_matching_construction_exhaustion''
                 (tr2\<lparr>retry_budget := 200\<rparr>) (cubic_attempts (nat n) 200 0 r))"
  using assms(1) unfolding generate_seed_def Let_def m_def [symmetric] cfg.case
  by (simp add: m1_def)

lemma cubic_attempts_count:
  "cubic_attempts n k a r = Inr (res, a', r') \<Longrightarrow> res = None \<Longrightarrow> a' = a + k"
  by (induction k arbitrary: a r)
    (fastforce simp: rbind_Inr_iff split: prod.splits if_splits)+

lemma mixed_attempts_count:
  "mixed_attempts n k a r = Inr (res, a', r') \<Longrightarrow> res = None \<Longrightarrow> a' = a + k"
  by (induction k arbitrary: a r)
    (fastforce simp: rbind_Inr_iff split: prod.splits if_splits)+

text \<open>The requests that get the mixed-degree construction, by themselves or as the odd-order fallback.\<close>

definition mixed_request :: "int \<Rightarrow> string option \<Rightarrow> bool" where
  "mixed_request n mode \<longleftrightarrow>
     mode = Some ''minimal_structure_mixed_degree'' \<or> mode = Some ''unrestricted_min_degree_3'' \<and> odd n"

lemma generate_seed_kind:
  assumes "generate_seed r (Given n) mode tr = (Inr (g, r'), tr')"
  shows "4 \<le> n" "if mixed_request n mode
      then 5 \<le> nat n \<and> mixed_seed (nat n) g \<and> generator_mode tr' = ''minimal_structure_mixed_degree''
      else even n \<and> cubic_seed (nat n) g \<and> generator_mode tr' \<noteq> ''minimal_structure_mixed_degree'' \<and>
        generator_mode tr' = (case mode of None \<Rightarrow> ''cubic_first'' | Some m \<Rightarrow> m)"
proof -
  define m where "m = (case mode of None \<Rightarrow> ''cubic_first'' | Some m \<Rightarrow> m)"
  define m1 where "m1 = (if m = ''unrestricted_min_degree_3'' \<and> odd (nat n)
    then ''minimal_structure_mixed_degree'' else m)"
  let ?n = "nat n"
  have ok: "seed_config_error (Given n) m = None"
    using assms by (auto simp: generate_seed_def m_def Let_def split: option.splits)
  show n: "4 \<le> n" by (rule seed_config_ok(1) [OF ok])
  then have parity: "odd ?n \<longleftrightarrow> odd n" by (simp add: even_nat_iff)
  have kind: "mixed_request n mode \<longleftrightarrow> m1 = ''minimal_structure_mixed_degree''"
    unfolding m1_def mixed_request_def m_def parity by (cases mode) auto
  have same: "\<not> mixed_request n mode \<Longrightarrow> m1 = m" unfolding kind m1_def by (simp split: if_split_asm)
  note gen = generate_seed_eq [OF ok [unfolded m_def], folded m_def, folded m1_def]
  from ok have "if m1 = ''minimal_structure_mixed_degree''
    then 5 \<le> ?n \<and> mixed_seed ?n g \<and> generator_mode tr' = m1
    else even ?n \<and> cubic_seed ?n g \<and> generator_mode tr' = m1"
  proof (cases rule: seed_mode_cases)
    case 1
    then have m1: "m1 = ''minimal_structure_mixed_degree''" by (simp add: m1_def)
    from mixed_attempts_ok [OF 1(2), of 2000 0 r] assms m1 1(2) show ?thesis
      unfolding gen Let_def by (auto simp: finish_seed_def split: option.splits)
  next
    case 2
    then have m1: "m1 \<noteq> ''minimal_structure_mixed_degree''" by (simp add: m1_def)
    from cubic_attempts_ok [OF 2(2,3), of 200 0 r] assms m1 2(3) show ?thesis
      unfolding gen Let_def by (auto simp: finish_seed_def split: option.splits)
  qed
  then show "if mixed_request n mode
      then 5 \<le> ?n \<and> mixed_seed ?n g \<and> generator_mode tr' = ''minimal_structure_mixed_degree''
      else even n \<and> cubic_seed ?n g \<and> generator_mode tr' \<noteq> ''minimal_structure_mixed_degree'' \<and>
        generator_mode tr' = (case mode of None \<Rightarrow> ''cubic_first'' | Some m \<Rightarrow> m)"
    using parity same kind unfolding m_def [symmetric] by (simp split: if_splits)
qed

lemma seed_kind_valid:
  assumes "mixed_seed n g \<or> cubic_seed n g" "4 \<le> n"
  shows "valid (eg_validate_graph g)"
proof -
  from assms have g: "wf_graph g" "order g = n" "connected_graph g" "\<forall>u<order g. 3 \<le> degree g u"
    unfolding mixed_seed_def cubic_seed_def by auto
  then show ?thesis using eg_valid_iff [OF g(1)] assms(2) by (simp add: eg_valid_def)
qed

lemma generate_seed_Inr:
  assumes "generate_seed r (Given n) mode tr = (Inr (g, r'), tr')"
  shows "wf_graph g \<and> int (order g) = n \<and> valid (eg_validate_graph g) \<and>
    (if generator_mode tr' = ''minimal_structure_mixed_degree''
     then minimal_structure_valid g \<and> (\<forall>u<order g. degree g u \<in> {3, 4})
     else \<forall>u<order g. degree g u = 3)"
  using generate_seed_kind [OF assms] seed_kind_valid [of "nat n" g]
  by (auto simp: mixed_seed_def cubic_seed_def split: if_splits)

lemma mixed_seed_high:
  assumes "mixed_seed n g" "5 \<le> n"
  shows "card {u. u < order g \<and> degree g u = 4} = (if even n then 2 else 1)"
proof -
  have g: "order g = n" "\<And>u. u < n \<Longrightarrow> degree g u = 4 \<longleftrightarrow> u < high_count n"
    using assms(1) by (auto simp: mixed_seed_def)
  have "high_count n \<le> n" using assms(2) by (simp add: high_count_value)
  then have "u < order g \<and> degree g u = 4 \<longleftrightarrow> u < high_count n" for u
    using g less_le_trans by blast
  then have "{u. u < order g \<and> degree g u = 4} = {..<high_count n}" by blast
  then show ?thesis using assms(2) by (simp add: high_count_value)
qed

section \<open>Properties\<close>

text \<open>
  C27. Whatever the generator draws, a seed that \<open>generate_seed\<close> returns is a valid candidate of
  the family that was requested.  For a request of the minimal-structure mode, and for the
  unrestricted mode at an odd order, which falls back to it, the seed is a connected graph on the
  requested number of vertices with the minimal structure, whose degrees are three but for
  exactly one vertex of degree four at an odd order and two at an even one.  Every other request
  has an even order and gives a connected cubic graph.  The trace records the mode requested, or
  the fallback.
\<close>

theorem generate_seed_valid:
  assumes "generate_seed r (Given n) mode tr = (Inr (g, r'), tr')"
  shows "wf_graph g \<and> int (order g) = n \<and> valid (eg_validate_graph g) \<and>
    (if mode = Some ''minimal_structure_mixed_degree'' \<or> mode = Some ''unrestricted_min_degree_3'' \<and> odd n
     then minimal_structure_valid g \<and> (\<forall>u<order g. degree g u \<in> {3, 4}) \<and>
       card {u. u < order g \<and> degree g u = 4} = (if even n then 2 else 1) \<and>
       generator_mode tr' = ''minimal_structure_mixed_degree''
     else even n \<and> (\<forall>u<order g. degree g u = 3) \<and>
       generator_mode tr' = (case mode of None \<Rightarrow> ''cubic_first'' | Some m \<Rightarrow> m))"
proof -
  note k = generate_seed_kind [OF assms]
  then have ok: "wf_graph g" "int (order g) = n" "valid (eg_validate_graph g)"
    using seed_kind_valid [of "nat n" g] by (auto simp: mixed_seed_def cubic_seed_def split: if_splits)
  show ?thesis
  proof (cases "mixed_request n mode")
    case True
    with k have m: "5 \<le> nat n" "mixed_seed (nat n) g" "generator_mode tr' = ''minimal_structure_mixed_degree''"
      by simp_all
    then have "card {u. u < order g \<and> degree g u = 4} = (if even n then 2 else 1)"
      using mixed_seed_high [OF m(2,1)] k(1) by (simp add: even_nat_iff)
    with ok m True show ?thesis
      unfolding mixed_request_def [symmetric] by (auto simp: mixed_seed_def)
  next
    case False
    with ok k show ?thesis unfolding mixed_request_def [symmetric] by (simp add: cubic_seed_def)
  qed
qed

theorem generate_seed_valid_witness:
  "case fst (generate_seed [6, 3, 6, 3, 0, 2] (Given 6) None new_seed_trace) of
     Inr (g, _) \<Rightarrow> valid (eg_validate_graph g) | Inl _ \<Rightarrow> False"
proof -
  have "case fst (generate_seed [6, 3, 6, 3, 0, 2] (Given 6) None new_seed_trace) of Inr _ \<Rightarrow> True | Inl _ \<Rightarrow> False"
    by code_simp
  then obtain g r' tr' where g: "generate_seed [6, 3, 6, 3, 0, 2] (Given 6) None new_seed_trace = (Inr (g, r'), tr')"
    by (cases "generate_seed [6, 3, 6, 3, 0, 2] (Given 6) None new_seed_trace") (auto split: sum.splits)
  with generate_seed_valid [OF g] show ?thesis by simp
qed

lemma generate_seed_failure_classified:
  assumes "generate_seed r order_cfg mode new_seed_trace = (Inl e, tr)"
  shows "seed_config_error order_cfg (case mode of None \<Rightarrow> ''cubic_first'' | Some m \<Rightarrow> m) = Some e \<and>
      failure_category tr = Some ''invalid_generator_configuration'' \<or>
    (\<exists>msg. e = RuntimeError msg) \<and> attempts tr = retry_budget tr \<and> 0 < retry_budget tr \<and>
      failure_category tr = Some (if generator_mode tr = ''minimal_structure_mixed_degree''
        then ''mixed_degree_stub_construction_exhaustion''
        else ''cubic_matching_construction_exhaustion'')"
proof -
  define m where "m = (case mode of None \<Rightarrow> ''cubic_first'' | Some m \<Rightarrow> m)"
  show ?thesis
  proof (cases "seed_config_error order_cfg m")
    case (Some e')
    with assms show ?thesis unfolding generate_seed_def Let_def m_def [symmetric] by auto
  next
    case None
    then obtain n where n: "order_cfg = Given n" by (cases order_cfg) (auto simp: seed_config_error_def)
    define m1 where "m1 = (if m = ''unrestricted_min_degree_3'' \<and> odd (nat n)
      then ''minimal_structure_mixed_degree'' else m)"
    have "generate_seed r (Given n) mode new_seed_trace = (Inl e, tr)" using assms n by simp
    note run = this [unfolded generate_seed_eq [OF None [unfolded n m_def], folded m_def, folded m1_def] Let_def]
    from None [unfolded n] show ?thesis
    proof (cases rule: seed_mode_cases)
      case 1
      then have m1: "m1 = ''minimal_structure_mixed_degree''" by (simp add: m1_def)
      from mixed_attempts_ok [OF 1(2), of 2000 0 r] obtain res a r' where
        "mixed_attempts (nat n) 2000 0 r = Inr (res, a, r')" by blast
      with mixed_attempts_count [OF this] run m1 show ?thesis
        by (auto simp: finish_seed_def split: option.splits)
    next
      case 2
      then have m1: "m1 \<noteq> ''minimal_structure_mixed_degree''" by (simp add: m1_def)
      from cubic_attempts_ok [OF 2(2,3), of 200 0 r] obtain res a r' where
        "cubic_attempts (nat n) 200 0 r = Inr (res, a, r')" by blast
      with cubic_attempts_count [OF this] run m1 show ?thesis
        by (auto simp: finish_seed_def split: option.splits)
    qed
  qed
qed

end
