(* ===== verification/Resources.thy ===== *)
theory Resources
  imports Json
begin

text \<open>
  Bounded execution of external tools, \<open>src/src/sglab/resources.py\<close>.  What the operating
  system does (whether the process starts, how it ends, what it writes) is an input,
  \<open>process_run\<close>; \<open>run_bounded\<close> turns it into a \<open>ProcessResult\<close>, classifying the end of the
  process and cutting the captured output.  \<open>recommended_workers\<close> takes \<open>os.cpu_count()\<close> as
  an argument, \<open>process_tree_rss_bytes\<close> a snapshot of the process table.
\<close>

record process_result =
  p_status :: string
  returncode :: "int option"
  p_stdout :: "int list"
  p_stderr :: "int list"

datatype process_end =
    Spawn_Error "int list"
  | Exited int
  | Timed_Out int

record process_run =
  p_end :: process_end
  stdout_file :: "int list"
  stderr_file :: "int list"

definition recommended_workers :: "nat option \<Rightarrow> nat option \<Rightarrow> int \<Rightarrow> int" where
  "recommended_workers cpu_count requested reserve_threads =
     (let cpus = (case cpu_count of None \<Rightarrow> 1 | Some c \<Rightarrow> if c = 0 then 1 else int c);
          available = max 1 (cpus - max 2 reserve_threads);
          conservative_default = min 12 available;
          wanted = (case requested of None \<Rightarrow> conservative_default
                    | Some r \<Rightarrow> if r = 0 then conservative_default else int r)
      in max 1 (min wanted available))"

definition run_bounded ::
  "process_run \<Rightarrow> py_float \<Rightarrow> int \<Rightarrow> int option \<Rightarrow> process_result result" where
  "run_bounded run timeout_seconds output_limit_bytes memory_limit_bytes =
     (if \<not> isfinite timeout_seconds \<or> \<not> py_positive timeout_seconds
      then Inl (ValueError ''timeout_seconds must be positive'')
      else if output_limit_bytes < 1
      then Inl (ValueError ''output_limit_bytes must be positive'')
      else if (case memory_limit_bytes of None \<Rightarrow> False | Some m \<Rightarrow> m < 0)
      then Inl (ValueError ''memory_limit_bytes cannot be negative'')
      else
        let limit = nat output_limit_bytes;
            out = take limit (stdout_file run);
            err = take (limit - length out) (stderr_file run);
            finish = (\<lambda>status code.
              \<lparr>p_status =
                 (if status \<noteq> ''UNKNOWN_TIMEOUT''
                     \<and> length (stdout_file run) + length (stderr_file run) > limit
                  then ''ERROR_OUTPUT_LIMIT'' else status),
               returncode = Some code, p_stdout = out, p_stderr = err\<rparr>)
        in (case p_end run of
              Spawn_Error text \<Rightarrow>
                Inr \<lparr>p_status = ''TOOL_FAILURE'', returncode = None, p_stdout = [],
                     p_stderr = take limit text\<rparr>
            | Exited code \<Rightarrow> Inr (finish (if code = 0 then ''OK'' else ''ERROR'') code)
            | Timed_Out code \<Rightarrow> Inr (finish ''UNKNOWN_TIMEOUT'' code)))"

text \<open>
  The walk over the process tree: \<open>pending\<close> is a stack (its end is the top), \<open>children\<close> and
  \<open>rss\<close> are the snapshot.
\<close>

partial_function (option) process_tree_loop ::
  "(int \<Rightarrow> int list) \<Rightarrow> (int \<Rightarrow> nat) \<Rightarrow> int list \<times> int list \<times> nat \<Rightarrow> nat option" where
  "process_tree_loop children rss st =
     (case st of (pending, seen, tot) \<Rightarrow>
        if pending = [] then Some tot
        else
          let current = last pending; rest = butlast pending
          in if current \<in> set seen \<or> current \<le> 0
             then process_tree_loop children rss (rest, seen, tot)
             else process_tree_loop children rss
                    (rest @ children current, current # seen, tot + rss current))"

declare process_tree_loop.simps [code]

definition process_tree_rss_bytes :: "(int \<Rightarrow> int list) \<Rightarrow> (int \<Rightarrow> nat) \<Rightarrow> int \<Rightarrow> nat option" where
  "process_tree_rss_bytes children rss pid = process_tree_loop children rss ([pid], [], 0)"

section \<open>Process results\<close>

lemma run_bounded_Inr:
  assumes "run_bounded run t cap mem = Inr r"
  shows "int (length (p_stdout r) + length (p_stderr r)) \<le> cap"
    and "p_status r = ''OK'' \<longleftrightarrow>
      p_end run = Exited 0 \<and> int (length (stdout_file run) + length (stderr_file run)) \<le> cap"
    and "p_status r = ''OK'' \<Longrightarrow> p_stdout r = stdout_file run \<and> p_stderr r = stderr_file run"
proof -
  show "int (length (p_stdout r) + length (p_stderr r)) \<le> cap"
    using assms by (auto simp: run_bounded_def Let_def min_def split: if_splits process_end.splits)
  show ok: "p_status r = ''OK'' \<longleftrightarrow>
      p_end run = Exited 0 \<and> int (length (stdout_file run) + length (stderr_file run)) \<le> cap"
    using assms by (auto simp: run_bounded_def Let_def split: if_splits process_end.splits)
  show "p_stdout r = stdout_file run \<and> p_stderr r = stderr_file run" if "p_status r = ''OK''"
    using that ok assms
    by (auto simp: run_bounded_def Let_def split: if_splits process_end.splits)
qed

lemma run_bounded_ok:
  assumes "isfinite t" "py_positive t" "1 \<le> cap" "\<forall>m. mem = Some m \<longrightarrow> 0 \<le> m"
  shows "\<exists>r. run_bounded run t cap mem = Inr r"
  using assms by (auto simp: run_bounded_def Let_def split: process_end.splits option.splits)

section \<open>The process tree walk\<close>

text \<open>The processes below a root: positive ids reached over positive ids.\<close>

inductive_set descendants :: "(int \<Rightarrow> int list) \<Rightarrow> int list \<Rightarrow> int set"
  for children roots
where
  root: "p \<in> set roots \<Longrightarrow> 0 < p \<Longrightarrow> p \<in> descendants children roots"
| child: "p \<in> descendants children roots \<Longrightarrow> q \<in> set (children p) \<Longrightarrow> 0 < q \<Longrightarrow>
    q \<in> descendants children roots"

definition tree_inv ::
  "(int \<Rightarrow> int list) \<Rightarrow> (int \<Rightarrow> nat) \<Rightarrow> int \<Rightarrow> int list \<times> int list \<times> nat \<Rightarrow> bool" where
  "tree_inv children rss pid st =
     (case st of (pending, seen, tot) \<Rightarrow>
        distinct seen \<and> set seen \<subseteq> descendants children [pid] \<and>
        {p \<in> set pending. 0 < p} \<subseteq> descendants children [pid] \<and>
        (0 < pid \<longrightarrow> pid \<in> set seen \<union> set pending) \<and>
        (\<forall>p\<in>set seen. \<forall>q\<in>set (children p). 0 < q \<longrightarrow> q \<in> set seen \<union> set pending) \<and>
        tot = (\<Sum>p\<leftarrow>seen. rss p))"

lemma tree_inv_final:
  assumes "tree_inv children rss pid ([], seen, tot)"
  shows "tot = (\<Sum>p\<in>descendants children [pid]. rss p)"
proof -
  have "p \<in> set seen" if "p \<in> descendants children [pid]" for p
    using that assms by induction (auto simp: tree_inv_def)
  then have "set seen = descendants children [pid]"
    using assms by (auto simp: tree_inv_def)
  with assms show ?thesis by (auto simp: tree_inv_def sum_list_distinct_conv_sum_set)
qed

lemma tree_inv_skip:
  assumes "tree_inv children rss pid (rest @ [c], seen, tot)" "c \<in> set seen \<or> c \<le> 0"
  shows "tree_inv children rss pid (rest, seen, tot)"
  using assms unfolding tree_inv_def by auto blast+

lemma tree_inv_visit:
  assumes "tree_inv children rss pid (rest @ [c], seen, tot)" "c \<notin> set seen" "0 < c"
  shows "tree_inv children rss pid (rest @ children c, c # seen, tot + rss c)"
proof -
  from assms have "c \<in> descendants children [pid]" by (auto simp: tree_inv_def)
  with assms descendants.child [OF this] show ?thesis by (auto simp: tree_inv_def)
qed

lemma process_tree_loop_total:
  assumes "finite (descendants children [pid])" "tree_inv children rss pid (pending, seen, tot)"
  shows "process_tree_loop children rss (pending, seen, tot) =
    Some (\<Sum>p\<in>descendants children [pid]. rss p)"
  using assms(2)
proof (induction "(pending, seen, tot)" arbitrary: pending seen tot
    rule: wf_induct_rule [OF wf_measures [of "[\<lambda>(p, s, t). card (descendants children [pid] - set s),
      \<lambda>(p, s, t). length p]"]])
  case (1 pending seen tot)
  note IH = 1(1) and inv = 1(2)
  let ?D = "descendants children [pid]"
  show ?case
  proof (cases pending rule: rev_cases)
    case Nil
    then show ?thesis using tree_inv_final [of children rss pid seen tot] inv
      by (subst process_tree_loop.simps) simp
  next
    case (snoc rest c)
    show ?thesis
    proof (cases "c \<in> set seen \<or> c \<le> 0")
      case True
      from IH [OF _ tree_inv_skip [OF inv [unfolded snoc] True]] True snoc show ?thesis
        by (subst process_tree_loop.simps) (simp add: Let_def)
    next
      case False
      then have c: "c \<notin> set seen" "0 < c" by auto
      note visit = tree_inv_visit [OF inv [unfolded snoc] c]
      then have "c \<in> ?D" by (simp add: tree_inv_def)
      then have "card (?D - set (c # seen)) < card (?D - set seen)"
        using c assms(1) by (intro psubset_card_mono) auto
      with IH [OF _ visit] snoc c show ?thesis
        by (subst process_tree_loop.simps) (simp add: Let_def)
    qed
  qed
qed

section \<open>Properties\<close>

lemma run_bounded_contract:
  assumes "run_bounded run t cap mem = Inr r"
  shows "int (length (p_stdout r) + length (p_stderr r)) \<le> cap \<and>
    (p_status r = ''OK'' \<longleftrightarrow>
       p_end run = Exited 0 \<and> int (length (stdout_file run) + length (stderr_file run)) \<le> cap) \<and>
    (p_status r = ''OK'' \<longrightarrow> p_stdout r = stdout_file run \<and> p_stderr r = stderr_file run)"
  using run_bounded_Inr [OF assms] by blast

lemma process_tree_rss_total:
  assumes "finite (descendants children [pid])"
  shows "process_tree_rss_bytes children rss pid =
    Some (\<Sum>p\<in>descendants children [pid]. rss p)"
proof -
  have "tree_inv children rss pid ([pid], [], 0)"
    by (auto simp: tree_inv_def intro: descendants.root)
  from process_tree_loop_total [OF assms this] show ?thesis
    by (simp add: process_tree_rss_bytes_def)
qed

end
