(* ===== verification/Certification.thy ===== *)
theory Certification
  imports Targets Resources
begin

text \<open>
  Two-verifier certification, \<open>src/src/sglab/certification.py\<close>, with the plugin registry of
  \<open>targets/__init__.py\<close>.

  The external C++ cycle checker is an environment \<open>checker_env\<close>: whether the binary exists,
  what a process started on a graph6 file and a list of lengths does, and the two decoders of
  the standard library applied to its output (\<open>json.loads\<close>, which may fail, and the lossy
  text decoding of the error stream).  Nothing is assumed of it: the checker may crash,
  print garbage or lie.  The Python reference verifier runs in a worker process whose fate
  is a \<open>worker_end\<close>.  Digests, environment metadata and file writes are not modelled, the
  bytes of the candidate file are part of the manifest.
\<close>

section \<open>Target registry\<close>

record plugin =
  plugin_id :: string
  statement :: string
  control_only :: bool
  plugin_lengths :: "nat \<Rightarrow> nat list"
  plugin_validate :: "bitgraph \<Rightarrow> validation_result"
  plugin_verify :: "bitgraph \<Rightarrow> verify_result"

definition ERDOS_GYARFAS :: plugin where
  "ERDOS_GYARFAS = \<lparr>plugin_id = ''erdos_gyarfas'',
     statement = ''Every graph of minimum degree at least three contains a cycle whose '' @
       ''length is a power of two.'',
     control_only = False, plugin_lengths = forbidden_lengths,
     plugin_validate = eg_validate_graph, plugin_verify = eg_exact_verify\<rparr>"

definition HIDDEN_WITNESS :: plugin where
  "HIDDEN_WITNESS = \<lparr>plugin_id = ''m6_hidden_witness_control_v1'',
     statement = ''Control-only false statement: every connected cubic graph on ten '' @
       ''vertices contains a triangle. The finite witness is withheld from '' @
       ''the Director prompt.'',
     control_only = True, plugin_lengths = hw_forbidden_lengths,
     plugin_validate = hw_validate_graph, plugin_verify = hw_exact_verify\<rparr>"

definition TARGETS :: "string \<Rightarrow> plugin option" where
  "TARGETS target =
     (if target = plugin_id ERDOS_GYARFAS then Some ERDOS_GYARFAS
      else if target = plugin_id HIDDEN_WITNESS then Some HIDDEN_WITNESS
      else None)"

definition target_summary :: "string \<Rightarrow> json_obj result" where
  "target_summary target =
     (case TARGETS target of
        None \<Rightarrow> Inl KeyError
      | Some p \<Rightarrow> Inr [(''target_id'', JStr (plugin_id p)), (''statement'', JStr (statement p)),
          (''control_only'', JBool (control_only p)),
          (''success_authority'', JStr ''M4_independent_verifier'')])"

section \<open>The independent checker\<close>

record checker_env =
  checker_path :: string
  checker_exists :: bool
  checker_run :: "int list \<Rightarrow> nat list \<Rightarrow> process_run"
  checker_elapsed :: py_float
  json_loads :: "int list \<Rightarrow> json option"
  decode_replace :: "int list \<Rightarrow> string"

text \<open>\<open>lengths or forbidden_lengths(graph.n)\<close>.\<close>

definition requested_lengths :: "bitgraph \<Rightarrow> nat list option \<Rightarrow> nat list" where
  "requested_lengths g lengths =
     (case lengths of None \<Rightarrow> forbidden_lengths (order g)
      | Some ls \<Rightarrow> if ls = [] then forbidden_lengths (order g) else ls)"

definition found_error :: "json_obj \<Rightarrow> bool \<Rightarrow> bitgraph \<Rightarrow> int set \<Rightarrow> string option" where
  "found_error payload complete_flag g requested =
     (case strict_int (dict_get payload ''length'') of
        None \<Rightarrow> Some ''cycle checker returned an invalid witness length''
      | Some len \<Rightarrow>
          if len \<notin> requested then Some ''cycle checker returned an invalid witness length''
          else
            (case json_list (dict_get payload ''witness'') of
               None \<Rightarrow> Some ''cycle checker returned invalid witness vertices''
             | Some ws \<Rightarrow>
                 (case strict_ints ws of
                    None \<Rightarrow> Some ''cycle checker returned invalid witness vertices''
                  | Some vs \<Rightarrow>
                      if int (length ws) \<noteq> len \<or> (\<exists>v\<in>set vs. \<not> (0 \<le> v \<and> v < int (order g)))
                         \<or> int (length (remdups vs)) \<noteq> len
                      then Some ''cycle checker returned invalid witness vertices''
                      else if \<exists>i\<in>set [0..<nat len].
                          \<not> has_edge g (nat (vs ! i)) (nat (vs ! ((i + 1) mod nat len)))
                      then Some ''cycle checker witness is not a cycle in the input graph''
                      else if \<not> complete_flag then Some ''a found witness must be complete''
                      else None)))"

definition absent_error :: "json_obj \<Rightarrow> bool \<Rightarrow> int set \<Rightarrow> string option" where
  "absent_error payload complete_flag requested =
     (let bad = Some ''cycle checker absence result does not cover all requested lengths''
      in if \<not> complete_flag then bad
         else (case json_list (dict_get payload ''lengths'') of
                 None \<Rightarrow> bad
               | Some ls \<Rightarrow>
                   (case strict_ints ls of
                      None \<Rightarrow> bad
                    | Some ns \<Rightarrow> if set ns \<noteq> requested then bad else None)))"

definition cyclecheck_payload_error ::
  "json \<Rightarrow> bitgraph \<Rightarrow> nat list option \<Rightarrow> string option result" where
  "cyclecheck_payload_error payload g lengths =
     (case json_obj payload of
        None \<Rightarrow> Inr (Some ''cycle checker JSON must be an object'')
      | Some d \<Rightarrow>
          let status = dict_get d ''status''
          in rbind (in_string_set status [''FOUND'', ''ABSENT'', ''TIMEOUT'', ''ERROR'']) (\<lambda>known.
               if \<not> known then Inr (Some ''cycle checker returned an unknown status'')
               else (case json_bool (dict_get d ''complete'') of
                 None \<Rightarrow> Inr (Some ''cycle checker omitted its completeness flag'')
               | Some complete_flag \<Rightarrow>
                   let requested = set (map int (requested_lengths g lengths))
                   in if status = JStr ''FOUND''
                      then Inr (found_error d complete_flag g requested)
                      else if status = JStr ''ABSENT''
                      then Inr (absent_error d complete_flag requested)
                      else if complete_flag
                      then Inr (Some ''timeout and error results cannot be complete'')
                      else Inr None)))"

text \<open>What is done to an accepted payload (the statements after the validation).\<close>

definition settle_payload ::
  "int \<Rightarrow> process_result \<Rightarrow> py_float \<Rightarrow> json_obj \<Rightarrow> json_obj" where
  "settle_payload memory_limit_bytes r elapsed payload =
     (let p1 = dict_set ''implementation'' (JStr ''cpp17-bitset-dfs'')
                 (dict_set ''elapsed_seconds'' (JFloat elapsed) payload);
          p2 = (if memory_limit_bytes \<noteq> 0 \<and> dict_get p1 ''status'' = JStr ''ERROR''
                   \<and> mentions ''alloc'' (dict_get p1 ''message'')
                then dict_set ''complete'' (JBool False)
                       (dict_set ''status'' (JStr ''UNKNOWN_MEMORY_LIMIT'') p1)
                else p1)
      in if p_status r = ''UNKNOWN_TIMEOUT'' \<or> dict_get p2 ''status'' = JStr ''TIMEOUT''
         then dict_set ''complete'' (JBool False)
                (dict_set ''status'' (JStr ''UNKNOWN_TIMEOUT'') p2)
         else if p_status r \<noteq> ''OK'' \<and> dict_get p2 ''status'' \<noteq> JStr ''ERROR''
         then dict_set ''complete'' (JBool False)
                (dict_set ''status'' (JStr ''TOOL_FAILURE'') p2)
         else p2)"

definition checker_timeout :: "py_float \<Rightarrow> py_float" where
  "checker_timeout t = (case t of Fin r \<Rightarrow> Fin (if 0 < r then max (r + 2) 5 else 604800) | _ \<Rightarrow> t)"

text \<open>The report made from the finished checker process.\<close>

definition cpp_report ::
  "checker_env \<Rightarrow> bitgraph \<Rightarrow> int \<Rightarrow> nat list \<Rightarrow> process_result \<Rightarrow> json_obj result" where
  "cpp_report env g memory_limit_bytes checked r =
     (let elapsed = checker_elapsed env
      in if p_status r = ''UNKNOWN_TIMEOUT''
         then Inr [(''status'', JStr ''UNKNOWN_TIMEOUT''), (''complete'', JBool False),
                   (''elapsed_seconds'', JFloat elapsed),
                   (''implementation'', JStr ''cpp17-bitset-dfs''),
                   (''message'', JStr ''cycle checker exceeded its wall-time budget'')]
         else (case json_loads env (p_stdout r) of
           None \<Rightarrow>
             if memory_limit_bytes \<noteq> 0 \<and> returncode r \<notin> {Some 0, None}
             then Inr [(''status'', JStr ''UNKNOWN_MEMORY_LIMIT''), (''complete'', JBool False),
                       (''elapsed_seconds'', JFloat elapsed),
                       (''message'', JStr ''cycle checker failed under its memory limit'')]
             else Inr [(''status'', JStr ''TOOL_FAILURE''), (''complete'', JBool False),
                       (''elapsed_seconds'', JFloat elapsed),
                       (''message'', JStr ''cycle checker returned invalid JSON''),
                       (''stderr'', JStr (decode_replace env (p_stderr r)))]
         | Some payload \<Rightarrow>
             rbind (cyclecheck_payload_error payload g (Some checked)) (\<lambda>err.
               case err of
                 Some msg \<Rightarrow>
                   Inr [(''status'', JStr ''TOOL_FAILURE''), (''complete'', JBool False),
                        (''elapsed_seconds'', JFloat elapsed), (''message'', JStr msg),
                        (''stderr'', JStr (decode_replace env (p_stderr r)))]
               | None \<Rightarrow>
                   (case json_obj payload of
                      Some d \<Rightarrow> Inr (settle_payload memory_limit_bytes r elapsed d)
                    | None \<Rightarrow> Inl (TypeError ''payload is not a dictionary'')))))"

definition verify_cpp ::
  "checker_env \<Rightarrow> bitgraph \<Rightarrow> py_float \<Rightarrow> int \<Rightarrow> nat list option \<Rightarrow> json_obj result" where
  "verify_cpp env g timeout_seconds memory_limit_bytes lengths =
     (if \<not> isfinite timeout_seconds \<or> py_negative timeout_seconds
      then Inl (ValueError ''timeout_seconds must be finite and nonnegative'')
      else if memory_limit_bytes < 0
      then Inl (ValueError ''memory_limit_bytes cannot be negative'')
      else if \<not> checker_exists env
      then Inr [(''status'', JStr ''TOOL_FAILURE''), (''complete'', JBool False),
                (''message'', JStr (''missing cycle checker: '' @ checker_path env))]
      else rbind (to_graph6 g) (\<lambda>graph6.
        let checked = requested_lengths g lengths
        in rbind (run_bounded (checker_run env (graph6 @ [10]) checked)
                    (checker_timeout timeout_seconds) 1048576
                    (if memory_limit_bytes = 0 then None else Some memory_limit_bytes))
             (cpp_report env g memory_limit_bytes checked)))"

section \<open>The reference worker\<close>

definition status_name :: "verify_status \<Rightarrow> string" where
  "status_name s = (case s of VERIFIED \<Rightarrow> ''VERIFIED'' | REJECTED \<Rightarrow> ''REJECTED''
                    | UNKNOWN \<Rightarrow> ''UNKNOWN'' | INVALID \<Rightarrow> ''INVALID'')"

datatype worker_end =
    Worker_Returned py_float
  | Worker_Memory_Error
  | Worker_Alive
  | Worker_Silent "int option"

definition failed_report :: "string \<Rightarrow> string \<Rightarrow> json \<Rightarrow> json_obj" where
  "failed_report st msg elapsed =
     [(''status'', JStr st), (''complete'', JBool False), (''message'', JStr msg),
      (''implementation'', JStr ''python-reference-dfs''), (''witnesses'', JList []),
      (''elapsed_seconds'', elapsed)]"

definition reference_worker :: "plugin \<Rightarrow> bitgraph \<Rightarrow> py_float option \<Rightarrow> json_obj" where
  "reference_worker p g elapsed =
     (case elapsed of
        None \<Rightarrow> failed_report ''UNKNOWN_MEMORY_LIMIT''
                  ''Python verifier exceeded its memory limit'' (JInt 0)
      | Some secs \<Rightarrow>
          let r = plugin_verify p g
          in [(''status'', JStr (status_name (status r))), (''complete'', JBool (complete r)),
              (''message'', JStr (message r)), (''elapsed_seconds'', JFloat secs),
              (''implementation'', JStr (implementation r)),
              (''witnesses'', JList (map (\<lambda>w. JObj [(''kind'', JStr (kind w)),
                 (''vertices'', JList (map (\<lambda>v. JInt (int v)) (vertices w)))]) (witnesses r)))])"

definition show_code :: "int option \<Rightarrow> string" where
  "show_code c = (case c of None \<Rightarrow> ''None''
     | Some k \<Rightarrow> if k < 0 then ''-'' @ show_nat (nat (- k)) else show_nat (nat k))"

definition verify_reference_bounded ::
  "worker_end \<Rightarrow> bitgraph \<Rightarrow> py_float \<Rightarrow> int \<Rightarrow> string \<Rightarrow> json_obj result" where
  "verify_reference_bounded fate g timeout_seconds memory_limit_bytes target =
     (if \<not> isfinite timeout_seconds \<or> py_negative timeout_seconds
      then Inl (ValueError ''timeout_seconds must be finite and nonnegative'')
      else if memory_limit_bytes < 0
      then Inl (ValueError ''memory_limit_bytes cannot be negative'')
      else (case TARGETS target of
        None \<Rightarrow> Inl (ValueError (''unsupported target: '' @ target))
      | Some p \<Rightarrow>
          Inr (case fate of
             Worker_Alive \<Rightarrow> failed_report ''UNKNOWN_TIMEOUT''
               ''Python reference verifier exceeded its wall-time budget'' (JFloat timeout_seconds)
           | Worker_Returned secs \<Rightarrow> reference_worker p g (Some secs)
           | Worker_Memory_Error \<Rightarrow> reference_worker p g None
           | Worker_Silent exitcode \<Rightarrow> failed_report
               (if memory_limit_bytes \<noteq> 0 \<and> exitcode \<notin> {Some 0, None}
                then ''UNKNOWN_MEMORY_LIMIT'' else ''TOOL_FAILURE'')
               (''Python verifier worker exited with '' @ show_code exitcode) (JInt 0))))"

section \<open>Certification\<close>

record manifest =
  m_target :: string
  m_status :: string
  m_order :: nat
  m_size :: nat
  m_minimum_degree :: nat
  m_lengths :: "nat list"
  m_graph6 :: "int list"
  m_edges :: "(nat \<times> nat) list"
  m_verifiers :: "json_obj list"

definition certify_status :: "json \<Rightarrow> json \<Rightarrow> string" where
  "certify_status ref ind =
     (if ref = JStr ''INVALID'' then ''INVALID_CANDIDATE''
      else if ind = JStr ''UNKNOWN_TIMEOUT'' \<or> ref = JStr ''UNKNOWN_TIMEOUT''
      then ''UNKNOWN_TIMEOUT''
      else if ind = JStr ''UNKNOWN_MEMORY_LIMIT'' \<or> ref = JStr ''UNKNOWN_MEMORY_LIMIT''
      then ''UNKNOWN_MEMORY_LIMIT''
      else if ind \<in> {JStr ''TOOL_FAILURE'', JStr ''ERROR''} \<or> ref = JStr ''TOOL_FAILURE''
      then ''TOOL_FAILURE''
      else if ref = JStr ''VERIFIED'' \<and> ind = JStr ''ABSENT'' then ''COUNTEREXAMPLE_VERIFIED''
      else if ref = JStr ''REJECTED'' \<and> ind = JStr ''FOUND'' then ''INVALID_CANDIDATE''
      else ''VERIFIER_DISAGREEMENT'')"

definition certify ::
  "checker_env \<Rightarrow> worker_end \<Rightarrow> bitgraph \<Rightarrow> py_float \<Rightarrow> int \<Rightarrow> string \<Rightarrow> manifest result" where
  "certify env fate g timeout_seconds memory_limit_bytes target =
     (if \<not> isfinite timeout_seconds \<or> py_negative timeout_seconds
      then Inl (ValueError ''timeout_seconds must be finite and nonnegative'')
      else if memory_limit_bytes < 0
      then Inl (ValueError ''memory_limit_bytes cannot be negative'')
      else (case TARGETS target of
        None \<Rightarrow> Inl (ValueError (''unsupported target: '' @ target))
      | Some p \<Rightarrow>
          let lengths = plugin_lengths p (order g)
          in if lengths = []
             then Inl (ValueError ''target has no verifier lengths for this graph order'')
             else rbind (to_graph6 g) (\<lambda>graph6.
               rbind (verify_reference_bounded fate g timeout_seconds memory_limit_bytes target)
               (\<lambda>ref.
               rbind (verify_cpp env g timeout_seconds memory_limit_bytes (Some lengths)) (\<lambda>ind.
                 Inr \<lparr>m_target = target,
                   m_status = certify_status (dict_get ref ''status'') (dict_get ind ''status''),
                   m_order = order g, m_size = graph_size g,
                   m_minimum_degree = minimum_degree g, m_lengths = lengths,
                   m_graph6 = graph6 @ [10], m_edges = edges g,
                   m_verifiers = [ref, ind]\<rparr>)))))"

section \<open>Accepted payloads\<close>

lemma found_error_None:
  assumes "found_error d flag g req = None" "\<forall>k\<in>req. 3 \<le> k"
  shows "flag \<and> (\<exists>c. is_cycle g c \<and> int (length c) \<in> req \<and>
    dict_get d ''witness'' = JList (map (\<lambda>v. JInt (int v)) c))"
proof -
  from assms(1) obtain len vs where w: "len \<in> req" "flag"
    "dict_get d ''witness'' = JList (map JInt vs)" "int (length vs) = len"
    "\<forall>v\<in>set vs. 0 \<le> v \<and> v < int (order g)" "length (remdups vs) = length vs"
    and e: "\<forall>i<nat len. has_edge g (nat (vs ! i)) (nat (vs ! ((i + 1) mod nat len)))"
    by (auto simp: found_error_def strict_ints_Some split: option.splits if_splits)
  let ?c = "map nat vs"
  have len: "length ?c = nat len" "3 \<le> nat len" using w(1,4) assms(2) by auto
  have "distinct vs" using w(6) by (simp add: length_remdups_card_conv card_distinct)
  moreover have "inj_on nat (set vs)" using w(5) by (auto simp: inj_on_def eq_nat_nat_iff)
  ultimately have d: "distinct ?c" by (simp add: distinct_map)
  have vs: "vs = map int ?c" using w(5) by (auto simp: comp_def intro!: map_idI [symmetric])
  have "successively (has_edge g) ?c"
    unfolding successively_conv_nth
  proof (intro allI impI)
    fix i assume i: "Suc i < length ?c"
    with len have "(i + 1) mod nat len = Suc i" by simp
    with e [rule_format, of i] i len show "has_edge g (?c ! i) (?c ! Suc i)" by simp
  qed
  moreover have "has_edge g (last ?c) (hd ?c)"
  proof -
    have "(nat len - 1 + 1) mod nat len = 0" using len by simp
    moreover have "vs \<noteq> []" using len by auto
    ultimately show ?thesis using e [rule_format, of "nat len - 1"] len
      by (simp add: last_map hd_map last_conv_nth hd_conv_nth)
  qed
  ultimately have "is_cycle g ?c"
    using d len w(5) by (auto simp: is_cycle_def)
  moreover have "int (length ?c) \<in> req" using w(1,4) by simp
  moreover have "dict_get d ''witness'' = JList (map (\<lambda>v. JInt (int v)) ?c)"
    using w(3) by (subst (asm) vs) (simp add: comp_def)
  ultimately show ?thesis using w(2) by blast
qed

lemma absent_error_None:
  "absent_error d flag req = None \<longleftrightarrow>
   flag \<and> (\<exists>ns. dict_get d ''lengths'' = JList (map JInt ns) \<and> set ns = req)"
proof
  assume "absent_error d flag req = None"
  then show "flag \<and> (\<exists>ns. dict_get d ''lengths'' = JList (map JInt ns) \<and> set ns = req)"
    by (auto simp: absent_error_def Let_def strict_ints_Some split: option.splits if_splits)
next
  assume "flag \<and> (\<exists>ns. dict_get d ''lengths'' = JList (map JInt ns) \<and> set ns = req)"
  then show "absent_error d flag req = None"
    by (auto simp: absent_error_def json_list_def)
qed

text \<open>The two kinds of evidence a report of the independent checker can carry.\<close>

definition cycle_evidence :: "bitgraph \<Rightarrow> nat list \<Rightarrow> json_obj \<Rightarrow> bool" where
  "cycle_evidence g lengths d \<longleftrightarrow> dict_get d ''complete'' = JBool True \<and>
     (\<exists>c. is_cycle g c \<and> length c \<in> set lengths \<and>
        dict_get d ''witness'' = JList (map (\<lambda>v. JInt (int v)) c))"

definition absence_claim :: "nat list \<Rightarrow> json_obj \<Rightarrow> bool" where
  "absence_claim lengths d \<longleftrightarrow> dict_get d ''complete'' = JBool True \<and>
     (\<exists>ns. dict_get d ''lengths'' = JList (map JInt ns) \<and> set ns = int ` set lengths)"

lemma payload_accepted:
  assumes "cyclecheck_payload_error (JObj d) g (Some ls) = Inr None"
    and "ls \<noteq> []" "\<forall>k\<in>set ls. 3 \<le> k"
  shows "dict_get d ''status'' = JStr ''FOUND'' \<and> cycle_evidence g ls d \<or>
    dict_get d ''status'' = JStr ''ABSENT'' \<and> absence_claim ls d \<or>
    dict_get d ''status'' \<in> {JStr ''TIMEOUT'', JStr ''ERROR''} \<and>
      dict_get d ''complete'' = JBool False"
proof -
  have req: "requested_lengths g (Some ls) = ls" using assms(2) by (simp add: requested_lengths_def)
  from assms(1) obtain b where b: "dict_get d ''complete'' = JBool b"
    and s: "dict_get d ''status'' \<in> JStr ` {''FOUND'', ''ABSENT'', ''TIMEOUT'', ''ERROR''}"
    by (auto simp: cyclecheck_payload_error_def json_obj_def rbind_Inr_iff in_string_set_Inr Let_def
        split: if_splits option.splits)
  consider "dict_get d ''status'' = JStr ''FOUND''" | "dict_get d ''status'' = JStr ''ABSENT''"
    | "dict_get d ''status'' \<in> {JStr ''TIMEOUT'', JStr ''ERROR''}" using s by auto
  then show ?thesis
  proof cases
    case 1
    with assms(1) b have "found_error d b g (int ` set ls) = None"
      by (simp add: cyclecheck_payload_error_def json_obj_def rbind_def in_string_set_def
          hashable_def json_bool_def req)
    with found_error_None [OF this] assms(3) b 1 show ?thesis by (auto simp: cycle_evidence_def)
  next
    case 2
    with assms(1) b have "absent_error d b (int ` set ls) = None"
      by (simp add: cyclecheck_payload_error_def json_obj_def rbind_def in_string_set_def
          hashable_def json_bool_def req)
    with b 2 show ?thesis by (auto simp: absent_error_None absence_claim_def)
  next
    case 3
    with assms(1) b show ?thesis
      by (auto simp: cyclecheck_payload_error_def json_obj_def rbind_def in_string_set_def
          hashable_def json_bool_def split: if_splits)
  qed
qed

definition failure_status :: "json \<Rightarrow> bool" where
  "failure_status s \<longleftrightarrow>
     s \<in> {JStr ''TOOL_FAILURE'', JStr ''ERROR'', JStr ''UNKNOWN_TIMEOUT'', JStr ''UNKNOWN_MEMORY_LIMIT''}"

definition worker_failure :: "json \<Rightarrow> bool" where
  "worker_failure s \<longleftrightarrow>
     s \<in> {JStr ''TOOL_FAILURE'', JStr ''UNKNOWN_TIMEOUT'', JStr ''UNKNOWN_MEMORY_LIMIT''}"

lemma settle_payload_cases:
  fixes mem r secs
  assumes "dict_get d ''status'' = JStr s" "s \<in> {''FOUND'', ''ABSENT'', ''TIMEOUT'', ''ERROR''}"
  defines "rep \<equiv> settle_payload mem r secs d"
  obtains "failure_status (dict_get rep ''status'')"
    | "s \<in> {''FOUND'', ''ABSENT''}" "dict_get rep ''status'' = dict_get d ''status''"
      "dict_get rep ''complete'' = dict_get d ''complete''"
      "dict_get rep ''witness'' = dict_get d ''witness''"
      "dict_get rep ''lengths'' = dict_get d ''lengths''"
proof (cases "failure_status (dict_get rep ''status'')")
  case False
  let ?kept = "dict_set ''implementation'' (JStr ''cpp17-bitset-dfs'')
    (dict_set ''elapsed_seconds'' (JFloat secs) d)"
  have s: "s \<in> {''FOUND'', ''ABSENT''}" and "rep = ?kept"
    using False assms by (auto simp: rep_def settle_payload_def failure_status_def Let_def split: if_splits)
  with that(2) show thesis by simp
qed (rule that(1))

lemma verify_cpp_cases:
  assumes "verify_cpp env g t mem (Some ls) = Inr rep" "ls \<noteq> []" "\<forall>k\<in>set ls. 3 \<le> k"
  shows "failure_status (dict_get rep ''status'') \<or>
    dict_get rep ''status'' = JStr ''FOUND'' \<and> cycle_evidence g ls rep \<or>
    dict_get rep ''status'' = JStr ''ABSENT'' \<and> absence_claim ls rep"
proof -
  have req: "requested_lengths g (Some ls) = ls" using assms(2) by (simp add: requested_lengths_def)
  have report: "failure_status (dict_get rep ''status'') \<or>
      (\<exists>d r. cyclecheck_payload_error (JObj d) g (Some ls) = Inr None \<and>
         rep = settle_payload mem r (checker_elapsed env) d)"
    if "cpp_report env g mem ls r = Inr rep" for r
  proof (cases "json_loads env (p_stdout r)")
    case None
    with that show ?thesis
      by (auto simp: cpp_report_def Let_def failure_status_def split: if_splits)
  next
    case (Some payload)
    show ?thesis
    proof (cases "p_status r = ''UNKNOWN_TIMEOUT''")
      case True
      with that show ?thesis by (auto simp: cpp_report_def Let_def failure_status_def)
    next
      case False
      with that Some obtain err where "cyclecheck_payload_error payload g (Some ls) = Inr err"
        by (auto simp: cpp_report_def Let_def rbind_Inr_iff)
      with that Some False show ?thesis
        by (cases err) (auto simp: cpp_report_def Let_def rbind_def failure_status_def
            split: option.splits)
    qed
  qed
  from assms(1) consider "failure_status (dict_get rep ''status'')"
    | r where "cpp_report env g mem ls r = Inr rep"
    by (auto simp: verify_cpp_def rbind_Inr_iff Let_def req failure_status_def split: if_splits)
  then consider "failure_status (dict_get rep ''status'')"
    | d r where "cyclecheck_payload_error (JObj d) g (Some ls) = Inr None"
        "rep = settle_payload mem r (checker_elapsed env) d"
    using report by cases blast+
  then show ?thesis
  proof cases
    case 2
    from payload_accepted [OF 2(1) assms(2,3)] obtain s where
      "dict_get d ''status'' = JStr s" "s \<in> {''FOUND'', ''ABSENT'', ''TIMEOUT'', ''ERROR''}" by auto
    then show ?thesis
    proof (cases rule: settle_payload_cases [where mem = mem and r = r and secs = "checker_elapsed env"])
      case agree: 2
      note agree = agree [folded 2(2)]
      then have "cycle_evidence g ls rep = cycle_evidence g ls d"
        "absence_claim ls rep = absence_claim ls d"
        by (simp_all only: cycle_evidence_def absence_claim_def)
      with agree payload_accepted [OF 2(1) assms(2,3)] \<open>dict_get d ''status'' = JStr s\<close>
      show ?thesis by auto
    qed (simp add: 2(2))
  qed blast
qed

lemma verify_reference_bounded_Inr:
  assumes "verify_reference_bounded fate g t mem target = Inr rep"
  obtains p where "TARGETS target = Some p"
    "worker_failure (dict_get rep ''status'') \<or>
     dict_get rep ''status'' = JStr (status_name (status (plugin_verify p g)))"
  using assms
  by (auto simp: verify_reference_bounded_def reference_worker_def failed_report_def
      worker_failure_def Let_def split: if_splits option.splits worker_end.splits)

lemma status_name_eq [simp]: "status_name s = status_name t \<longleftrightarrow> s = t"
  by (cases s; cases t) (simp_all add: status_name_def)

section \<open>Certification runs\<close>

lemma registered_plugin:
  "TARGETS target = Some p \<Longrightarrow>
   target_plugin (plugin_lengths p) (plugin_validate p) (plugin_verify p)"
  using eg.target_plugin_axioms hw.target_plugin_axioms
  by (auto simp: TARGETS_def ERDOS_GYARFAS_def HIDDEN_WITNESS_def split: if_splits)

lemma registered_lengths:
  assumes "TARGETS target = Some p" "k \<in> set (plugin_lengths p n)"
  shows "3 \<le> k"
proof -
  have "3 \<le> (2::nat) ^ j" if "2 \<le> j" for j
  proof -
    have "(2::nat) ^ 2 \<le> 2 ^ j" using that by (rule power_increasing) simp
    then show ?thesis by simp
  qed
  with assms show ?thesis
    by (auto simp: TARGETS_def ERDOS_GYARFAS_def HIDDEN_WITNESS_def set_forbidden_lengths
        hw_forbidden_lengths_def split: if_splits)
qed

lemma certify_Inr:
  assumes "certify env fate g t mem target = Inr m"
  obtains p ref ind where "TARGETS target = Some p" "m_lengths m = plugin_lengths p (order g)"
    "m_lengths m \<noteq> []" "m_verifiers m = [ref, ind]" "m_target m = target"
    "to_graph6 g = Inr (butlast (m_graph6 m))"
    "m_status m = certify_status (dict_get ref ''status'') (dict_get ind ''status'')"
    "verify_reference_bounded fate g t mem target = Inr ref"
    "verify_cpp env g t mem (Some (m_lengths m)) = Inr ind"
  using assms by (auto simp: certify_def rbind_Inr_iff Let_def split: if_splits option.splits)

text \<open>
  Every run ends in one of four situations: one of the verifiers failed, or the reference
  verifier answered and the independent checker gave evidence of a cycle or claimed absence.
\<close>

lemma certify_cases:
  assumes "certify env fate g t mem target = Inr m"
  obtains p ref ind where "TARGETS target = Some p" "m_lengths m = plugin_lengths p (order g)"
    "m_verifiers m = [ref, ind]"
    "m_status m = certify_status (dict_get ref ''status'') (dict_get ind ''status'')"
    "worker_failure (dict_get ref ''status'') \<or> failure_status (dict_get ind ''status'') \<or>
     dict_get ref ''status'' = JStr (status_name (status (plugin_verify p g))) \<and>
     (dict_get ind ''status'' = JStr ''FOUND'' \<and> cycle_evidence g (m_lengths m) ind \<or>
      dict_get ind ''status'' = JStr ''ABSENT'' \<and> absence_claim (m_lengths m) ind)"
proof -
  obtain p ref ind where p: "TARGETS target = Some p" "m_lengths m = plugin_lengths p (order g)"
    "m_lengths m \<noteq> []" "m_verifiers m = [ref, ind]"
    "m_status m = certify_status (dict_get ref ''status'') (dict_get ind ''status'')"
    and r: "verify_reference_bounded fate g t mem target = Inr ref"
    and i: "verify_cpp env g t mem (Some (m_lengths m)) = Inr ind"
    using certify_Inr [OF assms] by metis
  have "\<forall>k\<in>set (m_lengths m). 3 \<le> k" using registered_lengths p(1,2) by simp
  note ind = verify_cpp_cases [OF i p(3) this]
  have "worker_failure (dict_get ref ''status'') \<or>
      dict_get ref ''status'' = JStr (status_name (status (plugin_verify p g)))"
    using verify_reference_bounded_Inr [OF r] p(1) by (metis option.inject)
  with ind that p show thesis by blast
qed

lemma certify_status_failure:
  assumes "worker_failure ref \<or> failure_status ind"
  shows "certify_status ref ind \<in> {''INVALID_CANDIDATE'', ''UNKNOWN_TIMEOUT'',
    ''UNKNOWN_MEMORY_LIMIT'', ''TOOL_FAILURE''}"
proof (rule ccontr)
  assume n: "\<not> ?thesis"
  have "\<not> worker_failure ref" "\<not> failure_status ind"
    using n by (auto simp only: certify_status_def worker_failure_def failure_status_def
        insert_iff empty_iff split: if_splits)
  with assms show False by blast
qed

lemma certify_status_evidence:
  "certify_status (JStr (status_name s)) (JStr ''ABSENT'') =
     (case s of INVALID \<Rightarrow> ''INVALID_CANDIDATE'' | VERIFIED \<Rightarrow> ''COUNTEREXAMPLE_VERIFIED''
      | _ \<Rightarrow> ''VERIFIER_DISAGREEMENT'')"
  "certify_status (JStr (status_name s)) (JStr ''FOUND'') =
     (case s of INVALID \<Rightarrow> ''INVALID_CANDIDATE'' | REJECTED \<Rightarrow> ''INVALID_CANDIDATE''
      | _ \<Rightarrow> ''VERIFIER_DISAGREEMENT'')"
  by (cases s; simp add: certify_status_def status_name_def)
    (cases s; simp add: certify_status_def status_name_def)

lemma certified_status:
  assumes "certify env fate g t mem target = Inr m" "wf_graph g"
    and "m_status m \<in> {''COUNTEREXAMPLE_VERIFIED'', ''VERIFIER_DISAGREEMENT''}"
  obtains p ref ind where "TARGETS target = Some p" "m_lengths m = plugin_lengths p (order g)"
    "m_verifiers m = [ref, ind]" "absence_claim (m_lengths m) ind"
    "status (plugin_verify p g) =
       (if m_status m = ''COUNTEREXAMPLE_VERIFIED'' then VERIFIED else REJECTED)"
proof -
  obtain p ref ind where p: "TARGETS target = Some p" "m_lengths m = plugin_lengths p (order g)"
    "m_verifiers m = [ref, ind]"
    "m_status m = certify_status (dict_get ref ''status'') (dict_get ind ''status'')"
    and cases: "worker_failure (dict_get ref ''status'') \<or> failure_status (dict_get ind ''status'') \<or>
     dict_get ref ''status'' = JStr (status_name (status (plugin_verify p g))) \<and>
     (dict_get ind ''status'' = JStr ''FOUND'' \<and> cycle_evidence g (m_lengths m) ind \<or>
      dict_get ind ''status'' = JStr ''ABSENT'' \<and> absence_claim (m_lengths m) ind)"
    using certify_cases [OF assms(1)] .
  note plugin = registered_plugin [OF p(1)]
  note facts = target_plugin.decided [OF plugin assms(2)]
    target_plugin.no_witness_for_verified [OF plugin assms(2)]
  have "\<not> (worker_failure (dict_get ref ''status'') \<or> failure_status (dict_get ind ''status''))"
  proof
    assume "worker_failure (dict_get ref ''status'') \<or> failure_status (dict_get ind ''status'')"
    from certify_status_failure [OF this] assms(3) show False unfolding p(4) by auto
  qed
  with cases have ref: "dict_get ref ''status'' = JStr (status_name (status (plugin_verify p g)))"
    and ind: "dict_get ind ''status'' = JStr ''FOUND'' \<and> cycle_evidence g (m_lengths m) ind \<or>
      dict_get ind ''status'' = JStr ''ABSENT'' \<and> absence_claim (m_lengths m) ind" by auto
  have absent: "dict_get ind ''status'' = JStr ''ABSENT''" "absence_claim (m_lengths m) ind"
  proof -
    have "\<not> (dict_get ind ''status'' = JStr ''FOUND'' \<and> cycle_evidence g (m_lengths m) ind)"
      using facts assms(3) p(2,4) ref
      by (cases "status (plugin_verify p g)")
        (auto simp: certify_status_evidence cycle_evidence_def)
    with ind show "dict_get ind ''status'' = JStr ''ABSENT''" "absence_claim (m_lengths m) ind"
      by auto
  qed
  have "status (plugin_verify p g) =
       (if m_status m = ''COUNTEREXAMPLE_VERIFIED'' then VERIFIED else REJECTED)"
    using facts(1) assms(3) p(4) unfolding ref absent(1) certify_status_evidence
    by (cases "status (plugin_verify p g)") auto
  with that p absent show thesis by blast
qed

lemma certify_accepts:
  fixes env :: checker_env and g :: bitgraph
  assumes "wf_graph g" "to_graph6 g = Inr enc"
    and "isfinite t" "\<not> py_negative t" "0 \<le> mem"
    and "TARGETS target = Some p" "plugin_lengths p (order g) = lengths" "lengths \<noteq> []"
    and "checker_exists env"
    and "checker_run env (enc @ [10]) lengths = run" "p_end run = Exited 0"
    and "length (stdout_file run) + length (stderr_file run) \<le> 1048576"
    and "json_loads env (stdout_file run) = Some (JObj d)"
    and "dict_get d ''status'' = JStr ''ABSENT''" "absence_claim lengths d"
  shows "\<exists>m. certify env (Worker_Returned secs) g t mem target = Inr m \<and>
    m_status m = certify_status (JStr (status_name (status (plugin_verify p g)))) (JStr ''ABSENT'') \<and>
    from_graph6 (m_graph6 m) = Inr g \<and> m_edges m = edges g"
proof -
  have req: "requested_lengths g (Some lengths) = lengths"
    using assms(8) by (simp add: requested_lengths_def)
  let ?t = "checker_timeout t" and ?m = "if mem = 0 then None else Some mem"
  have "isfinite ?t" "py_positive ?t"
    using assms(3,4)
    by (auto simp: checker_timeout_def isfinite_def py_positive_def py_negative_def
        split: py_float.splits)
  then obtain r where r: "run_bounded run ?t 1048576 ?m = Inr r"
    using run_bounded_ok [of ?t 1048576 ?m run] assms(5) by (metis le_numeral_extra(4) one_le_numeral option.sel option.simps(3))
  note ok = run_bounded_Inr [OF r]
  have pr: "p_status r = ''OK''" "p_stdout r = stdout_file run" using ok(2,3) assms(11,12) by auto
  have "cyclecheck_payload_error (JObj d) g (Some lengths) = Inr None"
    using assms(14,15)
    by (auto simp: cyclecheck_payload_error_def json_obj_def json_bool_def rbind_def req
        in_string_set_def hashable_def absent_error_None absence_claim_def)
  then have "cpp_report env g mem lengths r = Inr (settle_payload mem r (checker_elapsed env) d)"
    using pr assms(13) by (simp add: cpp_report_def Let_def rbind_def json_obj_def)
  then have ind: "verify_cpp env g t mem (Some lengths) =
      Inr (settle_payload mem r (checker_elapsed env) d)"
    using assms(2-5,9,10) r by (simp add: verify_cpp_def rbind_def Let_def req)
  have st: "dict_get (settle_payload mem r (checker_elapsed env) d) ''status'' = JStr ''ABSENT''"
    using pr assms(14) by (simp add: settle_payload_def Let_def)
  have ref: "verify_reference_bounded (Worker_Returned secs) g t mem target =
      Inr (reference_worker p g (Some secs))"
    using assms(3-6) by (simp add: verify_reference_bounded_def)
  have "dict_get (reference_worker p g (Some secs)) ''status'' =
      JStr (status_name (status (plugin_verify p g)))"
    by (simp add: reference_worker_def Let_def)
  moreover have "from_graph6 (enc @ [10]) = Inr g"
    using graph6_file_round_trip [OF assms(1,2)] .
  ultimately show ?thesis
    using assms(2-8) ref ind st
    by (simp add: certify_def rbind_def Let_def)
qed

text \<open>A run of the control target on the Petersen graph with an honest checker.\<close>

definition honest_env :: checker_env where
  "honest_env = \<lparr>checker_path = ''cyclecheck'', checker_exists = True,
     checker_run = (\<lambda>_ _. \<lparr>p_end = Exited 0, stdout_file = [123, 125], stderr_file = []\<rparr>),
     checker_elapsed = Fin 1,
     json_loads = (\<lambda>_. Some (JObj [(''status'', JStr ''ABSENT''), (''complete'', JBool True),
       (''lengths'', JList [JInt 3])])),
     decode_replace = (\<lambda>_. [])\<rparr>"

lemma hw_petersen_verified: "status (hw_exact_verify petersen) = VERIFIED"
  by code_simp

lemma petersen_encodes: "to_graph6 petersen = Inr [73, 104, 101, 65, 64, 71, 85, 65, 111]"
  by code_simp

text \<open>A control candidate with a triangle, about which the same checker lies.\<close>

definition triangle_graph :: bitgraph where
  "triangle_graph = \<lparr>order = 10, rows = [518, 37, 11, 148, 296, 82, 672, 328, 656, 321]\<rparr>"

lemma wf_triangle_graph: "wf_graph triangle_graph"
proof -
  have "BitGraph 10 [518, 37, 11, 148, 296, 82, 672, 328, 656, 321] = Inr triangle_graph"
    by code_simp
  then show ?thesis by (simp add: BitGraph_Inr)
qed

lemma hw_triangle_rejected: "status (hw_exact_verify triangle_graph) = REJECTED"
  by code_simp

lemma honest_run:
  "TARGETS ''m6_hidden_witness_control_v1'' = Some HIDDEN_WITNESS"
  "isfinite (Fin 10)" "\<not> py_negative (Fin 10)" "checker_exists honest_env"
  "json_loads honest_env out = Some (JObj [(''status'', JStr ''ABSENT''),
     (''complete'', JBool True), (''lengths'', JList [JInt 3])])"
  "absence_claim [3] [(''status'', JStr ''ABSENT''), (''complete'', JBool True),
     (''lengths'', JList [JInt 3])]"
  "checker_run honest_env file lengths =
     \<lparr>p_end = Exited 0, stdout_file = [123, 125], stderr_file = []\<rparr>"
  by (auto simp: TARGETS_def ERDOS_GYARFAS_def HIDDEN_WITNESS_def isfinite_def py_negative_def
      honest_env_def absence_claim_def intro!: exI [of _ "[3]"])

lemma control_certificate:
  assumes "wf_graph g" "to_graph6 g = Inr enc" "order g = 10"
  shows "\<exists>m. certify honest_env (Worker_Returned (Fin 1)) g (Fin 10) 0
      ''m6_hidden_witness_control_v1'' = Inr m \<and>
    m_status m = certify_status (JStr (status_name (status (hw_exact_verify g)))) (JStr ''ABSENT'')"
proof -
  have l: "plugin_lengths HIDDEN_WITNESS (order g) = [3]"
    by (simp add: HIDDEN_WITNESS_def hw_forbidden_lengths_def assms(3))
  show ?thesis
    using certify_accepts [OF assms(1,2) honest_run(2,3) order_refl honest_run(1) l _
        honest_run(4) honest_run(7) _ _ honest_run(5) _ honest_run(6), of "Fin 1"]
    by (auto simp: HIDDEN_WITNESS_def)
qed

section \<open>Certified graphs\<close>

text \<open>What a certificate claims: a counterexample to the conjecture of the target.\<close>

definition genuine :: "string \<Rightarrow> bitgraph \<Rightarrow> bool" where
  "genuine target g \<longleftrightarrow>
     target = ''erdos_gyarfas'' \<and> eg_counterexample g \<or>
     target = ''m6_hidden_witness_control_v1'' \<and> order g = 10 \<and> is_connected g \<and>
       (\<forall>u<10. degree g u = 3) \<and> \<not> has_cycle_of_length g 3"

lemma certified_genuine:
  assumes "wf_graph g" "certify env fate g t mem target = Inr m"
    and "m_status m = ''COUNTEREXAMPLE_VERIFIED''"
  shows "genuine target g \<and> (\<exists>ref ind. m_verifiers m = [ref, ind] \<and> absence_claim (m_lengths m) ind)"
proof -
  have "m_status m \<in> {''COUNTEREXAMPLE_VERIFIED'', ''VERIFIER_DISAGREEMENT''}"
    using assms(3) by simp
  then obtain p ref ind where p: "TARGETS target = Some p" "m_verifiers m = [ref, ind]"
    "absence_claim (m_lengths m) ind" "status (plugin_verify p g) =
       (if m_status m = ''COUNTEREXAMPLE_VERIFIED'' then VERIFIED else REJECTED)"
    using certified_status [OF assms(2,1)] by metis
  have v: "status (plugin_verify p g) = VERIFIED" using p(4) assms(3) by simp
  have "p = ERDOS_GYARFAS \<and> target = ''erdos_gyarfas'' \<or>
      p = HIDDEN_WITNESS \<and> target = ''m6_hidden_witness_control_v1''"
    using p(1) by (auto simp: TARGETS_def ERDOS_GYARFAS_def HIDDEN_WITNESS_def split: if_splits)
  then have "genuine target g"
  proof (elim disjE conjE)
    assume "p = ERDOS_GYARFAS" "target = ''erdos_gyarfas''"
    with v eg.verified [OF assms(1)] show ?thesis
      by (auto simp: genuine_def ERDOS_GYARFAS_def eg_counterexample_iff [OF assms(1)] eg_validate_graph_def
          split: if_splits)
  next
    assume "p = HIDDEN_WITNESS" "target = ''m6_hidden_witness_control_v1''"
    with v hw.verified [OF assms(1)] show ?thesis
      by (auto simp: genuine_def HIDDEN_WITNESS_def hw_validate_graph_def hw_forbidden_lengths_def
          split: if_splits)
  qed
  with p show ?thesis by blast
qed

section \<open>Properties\<close>

text \<open>
  C1. A certificate is never wrong, whatever the external checker does and however the worker
  process ends: the status \<open>COUNTEREXAMPLE_VERIFIED\<close> is only given to a genuine counterexample
  of the target, namely a connected graph of minimum degree three without a power-of-two cycle
  for the research target and a connected cubic triangle-free graph on ten vertices for the
  control, and only with a complete absence report of the second verifier that covers exactly
  the forbidden lengths.
\<close>

theorem certify_sound:
  assumes "wf_graph g" "certify env fate g t mem target = Inr m"
    and "m_status m = ''COUNTEREXAMPLE_VERIFIED''"
  shows "(target = ''erdos_gyarfas'' \<and> eg_counterexample g \<or>
      target = ''m6_hidden_witness_control_v1'' \<and> order g = 10 \<and> is_connected g \<and>
        (\<forall>u<10. degree g u = 3) \<and> \<not> has_cycle_of_length g 3) \<and>
    (\<exists>ref ind. m_verifiers m = [ref, ind] \<and> absence_claim (m_lengths m) ind)"
  using certified_genuine [OF assms] by (simp add: genuine_def)

theorem certify_sound_witness: "\<not> has_cycle_of_length petersen 3"
proof -
  have "order petersen = 10" by (simp add: petersen_def)
  with control_certificate [OF wf_petersen petersen_encodes] obtain m where
    "certify honest_env (Worker_Returned (Fin 1)) petersen (Fin 10) 0
      ''m6_hidden_witness_control_v1'' = Inr m" "m_status m = ''COUNTEREXAMPLE_VERIFIED''"
    by (auto simp: hw_petersen_verified certify_status_evidence)
  from certify_sound [OF wf_petersen this] show ?thesis by auto
qed

text \<open>
  C19. Certification is complete: if the reference worker returns \<open>VERIFIED\<close> for the target and
  the checker process exits normally with a short output that decodes to a complete absence
  report for exactly the forbidden lengths, then the run succeeds with the status
  \<open>COUNTEREXAMPLE_VERIFIED\<close> and the manifest holds the graph in graph6 and as an edge list.
\<close>

theorem certify_complete:
  fixes env :: checker_env and g :: bitgraph
  assumes "wf_graph g" "to_graph6 g = Inr enc"
    and "isfinite t" "\<not> py_negative t" "0 \<le> mem"
    and "TARGETS target = Some p" "plugin_lengths p (order g) = lengths" "lengths \<noteq> []"
    and "status (plugin_verify p g) = VERIFIED"
    and "checker_exists env"
    and "checker_run env (enc @ [10]) lengths = run" "p_end run = Exited 0"
    and "length (stdout_file run) + length (stderr_file run) \<le> 1048576"
    and "json_loads env (stdout_file run) = Some (JObj d)"
    and "dict_get d ''status'' = JStr ''ABSENT''" "absence_claim lengths d"
  shows "\<exists>m. certify env (Worker_Returned secs) g t mem target = Inr m \<and>
    m_status m = ''COUNTEREXAMPLE_VERIFIED'' \<and>
    from_graph6 (m_graph6 m) = Inr g \<and> m_edges m = edges g"
  using certify_accepts [OF assms(1-8,10-)] assms(9) by (simp add: certify_status_evidence)

theorem certify_complete_witness:
  "\<exists>m. certify honest_env (Worker_Returned (Fin 1)) petersen (Fin 10) 0
      ''m6_hidden_witness_control_v1'' = Inr m \<and> m_edges m = edges petersen"
proof -
  have l: "plugin_lengths HIDDEN_WITNESS (order petersen) = [3]"
    by (simp add: HIDDEN_WITNESS_def hw_forbidden_lengths_def petersen_def)
  have v: "status (plugin_verify HIDDEN_WITNESS petersen) = VERIFIED"
    using hw_petersen_verified by (simp add: HIDDEN_WITNESS_def)
  show ?thesis
    using certify_complete [OF wf_petersen petersen_encodes honest_run(2,3) order_refl honest_run(1)
        l _ v honest_run(4) honest_run(7) _ _ honest_run(5) _ honest_run(6), of "Fin 1"]
    by auto
qed

text \<open>
  C20. The status \<open>VERIFIER_DISAGREEMENT\<close> always accuses the external checker: it is only
  reported when the checker claims the absence of all forbidden cycles although the graph
  has one (a positive answer of the checker is re-validated and can never disagree).
\<close>

theorem disagreement_is_a_false_absence_claim:
  assumes "wf_graph g" "certify env fate g t mem target = Inr m"
    and "m_status m = ''VERIFIER_DISAGREEMENT''"
  shows "\<exists>ref ind c. m_verifiers m = [ref, ind] \<and> absence_claim (m_lengths m) ind \<and>
    is_cycle g c \<and> length c \<in> set (m_lengths m)"
proof -
  have "m_status m \<in> {''COUNTEREXAMPLE_VERIFIED'', ''VERIFIER_DISAGREEMENT''}"
    using assms(3) by simp
  then obtain p ref ind where p: "TARGETS target = Some p" "m_verifiers m = [ref, ind]"
    "absence_claim (m_lengths m) ind" "m_lengths m = plugin_lengths p (order g)"
    "status (plugin_verify p g) = (if m_status m = ''COUNTEREXAMPLE_VERIFIED'' then VERIFIED else REJECTED)"
    using certified_status [OF assms(2,1)] by metis
  have "status (plugin_verify p g) = REJECTED" using p(5) assms(3) by simp
  from target_plugin.rejected [OF registered_plugin [OF p(1)] assms(1) this] p show ?thesis
    by metis
qed

theorem disagreement_is_a_false_absence_claim_witness:
  "\<exists>m c. certify honest_env (Worker_Returned (Fin 1)) triangle_graph (Fin 10) 0
      ''m6_hidden_witness_control_v1'' = Inr m \<and> is_cycle triangle_graph c \<and>
      length c \<in> set (m_lengths m)"
proof -
  have enc: "\<exists>enc. to_graph6 triangle_graph = Inr enc"
    using graph6_encodes [of triangle_graph] by (simp add: triangle_graph_def)
  have "order triangle_graph = 10" by (simp add: triangle_graph_def)
  with control_certificate [OF wf_triangle_graph] enc obtain m where
    m: "certify honest_env (Worker_Returned (Fin 1)) triangle_graph (Fin 10) 0
      ''m6_hidden_witness_control_v1'' = Inr m" "m_status m = ''VERIFIER_DISAGREEMENT''"
    by (auto simp: hw_triangle_rejected certify_status_evidence)
  with disagreement_is_a_false_absence_claim [OF wf_triangle_graph m] show ?thesis by blast
qed

lemma unhashable_status_raises:
  "cyclecheck_payload_error (JObj ((''status'', JList xs) # d)) g lengths =
   Inl (TypeError ''unhashable type'')"
  by (simp add: cyclecheck_payload_error_def json_obj_def in_string_set_def hashable_def rbind_def)

end
