(* ===== verification/Search.thy ===== *)
theory Search
  imports Score_Worker Seeds Certification
begin

text \<open>
  The search worker of \<open>src/src/sglab/search.py\<close>: \<open>SearchConfig.validate\<close>, the score payloads,
  \<open>_scalar\<close>, \<open>_novelty\<close>, \<open>_worker_candidate_budget\<close>, and \<open>_worker\<close>, which composes the seed
  generator, the mutation operator, the client of the score worker and the score assembly into
  simulated annealing or iterated local search.

  Per check of the loop condition the environment supplies a \<open>tick\<close>: whether the stop event and
  the pause event are set and whether the reporting interval has passed; when the ticks run
  out the stop event is set.  The score worker is the client of theory \<open>Score_Worker\<close> with the
  processes that later starts obtain.  \<open>stable_hash\<close> (a SHA-256 digest) and \<open>metropolis\<close> (the
  comparison of a random draw with \<open>math.exp\<close>) are parameters.  Floats are rationals.  The
  queue is the list of messages the worker puts; the receiving side may lose some when the
  queue is full.  A checkpoint has every key that \<open>checkpoint_payload\<close> writes, the exit message
  reads the stop event as the loop condition did, and \<open>sp_budget\<close> is the result of
  \<open>_worker_candidate_budget\<close> for this worker.
\<close>

section \<open>Configuration\<close>

record search_config =
  c_target :: string
  c_order :: int
  c_mode :: string
  c_algorithm :: string
  c_workers :: int
  c_seed :: int
  c_wall_seconds :: py_float
  c_max_candidates :: int
  c_witness_cap :: int
  c_queue_capacity :: int
  c_archive_top_k :: int
  c_state_seconds :: py_float
  c_checkpoint_seconds :: py_float
  c_worker_recycle_candidates :: int
  c_memory_high_bytes :: int
  c_memory_limit_bytes :: int
  c_min_free_disk_bytes :: int
  c_max_log_bytes :: int
  c_notes :: string
  c_exact_timeout_seconds :: py_float

definition ALGORITHMS :: "string list" where
  "ALGORITHMS = [''simulated_annealing'', ''iterated_local_search'']"

definition MODES :: "string list" where
  "MODES = [''cubic_first'', ''minimal_structure_mixed_degree'', ''unrestricted_min_degree_3'']"

definition finite_within :: "rat \<Rightarrow> bool \<Rightarrow> rat \<Rightarrow> py_float \<Rightarrow> bool" where
  "finite_within lo strict hi x =
     (case x of Fin r \<Rightarrow> (if strict then lo < r else lo \<le> r) \<and> r \<le> hi | _ \<Rightarrow> False)"

definition validate :: "search_config \<Rightarrow> unit result" where
  "validate c =
     (if TARGETS (c_target c) = None then Inl (ValueError (''unsupported target: '' @ c_target c))
      else if c_order c < 4 \<or> c_order c > 128 then Inl (ValueError ''order must be between 4 and 128'')
      else if c_mode c \<notin> set MODES then Inl (ValueError (''unsupported mode: '' @ c_mode c))
      else if c_algorithm c \<notin> set ALGORITHMS
      then Inl (ValueError (''unsupported algorithm: '' @ c_algorithm c))
      else if c_mode c = ''cubic_first'' \<and> odd (c_order c)
      then Inl (ValueError ''cubic_first requires an even order'')
      else if c_mode c = ''minimal_structure_mixed_degree'' \<and> c_order c < 5
      then Inl (ValueError ''minimal_structure_mixed_degree requires order at least 5'')
      else if \<not> (1 \<le> c_workers c \<and> c_workers c \<le> 256)
      then Inl (ValueError ''workers must be between 1 and 256'')
      else if \<not> finite_within 0 True (365 * 86400) (c_wall_seconds c)
      then Inl (ValueError ''wall_seconds must be between 0 and 31536000'')
      else if c_max_candidates c < 0 then Inl (ValueError ''max_candidates cannot be negative'')
      else if \<not> (1 \<le> c_witness_cap c \<and> c_witness_cap c \<le> 10000)
      then Inl (ValueError ''witness_cap must be between 1 and 10000'')
      else if \<not> (4 \<le> c_queue_capacity c \<and> c_queue_capacity c \<le> 65536)
      then Inl (ValueError ''queue_capacity must be between 4 and 65536'')
      else if \<not> (1 \<le> c_archive_top_k c \<and> c_archive_top_k c \<le> 10000)
      then Inl (ValueError ''archive_top_k must be between 1 and 10000'')
      else if \<not> isfinite (c_state_seconds c) \<or> \<not> isfinite (c_checkpoint_seconds c)
          \<or> \<not> py_positive (c_state_seconds c) \<or> \<not> py_positive (c_checkpoint_seconds c)
      then Inl (ValueError ''state and checkpoint intervals must be finite and positive'')
      else if \<not> (1 \<le> c_worker_recycle_candidates c \<and> c_worker_recycle_candidates c \<le> 1000000000)
      then Inl (ValueError ''worker_recycle_candidates must be between 1 and 1000000000'')
      else if \<not> (0 \<le> c_memory_high_bytes c \<and> c_memory_high_bytes c \<le> 2 ^ 63 - 1)
          \<or> \<not> (0 \<le> c_memory_limit_bytes c \<and> c_memory_limit_bytes c \<le> 2 ^ 63 - 1)
      then Inl (ValueError ''memory limits must fit a nonnegative signed 64-bit value'')
      else if \<not> (0 \<le> c_min_free_disk_bytes c \<and> c_min_free_disk_bytes c \<le> 2 ^ 63 - 1)
      then Inl (ValueError ''min_free_disk_bytes must fit a nonnegative signed 64-bit value'')
      else if \<not> (1024 \<le> c_max_log_bytes c \<and> c_max_log_bytes c \<le> 1024 * 1024 * 1024)
      then Inl (ValueError ''max_log_bytes must be between 1 KiB and 1 GiB'')
      else if length (c_notes c) > 500 then Inl (ValueError ''notes exceed 500 characters'')
      else if \<not> finite_within 0 False (7 * 86400) (c_exact_timeout_seconds c)
      then Inl (ValueError ''exact_timeout_seconds must be between 0 and 604800'')
      else if c_memory_high_bytes c \<noteq> 0 \<and> c_memory_limit_bytes c \<noteq> 0
          \<and> c_memory_high_bytes c > c_memory_limit_bytes c
      then Inl (ValueError ''memory_high_bytes cannot exceed memory_limit_bytes'')
      else Inr ())"

definition worker_candidate_budget :: "nat option \<Rightarrow> search_config \<Rightarrow> nat \<Rightarrow> int option" where
  "worker_candidate_budget cpu_count c worker_id =
     (if c_max_candidates c \<le> 0 then None
      else
        let worker_count = recommended_workers cpu_count (Some (nat (c_workers c))) 2
        in Some (c_max_candidates c div worker_count +
                 (if int worker_id < c_max_candidates c mod worker_count then 1 else 0)))"

section \<open>Scores\<close>

record score_payload =
  p_valid :: bool
  p_witness_counts :: "(nat \<times> nat) list"
  p_weighted_penalty :: nat
  p_complete :: bool
  p_novelty :: rat
  p_simplicity :: nat
  p_ordering_key :: score_key

text \<open>The dictionary keyed by the decimal text of the length is keyed by the length.\<close>

definition score_payload_of :: "score_result \<Rightarrow> score_payload" where
  "score_payload_of s =
     \<lparr>p_valid = s_valid s,
      p_witness_counts = fold (\<lambda>(len, k) d. AList.update len k d) (witness_counts s) [],
      p_weighted_penalty = weighted_penalty s, p_complete = s_complete s, p_novelty = novelty s,
      p_simplicity = simplicity s, p_ordering_key = ordering_key s\<rparr>"

definition score_from_payload :: "score_payload \<Rightarrow> score_result" where
  "score_from_payload p =
     \<lparr>s_valid = p_valid p, witness_counts = sort_key fst (p_witness_counts p),
      weighted_penalty = p_weighted_penalty p, s_complete = p_complete p, novelty = p_novelty p,
      simplicity = p_simplicity p\<rparr>"

definition scalar :: "score_result \<Rightarrow> rat" where
  "scalar s =
     (case ordering_key s of (inval, tot, weighted, nov, simpl) \<Rightarrow>
        of_int inval * 2000000 + of_int tot + of_int weighted / 2000000 +
        of_int nov / 4000000000000 + of_int simpl / 80000000000000000)"

definition novelty_of :: "bitgraph \<Rightarrow> bitgraph \<Rightarrow> rat" where
  "novelty_of graph elite =
     (let differing = sum_list (map2 (\<lambda>l r. bit_count (l XOR r)) (rows graph) (rows elite)) div 2;
          possible = max 1 (order graph * (order graph - 1) div 2)
      in of_nat differing / of_nat possible)"

section \<open>Scoring a graph\<close>

record score_env =
  client :: score_client
  spawns :: "worker_process option list"

definition take_spawn :: "score_env \<Rightarrow> worker_process option \<times> score_env" where
  "take_spawn env = (case spawns env of [] \<Rightarrow> (None, env) | p # ps \<Rightarrow> (p, env\<lparr>spawns := ps\<rparr>))"

text \<open>\<open>OSError\<close>, \<open>ScoreWorkerError\<close> and \<open>ValueError\<close> are caught, everything else propagates.\<close>

definition recoverable :: "py_error \<Rightarrow> bool" where
  "recoverable e = (case e of RuntimeError _ \<Rightarrow> True | ValueError _ \<Rightarrow> True | _ \<Rightarrow> False)"

definition score_attempt ::
  "plugin \<Rightarrow> int \<Rightarrow> bitgraph \<Rightarrow> score_env \<Rightarrow> score_result result \<times> score_env" where
  "score_attempt plg cap g env =
     (let node_budget = max 4096 (min 50000 (cap * 1024));
          (spawned, env1) = take_spawn env
      in case score spawned (client env1) g (map int (plugin_lengths plg (order g))) (cap + 1)
             node_budget None False False of
           (Inl e, cl) \<Rightarrow> (Inl e, env1\<lparr>client := cl\<rparr>)
         | (Inr resp, cl) \<Rightarrow>
             (rbind (score_from_cycle_counts (plugin_lengths plg) (plugin_validate plg) g (nat cap)
                (results resp) None None) (\<lambda>(s, _). Inr s), env1\<lparr>client := cl\<rparr>))"

definition mandatory_failure :: py_error where
  "mandatory_failure = RuntimeError ''mandatory C++ score worker failed after one restart''"

definition score_graph ::
  "plugin \<Rightarrow> int \<Rightarrow> bitgraph \<Rightarrow> score_env \<Rightarrow> score_result result \<times> score_env" where
  "score_graph plg cap g env =
     (case score_attempt plg cap g env of
        (Inr s, env1) \<Rightarrow> (Inr s, env1)
      | (Inl e, env1) \<Rightarrow>
          if \<not> recoverable e then (Inl e, env1)
          else
            let (spawned, env2) = take_spawn env1
            in case restart spawned (client env2) of
                 (Inl _, cl) \<Rightarrow> (Inl mandatory_failure, env2\<lparr>client := cl\<rparr>)
               | (Inr _, cl) \<Rightarrow>
                   (case score_attempt plg cap g (env2\<lparr>client := cl\<rparr>) of
                      (Inr s, env3) \<Rightarrow> (Inr s, env3)
                    | (Inl e', env3) \<Rightarrow> (Inl (if recoverable e' then mandatory_failure else e'), env3)))"

section \<open>The worker\<close>

record checkpoint =
  k_graph6 :: "int list"
  k_score :: score_payload
  k_best_graph6 :: "int list"
  k_best_score :: score_payload
  k_rng :: rng
  k_evaluated :: nat
  k_lifetime_evaluated :: nat
  k_algorithm_evaluated :: nat
  k_stagnation :: nat
  k_tabu :: "string list"
  k_next_restart :: nat

datatype message =
    Checkpoint checkpoint
  | Improvement "int list" score_payload
  | Metrics nat nat nat nat
  | Exit string nat nat nat nat

record worker_state =
  w_graph :: bitgraph
  w_score :: score_result
  w_best_graph :: bitgraph
  w_best_score :: score_result
  w_stagnation :: nat
  w_tabu :: "string list"
  w_algorithm_evaluated :: nat
  w_next_restart :: nat
  w_evaluated :: nat
  w_accepted :: nat
  w_improvements :: nat
  w_legal :: nat
  w_lifetime :: nat
  w_rng :: rng
  w_env :: score_env
  w_sent :: "message list"

record search_params =
  sp_plugin :: plugin
  sp_config :: search_config
  sp_stable_hash :: "bitgraph \<Rightarrow> string"
  sp_metropolis :: "rat \<Rightarrow> rat \<Rightarrow> nat \<Rightarrow> bool"
  sp_budget :: "int option"

definition checkpoint_payload :: "worker_state \<Rightarrow> checkpoint result" where
  "checkpoint_payload s =
     rbind (to_graph6 (w_graph s)) (\<lambda>g6. rbind (to_graph6 (w_best_graph s)) (\<lambda>b6.
       Inr \<lparr>k_graph6 = g6, k_score = score_payload_of (w_score s), k_best_graph6 = b6,
            k_best_score = score_payload_of (w_best_score s), k_rng = w_rng s,
            k_evaluated = w_evaluated s, k_lifetime_evaluated = w_lifetime s + w_evaluated s,
            k_algorithm_evaluated = w_algorithm_evaluated s, k_stagnation = w_stagnation s,
            k_tabu = w_tabu s, k_next_restart = w_next_restart s\<rparr>))"

definition send :: "message \<Rightarrow> worker_state \<Rightarrow> worker_state" where
  "send m s = s\<lparr>w_sent := w_sent s @ [m]\<rparr>"

definition send_checkpoint :: "worker_state \<Rightarrow> worker_state result" where
  "send_checkpoint s = rbind (checkpoint_payload s) (\<lambda>k. Inr (send (Checkpoint k) s))"

text \<open>A fresh seed with its score; \<open>nov\<close> gives the novelty of the seed.\<close>

definition seeded ::
  "search_params \<Rightarrow> rng \<Rightarrow> score_env \<Rightarrow> (bitgraph \<Rightarrow> rat) \<Rightarrow>
   (bitgraph \<times> score_result \<times> rng \<times> score_env) result" where
  "seeded sp r env nov =
     rbind (fst (generate_seed r (Given (c_order (sp_config sp))) (Some (c_mode (sp_config sp)))
        new_seed_trace)) (\<lambda>(g, r').
       case score_graph (sp_plugin sp) (c_witness_cap (sp_config sp)) g env of
         (Inl e, _) \<Rightarrow> Inl e
       | (Inr s, env') \<Rightarrow> Inr (g, s\<lparr>novelty := nov g\<rparr>, r', env'))"

definition start_fresh :: "search_params \<Rightarrow> rng \<Rightarrow> score_env \<Rightarrow> worker_state result" where
  "start_fresh sp r env =
     rbind (seeded sp r env (\<lambda>_. 1)) (\<lambda>(g, s, r', env').
       Inr \<lparr>w_graph = g, w_score = s, w_best_graph = g, w_best_score = s, w_stagnation = 0,
            w_tabu = [sp_stable_hash sp g], w_algorithm_evaluated = 0, w_next_restart = 50000,
            w_evaluated = 0, w_accepted = 0, w_improvements = 0, w_legal = 0, w_lifetime = 0,
            w_rng = r', w_env = env', w_sent = []\<rparr>)"

definition last_n :: "nat \<Rightarrow> 'a list \<Rightarrow> 'a list" where
  "last_n k xs = drop (length xs - k) xs"

definition start_resumed :: "checkpoint \<Rightarrow> score_env \<Rightarrow> worker_state result" where
  "start_resumed k env =
     rbind (from_graph6 (k_graph6 k)) (\<lambda>g. rbind (from_graph6 (k_best_graph6 k)) (\<lambda>b.
       Inr \<lparr>w_graph = g, w_score = score_from_payload (k_score k), w_best_graph = b,
            w_best_score = score_from_payload (k_best_score k), w_stagnation = k_stagnation k,
            w_tabu = last_n 128 (k_tabu k), w_algorithm_evaluated = k_algorithm_evaluated k,
            w_next_restart = k_next_restart k, w_evaluated = 0, w_accepted = 0, w_improvements = 0,
            w_legal = 0, w_lifetime = k_lifetime_evaluated k, w_rng = k_rng k, w_env = env,
            w_sent = []\<rparr>))"

section \<open>One round\<close>

definition reseed :: "search_params \<Rightarrow> worker_state \<Rightarrow> worker_state result" where
  "reseed sp s =
     (if c_algorithm (sp_config sp) = ''simulated_annealing'' \<and> w_algorithm_evaluated s \<ge> w_next_restart s
      then rbind (seeded sp (w_rng s) (w_env s) (\<lambda>g. novelty_of g (w_best_graph s))) (\<lambda>(g, sc, r', env').
        Inr (s\<lparr>w_graph := g, w_score := sc, w_tabu := [sp_stable_hash sp g], w_stagnation := 0,
               w_next_restart := w_next_restart s + 50000, w_rng := r', w_env := env'\<rparr>))
      else Inr s)"

definition temperature :: "nat \<Rightarrow> rat" where
  "temperature k = max (1 / 20) (8 * (9995 / 10000) ^ (k mod 20000))"

text \<open>The acceptance test; it may reset the stagnation counter, draw, and update the tabu list.\<close>

definition judge :: "search_params \<Rightarrow> bitgraph \<Rightarrow> score_result \<Rightarrow> worker_state \<Rightarrow> bool \<times> worker_state" where
  "judge sp cand csc s =
     (if c_algorithm (sp_config sp) = ''simulated_annealing''
      then
        let temp = (if w_stagnation s > 2000 then 8 else temperature (w_algorithm_evaluated s));
            s1 = (if w_stagnation s > 2000 then s\<lparr>w_stagnation := 0\<rparr> else s);
            delta = scalar csc - scalar (w_score s)
        in if delta \<le> 0 then (True, s1)
           else let (k, r') = randbelow (2 ^ 53) (w_rng s1)
                in (sp_metropolis sp (min delta 700) temp k, s1\<lparr>w_rng := r'\<rparr>)
      else
        let key = sp_stable_hash sp cand;
            accept = (key \<notin> set (w_tabu s) \<and> key_le (ordering_key csc) (ordering_key (w_score s))
                      \<or> w_algorithm_evaluated s mod 64 = 0);
            tabu = w_tabu s @ [key]
        in (accept, if accept then s\<lparr>w_tabu := if length tabu > 128 then tl tabu else tabu\<rparr> else s))"

definition note_candidate :: "bitgraph \<Rightarrow> score_result \<Rightarrow> worker_state \<Rightarrow> worker_state result" where
  "note_candidate cand csc s =
     (if key_less (ordering_key csc) (ordering_key (w_best_score s))
      then rbind (to_graph6 cand) (\<lambda>g6.
        Inr (send (Improvement g6 (score_payload_of csc))
          (s\<lparr>w_best_graph := cand, w_best_score := csc, w_improvements := Suc (w_improvements s),
             w_stagnation := 0\<rparr>)))
      else Inr (s\<lparr>w_stagnation := Suc (w_stagnation s)\<rparr>))"

definition report :: "bool \<Rightarrow> worker_state \<Rightarrow> worker_state result" where
  "report due_now s =
     (if due_now
      then send_checkpoint (send (Metrics (w_evaluated s) (w_accepted s) (w_legal s) (w_improvements s)) s)
      else Inr s)"

definition plain_mutation :: "search_config \<Rightarrow> mutation_config" where
  "plain_mutation c = \<lparr>cfg_mode = Some (c_mode c), cfg_operator = None, cfg_profile = Absent,
     cfg_choices = None, cfg_context = Absent\<rparr>"

definition consider_candidate ::
  "search_params \<Rightarrow> bool \<Rightarrow> bitgraph \<Rightarrow> worker_state \<Rightarrow> worker_state result" where
  "consider_candidate sp due_now cand s =
     (let s1 = s\<lparr>w_legal := Suc (w_legal s)\<rparr>
      in case score_graph (sp_plugin sp) (c_witness_cap (sp_config sp)) cand (w_env s1) of
           (Inl e, _) \<Rightarrow> Inl e
         | (Inr sc, env') \<Rightarrow>
             let csc = sc\<lparr>novelty := novelty_of cand (w_best_graph s1)\<rparr>;
                 (accept, s2) = judge sp cand csc (s1\<lparr>w_env := env'\<rparr>);
                 s3 = (if accept then s2\<lparr>w_graph := cand, w_score := csc, w_accepted := Suc (w_accepted s2)\<rparr>
                       else s2)
             in rbind (note_candidate cand csc s3) (report due_now))"

definition worker_round :: "search_params \<Rightarrow> bool \<Rightarrow> worker_state \<Rightarrow> worker_state result" where
  "worker_round sp due_now s =
     rbind (reseed sp s) (\<lambda>s1.
     rbind (mutate (plugin_lengths (sp_plugin sp)) (0, w_graph s1) (w_rng s1)
         (plain_mutation (sp_config sp))) (\<lambda>(cand, r', _).
       let s2 = s1\<lparr>w_rng := r', w_evaluated := Suc (w_evaluated s1),
                   w_algorithm_evaluated := Suc (w_algorithm_evaluated s1)\<rparr>
       in if cand = w_graph s2 then Inr s2 else consider_candidate sp due_now cand s2))"

section \<open>The loop\<close>

record tick =
  t_stop :: bool
  t_pause :: bool
  t_report :: bool

definition within_budget :: "search_params \<Rightarrow> worker_state \<Rightarrow> bool" where
  "within_budget sp s =
     (case sp_budget sp of None \<Rightarrow> True | Some b \<Rightarrow> int (w_lifetime s + w_evaluated s) < b)"

definition may_continue :: "search_params \<Rightarrow> worker_state \<Rightarrow> bool" where
  "may_continue sp s \<longleftrightarrow>
     int (w_evaluated s) < c_worker_recycle_candidates (sp_config sp) \<and> within_budget sp s"

definition finish :: "search_params \<Rightarrow> bool \<Rightarrow> worker_state \<Rightarrow> worker_state result" where
  "finish sp stopped s =
     rbind (send_checkpoint s) (\<lambda>s1.
       Inr (send (Exit (if stopped then ''stopped''
                        else if sp_budget sp \<noteq> None \<and> \<not> within_budget sp s1 then ''budget'' else ''recycle'')
              (w_evaluated s1) (w_accepted s1) (w_legal s1) (w_improvements s1)) s1))"

fun worker_loop :: "search_params \<Rightarrow> tick list \<Rightarrow> worker_state \<Rightarrow> worker_state result" where
  "worker_loop sp [] s = finish sp True s"
| "worker_loop sp (t # ts) s =
     (if t_stop t then finish sp True s
      else if \<not> may_continue sp s then finish sp False s
      else if t_pause t then worker_loop sp ts s
      else rbind (worker_round sp (t_report t) s) (worker_loop sp ts))"

definition worker ::
  "search_params \<Rightarrow> tick list \<Rightarrow> rng \<Rightarrow> score_env \<Rightarrow> checkpoint option \<Rightarrow> worker_state result" where
  "worker sp ts r env resume =
     rbind (case resume of None \<Rightarrow> start_fresh sp r env | Some k \<Rightarrow> start_resumed k env) (\<lambda>s0.
     rbind (send_checkpoint s0) (\<lambda>s1.
     rbind (to_graph6 (w_best_graph s1)) (\<lambda>b6.
       worker_loop sp ts (send (Improvement b6 (score_payload_of (w_best_score s1))) s1))))"

section \<open>Candidates stay valid\<close>

text \<open>What the mode promises of every graph the worker holds.\<close>

definition candidate_ok :: "search_params \<Rightarrow> bitgraph \<Rightarrow> bool" where
  "candidate_ok sp g \<longleftrightarrow>
     wf_graph g \<and> int (order g) = c_order (sp_config sp) \<and> eg_valid g \<and>
     (c_mode (sp_config sp) = ''cubic_first'' \<longrightarrow> (\<forall>u<order g. degree g u = 3)) \<and>
     (c_mode (sp_config sp) = ''minimal_structure_mixed_degree'' \<longrightarrow> minimal_structure_valid g)"

lemma generate_seed_mode:
  assumes "generate_seed r (Given n) (Some m) tr = (Inr x, tr')"
  shows "generator_mode tr' = (if m = ''unrestricted_min_degree_3'' \<and> odd (nat n)
    then ''minimal_structure_mixed_degree'' else m)"
  using assms
  by (auto simp: generate_seed_def Let_def finish_seed_def split: option.splits if_splits sum.splits prod.splits)

lemma seeded_Inr:
  assumes "seeded sp r env nov = Inr (g, s, r', env')"
  shows "candidate_ok sp g"
proof -
  let ?m = "c_mode (sp_config sp)" and ?n = "c_order (sp_config sp)"
  obtain r1 tr' where gen: "generate_seed r (Given ?n) (Some ?m) new_seed_trace = (Inr (g, r1), tr')"
  proof -
    obtain res tr' where gen: "generate_seed r (Given ?n) (Some ?m) new_seed_trace = (res, tr')" by fastforce
    then obtain g' r1 where res: "res = Inr (g', r1)"
      using assms by (cases res) (auto simp: seeded_def)
    have "g' = g"
      using assms gen res
      by (cases "score_graph (sp_plugin sp) (c_witness_cap (sp_config sp)) g' env")
        (auto simp: seeded_def split: sum.splits)
    with gen res that show thesis by blast
  qed
  have "?m = ''cubic_first'' \<Longrightarrow> generator_mode tr' \<noteq> ''minimal_structure_mixed_degree''"
    using generate_seed_mode [OF gen] by simp
  moreover have "?m = ''minimal_structure_mixed_degree'' \<Longrightarrow> generator_mode tr' = ''minimal_structure_mixed_degree''"
    using generate_seed_mode [OF gen] by simp
  ultimately show ?thesis
    using generate_seed_Inr [OF gen] by (auto simp: candidate_ok_def eg_valid_def)
qed

lemma mutate_candidate_ok:
  assumes "candidate_ok sp g"
  obtains cand r' cfg' where "mutate lens (0, g) r (plain_mutation (sp_config sp)) = Inr (cand, r', cfg')"
    "candidate_ok sp cand"
proof -
  have c: "config_ok lens (\<lambda>_. g) 0 (plain_mutation (sp_config sp))"
    by (simp add: config_ok_def plain_mutation_def)
  obtain mr r' cfg' where m: "mutate_with_delta lens (0, g) r (plain_mutation (sp_config sp)) = Inr (mr, r', cfg')"
    "mutated g (c_mode (sp_config sp)) mr"
    using mutate_with_delta_ok [of "\<lambda>_. g" 0, OF _ _ c, of r] assms
    by (auto simp: candidate_ok_def plain_mutation_def)
  have wf: "wf_graph (mr_graph mr)" "order (mr_graph mr) = order g"
    using m(2) by (auto simp: mutated_def delta_ok_def)
  have "degree (mr_graph mr) u = degree g u" if "u < order g" "c_mode (sp_config sp) = ''cubic_first''" for u
  proof -
    have "degree_sequence (mr_graph mr) = degree_sequence g" using m(2) that by (simp add: mutated_def)
    then have "degree_sequence (mr_graph mr) ! u = degree_sequence g ! u" by simp
    moreover have "length (rows g) = order g" "length (rows (mr_graph mr)) = order g"
      using wf_length [OF wf(1)] wf(2) assms wf_length by (auto simp: candidate_ok_def)
    ultimately show ?thesis using that by (simp add: degree_sequence_def degree_def)
  qed
  then have "candidate_ok sp (mr_graph mr)"
    using assms m(2) wf by (auto simp: candidate_ok_def mutated_def)
  with that m(1) show thesis by (simp add: mutate_def)
qed

lemma graph6_decode: "wf_graph g \<Longrightarrow> to_graph6 g = Inr enc \<Longrightarrow> from_graph6 enc = Inr g"
  using graph6_file_round_trip [of g enc] by (simp add: from_graph6_def strip_newline)

section \<open>The invariant of the worker\<close>

text \<open>Graphs in messages decode to valid candidates.\<close>

definition names_candidate :: "search_params \<Rightarrow> int list \<Rightarrow> bool" where
  "names_candidate sp bytes \<longleftrightarrow> (\<exists>g. from_graph6 bytes = Inr g \<and> candidate_ok sp g)"

fun message_ok :: "search_params \<Rightarrow> message \<Rightarrow> bool" where
  "message_ok sp (Checkpoint k) = (names_candidate sp (k_graph6 k) \<and> names_candidate sp (k_best_graph6 k))"
| "message_ok sp (Improvement g6 p) = names_candidate sp g6"
| "message_ok sp (Metrics e a l i) = (a \<le> l \<and> i \<le> l \<and> l \<le> e)"
| "message_ok sp (Exit why e a l i) = (a \<le> l \<and> i \<le> l \<and> l \<le> e)"

fun improvement_key :: "message \<Rightarrow> score_key option" where
  "improvement_key (Improvement g6 p) = Some (p_ordering_key p)"
| "improvement_key _ = None"

definition improvement_keys :: "message list \<Rightarrow> score_key list" where
  "improvement_keys ms = List.map_filter improvement_key ms"

lemma improvement_keys_snoc:
  "improvement_keys (ms @ [m]) = improvement_keys ms @ (case improvement_key m of None \<Rightarrow> [] | Some k \<Rightarrow> [k])"
  by (simp add: improvement_keys_def map_filter_def split: option.split)

definition decreasing :: "score_key list \<Rightarrow> bool" where
  "decreasing = sorted_wrt (\<lambda>k l. key_less l k)"

definition counters_ok :: "worker_state \<Rightarrow> bool" where
  "counters_ok s \<longleftrightarrow> w_accepted s \<le> w_legal s \<and> w_improvements s \<le> w_legal s \<and> w_legal s \<le> w_evaluated s"

definition worker_inv :: "search_params \<Rightarrow> worker_state \<Rightarrow> bool" where
  "worker_inv sp s \<longleftrightarrow>
     candidate_ok sp (w_graph s) \<and> candidate_ok sp (w_best_graph s) \<and> length (w_tabu s) \<le> 128 \<and>
     counters_ok s \<and> (\<forall>m\<in>set (w_sent s). message_ok sp m) \<and> decreasing (improvement_keys (w_sent s)) \<and>
     (\<forall>k\<in>set (improvement_keys (w_sent s)). key_le (ordering_key (w_best_score s)) k)"

lemma key_less_trans: "key_less a b \<Longrightarrow> key_less b c \<Longrightarrow> key_less a c"
  by (cases a; cases b; cases c) auto

lemma key_less_le_trans: "key_less a b \<Longrightarrow> key_le b c \<Longrightarrow> key_less a c"
  unfolding key_le_def using key_less_trans by blast

lemma names_candidateI: "candidate_ok sp g \<Longrightarrow> to_graph6 g = Inr enc \<Longrightarrow> names_candidate sp enc"
  using graph6_decode by (auto simp: names_candidate_def candidate_ok_def)

lemma send_fields [simp]:
  "w_evaluated (send m s) = w_evaluated s" "w_lifetime (send m s) = w_lifetime s"
  "w_accepted (send m s) = w_accepted s" "w_legal (send m s) = w_legal s"
  "w_improvements (send m s) = w_improvements s" "w_sent (send m s) = w_sent s @ [m]"
  "within_budget sp (send m s) = within_budget sp s" "w_best_graph (send m s) = w_best_graph s"
  "w_best_score (send m s) = w_best_score s"
  by (simp_all add: send_def within_budget_def split: option.split)

lemma send_checkpoint_inv:
  assumes "send_checkpoint s = Inr s'" "worker_inv sp s"
  shows "worker_inv sp s'" "w_evaluated s' = w_evaluated s" "w_lifetime s' = w_lifetime s"
    "\<exists>k. w_sent s' = w_sent s @ [Checkpoint k]"
proof -
  obtain g6 b6 k where k: "to_graph6 (w_graph s) = Inr g6" "to_graph6 (w_best_graph s) = Inr b6"
    "s' = send (Checkpoint k) s" "k_graph6 k = g6" "k_best_graph6 k = b6"
    using assms(1) by (auto simp: send_checkpoint_def checkpoint_payload_def rbind_Inr_iff)
  then have "message_ok sp (Checkpoint k)"
    using names_candidateI assms(2) by (auto simp: worker_inv_def)
  then show "worker_inv sp s'" using assms(2) k(3)
    by (simp add: worker_inv_def send_def counters_ok_def improvement_keys_snoc)
  show "w_evaluated s' = w_evaluated s" "w_lifetime s' = w_lifetime s"
    "\<exists>k. w_sent s' = w_sent s @ [Checkpoint k]"
    using k(3) by (auto simp: send_def)
qed

lemma report_inv:
  assumes "report b s = Inr s'" "worker_inv sp s"
  shows "worker_inv sp s' \<and> w_evaluated s' = w_evaluated s \<and> w_lifetime s' = w_lifetime s"
proof (cases b)
  case True
  let ?s1 = "send (Metrics (w_evaluated s) (w_accepted s) (w_legal s) (w_improvements s)) s"
  have "worker_inv sp ?s1"
    using assms(2) by (simp add: worker_inv_def send_def counters_ok_def improvement_keys_snoc)
  then show ?thesis using send_checkpoint_inv [of ?s1 s'] assms(1) True by (auto simp: report_def send_def)
qed (use assms in \<open>simp add: report_def\<close>)

lemma reseed_inv:
  assumes "reseed sp s = Inr s'" "worker_inv sp s"
  shows "worker_inv sp s' \<and> w_evaluated s' = w_evaluated s \<and> w_lifetime s' = w_lifetime s \<and>
    w_sent s' = w_sent s"
  using assms seeded_Inr
  by (auto simp: reseed_def rbind_Inr_iff worker_inv_def counters_ok_def split: if_splits)

lemma judge_keeps:
  assumes "judge sp cand csc s = (acc, s')" "length (w_tabu s) \<le> 128"
  shows "w_graph s' = w_graph s" "w_best_graph s' = w_best_graph s" "w_best_score s' = w_best_score s"
    "length (w_tabu s') \<le> 128" "w_accepted s' = w_accepted s" "w_improvements s' = w_improvements s"
    "w_legal s' = w_legal s" "w_evaluated s' = w_evaluated s" "w_lifetime s' = w_lifetime s"
    "w_sent s' = w_sent s"
  using assms by (auto simp: judge_def Let_def split: if_splits prod.splits)

lemma note_candidate_inv:
  assumes n: "note_candidate cand csc s = Inr s'" and c: "candidate_ok sp cand"
    and s: "worker_inv sp s" "w_improvements s < w_legal s"
  shows "worker_inv sp s' \<and> w_evaluated s' = w_evaluated s \<and> w_lifetime s' = w_lifetime s"
proof (cases "key_less (ordering_key csc) (ordering_key (w_best_score s))")
  case True
  then obtain g6 where g6: "to_graph6 cand = Inr g6"
    "s' = send (Improvement g6 (score_payload_of csc))
      (s\<lparr>w_best_graph := cand, w_best_score := csc, w_improvements := Suc (w_improvements s), w_stagnation := 0\<rparr>)"
    using n by (auto simp: note_candidate_def rbind_Inr_iff)
  have "key_less (ordering_key csc) k" if "k \<in> set (improvement_keys (w_sent s))" for k
    using s(1) True that key_less_le_trans by (auto simp: worker_inv_def)
  then show ?thesis
    using s c g6(2) names_candidateI [OF c g6(1)]
    by (auto simp: worker_inv_def send_def counters_ok_def improvement_keys_snoc decreasing_def
        sorted_wrt_append score_payload_of_def key_le_def)
qed (use n s in \<open>auto simp: note_candidate_def worker_inv_def counters_ok_def\<close>)

lemma consider_candidate_inv:
  assumes r: "consider_candidate sp b cand s = Inr s'" and c: "candidate_ok sp cand"
    and s: "worker_inv sp s" "w_legal s < w_evaluated s"
  shows "worker_inv sp s' \<and> w_evaluated s' = w_evaluated s \<and> w_lifetime s' = w_lifetime s"
proof -
  let ?s1 = "s\<lparr>w_legal := Suc (w_legal s)\<rparr>"
  obtain sc env' where sc: "score_graph (sp_plugin sp) (c_witness_cap (sp_config sp)) cand (w_env s) = (Inr sc, env')"
    using r by (cases "score_graph (sp_plugin sp) (c_witness_cap (sp_config sp)) cand (w_env s)")
      (auto simp: consider_candidate_def Let_def split: sum.splits)
  define csc where "csc = sc\<lparr>novelty := novelty_of cand (w_best_graph s)\<rparr>"
  obtain acc s2 where j: "judge sp cand csc (?s1\<lparr>w_env := env'\<rparr>) = (acc, s2)" by fastforce
  let ?s3 = "if acc then s2\<lparr>w_graph := cand, w_score := csc, w_accepted := Suc (w_accepted s2)\<rparr> else s2"
  have "consider_candidate sp b cand s = rbind (note_candidate cand csc ?s3) (report b)"
    using sc j by (simp add: consider_candidate_def Let_def flip: csc_def)
  with r have "rbind (note_candidate cand csc ?s3) (report b) = Inr s'" by simp
  then obtain s4 where s4: "note_candidate cand csc ?s3 = Inr s4" "report b s4 = Inr s'"
    unfolding rbind_Inr_iff by blast
  have "length (w_tabu (?s1\<lparr>w_env := env'\<rparr>)) \<le> 128" using s(1) by (simp add: worker_inv_def)
  note jk = judge_keeps [OF j this]
  have s3: "worker_inv sp ?s3" "w_improvements ?s3 < w_legal ?s3" "w_evaluated ?s3 = w_evaluated s"
    "w_lifetime ?s3 = w_lifetime s"
    using s c jk by (auto simp: worker_inv_def counters_ok_def)
  from note_candidate_inv [OF s4(1) c s3(1,2)] report_inv [OF s4(2), of sp] s3(3,4) show ?thesis by simp
qed

lemma worker_round_inv:
  assumes "worker_round sp b s = Inr s'" "worker_inv sp s"
  shows "worker_inv sp s' \<and> w_evaluated s' = Suc (w_evaluated s) \<and> w_lifetime s' = w_lifetime s"
proof -
  obtain s1 where s1: "reseed sp s = Inr s1" using assms(1) by (auto simp: worker_round_def rbind_Inr_iff)
  note k = reseed_inv [OF s1 assms(2)]
  then have ok: "candidate_ok sp (w_graph s1)" by (simp add: worker_inv_def)
  obtain cand r' cfg' where m: "mutate (plugin_lengths (sp_plugin sp)) (0, w_graph s1) (w_rng s1)
      (plain_mutation (sp_config sp)) = Inr (cand, r', cfg')" "candidate_ok sp cand"
    by (rule mutate_candidate_ok [OF ok]) blast
  let ?s2 = "s1\<lparr>w_rng := r', w_evaluated := Suc (w_evaluated s1),
    w_algorithm_evaluated := Suc (w_algorithm_evaluated s1)\<rparr>"
  have s2: "worker_inv sp ?s2" "w_legal ?s2 < w_evaluated ?s2"
    using k by (auto simp: worker_inv_def counters_ok_def)
  have "s' = ?s2 \<or> consider_candidate sp b cand ?s2 = Inr s'"
    using assms(1) s1 m(1) by (auto simp: worker_round_def Let_def split: if_splits)
  then show ?thesis using consider_candidate_inv [OF _ m(2) s2] s2(1) k by auto
qed

lemma finish_inv:
  assumes "finish sp stopped s = Inr s'" "worker_inv sp s"
  obtains k why where "worker_inv sp s'" "w_evaluated s' = w_evaluated s" "w_lifetime s' = w_lifetime s"
    "w_sent s' = w_sent s @ [Checkpoint k, Exit why (w_evaluated s) (w_accepted s') (w_legal s') (w_improvements s')]"
    "why = (if stopped then ''stopped''
            else if sp_budget sp \<noteq> None \<and> \<not> within_budget sp s' then ''budget'' else ''recycle'')"
proof -
  obtain s1 where s1: "send_checkpoint s = Inr s1"
    "s' = send (Exit (if stopped then ''stopped''
            else if sp_budget sp \<noteq> None \<and> \<not> within_budget sp s1 then ''budget'' else ''recycle'')
            (w_evaluated s1) (w_accepted s1) (w_legal s1) (w_improvements s1)) s1"
    using assms(1) by (auto simp: finish_def rbind_Inr_iff)
  note k = send_checkpoint_inv [OF s1(1) assms(2)]
  have "worker_inv sp s'" using k(1) s1(2)
    by (simp add: worker_inv_def send_def counters_ok_def improvement_keys_snoc)
  moreover have f: "within_budget sp s' = within_budget sp s1" "w_accepted s' = w_accepted s1"
    "w_legal s' = w_legal s1" "w_improvements s' = w_improvements s1" "w_evaluated s' = w_evaluated s1"
    "w_lifetime s' = w_lifetime s1"
    unfolding s1(2) by simp_all
  moreover obtain c where "w_sent s1 = w_sent s @ [Checkpoint c]" using k(4) by blast
  then have "w_sent s' = w_sent s @ [Checkpoint c, Exit (if stopped then ''stopped''
      else if sp_budget sp \<noteq> None \<and> \<not> within_budget sp s' then ''budget'' else ''recycle'')
      (w_evaluated s) (w_accepted s') (w_legal s') (w_improvements s')]"
    unfolding f using s1(2) k(2) by (simp add: send_def)
  ultimately show thesis using that k(2,3) by simp
qed

section \<open>What can end a worker early\<close>

definition worker_error :: "search_params \<Rightarrow> py_error \<Rightarrow> bool" where
  "worker_error sp e \<longleftrightarrow>
     e = mandatory_failure \<or> \<not> recoverable e \<or>
     (\<exists>r. fst (generate_seed r (Given (c_order (sp_config sp))) (Some (c_mode (sp_config sp)))
        new_seed_trace) = Inl e)"

lemma score_graph_error: "score_graph plg cap g env = (Inl e, env') \<Longrightarrow> e = mandatory_failure \<or> \<not> recoverable e"
  by (auto simp: score_graph_def Let_def split: prod.splits sum.splits if_splits)

lemma seeded_error: "seeded sp r env nov = Inl e \<Longrightarrow> worker_error sp e"
  using score_graph_error
  by (cases "fst (generate_seed r (Given (c_order (sp_config sp))) (Some (c_mode (sp_config sp))) new_seed_trace)")
    (fastforce simp: seeded_def worker_error_def split: prod.splits sum.splits)+

lemma candidate_encodes:
  assumes "candidate_ok sp g" "c_order (sp_config sp) \<le> 128"
  obtains enc where "to_graph6 g = Inr enc"
  using graph6_encodes [of g] assms by (auto simp: candidate_ok_def)

lemma send_checkpoint_ok:
  assumes "worker_inv sp s" "c_order (sp_config sp) \<le> 128"
  obtains s' where "send_checkpoint s = Inr s'"
proof -
  have "candidate_ok sp (w_graph s)" "candidate_ok sp (w_best_graph s)" using assms(1) by (auto simp: worker_inv_def)
  then obtain a b where "to_graph6 (w_graph s) = Inr a" "to_graph6 (w_best_graph s) = Inr b"
    using candidate_encodes assms(2) by metis
  then show thesis using that by (simp add: send_checkpoint_def checkpoint_payload_def)
qed

lemma report_ok:
  assumes "worker_inv sp s" "c_order (sp_config sp) \<le> 128"
  obtains s' where "report b s = Inr s'"
proof -
  have "worker_inv sp (send (Metrics (w_evaluated s) (w_accepted s) (w_legal s) (w_improvements s)) s)"
    using assms(1) by (simp add: worker_inv_def send_def counters_ok_def improvement_keys_snoc)
  from send_checkpoint_ok [OF this assms(2)] obtain s' where
    "send_checkpoint (send (Metrics (w_evaluated s) (w_accepted s) (w_legal s) (w_improvements s)) s) = Inr s'" .
  with that show thesis by (cases b) (auto simp: report_def)
qed

lemma note_candidate_ok: "to_graph6 cand = Inr enc \<Longrightarrow> \<exists>s'. note_candidate cand csc s = Inr s'"
  by (simp add: note_candidate_def)

lemma finish_ok:
  assumes "worker_inv sp s" "c_order (sp_config sp) \<le> 128"
  obtains s' where "finish sp stopped s = Inr s'"
proof -
  obtain s1 where "send_checkpoint s = Inr s1" using send_checkpoint_ok [OF assms] .
  with that show thesis by (simp add: finish_def)
qed

lemma worker_round_error:
  assumes "worker_round sp b s = Inl e" "worker_inv sp s" "c_order (sp_config sp) \<le> 128"
  shows "worker_error sp e"
proof (cases "reseed sp s")
  case (Inl e')
  then show ?thesis using assms(1) seeded_error
    by (auto simp: worker_round_def reseed_def rbind_def split: if_splits sum.splits prod.splits)
next
  case (Inr s1)
  note k = reseed_inv [OF Inr assms(2)]
  then have ok: "candidate_ok sp (w_graph s1)" by (simp add: worker_inv_def)
  obtain cand r' cfg' where m: "mutate (plugin_lengths (sp_plugin sp)) (0, w_graph s1) (w_rng s1)
      (plain_mutation (sp_config sp)) = Inr (cand, r', cfg')" "candidate_ok sp cand"
    by (rule mutate_candidate_ok [OF ok]) blast
  let ?s2 = "s1\<lparr>w_rng := r', w_evaluated := Suc (w_evaluated s1),
    w_algorithm_evaluated := Suc (w_algorithm_evaluated s1)\<rparr>"
  have s2: "worker_inv sp ?s2" "w_legal ?s2 < w_evaluated ?s2"
    using k by (auto simp: worker_inv_def counters_ok_def)
  have err: "consider_candidate sp b cand ?s2 = Inl e"
    using assms(1) Inr m(1) by (simp add: worker_round_def Let_def split: if_splits)
  obtain res env' where sc: "score_graph (sp_plugin sp) (c_witness_cap (sp_config sp)) cand (w_env ?s2) = (res, env')"
    by fastforce
  show ?thesis
  proof (cases res)
    case (Inl e')
    have "e = e'" using err sc Inl by (simp add: consider_candidate_def Let_def)
    then show ?thesis using score_graph_error sc Inl unfolding worker_error_def by metis
  next
    case res: (Inr sc')
    define csc where "csc = sc'\<lparr>novelty := novelty_of cand (w_best_graph s1)\<rparr>"
    let ?s3 = "?s2\<lparr>w_legal := Suc (w_legal s1), w_env := env'\<rparr>"
    obtain acc s4 where j: "judge sp cand csc ?s3 = (acc, s4)" by fastforce
    let ?s5 = "if acc then s4\<lparr>w_graph := cand, w_score := csc, w_accepted := Suc (w_accepted s4)\<rparr> else s4"
    have "length (w_tabu ?s3) \<le> 128" using s2(1) by (simp add: worker_inv_def)
    note jk = judge_keeps [OF j this]
    have s5: "worker_inv sp ?s5" "w_improvements ?s5 < w_legal ?s5"
      using s2 m(2) jk by (auto simp: worker_inv_def counters_ok_def)
    have eq: "consider_candidate sp b cand ?s2 = rbind (note_candidate cand csc ?s5) (report b)"
      using sc res j by (simp add: consider_candidate_def Let_def flip: csc_def)
    obtain enc where "to_graph6 cand = Inr enc" using candidate_encodes [OF m(2) assms(3)] .
    then obtain s6 where s6: "note_candidate cand csc ?s5 = Inr s6"
      using note_candidate_ok by blast
    from note_candidate_inv [OF s6 m(2) s5] have "worker_inv sp s6" by simp
    then obtain s7 where "report b s6 = Inr s7" using report_ok assms(3) by blast
    then show ?thesis using eq s6 err by simp
  qed
qed

text \<open>The number of rounds the quota of the worker still allows, counted from above.\<close>

definition quota_left :: "search_params \<Rightarrow> worker_state \<Rightarrow> int" where
  "quota_left sp s = c_worker_recycle_candidates (sp_config sp) - int (w_evaluated s)"

definition active :: "tick list \<Rightarrow> nat" where
  "active ts = length (filter (\<lambda>t. \<not> t_pause t) ts)"

definition within_quota :: "search_params \<Rightarrow> worker_state \<Rightarrow> bool" where
  "within_quota sp s \<longleftrightarrow> 0 \<le> quota_left sp s \<and>
     (\<forall>b. sp_budget sp = Some b \<longrightarrow> int (w_lifetime s + w_evaluated s) \<le> max b (int (w_lifetime s)))"

text \<open>How a loop ends: with one of the errors, or with the invariant and a closing message.\<close>

definition loop_outcome :: "search_params \<Rightarrow> bool \<Rightarrow> worker_state result \<Rightarrow> bool" where
  "loop_outcome sp live res \<longleftrightarrow>
     (case res of
        Inl e \<Rightarrow> worker_error sp e
      | Inr s \<Rightarrow> worker_inv sp s \<and> within_quota sp s \<and>
          (\<exists>ms why. w_sent s = ms @ [Exit why (w_evaluated s) (w_accepted s) (w_legal s) (w_improvements s)] \<and>
             (live \<longrightarrow> \<not> may_continue sp s \<and>
                why = (if within_budget sp s then ''recycle'' else ''budget''))))"

lemma loop_outcome_mono: "loop_outcome sp live res \<Longrightarrow> (live' \<Longrightarrow> live) \<Longrightarrow> loop_outcome sp live' res"
  unfolding loop_outcome_def by (auto split: sum.splits)

lemma finish_outcome:
  assumes "worker_inv sp s" "within_quota sp s" "c_order (sp_config sp) \<le> 128"
  shows "loop_outcome sp (\<not> stopped \<and> \<not> may_continue sp s) (finish sp stopped s)"
proof -
  obtain s' where s': "finish sp stopped s = Inr s'" using finish_ok [OF assms(1,3)] .
  from finish_inv [OF this assms(1)] obtain k why where f: "worker_inv sp s'"
    "w_evaluated s' = w_evaluated s" "w_lifetime s' = w_lifetime s"
    "w_sent s' = w_sent s @ [Checkpoint k, Exit why (w_evaluated s) (w_accepted s') (w_legal s') (w_improvements s')]"
    "why = (if stopped then ''stopped''
          else if sp_budget sp \<noteq> None \<and> \<not> within_budget sp s' then ''budget'' else ''recycle'')" .
  have "within_budget sp s' = within_budget sp s" "\<not> within_budget sp s' \<Longrightarrow> sp_budget sp \<noteq> None"
    using f(2,3) by (auto simp: within_budget_def split: option.splits)
  then have b: "\<not> stopped \<and> \<not> may_continue sp s \<longrightarrow> \<not> may_continue sp s' \<and>
      why = (if within_budget sp s' then ''recycle'' else ''budget'')"
    using f(2,5) by (auto simp: may_continue_def)
  have "within_quota sp s'" using assms(2) f(2,3) by (simp add: within_quota_def quota_left_def)
  with b f(1,2,4) s' show ?thesis by (simp add: loop_outcome_def)
qed

lemma worker_loop_outcome:
  "worker_inv sp s \<Longrightarrow> within_quota sp s \<Longrightarrow> c_order (sp_config sp) \<le> 128 \<Longrightarrow>
   loop_outcome sp ((\<forall>t\<in>set ts. \<not> t_stop t) \<and> quota_left sp s < int (active ts)) (worker_loop sp ts s)"
proof (induction sp ts s rule: worker_loop.induct)
  case (1 sp s)
  have "\<not> quota_left sp s < int (active [])" using 1(2) by (simp add: within_quota_def active_def)
  then show ?case using loop_outcome_mono [OF finish_outcome [OF 1, of True]] by simp
next
  case (2 sp t ts s)
  note fin = finish_outcome [OF "2.prems"]
  consider (stop) "t_stop t" | (over) "\<not> t_stop t" "\<not> may_continue sp s"
    | (pause) "\<not> t_stop t" "may_continue sp s" "t_pause t"
    | (run) "\<not> t_stop t" "may_continue sp s" "\<not> t_pause t" by blast
  then show ?case
  proof cases
    case stop
    then show ?thesis using loop_outcome_mono [OF fin [of True]] by simp
  next
    case over
    then show ?thesis using loop_outcome_mono [OF fin [of False]] by simp
  next
    case pause
    have "active (t # ts) = active ts" using pause by (simp add: active_def)
    then show ?thesis using pause "2.IH"(1) "2.prems" by simp
  next
    case run
    have act: "active (t # ts) = Suc (active ts)" using run by (simp add: active_def)
    show ?thesis
    proof (cases "worker_round sp (t_report t) s")
      case (Inl e)
      then show ?thesis using run worker_round_error [OF Inl "2.prems"(1,3)] by (simp add: loop_outcome_def)
    next
      case (Inr s1)
      note k = worker_round_inv [OF Inr "2.prems"(1)]
      have q: "within_quota sp s1" "quota_left sp s1 = quota_left sp s - 1"
        using k run(2) "2.prems"(2)
        by (auto simp: within_quota_def quota_left_def may_continue_def within_budget_def)
      have "worker_inv sp s1" using k by simp
      from "2.IH"(2) [OF run(1) _ run(3) Inr this q(1) "2.prems"(3)] run(2)
      have "loop_outcome sp ((\<forall>t\<in>set ts. \<not> t_stop t) \<and> quota_left sp s1 < int (active ts)) (worker_loop sp ts s1)"
        by simp
      then have "loop_outcome sp ((\<forall>t\<in>set (t # ts). \<not> t_stop t) \<and> quota_left sp s < int (active (t # ts)))
          (worker_loop sp ts s1)"
        by (rule loop_outcome_mono) (simp add: act q(2))
      then show ?thesis using run Inr by simp
    qed
  qed
qed

section \<open>The whole worker\<close>

lemma validate_Inr:
  assumes "validate c = Inr ()"
  shows "4 \<le> c_order c" "c_order c \<le> 128" "1 \<le> c_worker_recycle_candidates c" "0 \<le> c_max_candidates c"
    "1 \<le> c_workers c" "1 \<le> c_witness_cap c" "c_witness_cap c \<le> 10000" "c_mode c \<in> set MODES"
    "c_mode c = ''cubic_first'' \<Longrightarrow> even (c_order c)"
    "c_mode c = ''minimal_structure_mixed_degree'' \<Longrightarrow> 5 \<le> c_order c"
    "TARGETS (c_target c) \<noteq> None"
  using assms unfolding validate_def by (simp_all split: if_splits)

lemma start_fresh_inv:
  assumes "start_fresh sp r env = Inr s"
  shows "worker_inv sp s \<and> w_evaluated s = 0 \<and> w_sent s = []"
  using assms seeded_Inr
  by (auto simp: start_fresh_def rbind_Inr_iff worker_inv_def counters_ok_def improvement_keys_def
      decreasing_def List.map_filter_simps)

lemma start_resumed_inv:
  assumes "start_resumed k env = Inr s" "message_ok sp (Checkpoint k)"
  shows "worker_inv sp s \<and> w_evaluated s = 0 \<and> w_sent s = []"
  using assms
  by (auto simp: start_resumed_def rbind_Inr_iff worker_inv_def counters_ok_def improvement_keys_def
      decreasing_def List.map_filter_simps names_candidate_def last_n_def)

lemma worker_outcome:
  assumes "validate (sp_config sp) = Inr ()" "\<And>k. resume = Some k \<Longrightarrow> message_ok sp (Checkpoint k)"
  shows "loop_outcome sp ((\<forall>t\<in>set ts. \<not> t_stop t) \<and>
      c_worker_recycle_candidates (sp_config sp) < int (active ts)) (worker sp ts r env resume)"
proof -
  note c = validate_Inr [OF assms(1)]
  define entry where "entry = (case resume of None \<Rightarrow> start_fresh sp r env | Some k \<Rightarrow> start_resumed k env)"
  show ?thesis
  proof (cases entry)
    case (Inl e)
    have "worker_error sp e"
    proof (cases resume)
      case None
      then show ?thesis using Inl seeded_error
        by (auto simp: entry_def start_fresh_def rbind_def split: sum.splits)
    next
      case (Some k)
      then show ?thesis using Inl assms(2) by (auto simp: entry_def start_resumed_def names_candidate_def)
    qed
    then show ?thesis using Inl by (simp add: worker_def loop_outcome_def flip: entry_def)
  next
    case (Inr s0)
    then have s0: "worker_inv sp s0" "w_evaluated s0 = 0" "w_sent s0 = []"
      using start_fresh_inv start_resumed_inv assms(2) by (auto simp: entry_def split: option.splits)
    obtain s1 where s1: "send_checkpoint s0 = Inr s1" using send_checkpoint_ok [OF s0(1) c(2)] .
    note i1 = send_checkpoint_inv [OF s1 s0(1)]
    have best: "candidate_ok sp (w_best_graph s1)" using i1(1) by (simp add: worker_inv_def)
    obtain b6 where b6: "to_graph6 (w_best_graph s1) = Inr b6" using candidate_encodes [OF best c(2)] .
    let ?s2 = "send (Improvement b6 (score_payload_of (w_best_score s1))) s1"
    have "improvement_keys (w_sent s1) = []"
      using i1(4) s0(3) by (auto simp: improvement_keys_def List.map_filter_simps)
    then have s2: "worker_inv sp ?s2"
      using i1(1) names_candidateI [OF best b6]
      by (simp add: worker_inv_def improvement_keys_snoc decreasing_def score_payload_of_def key_le_def)
        (simp add: send_def counters_ok_def)
    have q: "within_quota sp ?s2" "quota_left sp ?s2 = c_worker_recycle_candidates (sp_config sp)"
      using c(3) i1(2) s0(2) by (auto simp: within_quota_def quota_left_def)
    have "worker sp ts r env resume = worker_loop sp ts ?s2"
      using Inr s1 b6 by (simp add: worker_def flip: entry_def)
    with worker_loop_outcome [OF s2 q(1) c(2), of ts] q(2) show ?thesis by simp
  qed
qed

section \<open>Checkpoints\<close>

definition canonical_score :: "score_result \<Rightarrow> bool" where
  "canonical_score s \<longleftrightarrow> sorted_wrt (<) (map fst (witness_counts s))"

lemma fold_update_distinct:
  "distinct (map fst (d @ xs)) \<Longrightarrow> fold (\<lambda>(k, v) d. AList.update k v d) xs d = d @ xs"
proof (induction xs arbitrary: d)
  case (Cons x xs)
  have "AList.update k v d = d @ [(k, v)]" if "k \<notin> fst ` set d" for k v
    using that by (induction d) auto
  with Cons show ?case by (cases x) auto
qed simp

lemma score_payload_round_trip: "canonical_score s \<Longrightarrow> score_from_payload (score_payload_of s) = s"
proof -
  assume c: "canonical_score s"
  then have "distinct (map fst (witness_counts s))" "sorted (map fst (witness_counts s))"
    by (simp_all add: canonical_score_def strict_sorted_iff)
  then show ?thesis
    using fold_update_distinct [of "[]" "witness_counts s"]
    by (simp add: score_from_payload_def score_payload_of_def sort_key_id_if_sorted sorted_map)
qed

section \<open>A validated configuration fits the components\<close>

lemma validated_seed_config:
  assumes "validate c = Inr ()"
  shows "seed_config_error (Given (c_order c)) (c_mode c) = None"
  using validate_Inr [OF assms] by (auto simp: seed_config_error_def MODES_def)

lemma pack_fields_ok: "\<forall>(k, v)\<in>set fs. 0 \<le> v \<and> v < 256 ^ k \<Longrightarrow> is_ok (pack_fields fs)"
proof (induction fs)
  case (Cons f fs)
  obtain k v where f: "f = (k, v)" by fastforce
  with Cons obtain bs where "pack_fields fs = Inr bs" by (auto simp: is_ok_iff)
  with Cons.prems f show ?case by (simp add: pack_u_def)
qed simp

lemma sorted_forbidden_from: "0 < c \<Longrightarrow> sorted_wrt (<) (forbidden_from c n) \<and> (\<forall>x\<in>set (forbidden_from c n). c \<le> x \<and> x \<le> n)"
proof (induction c n rule: forbidden_from.induct)
  case (1 c n)
  then show ?case by (subst (1 2) forbidden_from.simps) fastforce
qed

lemma plugin_lengths_ok:
  assumes "TARGETS t = Some plg"
  shows "sorted_wrt (<) (plugin_lengths plg n) \<and> (\<forall>x\<in>set (plugin_lengths plg n). 3 \<le> x \<and> x \<le> n)"
  using assms sorted_forbidden_from [of 4 n]
  by (force simp: TARGETS_def ERDOS_GYARFAS_def HIDDEN_WITNESS_def forbidden_lengths_def hw_forbidden_lengths_def
      split: if_splits)

lemma forbidden_lengths_few:
  assumes "n \<le> 128"
  shows "length (forbidden_lengths n) \<le> 64"
proof -
  have "k \<le> 7" if "(2::nat) ^ k \<le> n" for k
  proof -
    have "(2::nat) ^ k \<le> 2 ^ 7" using that assms by simp
    then show ?thesis by (simp only: power_increasing_iff)
  qed
  then have "set (forbidden_lengths n) \<subseteq> (\<lambda>k. 2 ^ k) ` {..7}" unfolding set_forbidden_lengths by auto
  then have "card (set (forbidden_lengths n)) \<le> card ((\<lambda>k. 2 ^ k :: nat) ` {..7})"
    by (intro card_mono) auto
  also have "\<dots> \<le> 8" by (rule order_trans [OF card_image_le]) auto
  finally have "card (set (forbidden_lengths n)) \<le> 8" .
  moreover have "distinct (forbidden_lengths n)"
    using sorted_forbidden_from [of 4 n] by (simp add: forbidden_lengths_def strict_sorted_iff)
  ultimately show ?thesis by (simp add: distinct_card)
qed

lemma plugin_lengths_few:
  "TARGETS t = Some plg \<Longrightarrow> n \<le> 128 \<Longrightarrow> length (plugin_lengths plg n) \<le> 64"
  using forbidden_lengths_few [of n]
  by (auto simp: TARGETS_def ERDOS_GYARFAS_def HIDDEN_WITNESS_def hw_forbidden_lengths_def split: if_splits)

lemma validated_request_plan:
  assumes "validate c = Inr ()" "TARGETS (c_target c) = Some plg"
  shows "is_ok (fresh_plan (make_key cl (nat (c_order c)) (map int (plugin_lengths plg (nat (c_order c))))
    (c_witness_cap c + 1) (max 4096 (min 50000 (c_witness_cap c * 1024))) False False False))"
proof -
  let ?n = "nat (c_order c)"
  let ?ls = "map int (plugin_lengths plg (nat (c_order c)))"
  let ?pb = "length ?ls * 2 + ?n * ((?n + 63) div 64) * 8"
  note v = validate_Inr [OF assms(1)]
  have n: "?n \<le> 128" using v(2) by simp
  have l: "sorted_wrt (<) (plugin_lengths plg ?n)" "\<forall>x\<in>set (plugin_lengths plg ?n). 3 \<le> x \<and> x \<le> ?n"
    using plugin_lengths_ok [OF assms(2), of ?n] by auto
  have len: "length ?ls \<le> 64" using plugin_lengths_few [OF assms(2) n] by simp
  have "sorted_wrt (<) ?ls" using l(1) by (simp add: sorted_wrt_map)
  then have srt: "sorted_list_of_set (set ?ls) = ?ls"
    by (metis sorted_list_of_set.idem_if_sorted_distinct strict_sorted_iff)
  have rng: "\<forall>x\<in>set ?ls. 3 \<le> x \<and> x \<le> int ?n" using l(2) by auto
  have "is_ok (pack_fields (map (Pair 2) ?ls))"
  proof (rule pack_fields_ok, clarify)
    fix k :: nat and v assume "(k, v) \<in> set (map (Pair 2) ?ls)"
    then have "k = 2" "3 \<le> v" "v \<le> int ?n" using rng by auto
    moreover have "int ?n \<le> 128" using n by linarith
    ultimately show "0 \<le> v \<and> v < 256 ^ k" by simp
  qed
  then obtain bs where bs: "pack_fields (map (Pair 2) ?ls) = Inr bs" unfolding is_ok_iff ..
  have "?n * ((?n + 63) div 64) \<le> 128 * 2" by (rule mult_le_mono) (use n in auto)
  then have "?pb < 65536" using len by linarith
  then have "is_ok (pack_fields [(2, PROTOCOL_VERSION), (2, COMMAND_SCORE), (4, int ?pb)])"
    by (intro pack_fields_ok) (auto simp: PROTOCOL_VERSION_def COMMAND_SCORE_def simp del: of_nat_add of_nat_mult)
  then obtain ps where ps: "request_prefix COMMAND_SCORE (int ?pb) = Inr ps"
    unfolding is_ok_iff request_prefix_def by (auto simp del: of_nat_add of_nat_mult)
  have "\<not> (c_witness_cap c + 1 < 1 \<or> max 4096 (min 50000 (c_witness_cap c * 1024)) < 1)" using v(6) by linarith
  moreover have "\<not> (length ?ls > 64 \<or> (\<exists>x\<in>set ?ls. x < 3 \<or> x > int ?n) \<or> sorted_list_of_set (set ?ls) \<noteq> ?ls)"
    using len rng srt by force
  ultimately show ?thesis
    using bs ps unfolding fresh_plan_def make_key_def prod.case Let_def by (simp add: is_ok_def)
qed

section \<open>Budgets\<close>

lemma recommended_workers_pos: "1 \<le> recommended_workers cpu req res"
  by (simp add: recommended_workers_def Let_def)

lemma share_sum:
  assumes "0 < w"
  shows "(\<Sum>i<w. int m div int w + (if int i < int m mod int w then 1 else 0)) = int m"
proof -
  have "{i. i < w \<and> int i < int m mod int w} = {..<m mod w}"
    using assms by (auto simp flip: zmod_int) (meson less_trans mod_less_divisor)
  then have "(\<Sum>i<w. if int i < int m mod int w then 1 else 0) = int (m mod w)"
    by (simp add: sum.If_cases Int_def lessThan_def)
  then show ?thesis by (simp add: sum.distrib flip: zdiv_int zmod_int)
      (metis div_mult_mod_eq mult.commute of_nat_add of_nat_mult)
qed

section \<open>A small run\<close>

definition k4_config :: search_config where
  "k4_config =
     \<lparr>c_target = ''erdos_gyarfas'', c_order = 4, c_mode = ''cubic_first'',
      c_algorithm = ''iterated_local_search'', c_workers = 3, c_seed = 1, c_wall_seconds = Fin 60,
      c_max_candidates = 10, c_witness_cap = 5, c_queue_capacity = 16, c_archive_top_k = 8,
      c_state_seconds = Fin 1, c_checkpoint_seconds = Fin 5, c_worker_recycle_candidates = 1,
      c_memory_high_bytes = 0, c_memory_limit_bytes = 0, c_min_free_disk_bytes = 0,
      c_max_log_bytes = 4096, c_notes = [], c_exact_timeout_seconds = Fin 30\<rparr>"

definition k4_params :: search_params where
  "k4_params = \<lparr>sp_plugin = ERDOS_GYARFAS, sp_config = k4_config, sp_stable_hash = (\<lambda>_. []),
     sp_metropolis = (\<lambda>_ _ _. False), sp_budget = None\<rparr>"

definition k4_score :: score_result where
  "k4_score = \<lparr>s_valid = True, witness_counts = [(4, 3)], weighted_penalty = 3, s_complete = True,
     novelty = 1, simplicity = 6\<rparr>"

definition k4_checkpoint :: checkpoint where
  "k4_checkpoint =
     \<lparr>k_graph6 = [67, 126], k_score = score_payload_of k4_score, k_best_graph6 = [67, 126],
      k_best_score = score_payload_of k4_score, k_rng = [], k_evaluated = 0, k_lifetime_evaluated = 7,
      k_algorithm_evaluated = 7, k_stagnation = 0, k_tabu = [], k_next_restart = 50\<rparr>"

definition idle_env :: score_env where
  "idle_env = \<lparr>client = \<lparr>binary_exists = False, cutoff_longest_first = False,
     prepared_request_cache_enabled = False, prepared_request_plan = None, process = None,
     request_id = 0\<rparr>, spawns = []\<rparr>"

definition running_tick :: tick where
  "running_tick = \<lparr>t_stop = False, t_pause = False, t_report = True\<rparr>"

lemma k4_config_valid: "validate k4_config = Inr ()"
  by (simp add: validate_def k4_config_def TARGETS_def ERDOS_GYARFAS_def MODES_def ALGORITHMS_def
      finite_within_def isfinite_def py_positive_def)

lemma k4_candidate: "candidate_ok k4_params k4"
proof -
  have "eg_valid k4" "\<forall>u\<in>set [0..<4]. degree k4 u = 3" by code_simp+
  then show ?thesis using wf_k4
    by (auto simp: candidate_ok_def k4_params_def k4_config_def k4_def)
qed

lemma k4_checkpoint_ok: "message_ok k4_params (Checkpoint k4_checkpoint)"
proof -
  have "from_graph6 [67, 126] = Inr k4" by code_simp
  then show ?thesis using k4_candidate by (simp add: names_candidate_def k4_checkpoint_def)
qed

lemma k4_run:
  "\<exists>s. worker k4_params [running_tick, running_tick] [] idle_env (Some k4_checkpoint) = Inr s \<and>
     w_evaluated s = 1 \<and> length (w_sent s) = 4"
proof -
  have "(case worker k4_params [running_tick, running_tick] [] idle_env (Some k4_checkpoint) of
     Inl _ \<Rightarrow> False | Inr s \<Rightarrow> w_evaluated s = 1 \<and> length (w_sent s) = 4)" by code_simp
  then show ?thesis by (simp split: sum.splits)
qed

lemma k4_run_quota: "(\<forall>t\<in>set [running_tick, running_tick]. \<not> t_stop t) \<and>
    c_worker_recycle_candidates (sp_config k4_params) < int (active [running_tick, running_tick])"
  by (simp add: running_tick_def k4_params_def k4_config_def active_def)

section \<open>Properties\<close>

text \<open>
  C3. A worker that returns has only ever published valid candidates: for a validated configuration
  and a checkpoint that names candidates, the current and the best graph and every graph in a
  message satisfy what the mode promises (well-formed, of the configured order, connected with
  minimum degree three, cubic or minimally structured where the mode says so); successive
  improvements have strictly decreasing ordering keys; accepted and improving candidates are
  counted among the legal ones and those among the evaluated ones, and the evaluated ones stay
  within the recycle limit and the candidate budget.
\<close>

theorem worker_keeps_candidates_valid:
  assumes "validate (sp_config sp) = Inr ()" "\<forall>k. resume = Some k \<longrightarrow> message_ok sp (Checkpoint k)"
    and "worker sp ts r env resume = Inr s"
  shows "candidate_ok sp (w_graph s) \<and> candidate_ok sp (w_best_graph s) \<and>
    (\<forall>m\<in>set (w_sent s). message_ok sp m) \<and> decreasing (improvement_keys (w_sent s)) \<and>
    w_accepted s \<le> w_legal s \<and> w_improvements s \<le> w_legal s \<and> w_legal s \<le> w_evaluated s \<and>
    int (w_evaluated s) \<le> c_worker_recycle_candidates (sp_config sp) \<and>
    (\<forall>b. sp_budget sp = Some b \<longrightarrow> int (w_lifetime s + w_evaluated s) \<le> max b (int (w_lifetime s)))"
  using worker_outcome [OF assms(1), of resume ts r env] assms(2,3)
  by (simp add: loop_outcome_def worker_inv_def counters_ok_def within_quota_def quota_left_def)

theorem worker_keeps_candidates_valid_witness:
  "\<exists>s. worker k4_params [running_tick, running_tick] [] idle_env (Some k4_checkpoint) = Inr s \<and>
     length (w_sent s) = 4 \<and> candidate_ok k4_params (w_graph s) \<and>
     message_ok k4_params (last (w_sent s))"
proof -
  obtain s where s: "worker k4_params [running_tick, running_tick] [] idle_env (Some k4_checkpoint) = Inr s"
    "length (w_sent s) = 4" using k4_run by blast
  have "validate (sp_config k4_params) = Inr ()" using k4_config_valid by (simp add: k4_params_def)
  moreover have "\<forall>k. Some k4_checkpoint = Some k \<longrightarrow> message_ok k4_params (Checkpoint k)"
    using k4_checkpoint_ok by simp
  ultimately have "candidate_ok k4_params (w_graph s)" "\<forall>m\<in>set (w_sent s). message_ok k4_params m"
    using worker_keeps_candidates_valid [OF _ _ s(1)] by blast+
  moreover have "w_sent s \<noteq> []" using s(2) by auto
  ultimately show ?thesis using s last_in_set by blast
qed

lemma spent_quota:
  assumes "\<not> may_continue sp s" "within_quota sp s"
  shows "if within_budget sp s
    then int (w_evaluated s) = c_worker_recycle_candidates (sp_config sp) \<and>
      (\<forall>b. sp_budget sp = Some b \<longrightarrow> int (w_lifetime s + w_evaluated s) < b)
    else \<exists>b. sp_budget sp = Some b \<and> int (w_lifetime s + w_evaluated s) = max b (int (w_lifetime s))"
  using assms by (auto simp: may_continue_def within_quota_def quota_left_def within_budget_def split: option.splits)

text \<open>
  C25. A worker that is never stopped spends its quota: when the stop event is never set and the
  loop condition is checked more often without a pause than the recycle limit, the worker
  either fails with one of its documented errors (the mandatory score worker failed twice, an
  error that is not recoverable, or a seed generation failure) or returns with the exit message
  as its last message.  Then either the reason is \<open>recycle\<close>, it has evaluated exactly as many
  candidates as the recycle limit and its budget, if any, is not used up; or the reason is
  \<open>budget\<close> and the candidates evaluated in its lifetime are exactly the budget, or those of
  earlier runs when these had used it up already.
\<close>

theorem worker_spends_its_quota:
  assumes "validate (sp_config sp) = Inr ()" "\<forall>k. resume = Some k \<longrightarrow> message_ok sp (Checkpoint k)"
    and "\<forall>t\<in>set ts. \<not> t_stop t" "c_worker_recycle_candidates (sp_config sp) < int (active ts)"
  shows "(\<exists>e. worker sp ts r env resume = Inl e \<and> worker_error sp e) \<or>
    (\<exists>s ms why. worker sp ts r env resume = Inr s \<and>
       w_sent s = ms @ [Exit why (w_evaluated s) (w_accepted s) (w_legal s) (w_improvements s)] \<and>
       (why = ''recycle'' \<and> int (w_evaluated s) = c_worker_recycle_candidates (sp_config sp) \<and>
          (\<forall>b. sp_budget sp = Some b \<longrightarrow> int (w_lifetime s + w_evaluated s) < b) \<or>
        why = ''budget'' \<and> (\<exists>b. sp_budget sp = Some b \<and>
          int (w_lifetime s + w_evaluated s) = max b (int (w_lifetime s)))))"
proof (cases "worker sp ts r env resume")
  case (Inl e)
  then show ?thesis
    using worker_outcome [OF assms(1), of resume ts r env] assms(2-4) by (simp add: loop_outcome_def)
next
  case (Inr s)
  with worker_outcome [OF assms(1), of resume ts r env] assms(2-4) obtain ms why where
    s: "within_quota sp s" "\<not> may_continue sp s" "why = (if within_budget sp s then ''recycle'' else ''budget'')"
      "w_sent s = ms @ [Exit why (w_evaluated s) (w_accepted s) (w_legal s) (w_improvements s)]"
    by (auto simp: loop_outcome_def)
  show ?thesis using spent_quota [OF s(2,1)] s(3,4) Inr by (cases "within_budget sp s") auto
qed

theorem worker_spends_its_quota_witness:
  "\<exists>s ms n m k. worker k4_params [running_tick, running_tick] [] idle_env (Some k4_checkpoint) = Inr s \<and>
     w_sent s = ms @ [Exit ''recycle'' 1 n m k]"
proof -
  obtain s where s: "worker k4_params [running_tick, running_tick] [] idle_env (Some k4_checkpoint) = Inr s"
    "w_evaluated s = 1" using k4_run by blast
  have v: "validate (sp_config k4_params) = Inr ()" using k4_config_valid by (simp add: k4_params_def)
  have k: "\<forall>k. Some k4_checkpoint = Some k \<longrightarrow> message_ok k4_params (Checkpoint k)"
    using k4_checkpoint_ok by simp
  have "sp_budget k4_params = None" by (simp add: k4_params_def)
  with worker_spends_its_quota [OF v k k4_run_quota [THEN conjunct1] k4_run_quota [THEN conjunct2],
      where r = "[]" and env = idle_env] show ?thesis
    unfolding s by (auto simp: s)
qed

text \<open>
  C26. Resuming from a checkpoint restores the search: for a state of the worker whose scores list
  their witness counts by strictly increasing length, decoding the checkpoint payload gives
  back both graphs, both scores, the random generator, the tabu list and the counters of the
  algorithm, with the candidates evaluated so far added to the lifetime count.
\<close>

theorem checkpoint_resume_round_trip:
  assumes "worker_inv sp s" "canonical_score (w_score s)" "canonical_score (w_best_score s)"
    and "checkpoint_payload s = Inr k"
  shows "start_resumed k env = Inr (s\<lparr>w_lifetime := w_lifetime s + w_evaluated s, w_evaluated := 0,
    w_accepted := 0, w_improvements := 0, w_legal := 0, w_env := env, w_sent := []\<rparr>)"
proof -
  obtain g6 b6 where enc: "to_graph6 (w_graph s) = Inr g6" "to_graph6 (w_best_graph s) = Inr b6"
    "k_graph6 k = g6" "k_best_graph6 k = b6"
    using assms(4) by (auto simp: checkpoint_payload_def rbind_Inr_iff)
  have dec: "from_graph6 g6 = Inr (w_graph s)" "from_graph6 b6 = Inr (w_best_graph s)"
    using graph6_decode enc(1,2) assms(1) by (auto simp: worker_inv_def candidate_ok_def)
  have "last_n 128 (w_tabu s) = w_tabu s" using assms(1) by (simp add: worker_inv_def last_n_def)
  then show ?thesis
    using assms(4) enc dec score_payload_round_trip [OF assms(2)] score_payload_round_trip [OF assms(3)]
    by (auto simp: start_resumed_def checkpoint_payload_def)
qed

theorem checkpoint_resume_round_trip_witness:
  "\<exists>s k. start_resumed k4_checkpoint idle_env = Inr s \<and> checkpoint_payload s = Inr k \<and>
     start_resumed k idle_env = Inr s"
proof -
  have dec: "from_graph6 [67, 126] = Inr k4" and enc: "to_graph6 k4 = Inr [67, 126]" by code_simp+
  have c: "canonical_score k4_score" by (simp add: canonical_score_def k4_score_def)
  obtain s where s: "start_resumed k4_checkpoint idle_env = Inr s" "w_graph s = k4" "w_best_graph s = k4"
    "w_score s = k4_score" "w_best_score s = k4_score" "w_evaluated s = 0" "w_accepted s = 0"
    "w_improvements s = 0" "w_legal s = 0" "w_env s = idle_env" "w_sent s = []"
    using dec score_payload_round_trip [OF c] by (simp add: start_resumed_def k4_checkpoint_def)
  obtain k where k: "checkpoint_payload s = Inr k" using enc s by (simp add: checkpoint_payload_def)
  have "worker_inv k4_params s" using start_resumed_inv [OF s(1) k4_checkpoint_ok] by simp
  from checkpoint_resume_round_trip [OF this _ _ k, of idle_env] c s
  have "start_resumed k idle_env = Inr s" by simp
  with s(1) k show ?thesis by blast
qed

lemma candidate_budgets_partition:
  assumes "0 < c_max_candidates c"
  shows "(\<Sum>i<nat (recommended_workers cpu (Some (nat (c_workers c))) 2). the (worker_candidate_budget cpu c i)) = c_max_candidates c \<and>
    (\<forall>i j. \<exists>x y. worker_candidate_budget cpu c i = Some x \<and> worker_candidate_budget cpu c j = Some y \<and>
       \<bar>x - y\<bar> \<le> 1)"
proof -
  define w where "w = nat (recommended_workers cpu (Some (nat (c_workers c))) 2)"
  then have w: "recommended_workers cpu (Some (nat (c_workers c))) 2 = int w" "0 < w"
    using recommended_workers_pos [of cpu "Some (nat (c_workers c))" 2] by auto
  obtain m where m: "c_max_candidates c = int m" "0 < m" using assms(1) zero_less_imp_eq_int by blast
  have b: "worker_candidate_budget cpu c i =
      Some (int m div int w + (if int i < int m mod int w then 1 else 0))" for i
    using m(2) by (simp add: worker_candidate_budget_def w(1) m(1) Let_def)
  have "(\<Sum>i<w. the (worker_candidate_budget cpu c i)) = int m"
    unfolding b option.sel by (rule share_sum [OF w(2)])
  then show ?thesis unfolding w(1) m(1) nat_int b by simp
qed

text \<open>
  C40. A validated configuration fits the components it is passed to: the seed generator accepts
  its order and mode, and the client of the score worker can build the request for every
  candidate, with the forbidden lengths of the target, one more witness than the cap and the
  clamped node budget.
\<close>

theorem validated_configuration_fits:
  assumes "validate c = Inr ()" "TARGETS (c_target c) = Some plg"
  shows "seed_config_error (Given (c_order c)) (c_mode c) = None \<and>
    is_ok (fresh_plan (make_key cl (nat (c_order c)) (map int (plugin_lengths plg (nat (c_order c))))
      (c_witness_cap c + 1) (max 4096 (min 50000 (c_witness_cap c * 1024))) False False False))"
  using validated_seed_config [OF assms(1)] validated_request_plan [OF assms] by simp

theorem validated_configuration_fits_witness:
  "seed_config_error (Given 4) ''cubic_first'' = None \<and>
   is_ok (fresh_plan (make_key (client idle_env) 4 [4] 6 5120 False False False))"
proof -
  have "TARGETS (c_target k4_config) = Some ERDOS_GYARFAS"
    by (simp add: TARGETS_def k4_config_def ERDOS_GYARFAS_def HIDDEN_WITNESS_def)
  note fits = validated_configuration_fits [OF k4_config_valid this, of "client idle_env"]
  have "plugin_lengths ERDOS_GYARFAS 4 = [4]" by code_simp
  with fits show ?thesis by (simp add: k4_config_def)
qed

end
