(* ===== verification/Triggers.thy ===== *)
theory Triggers
  imports Prelude "HOL-Library.List_Lexorder" "HOL-Library.Char_ord"
begin

text \<open>
  The two review triggers of a campaign: \<open>TriggerEngine\<close> (\<open>src/src/sglab/research/triggers.py\<close>),
  which coalesces events with a debounce interval, review limits and a bypass for critical
  reasons, and \<open>DeterministicReviewTrigger\<close> (\<open>src/src/sglab/research/passive.py\<close>), which decides
  on evaluation counts only.  The orchestrator uses either through the same methods.

  Every call takes a \<open>clock\<close>, the readings of \<open>time.monotonic()\<close> and \<open>utc_now()\<close> during that
  call.  An operation returns its outcome, possibly an exception, with the state it leaves
  behind: \<open>consume\<close> may raise after \<open>due\<close> has recorded a reason.  Floats are rationals; the
  metrics of a telemetry event are a map with the default 0 that the source reads for a
  missing key.  A review contract has its four keys.
\<close>

section \<open>Reasons\<close>

definition REVIEW_EVENTS :: "string list" where
  "REVIEW_EVENTS =
     [''new_global_best'', ''meaningful_improvement'', ''regression'', ''stagnation'',
      ''diversity_collapse'', ''operator_yield_shift'', ''verification_result'',
      ''verifier_disagreement'', ''lane_failure'', ''resource_pressure'', ''action_lease_expired'']"

definition INTERNAL_REASONS :: "string set" where
  "INTERNAL_REASONS =
     {''bootstrap'', ''candidate_delta_reached'', ''maximum_review_interval'', ''recovery'',
      ''stale_action_replan''}"

definition CRITICAL_REASONS :: "string set" where
  "CRITICAL_REASONS =
     {''verification_result'', ''verifier_disagreement'', ''lane_failure'', ''resource_pressure''}"

definition IMMEDIATE_REASONS :: "string set" where
  "IMMEDIATE_REASONS = CRITICAL_REASONS \<union> {''bootstrap'', ''maximum_review_interval'', ''recovery''}"

definition MANDATORY_EVENTS :: "string set" where
  "MANDATORY_EVENTS = CRITICAL_REASONS \<union> {''action_lease_expired''}"

record clock =
  clock_mono :: rat
  clock_wall :: string

record trigger_batch =
  reasons :: "string list"
  batch_at :: string

definition or_now :: "clock \<Rightarrow> string option \<Rightarrow> string" where
  "or_now clk stamp = (case stamp of None \<Rightarrow> clock_wall clk | Some t \<Rightarrow> if t = [] then clock_wall clk else t)"

section \<open>The trigger engine\<close>

record lane_summary =
  ls_best_scalar :: rat
  ls_operator_yield :: rat

record trigger_engine =
  debounce_seconds :: rat
  min_review_seconds :: rat
  max_review_seconds :: rat
  candidate_delta :: int
  enabled_events :: "string set"
  pending :: "string set"
  first_event_at :: "string option"
  first_monotonic :: "rat option"
  last_review_monotonic :: rat
  last_review_candidates :: int
  lane_summaries :: "string \<rightharpoonup> lane_summary"

definition new_engine :: "clock \<Rightarrow> rat \<Rightarrow> rat \<Rightarrow> rat \<Rightarrow> int \<Rightarrow> trigger_engine result" where
  "new_engine clk debounce minimum maximum delta =
     (if debounce < 0 then Inl (ValueError ''debounce_seconds cannot be negative'')
      else if \<not> (0 \<le> minimum \<and> minimum \<le> maximum) then Inl (ValueError ''invalid review interval'')
      else if delta < 1 then Inl (ValueError ''candidate_delta must be positive'')
      else Inr \<lparr>debounce_seconds = debounce, min_review_seconds = minimum, max_review_seconds = maximum,
        candidate_delta = delta, enabled_events = set REVIEW_EVENTS, pending = {},
        first_event_at = None, first_monotonic = None, last_review_monotonic = clock_mono clk,
        last_review_candidates = 0, lane_summaries = Map.empty\<rparr>)"

definition offer ::
  "clock \<Rightarrow> string \<Rightarrow> string option \<Rightarrow> trigger_engine \<Rightarrow> bool result \<times> trigger_engine" where
  "offer clk r stamp e =
     (if r \<notin> set REVIEW_EVENTS \<and> r \<notin> INTERNAL_REASONS
      then (Inl (ValueError (''unsupported Director trigger: '' @ r)), e)
      else if r \<in> set REVIEW_EVENTS \<and> r \<notin> enabled_events e then (Inr False, e)
      else
        let e1 = (if pending e = {}
                  then e\<lparr>first_monotonic := Some (clock_mono clk), first_event_at := Some (or_now clk stamp)\<rparr>
                  else e)
        in (Inr True, e1\<lparr>pending := insert r (pending e1)\<rparr>))"

record lane_event =
  ev_kind :: "string option"
  ev_reason :: "string option"
  ev_at :: "string option"
  ev_lane_id :: string
  ev_metrics :: "string \<rightharpoonup> rat"

definition metric :: "(string \<rightharpoonup> rat) \<Rightarrow> string \<Rightarrow> rat" where
  "metric m k = (case m k of None \<Rightarrow> 0 | Some v \<Rightarrow> v)"

text \<open>An \<open>offer\<close> under a condition, in a sequence that an exception ends.\<close>

definition offer_if ::
  "clock \<Rightarrow> bool \<Rightarrow> string \<Rightarrow> string option \<Rightarrow> unit result \<times> trigger_engine \<Rightarrow> unit result \<times> trigger_engine" where
  "offer_if clk b r stamp re =
     (case re of (Inr _, e) \<Rightarrow>
        if b then (case offer clk r stamp e of (Inl x, e') \<Rightarrow> (Inl x, e') | (Inr _, e') \<Rightarrow> (Inr (), e'))
        else re
      | _ \<Rightarrow> re)"

definition observe_lane_event ::
  "clock \<Rightarrow> lane_event \<Rightarrow> (string \<rightharpoonup> rat) \<Rightarrow> trigger_engine \<Rightarrow> unit result \<times> trigger_engine" where
  "observe_lane_event clk ev recent e =
     (let stamp = Some (or_now clk (ev_at ev))
      in if ev_kind ev = Some ''improvement'' then offer_if clk True ''new_global_best'' stamp (Inr (), e)
         else if ev_kind ev = Some ''exit'' \<and> ev_reason ev = Some ''failure''
         then offer_if clk True ''lane_failure'' stamp (Inr (), e)
         else if ev_kind ev = Some ''telemetry''
         then
           let previous = lane_summaries e (ev_lane_id ev);
               current = \<lparr>ls_best_scalar = metric (ev_metrics ev) ''best_scalar'',
                          ls_operator_yield = metric (ev_metrics ev) ''operator_yield''\<rparr>;
               improved = (case previous of None \<Rightarrow> False
                           | Some p \<Rightarrow> ls_best_scalar current < ls_best_scalar p);
               shifted = (case previous of None \<Rightarrow> False
                          | Some p \<Rightarrow> \<bar>ls_operator_yield current - ls_operator_yield p\<bar> \<ge> 1 / 100)
           in case offer_if clk shifted ''operator_yield_shift'' stamp
                     (offer_if clk improved ''meaningful_improvement'' stamp (Inr (), e)) of
                (Inl x, e1) \<Rightarrow> (Inl x, e1)
              | (Inr _, e1) \<Rightarrow>
                  offer_if clk (\<lfloor>metric recent ''windows''\<rfloor> \<ge> 6 \<and> metric recent ''operator_yield'' = 0)
                    ''stagnation'' stamp
                    (offer_if clk (metric (ev_metrics ev) ''duplicate_rate'' \<ge> 8 / 10) ''diversity_collapse'' stamp
                      (Inr (), e1\<lparr>lane_summaries := (lane_summaries e1)(ev_lane_id ev \<mapsto> current)\<rparr>))
         else (Inr (), e))"

record review_contract =
  min_wall_seconds :: rat
  max_wall_seconds :: rat
  rc_candidate_delta :: int
  rc_events :: "string list"

definition configure :: "review_contract \<Rightarrow> trigger_engine \<Rightarrow> unit result \<times> trigger_engine" where
  "configure rc e =
     (if \<not> (10 \<le> min_wall_seconds rc \<and> min_wall_seconds rc \<le> max_wall_seconds rc \<and> max_wall_seconds rc \<le> 7200)
      then (Inl (ValueError ''review interval is outside the reviewed domain''), e)
      else if \<not> (1 \<le> rc_candidate_delta rc \<and> rc_candidate_delta rc \<le> 100000000)
      then (Inl (ValueError ''candidate delta is outside the reviewed domain''), e)
      else if \<not> set (rc_events rc) \<subseteq> set REVIEW_EVENTS
      then (Inl (ValueError ''review event is outside the reviewed catalog''), e)
      else (Inr (), e\<lparr>min_review_seconds := min_wall_seconds rc, max_review_seconds := max_wall_seconds rc,
        candidate_delta := rc_candidate_delta rc,
        enabled_events := set (rc_events rc) \<union> MANDATORY_EVENTS\<rparr>))"

text \<open>The two offers of \<open>due\<close> are internal reasons and never raise.\<close>

definition due :: "clock \<Rightarrow> int \<Rightarrow> trigger_engine \<Rightarrow> bool result \<times> trigger_engine" where
  "due clk total_candidates e =
     (let since_review = clock_mono clk - last_review_monotonic e;
          timed = offer_if clk (since_review \<ge> max_review_seconds e) ''maximum_review_interval'' None (Inr (), e)
      in case offer_if clk (total_candidates - last_review_candidates e \<ge> candidate_delta e)
                ''candidate_delta_reached'' None timed of
           (Inl x, e1) \<Rightarrow> (Inl x, e1)
         | (Inr _, e1) \<Rightarrow>
             (if pending e1 = {} then Inr False
              else if pending e1 \<inter> IMMEDIATE_REASONS \<noteq> {} then Inr True
              else if since_review < min_review_seconds e1 then Inr False
              else (case first_monotonic e1 of None \<Rightarrow> Inl AssertionError
                    | Some t \<Rightarrow> Inr (clock_mono clk - t \<ge> debounce_seconds e1)), e1))"

definition consume :: "clock \<Rightarrow> int \<Rightarrow> trigger_engine \<Rightarrow> trigger_batch result \<times> trigger_engine" where
  "consume clk total_candidates e =
     (case due clk total_candidates e of
        (Inl x, e1) \<Rightarrow> (Inl x, e1)
      | (Inr False, e1) \<Rightarrow> (Inl (RuntimeError ''Director trigger is not due''), e1)
      | (Inr True, e1) \<Rightarrow>
          (Inr \<lparr>reasons = sorted_list_of_set (pending e1), batch_at = or_now clk (first_event_at e1)\<rparr>,
           e1\<lparr>pending := {}, first_event_at := None, first_monotonic := None,
              last_review_monotonic := clock_mono clk, last_review_candidates := total_candidates\<rparr>))"

definition pending_reasons :: "trigger_engine \<Rightarrow> string list" where
  "pending_reasons e = sorted_list_of_set (pending e)"

section \<open>The deterministic trigger\<close>

definition PASSIVE_CRITICAL_REASONS :: "string set" where
  "PASSIVE_CRITICAL_REASONS =
     {''action_lease_expired'', ''bootstrap'', ''lane_failure'', ''recovery'', ''resource_pressure'',
      ''verification_result'', ''verifier_disagreement''}"

record passive_trigger =
  last_review_evaluations :: int
  pt_candidate_delta :: int
  pt_pending :: "string set"
  pt_first_event_at :: "string option"

definition new_passive :: "int \<Rightarrow> int \<Rightarrow> passive_trigger result" where
  "new_passive evaluations delta =
     (if evaluations < 0 then Inl (ValueError ''last review evaluations cannot be negative'')
      else if delta < 1 then Inl (ValueError ''candidate delta must be positive'')
      else Inr \<lparr>last_review_evaluations = evaluations, pt_candidate_delta = delta, pt_pending = {},
        pt_first_event_at = None\<rparr>)"

definition passive_offer ::
  "clock \<Rightarrow> string \<Rightarrow> string option \<Rightarrow> passive_trigger \<Rightarrow> bool result \<times> passive_trigger" where
  "passive_offer clk r stamp p =
     (if r \<notin> PASSIVE_CRITICAL_REASONS then (Inr False, p)
      else (Inr True, (if pt_pending p = {} then p\<lparr>pt_first_event_at := Some (or_now clk stamp)\<rparr> else p)
              \<lparr>pt_pending := insert r (pt_pending p)\<rparr>))"

definition passive_observe :: "clock \<Rightarrow> lane_event \<Rightarrow> passive_trigger \<Rightarrow> unit result \<times> passive_trigger" where
  "passive_observe clk ev p =
     (if ev_kind ev = Some ''exit'' \<and> ev_reason ev = Some ''failure''
      then (Inr (), snd (passive_offer clk ''lane_failure'' (Some (or_now clk (ev_at ev))) p))
      else (Inr (), p))"

definition passive_configure :: "review_contract \<Rightarrow> passive_trigger \<Rightarrow> unit result \<times> passive_trigger" where
  "passive_configure rc p =
     (if rc_candidate_delta rc < 1 then (Inl (ValueError ''candidate delta must be positive''), p)
      else (Inr (), p\<lparr>pt_candidate_delta := rc_candidate_delta rc\<rparr>))"

definition passive_due :: "clock \<Rightarrow> int \<Rightarrow> passive_trigger \<Rightarrow> bool result \<times> passive_trigger" where
  "passive_due clk total_candidates p =
     (let p1 = (if total_candidates - last_review_evaluations p \<ge> pt_candidate_delta p
                then (if pt_pending p = {} then p\<lparr>pt_first_event_at := Some (clock_wall clk)\<rparr> else p)
                  \<lparr>pt_pending := insert ''candidate_delta_reached'' (pt_pending p)\<rparr>
                else p)
      in (Inr (pt_pending p1 \<noteq> {}), p1))"

definition passive_consume :: "clock \<Rightarrow> int \<Rightarrow> passive_trigger \<Rightarrow> trigger_batch result \<times> passive_trigger" where
  "passive_consume clk total_candidates p =
     (case passive_due clk total_candidates p of
        (Inr True, p1) \<Rightarrow>
          (Inr \<lparr>reasons = sorted_list_of_set (pt_pending p1), batch_at = or_now clk (pt_first_event_at p1)\<rparr>,
           p1\<lparr>pt_pending := {}, pt_first_event_at := None, last_review_evaluations := total_candidates\<rparr>)
      | (_, p1) \<Rightarrow> (Inl (RuntimeError ''passive scheduler trigger is not due''), p1))"

section \<open>Calls of a trigger\<close>

datatype trigger_op =
    Offer clock string "string option"
  | Observe clock lane_event "string \<rightharpoonup> rat"
  | Configure review_contract
  | Due clock int
  | Consume clock int

datatype trigger_output =
    Accepted bool
  | Handled
  | Is_due bool
  | Delivered trigger_batch
  | Raised py_error

definition outcome :: "('a \<Rightarrow> trigger_output) \<Rightarrow> 'a result \<times> 's \<Rightarrow> trigger_output \<times> 's" where
  "outcome f rs = (case rs of (Inl x, s) \<Rightarrow> (Raised x, s) | (Inr y, s) \<Rightarrow> (f y, s))"

fun engine_step :: "trigger_op \<Rightarrow> trigger_engine \<Rightarrow> trigger_output \<times> trigger_engine" where
  "engine_step (Offer clk r stamp) e = outcome Accepted (offer clk r stamp e)"
| "engine_step (Observe clk ev recent) e = outcome (\<lambda>_. Handled) (observe_lane_event clk ev recent e)"
| "engine_step (Configure rc) e = outcome (\<lambda>_. Handled) (configure rc e)"
| "engine_step (Due clk n) e = outcome Is_due (due clk n e)"
| "engine_step (Consume clk n) e = outcome Delivered (consume clk n e)"

fun passive_step :: "trigger_op \<Rightarrow> passive_trigger \<Rightarrow> trigger_output \<times> passive_trigger" where
  "passive_step (Offer clk r stamp) p = outcome Accepted (passive_offer clk r stamp p)"
| "passive_step (Observe clk ev recent) p = outcome (\<lambda>_. Handled) (passive_observe clk ev p)"
| "passive_step (Configure rc) p = outcome (\<lambda>_. Handled) (passive_configure rc p)"
| "passive_step (Due clk n) p = outcome Is_due (passive_due clk n p)"
| "passive_step (Consume clk n) p = outcome Delivered (passive_consume clk n p)"

fun trigger_run ::
  "(trigger_op \<Rightarrow> 's \<Rightarrow> trigger_output \<times> 's) \<Rightarrow> trigger_op list \<Rightarrow> 's \<Rightarrow> trigger_output list \<times> 's" where
  "trigger_run step [] s = ([], s)"
| "trigger_run step (c # cs) s =
     (let (out, s1) = step c s; (outs, s2) = trigger_run step cs s1 in (out # outs, s2))"

section \<open>The contract of a trigger\<close>

text \<open>
  The abstract mailbox: its state is the set of reasons accepted since the last delivery.  An
  accepted offer adds its reason, a refused one and a reconfiguration add nothing, a lane event
  adds reviewed events, the polls add timer reasons, and a delivery hands out the whole
  content, which is not empty, and leaves the mailbox empty.
\<close>

definition TIMER_REASONS :: "string set" where
  "TIMER_REASONS = {''maximum_review_interval'', ''candidate_delta_reached''}"

fun mailbox :: "trigger_op \<Rightarrow> string set \<Rightarrow> trigger_output \<Rightarrow> string set \<Rightarrow> bool" where
  "mailbox (Offer clk r stamp) P out P' \<longleftrightarrow>
     (out = Accepted True \<and> P' = insert r P) \<or> (out = Accepted False \<or> (\<exists>x. out = Raised x)) \<and> P' = P"
| "mailbox (Observe clk ev recent) P out P' \<longleftrightarrow> out = Handled \<and> P \<subseteq> P' \<and> P' \<subseteq> P \<union> set REVIEW_EVENTS"
| "mailbox (Configure rc) P out P' \<longleftrightarrow> (out = Handled \<or> (\<exists>x. out = Raised x)) \<and> P' = P"
| "mailbox (Due clk n) P out P' \<longleftrightarrow>
     (\<exists>b. out = Is_due b \<and> (b \<longrightarrow> P' \<noteq> {})) \<and> P \<subseteq> P' \<and> P' \<subseteq> P \<union> TIMER_REASONS"
| "mailbox (Consume clk n) P out P' \<longleftrightarrow>
     (\<exists>b Q. out = Delivered b \<and> P \<subseteq> Q \<and> Q \<subseteq> P \<union> TIMER_REASONS \<and> set (reasons b) = Q \<and> Q \<noteq> {} \<and>
        sorted_wrt (<) (reasons b) \<and> P' = {}) \<or>
     (\<exists>x. out = Raised x) \<and> P \<subseteq> P' \<and> P' \<subseteq> P \<union> TIMER_REASONS"

definition delivers :: "trigger_output \<Rightarrow> string set" where
  "delivers out = (case out of Delivered b \<Rightarrow> set (reasons b) | _ \<Rightarrow> {})"

text \<open>\<open>urgent\<close> reasons are always accepted and make the next \<open>consume\<close> succeed.\<close>

locale review_trigger =
  fixes step :: "trigger_op \<Rightarrow> 's \<Rightarrow> trigger_output \<times> 's"
    and inv :: "'s \<Rightarrow> bool" and pend :: "'s \<Rightarrow> string set" and urgent :: "string set"
  assumes refines: "inv s \<Longrightarrow> step c s = (out, s') \<Longrightarrow> inv s' \<and> mailbox c (pend s) out (pend s')"
    and urgent_accepted: "inv s \<Longrightarrow> r \<in> urgent \<Longrightarrow> fst (step (Offer clk r stamp) s) = Accepted True"
    and urgent_due: "inv s \<Longrightarrow> pend s \<inter> urgent \<noteq> {} \<Longrightarrow> \<exists>b. fst (step (Consume clk n) s) = Delivered b"
begin

lemma step_keeps: "inv s \<Longrightarrow> step c s = (out, s') \<Longrightarrow> inv s' \<and> pend s \<subseteq> pend s' \<union> delivers out"
  using refines [of s c out s'] by (cases c) (auto simp: delivers_def)

lemma run_keeps:
  "inv s \<Longrightarrow> trigger_run step cs s = (outs, s') \<Longrightarrow>
   inv s' \<and> pend s \<subseteq> pend s' \<union> (\<Union>out\<in>set outs. delivers out)"
proof (induction cs arbitrary: s outs)
  case (Cons c cs)
  obtain out s1 where 1: "step c s = (out, s1)" by fastforce
  obtain outs' where 2: "trigger_run step cs s1 = (outs', s')" "outs = out # outs'"
    using Cons.prems(2) 1 by (auto split: prod.splits)
  show ?case using step_keeps [OF Cons.prems(1) 1] Cons.IH [OF _ 2(1)] 2(2) by auto
qed simp

lemma urgent_delivered:
  assumes "inv s" "r \<in> urgent"
    and "trigger_run step (Offer clk r stamp # cs @ [Consume clk' n]) s = (outs, s')"
  shows "\<exists>out\<in>set outs. r \<in> delivers out"
proof -
  obtain out1 s1 where 1: "step (Offer clk r stamp) s = (out1, s1)" by fastforce
  have acc: "out1 = Accepted True" using urgent_accepted [OF assms(1,2), of clk stamp] 1 by simp
  have s1: "inv s1" "r \<in> pend s1" using refines [OF assms(1) 1] acc by auto
  obtain outs2 s2 where 2: "trigger_run step cs s1 = (outs2, s2)" by fastforce
  obtain out3 s3 where 3: "step (Consume clk' n) s2 = (out3, s3)" by fastforce
  have app: "trigger_run step (xs @ ys) t =
      (let (o1, t1) = trigger_run step xs t; (o2, t2) = trigger_run step ys t1 in (o1 @ o2, t2))" for xs ys t
    by (induction xs arbitrary: t) (auto simp: split_def Let_def)
  have outs: "outs = out1 # outs2 @ [out3]" using assms(3) 1 2 3 by (simp add: app)
  note k = run_keeps [OF s1(1) 2]
  show ?thesis
  proof (cases "r \<in> pend s2")
    case True
    then obtain b where "out3 = Delivered b" using urgent_due [of s2 clk' n] k assms(2) 3 by auto
    then have "r \<in> delivers out3" using refines [OF _ 3] k True by (auto simp: delivers_def)
    then show ?thesis using outs by auto
  next
    case False
    then show ?thesis using k s1(2) outs by auto
  qed
qed

end

section \<open>The engine keeps the contract\<close>

definition engine_ok :: "trigger_engine \<Rightarrow> bool" where
  "engine_ok e \<longleftrightarrow>
     MANDATORY_EVENTS \<subseteq> enabled_events e \<and> enabled_events e \<subseteq> set REVIEW_EVENTS \<and>
     pending e \<subseteq> set REVIEW_EVENTS \<union> INTERNAL_REASONS \<and>
     (pending e = {} \<longleftrightarrow> first_monotonic e = None) \<and> (pending e = {} \<longleftrightarrow> first_event_at e = None) \<and>
     0 \<le> debounce_seconds e \<and> 0 \<le> min_review_seconds e \<and> min_review_seconds e \<le> max_review_seconds e \<and>
     1 \<le> candidate_delta e"

lemma critical_reviewed:
  "CRITICAL_REASONS \<subseteq> MANDATORY_EVENTS" "MANDATORY_EVENTS \<subseteq> set REVIEW_EVENTS"
  "set REVIEW_EVENTS \<inter> INTERNAL_REASONS = {}" "TIMER_REASONS \<subseteq> INTERNAL_REASONS"
  by (auto simp: CRITICAL_REASONS_def MANDATORY_EVENTS_def REVIEW_EVENTS_def INTERNAL_REASONS_def TIMER_REASONS_def)

lemma offer_ok:
  assumes "engine_ok e" "offer clk r stamp e = (res, e')"
  shows "engine_ok e'" "res = Inr True \<and> pending e' = insert r (pending e) \<or> res \<noteq> Inr True \<and> e' = e"
  using assms by (auto simp: offer_def engine_ok_def Let_def split: if_splits)

lemma offer_accepts:
  "r \<in> INTERNAL_REASONS \<or> r \<in> set REVIEW_EVENTS \<inter> enabled_events e \<Longrightarrow> fst (offer clk r stamp e) = Inr True"
  using critical_reviewed(3) by (auto simp: offer_def Let_def)

lemma offer_reviewed: "r \<in> set REVIEW_EVENTS \<union> INTERNAL_REASONS \<Longrightarrow> \<exists>b e'. offer clk r stamp e = (Inr b, e')"
  by (auto simp: offer_def Let_def)

lemma offer_if_ok:
  assumes "engine_ok e" "r \<in> set REVIEW_EVENTS \<union> INTERNAL_REASONS"
  obtains e' where "offer_if clk b r stamp (Inr (), e) = (Inr (), e')" "engine_ok e'"
    "pending e \<subseteq> pending e'" "pending e' \<subseteq> insert r (pending e)"
proof (cases b)
  case True
  obtain b' e' where o: "offer clk r stamp e = (Inr b', e')" using offer_reviewed [OF assms(2)] by blast
  note k = offer_ok [OF assms(1) o]
  show thesis by (rule that [of e']) (use True o k in \<open>auto simp: offer_if_def\<close>)
qed (use assms that [of e] in \<open>auto simp: offer_if_def\<close>)

lemma due_ok:
  assumes "engine_ok e"
  obtains b e1 where "due clk n e = (Inr b, e1)" "engine_ok e1" "pending e \<subseteq> pending e1"
    "pending e1 \<subseteq> pending e \<union> TIMER_REASONS" "b \<longrightarrow> pending e1 \<noteq> {}"
    "pending e1 \<inter> IMMEDIATE_REASONS \<noteq> {} \<longrightarrow> b"
    "clock_mono clk - last_review_monotonic e \<ge> max_review_seconds e \<longrightarrow>
       b \<and> ''maximum_review_interval'' \<in> pending e1"
proof -
  let ?since = "clock_mono clk - last_review_monotonic e"
  let ?late = "?since \<ge> max_review_seconds e"
  obtain e0 where 0: "offer_if clk ?late ''maximum_review_interval'' None (Inr (), e) = (Inr (), e0)"
    "engine_ok e0" "pending e \<subseteq> pending e0" "pending e0 \<subseteq> insert ''maximum_review_interval'' (pending e)"
    by (rule offer_if_ok [OF assms, of "''maximum_review_interval''"]) (auto simp: INTERNAL_REASONS_def)
  obtain e1 where 1: "offer_if clk (n - last_review_candidates e \<ge> candidate_delta e)
      ''candidate_delta_reached'' None (Inr (), e0) = (Inr (), e1)"
    "engine_ok e1" "pending e0 \<subseteq> pending e1" "pending e1 \<subseteq> insert ''candidate_delta_reached'' (pending e0)"
    by (rule offer_if_ok [OF 0(2), of "''candidate_delta_reached''"]) (auto simp: INTERNAL_REASONS_def)
  have late: "''maximum_review_interval'' \<in> pending e0" if ?late
  proof -
    have "fst (offer clk ''maximum_review_interval'' None e) = Inr True"
      by (rule offer_accepts) (simp add: INTERNAL_REASONS_def)
    then show ?thesis using 0(1) offer_ok(2) [OF assms] that
      by (cases "offer clk ''maximum_review_interval'' None e") (force simp: offer_if_def)
  qed
  define res where "res = (if pending e1 = {} then Inr False
      else if pending e1 \<inter> IMMEDIATE_REASONS \<noteq> {} then Inr True
      else if ?since < min_review_seconds e1 then Inr False
      else (case first_monotonic e1 of None \<Rightarrow> Inl AssertionError
            | Some t \<Rightarrow> Inr (clock_mono clk - t \<ge> debounce_seconds e1)))"
  have "pending e1 \<noteq> {} \<Longrightarrow> first_monotonic e1 \<noteq> None" using 1(2) by (simp add: engine_ok_def)
  then have "\<exists>b. res = Inr b \<and> (b \<longrightarrow> pending e1 \<noteq> {}) \<and> (pending e1 \<inter> IMMEDIATE_REASONS \<noteq> {} \<longrightarrow> b)"
    unfolding res_def by (cases "first_monotonic e1") auto
  moreover have "due clk n e = (res, e1)" using 0(1) 1(1) by (simp add: due_def res_def)
  ultimately obtain b where d: "due clk n e = (Inr b, e1)" "b \<longrightarrow> pending e1 \<noteq> {}"
    "pending e1 \<inter> IMMEDIATE_REASONS \<noteq> {} \<longrightarrow> b" by blast
  have "?late \<longrightarrow> b \<and> ''maximum_review_interval'' \<in> pending e1" using d(3) late 1(3) by (auto simp: IMMEDIATE_REASONS_def)
  moreover have "pending e1 \<subseteq> pending e \<union> TIMER_REASONS" using 0(4) 1(4) by (auto simp: TIMER_REASONS_def)
  ultimately show thesis using that [OF d(1) 1(2) _ _ d(2,3)] 0(3) 1(3) by blast
qed

lemma finite_pending: "engine_ok e \<Longrightarrow> finite (pending e)"
  by (rule finite_subset [of _ "set REVIEW_EVENTS \<union> INTERNAL_REASONS"])
    (auto simp: engine_ok_def INTERNAL_REASONS_def)

lemma consume_ok:
  assumes "engine_ok e"
  obtains (delivered) b e1 e' where "consume clk n e = (Inr b, e')" "engine_ok e'" "due clk n e = (Inr True, e1)"
      "pending e \<subseteq> pending e1" "pending e1 \<subseteq> pending e \<union> TIMER_REASONS" "pending e1 \<noteq> {}"
      "reasons b = sorted_list_of_set (pending e1)" "finite (pending e1)" "pending e' = {}"
    | (early) x e' where "consume clk n e = (Inl x, e')" "engine_ok e'" "due clk n e = (Inr False, e')"
      "pending e \<subseteq> pending e'" "pending e' \<subseteq> pending e \<union> TIMER_REASONS"
proof -
  from due_ok [OF assms, of clk n] obtain d e1 where d: "due clk n e = (Inr d, e1)" "engine_ok e1"
    "pending e \<subseteq> pending e1" "pending e1 \<subseteq> pending e \<union> TIMER_REASONS" "d \<longrightarrow> pending e1 \<noteq> {}" .
  show thesis
  proof (cases d)
    case True
    let ?e' = "e1\<lparr>pending := {}, first_event_at := None, first_monotonic := None,
      last_review_monotonic := clock_mono clk, last_review_candidates := n\<rparr>"
    have "engine_ok ?e'" using d(2) by (simp add: engine_ok_def)
    then show thesis using delivered [of _ ?e' e1] d True finite_pending [OF d(2)] by (simp add: consume_def)
  next
    case False
    then show thesis using early d by (simp add: consume_def)
  qed
qed

definition grows :: "trigger_engine \<Rightarrow> trigger_engine \<Rightarrow> bool" where
  "grows e e' \<longleftrightarrow> engine_ok e' \<and> pending e \<subseteq> pending e' \<and> pending e' \<subseteq> pending e \<union> set REVIEW_EVENTS"

lemma grows_trans: "grows e1 e2 \<Longrightarrow> grows e2 e3 \<Longrightarrow> grows e1 e3"
  unfolding grows_def by blast

lemma offer_if_grows:
  assumes "engine_ok e" "r \<in> set REVIEW_EVENTS"
  obtains e' where "offer_if clk b r stamp (Inr (), e) = (Inr (), e')" "grows e e'"
proof -
  obtain e' where "offer_if clk b r stamp (Inr (), e) = (Inr (), e')" "engine_ok e'"
    "pending e \<subseteq> pending e'" "pending e' \<subseteq> insert r (pending e)"
    using offer_if_ok [OF assms(1), of r clk b stamp] assms(2) by blast
  with that [of e'] assms(2) show thesis by (auto simp: grows_def)
qed

lemma reviewed_names:
  "''new_global_best'' \<in> set REVIEW_EVENTS" "''lane_failure'' \<in> set REVIEW_EVENTS"
  "''meaningful_improvement'' \<in> set REVIEW_EVENTS" "''operator_yield_shift'' \<in> set REVIEW_EVENTS"
  "''diversity_collapse'' \<in> set REVIEW_EVENTS" "''stagnation'' \<in> set REVIEW_EVENTS"
  by (simp_all add: REVIEW_EVENTS_def)

lemma offers_grow:
  assumes "engine_ok e" "r \<in> set REVIEW_EVENTS" "r' \<in> set REVIEW_EVENTS"
  obtains e' where "offer_if clk b' r' stamp (offer_if clk b r stamp (Inr (), e)) = (Inr (), e')" "grows e e'"
proof -
  obtain e1 where 1: "offer_if clk b r stamp (Inr (), e) = (Inr (), e1)" "grows e e1"
    by (rule offer_if_grows [OF assms(1,2)])
  obtain e2 where 2: "offer_if clk b' r' stamp (Inr (), e1) = (Inr (), e2)" "grows e1 e2"
    by (rule offer_if_grows [OF _ assms(3), of e1]) (use 1 in \<open>auto simp: grows_def\<close>)
  show thesis using that 1 2 grows_trans by metis
qed

lemma observe_grows:
  assumes "engine_ok e"
  obtains e' where "observe_lane_event clk ev recent e = (Inr (), e')" "grows e e'"
proof -
  let ?at = "Some (or_now clk (ev_at ev))"
  let ?dup = "metric (ev_metrics ev) ''duplicate_rate'' \<ge> 8 / 10"
  let ?stag = "\<lfloor>metric recent ''windows''\<rfloor> \<ge> 6 \<and> metric recent ''operator_yield'' = 0"
  consider (improvement) "ev_kind ev = Some ''improvement''"
    | (failure) "ev_kind ev = Some ''exit''" "ev_reason ev = Some ''failure''"
    | (telemetry) "ev_kind ev = Some ''telemetry''"
    | (other) "ev_kind ev \<noteq> Some ''improvement''" "ev_kind ev \<noteq> Some ''telemetry''"
        "\<not> (ev_kind ev = Some ''exit'' \<and> ev_reason ev = Some ''failure'')"
    by blast
  then show thesis
  proof cases
    case improvement
    obtain e' where o: "offer_if clk True ''new_global_best'' ?at (Inr (), e) = (Inr (), e')" "grows e e'"
      by (rule offer_if_grows [OF assms reviewed_names(1)])
    have "observe_lane_event clk ev recent e = offer_if clk True ''new_global_best'' ?at (Inr (), e)"
      using improvement by (simp add: observe_lane_event_def)
    then show thesis using that o by metis
  next
    case failure
    obtain e' where o: "offer_if clk True ''lane_failure'' ?at (Inr (), e) = (Inr (), e')" "grows e e'"
      by (rule offer_if_grows [OF assms reviewed_names(2)])
    have "observe_lane_event clk ev recent e = offer_if clk True ''lane_failure'' ?at (Inr (), e)"
      using failure by (simp add: observe_lane_event_def)
    then show thesis using that o by metis
  next
    case telemetry
    define prev where "prev = lane_summaries e (ev_lane_id ev)"
    define cur where "cur = \<lparr>ls_best_scalar = metric (ev_metrics ev) ''best_scalar'',
      ls_operator_yield = metric (ev_metrics ev) ''operator_yield''\<rparr>"
    define improved where "improved = (case prev of None \<Rightarrow> False
      | Some p \<Rightarrow> ls_best_scalar cur < ls_best_scalar p)"
    define shifted where "shifted = (case prev of None \<Rightarrow> False
      | Some p \<Rightarrow> \<bar>ls_operator_yield cur - ls_operator_yield p\<bar> \<ge> 1 / 100)"
    obtain e1 where 1: "offer_if clk shifted ''operator_yield_shift'' ?at
        (offer_if clk improved ''meaningful_improvement'' ?at (Inr (), e)) = (Inr (), e1)" "grows e e1"
      by (rule offers_grow [OF assms reviewed_names(3,4)])
    let ?e2 = "e1\<lparr>lane_summaries := (lane_summaries e1)(ev_lane_id ev \<mapsto> cur)\<rparr>"
    have ok2: "engine_ok ?e2" "grows e ?e2" using 1(2) by (auto simp: grows_def engine_ok_def)
    obtain e3 where 3: "offer_if clk ?stag ''stagnation'' ?at
        (offer_if clk ?dup ''diversity_collapse'' ?at (Inr (), ?e2)) = (Inr (), e3)" "grows ?e2 e3"
      by (rule offers_grow [OF ok2(1) reviewed_names(5,6)])
    have "observe_lane_event clk ev recent e = (Inr (), e3)"
      using telemetry 1(1) 3(1) unfolding improved_def shifted_def prev_def cur_def
      by (simp add: observe_lane_event_def Let_def)
    then show thesis using that grows_trans [OF ok2(2) 3(2)] by blast
  next
    case other
    then have "observe_lane_event clk ev recent e = (Inr (), e)"
      by (simp only: observe_lane_event_def Let_def if_False)
    then show thesis using that assms by (simp add: grows_def)
  qed
qed

lemma configure_ok:
  assumes "engine_ok e" "configure rc e = (res, e')"
  shows "engine_ok e' \<and> pending e' = pending e"
  using assms critical_reviewed(2) by (auto simp: configure_def engine_ok_def split: if_splits)

lemma outcome_simps [simp]:
  "outcome f (Inl x, s) = (Raised x, s)" "outcome f (Inr y, s) = (f y, s)"
  by (simp_all add: outcome_def)

lemma outcome_eq:
  "outcome f rs = (out, s) \<Longrightarrow> \<exists>res. rs = (res, s) \<and> out = (case res of Inl x \<Rightarrow> Raised x | Inr y \<Rightarrow> f y)"
  by (cases rs; cases "fst rs") (auto simp: outcome_def)

lemma engine_refines:
  assumes e: "engine_ok e" and s: "engine_step c e = (out, e')"
  shows "engine_ok e' \<and> mailbox c (pending e) out (pending e')"
proof (cases c)
  case (Offer clk r stamp)
  obtain res where o: "offer clk r stamp e = (res, e')" "out = (case res of Inl x \<Rightarrow> Raised x | Inr y \<Rightarrow> Accepted y)"
    using outcome_eq s Offer by (metis engine_step.simps(1))
  note k = offer_ok [OF e o(1)]
  show ?thesis
  proof (cases "res = Inr True")
    case True
    then show ?thesis using k o(2) Offer by simp
  next
    case False
    then have "e' = e" using k by simp
    then show ?thesis using k(1) o(2) Offer False by (cases res) auto
  qed
next
  case (Observe clk ev recent)
  obtain e1 where "observe_lane_event clk ev recent e = (Inr (), e1)" "grows e e1"
    by (rule observe_grows [OF e])
  then show ?thesis using s Observe by (auto simp: grows_def)
next
  case (Configure rc)
  obtain res where "configure rc e = (res, e')" "out = (case res of Inl x \<Rightarrow> Raised x | Inr y \<Rightarrow> Handled)"
    using outcome_eq s Configure by (metis engine_step.simps(3))
  then show ?thesis using configure_ok [OF e] Configure by (cases res) simp_all
next
  case (Due clk n)
  from due_ok [OF e, of clk n] obtain b e1 where "due clk n e = (Inr b, e1)" "engine_ok e1" "pending e \<subseteq> pending e1"
    "pending e1 \<subseteq> pending e \<union> TIMER_REASONS" "b \<longrightarrow> pending e1 \<noteq> {}" .
  then show ?thesis using s Due by auto
next
  case (Consume clk n)
  from e show ?thesis
  proof (cases rule: consume_ok [where clk = clk and n = n])
    case (delivered b e1 e2)
    then show ?thesis using s Consume by (auto simp: strict_sorted_iff)
  next
    case (early x e2)
    then show ?thesis using s Consume by auto
  qed
qed

lemma engine_urgent_accepted:
  assumes "engine_ok e" "r \<in> CRITICAL_REASONS"
  shows "fst (engine_step (Offer clk r stamp) e) = Accepted True"
proof -
  have "r \<in> set REVIEW_EVENTS \<inter> enabled_events e" using assms critical_reviewed by (auto simp: engine_ok_def)
  then show ?thesis using offer_accepts [of r e clk stamp]
    by (cases "offer clk r stamp e") (auto simp: outcome_def)
qed

lemma engine_due_delivers:
  assumes "engine_ok e"
    and "pending e \<inter> IMMEDIATE_REASONS \<noteq> {} \<or> clock_mono clk - last_review_monotonic e \<ge> max_review_seconds e"
  shows "\<exists>b. fst (engine_step (Consume clk n) e) = Delivered b"
proof -
  from due_ok [OF assms(1), of clk n] obtain b e1 where d: "due clk n e = (Inr b, e1)" "pending e \<subseteq> pending e1"
    "pending e1 \<inter> IMMEDIATE_REASONS \<noteq> {} \<longrightarrow> b"
    "clock_mono clk - last_review_monotonic e \<ge> max_review_seconds e \<longrightarrow> b \<and> ''maximum_review_interval'' \<in> pending e1" .
  then have "due clk n e = (Inr True, e1)" using assms(2) by auto
  then show ?thesis by (simp add: consume_def)
qed

interpretation eng: review_trigger engine_step engine_ok pending CRITICAL_REASONS
proof
  show "\<exists>b. fst (engine_step (Consume clk n) e) = Delivered b"
    if "engine_ok e" "pending e \<inter> CRITICAL_REASONS \<noteq> {}" for e clk n
    using that by (intro engine_due_delivers) (auto simp: IMMEDIATE_REASONS_def)
qed (use engine_refines engine_urgent_accepted in auto)

section \<open>The deterministic trigger keeps the contract\<close>

definition passive_ok :: "passive_trigger \<Rightarrow> bool" where
  "passive_ok p \<longleftrightarrow> pt_pending p \<subseteq> insert ''candidate_delta_reached'' PASSIVE_CRITICAL_REASONS \<and>
     (pt_pending p = {} \<longleftrightarrow> pt_first_event_at p = None) \<and> 1 \<le> pt_candidate_delta p"

lemma finite_pt_pending: "passive_ok p \<Longrightarrow> finite (pt_pending p)"
  by (rule finite_subset [of _ "insert ''candidate_delta_reached'' PASSIVE_CRITICAL_REASONS"])
    (auto simp: passive_ok_def PASSIVE_CRITICAL_REASONS_def)

lemma passive_due_ok:
  assumes "passive_ok p"
  obtains p1 where "passive_due clk n p = (Inr (pt_pending p1 \<noteq> {}), p1)" "passive_ok p1"
    "pt_pending p \<subseteq> pt_pending p1" "pt_pending p1 \<subseteq> pt_pending p \<union> TIMER_REASONS"
  by (rule that [OF _ _ _ _, of "snd (passive_due clk n p)"])
    (use assms in \<open>auto simp: passive_due_def passive_ok_def TIMER_REASONS_def Let_def\<close>)

lemma passive_offer_ok:
  assumes "passive_ok p"
  shows "passive_ok (snd (passive_offer clk r stamp p)) \<and>
    pt_pending (snd (passive_offer clk r stamp p)) =
      (if r \<in> PASSIVE_CRITICAL_REASONS then insert r (pt_pending p) else pt_pending p)"
  using assms by (auto simp: passive_offer_def passive_ok_def)

lemma passive_refines:
  assumes p: "passive_ok p" and s: "passive_step c p = (out, p')"
  shows "passive_ok p' \<and> mailbox c (pt_pending p) out (pt_pending p')"
proof (cases c)
  case (Consume clk n)
  obtain p1 where d: "passive_due clk n p = (Inr (pt_pending p1 \<noteq> {}), p1)" "passive_ok p1"
    "pt_pending p \<subseteq> pt_pending p1" "pt_pending p1 \<subseteq> pt_pending p \<union> TIMER_REASONS"
    by (rule passive_due_ok [OF p])
  show ?thesis
  proof (cases "pt_pending p1 = {}")
    case True
    then show ?thesis using s Consume d by (auto simp: passive_consume_def)
  next
    case False
    then show ?thesis using s Consume d finite_pt_pending [OF d(2)]
      by (auto simp: passive_consume_def strict_sorted_iff passive_ok_def)
  qed
next
  case (Due clk n)
  obtain p1 where "passive_due clk n p = (Inr (pt_pending p1 \<noteq> {}), p1)" "passive_ok p1"
    "pt_pending p \<subseteq> pt_pending p1" "pt_pending p1 \<subseteq> pt_pending p \<union> TIMER_REASONS"
    by (rule passive_due_ok [OF p])
  then show ?thesis using s Due by auto
next
  case (Offer clk r stamp)
  have "passive_step c p = (Accepted (r \<in> PASSIVE_CRITICAL_REASONS), snd (passive_offer clk r stamp p))"
    by (simp add: Offer passive_offer_def)
  then have out: "out = Accepted (r \<in> PASSIVE_CRITICAL_REASONS)" "p' = snd (passive_offer clk r stamp p)"
    using s by simp_all
  show ?thesis using passive_offer_ok [OF p, of clk r stamp] out Offer by simp
next
  case (Observe clk ev recent)
  have "passive_step c p = (Handled, snd (passive_observe clk ev p))"
    by (simp add: Observe passive_observe_def)
  then have out: "out = Handled" "p' = snd (passive_observe clk ev p)" using s by simp_all
  show ?thesis
    using passive_offer_ok [OF p, of clk "''lane_failure''" "Some (or_now clk (ev_at ev))"] out Observe p reviewed_names(2)
    by (cases "ev_kind ev = Some ''exit'' \<and> ev_reason ev = Some ''failure''")
      (auto simp: passive_observe_def)
next
  case (Configure rc)
  then show ?thesis using s p
    by (cases "rc_candidate_delta rc < 1") (auto simp: passive_configure_def passive_ok_def)
qed

interpretation pas: review_trigger passive_step passive_ok pt_pending PASSIVE_CRITICAL_REASONS
proof
  show "\<exists>b. fst (passive_step (Consume clk n) p) = Delivered b"
    if ok: "passive_ok p" and urg: "pt_pending p \<inter> PASSIVE_CRITICAL_REASONS \<noteq> {}" for p clk n
  proof -
    obtain p1 where p1: "passive_due clk n p = (Inr (pt_pending p1 \<noteq> {}), p1)" "pt_pending p \<subseteq> pt_pending p1"
      by (rule passive_due_ok [OF ok])
    then have "pt_pending p1 \<noteq> {}" using urg by auto
    then show ?thesis using p1(1) by (simp add: passive_consume_def)
  qed
  show "fst (passive_step (Offer clk r stamp) p) = Accepted True"
    if "r \<in> PASSIVE_CRITICAL_REASONS" for p clk r stamp
    using that by (simp add: passive_offer_def)
qed (use passive_refines in auto)

lemma new_engine_ok:
  assumes "new_engine clk debounce minimum maximum delta = Inr e"
  shows "engine_ok e \<and> pending e = {}"
  using assms critical_reviewed(2) by (auto simp: new_engine_def engine_ok_def split: if_splits)

lemma new_passive_ok: "new_passive evaluations delta = Inr p \<Longrightarrow> passive_ok p"
  by (auto simp: new_passive_def passive_ok_def split: if_splits)

section \<open>A small campaign\<close>

definition clock_at :: "nat \<Rightarrow> clock" where
  "clock_at t = \<lparr>clock_mono = of_nat t, clock_wall = ''2024-01-01T00:00:00Z''\<rparr>"

definition fresh_engine :: trigger_engine where
  "fresh_engine =
     \<lparr>debounce_seconds = 1, min_review_seconds = 0, max_review_seconds = 300, candidate_delta = 100000,
      enabled_events = set REVIEW_EVENTS, pending = {}, first_event_at = None, first_monotonic = None,
      last_review_monotonic = 0, last_review_candidates = 0, lane_summaries = Map.empty\<rparr>"

definition quiet_contract :: review_contract where
  "quiet_contract = \<lparr>min_wall_seconds = 60, max_wall_seconds = 600, rc_candidate_delta = 1000, rc_events = []\<rparr>"

lemma fresh_engine_new: "new_engine (clock_at 0) 1 0 300 100000 = Inr fresh_engine"
  by (simp add: new_engine_def fresh_engine_def clock_at_def)

lemmas fresh_engine_ok = conjunct1 [OF new_engine_ok [OF fresh_engine_new]]

section \<open>Properties\<close>

text \<open>
  C17. The trigger engine refines the mailbox: every call keeps the invariant of the engine (the
  mandatory events stay enabled, only reviewed and internal reasons are pending, the time
  stamps are set exactly while something is pending, the intervals stay consistent) and its
  effect on the pending reasons is that of the mailbox.  In particular the assertion in
  \<open>due\<close> never fails and a delivered batch is the strictly sorted list of everything accepted
  since the last delivery and the timer reasons.
\<close>

theorem trigger_engine_refines_mailbox:
  assumes "engine_ok e" "engine_step c e = (out, e')"
  shows "engine_ok e' \<and> mailbox c (pending e) out (pending e')"
  using assms by (rule engine_refines)

theorem trigger_engine_refines_mailbox_witness:
  "engine_ok (snd (engine_step (Configure quiet_contract) fresh_engine)) \<and>
   pending (snd (engine_step (Offer (clock_at 5) ''regression'' None) fresh_engine)) = {''regression''}"
proof -
  have "engine_step (Offer (clock_at 5) ''regression'' None) fresh_engine =
      (Accepted True, snd (engine_step (Offer (clock_at 5) ''regression'' None) fresh_engine))"
    by (simp add: offer_def fresh_engine_def REVIEW_EVENTS_def Let_def)
  then have "pending (snd (engine_step (Offer (clock_at 5) ''regression'' None) fresh_engine)) = {''regression''}"
    using trigger_engine_refines_mailbox [OF fresh_engine_ok] by (fastforce simp: fresh_engine_def)
  moreover have "engine_ok (snd (engine_step (Configure quiet_contract) fresh_engine))"
    using trigger_engine_refines_mailbox [OF fresh_engine_ok] surjective_pairing by blast
  ultimately show ?thesis by simp
qed

text \<open>
  C7. Critical reasons reach the Director: once a critical reason is offered to either trigger,
  then whatever calls follow (reconfigurations that mute it included), a \<open>consume\<close> at any time
  and at any candidate count leaves it delivered in a batch.
\<close>

theorem critical_reasons_are_delivered:
  assumes "engine_ok e" "passive_ok p" "r \<in> CRITICAL_REASONS"
    and "calls = Offer clk r stamp # cs @ [Consume clk' n]"
  shows "(\<exists>out\<in>set (fst (trigger_run engine_step calls e)). r \<in> delivers out) \<and>
    (\<exists>out\<in>set (fst (trigger_run passive_step calls p)). r \<in> delivers out)"
proof -
  have "r \<in> PASSIVE_CRITICAL_REASONS"
    using assms(3) by (auto simp: CRITICAL_REASONS_def PASSIVE_CRITICAL_REASONS_def)
  then show ?thesis
    using eng.urgent_delivered [OF assms(1,3) surjective_pairing] pas.urgent_delivered [OF assms(2) _ surjective_pairing]
    unfolding assms(4) by blast
qed

theorem critical_reasons_are_delivered_witness:
  "\<exists>out\<in>set (fst (trigger_run engine_step
       [Offer (clock_at 5) ''lane_failure'' None, Configure quiet_contract, Consume (clock_at 6) 0] fresh_engine)).
     ''lane_failure'' \<in> delivers out"
proof -
  have "new_passive 0 4000 = Inr \<lparr>last_review_evaluations = 0, pt_candidate_delta = 4000, pt_pending = {},
      pt_first_event_at = None\<rparr>" by (simp add: new_passive_def)
  from critical_reasons_are_delivered [OF fresh_engine_ok new_passive_ok [OF this] _ refl, of "''lane_failure''"
      "clock_at 5" None "[Configure quiet_contract]" "clock_at 6" 0]
  show ?thesis by (simp only: CRITICAL_REASONS_def insert_iff simp_thms append.simps)
qed

text \<open>
  C36. A review is never postponed beyond the maximum interval: at every clock reading at least
  that long after the last review \<open>consume\<close> succeeds, its batch contains every pending reason
  and \<open>maximum_review_interval\<close>, and the interval starts again.
\<close>

theorem review_within_maximum_interval:
  assumes "engine_ok e" "max_review_seconds e \<le> clock_mono clk - last_review_monotonic e"
  shows "\<exists>b e'. consume clk n e = (Inr b, e') \<and>
    insert ''maximum_review_interval'' (pending e) \<subseteq> set (reasons b) \<and>
    pending e' = {} \<and> last_review_monotonic e' = clock_mono clk \<and> last_review_candidates e' = n"
proof -
  from due_ok [OF assms(1), of clk n] obtain b e1 where d: "due clk n e = (Inr b, e1)" "engine_ok e1"
    "pending e \<subseteq> pending e1"
    "clock_mono clk - last_review_monotonic e \<ge> max_review_seconds e \<longrightarrow> b \<and> ''maximum_review_interval'' \<in> pending e1" .
  then show ?thesis using assms(2) finite_pending [OF d(2)] by (auto simp: consume_def)
qed

theorem review_within_maximum_interval_witness:
  "\<exists>b e'. consume (clock_at 301) 7 fresh_engine = (Inr b, e') \<and> ''maximum_review_interval'' \<in> set (reasons b)"
proof -
  have "max_review_seconds fresh_engine \<le> clock_mono (clock_at 301) - last_review_monotonic fresh_engine"
    by (simp add: fresh_engine_def clock_at_def)
  from review_within_maximum_interval [OF fresh_engine_ok this, of 7] show ?thesis by blast
qed

end
