(* ===== verification/Telemetry.thy ===== *)
theory Telemetry
  imports Json
begin

text \<open>
  Lane telemetry (\<open>src/src/sglab/research/telemetry.py\<close>): the bounded series of micro-batch
  windows, its recent summary, the regression slope, and the comparison of the windows before
  and after an intervention, with the direction that \<open>src/src/sglab/research/effects.py\<close> reads
  from the text of the expected effect.

  A window is a map from metric names to floats with the default 0 of \<open>dict.get\<close>, together with
  the score it reports.  Sums, means and slopes of finite floats are computed in the rationals
  (rounding is not modelled).
\<close>

section \<open>Windows\<close>

record window =
  metrics :: "string \<rightharpoonup> py_float"
  high_water :: int
  best_score :: json

definition get_float :: "window \<Rightarrow> string \<Rightarrow> py_float" where
  "get_float w k =
     (if k = ''end_high_water'' then Fin (of_int (high_water w))
      else case metrics w k of None \<Rightarrow> Fin 0 | Some v \<Rightarrow> v)"

definition finite_values :: "py_float list \<Rightarrow> rat list" where
  "finite_values xs = List.map_filter (\<lambda>x. case x of Fin r \<Rightarrow> Some r | _ \<Rightarrow> None) xs"

definition rat_mean :: "rat list \<Rightarrow> rat" where
  "rat_mean xs = (if xs = [] then 0 else sum_list xs / of_nat (length xs))"

definition mean :: "py_float list \<Rightarrow> rat" where
  "mean values = rat_mean (finite_values values)"

definition finite_points :: "(py_float \<times> py_float) list \<Rightarrow> (rat \<times> rat) list" where
  "finite_points ps = List.map_filter (\<lambda>p. case p of (Fin x, Fin y) \<Rightarrow> Some (x, y) | _ \<Rightarrow> None) ps"

definition slope :: "(py_float \<times> py_float) list \<Rightarrow> rat" where
  "slope points =
     (let values = finite_points points
      in if length values < 2 then 0
         else
           let mean_x = rat_mean (map fst values);
               mean_y = rat_mean (map snd values);
               denominator = sum_list (map (\<lambda>(x, _). (x - mean_x) ^ 2) values)
           in if denominator \<le> 0 then 0
              else sum_list (map (\<lambda>(x, y). (x - mean_x) * (y - mean_y)) values) / denominator)"

definition score_points :: "window list \<Rightarrow> (py_float \<times> py_float) list" where
  "score_points ws = map (\<lambda>w. (get_float w ''end_high_water'', get_float w ''best_scalar'')) ws"

definition mean_of :: "string \<Rightarrow> window list \<Rightarrow> rat" where
  "mean_of k ws = mean (map (\<lambda>w. get_float w k) ws)"

section \<open>The series\<close>

record telemetry_series =
  maxlen :: nat
  series_items :: "window list"

definition new_series :: "int \<Rightarrow> telemetry_series result" where
  "new_series maximum =
     (if maximum < 2 then Inl (ValueError ''telemetry maximum must be at least 2'')
      else Inr \<lparr>maxlen = nat maximum, series_items = []\<rparr>)"

text \<open>A full \<open>deque\<close> drops its oldest item.\<close>

definition series_append :: "window \<Rightarrow> telemetry_series \<Rightarrow> telemetry_series" where
  "series_append w s =
     (let longer = series_items s @ [w]
      in s\<lparr>series_items := if length longer > maxlen s then tl longer else longer\<rparr>)"

record recent_summary =
  windows :: nat
  score_slope :: rat
  candidates_per_second :: rat
  duplicate_rate :: rat
  diversity :: rat
  operator_yield :: rat
  latest :: "(int \<times> json) option"

definition recent :: "int \<Rightarrow> telemetry_series \<Rightarrow> recent_summary" where
  "recent n s =
     (let xs = series_items s; k = nat (max 1 n); items = drop (length xs - k) xs
      in if items = []
         then \<lparr>windows = 0, score_slope = 0, candidates_per_second = 0, duplicate_rate = 0,
               diversity = 0, operator_yield = 0, latest = None\<rparr>
         else \<lparr>windows = length items, score_slope = slope (score_points items),
               candidates_per_second = mean_of ''candidates_per_second'' items,
               duplicate_rate = mean_of ''duplicate_rate'' items, diversity = mean_of ''diversity'' items,
               operator_yield = mean_of ''operator_yield'' items,
               latest = Some (high_water (last items), best_score (last items))\<rparr>)"

section \<open>Comparison of effects\<close>

record effect_summary =
  es_score_slope :: rat
  es_diversity :: rat
  es_throughput :: rat
  es_duplicate_rate :: rat
  es_operator_yield :: rat

definition summary :: "window list \<Rightarrow> effect_summary" where
  "summary ws =
     \<lparr>es_score_slope = slope (score_points ws), es_diversity = mean_of ''diversity'' ws,
      es_throughput = mean_of ''candidates_per_second'' ws,
      es_duplicate_rate = mean_of ''duplicate_rate'' ws, es_operator_yield = mean_of ''operator_yield'' ws\<rparr>"

record effect_comparison =
  score_slope_change :: rat
  diversity_change :: rat
  throughput_change :: rat
  duplicate_rate_change :: rat
  operator_yield_change :: rat
  expectation_met :: "bool option"

definition compare_effects :: "window list \<Rightarrow> window list \<Rightarrow> string option \<Rightarrow> effect_comparison" where
  "compare_effects pre post expected_direction =
     (let before = summary pre; after = summary post;
          slope_change = es_score_slope after - es_score_slope before
      in \<lparr>score_slope_change = slope_change,
          diversity_change = es_diversity after - es_diversity before,
          throughput_change = es_throughput after - es_throughput before,
          duplicate_rate_change = es_duplicate_rate after - es_duplicate_rate before,
          operator_yield_change = es_operator_yield after - es_operator_yield before,
          expectation_met =
            (if expected_direction = Some ''improve_score_slope'' then Some (slope_change < 0)
             else if expected_direction = Some ''increase_diversity''
             then Some (es_diversity before < es_diversity after)
             else if expected_direction = Some ''increase_throughput''
             then Some (es_throughput before < es_throughput after)
             else None)\<rparr>)"

text \<open>\<open>str.lower\<close> on ASCII and the substring test.\<close>

definition lower_char :: "char \<Rightarrow> char" where
  "lower_char c = (let n = of_char c :: nat in if 65 \<le> n \<and> n \<le> 90 then char_of (n + 32) else c)"

fun has_substring :: "string \<Rightarrow> string \<Rightarrow> bool" where
  "has_substring p [] = (p = [])"
| "has_substring p (c # cs) = (take (length p) (c # cs) = p \<or> has_substring p cs)"

definition expected_direction :: "string \<Rightarrow> string option" where
  "expected_direction effect =
     (let lowered = map lower_char effect
      in if has_substring ''divers'' lowered \<or> has_substring ''unique'' lowered
         then Some ''increase_diversity''
         else if has_substring ''throughput'' lowered \<or> has_substring ''speed'' lowered
         then Some ''increase_throughput''
         else if \<exists>word\<in>set [''score'', ''penalty'', ''witness'']. has_substring word lowered
         then Some ''improve_score_slope''
         else None)"

section \<open>The bounded series\<close>

lemma fold_append_latest:
  assumes "0 < maxlen s" "length (series_items s) \<le> maxlen s"
  shows "maxlen (fold series_append ws s) = maxlen s \<and>
    series_items (fold series_append ws s) =
      drop (length (series_items s @ ws) - maxlen s) (series_items s @ ws)"
  using assms
proof (induction ws arbitrary: s)
  case (Cons w ws)
  let ?xs = "series_items s"
  let ?s1 = "series_append w s"
  have s1: "maxlen ?s1 = maxlen s \<and> length (series_items ?s1) \<le> maxlen s \<and>
    series_items ?s1 = drop (length ?xs + 1 - maxlen s) (?xs @ [w])"
  proof (cases "length ?xs = maxlen s")
    case True
    then have "?xs \<noteq> []" using Cons.prems(1) by auto
    then obtain x xs where "?xs = x # xs" by (cases ?xs) auto
    moreover from this have "maxlen s = Suc (length xs)" using True by simp
    ultimately show ?thesis by (simp add: series_append_def)
  next
    case False
    then have "length ?xs < maxlen s" using Cons.prems(2) by simp
    then show ?thesis by (simp add: series_append_def Let_def)
  qed
  define k where "k = length ?xs + 1 - maxlen s"
  have k: "k \<le> length (?xs @ [w])" using Cons.prems by (simp add: k_def)
  have app: "series_items ?s1 @ ws = drop k (?xs @ w # ws)"
    using k s1 Cons.prems(1) by (simp add: k_def)
  have "maxlen (fold series_append ws ?s1) = maxlen s \<and>
      series_items (fold series_append ws ?s1) = drop (length (series_items ?s1 @ ws) - maxlen s) (series_items ?s1 @ ws)"
    using Cons.IH [of ?s1] s1 Cons.prems(1) by simp
  moreover have "length (series_items ?s1 @ ws) - maxlen s + k = length (?xs @ w # ws) - maxlen s"
    unfolding app by (simp add: k_def)
  ultimately have "maxlen (fold series_append ws ?s1) = maxlen s \<and>
      series_items (fold series_append ws ?s1) = drop (length (?xs @ w # ws) - maxlen s) (?xs @ w # ws)"
    by (metis app drop_drop)
  then show ?case by (simp only: fold_simps)
qed simp

lemma drop_twice_index: "m \<le> k \<Longrightarrow> l - (l - k + m) + (l - k) = l - (m :: nat)"
  by arith

lemma recent_cong:
  "drop (length (series_items s) - nat (max 1 n)) (series_items s) =
   drop (length (series_items t) - nat (max 1 n)) (series_items t) \<Longrightarrow> recent n s = recent n t"
  by (simp only: recent_def Let_def)

lemma finite_points_Fin [simp]: "finite_points (map (\<lambda>(x, y). (Fin x, Fin y)) ps) = ps"
  by (induction ps) (auto simp: finite_points_def List.map_filter_simps)

section \<open>Least squares\<close>

definition squared_error :: "(rat \<times> rat) list \<Rightarrow> rat \<Rightarrow> rat \<Rightarrow> rat" where
  "squared_error ps a b = sum_list (map (\<lambda>(x, y). (y - (a + b * x)) ^ 2) ps)"

lemma sum_list_minus_mean:
  assumes "ps \<noteq> []"
  shows "sum_list (map (\<lambda>p. f p - rat_mean (map f ps)) ps) = 0"
  using assms by (simp add: sum_list_subtractf rat_mean_def sum_list_triv)

text \<open>The error splits into the error of the line through the centre with the same slope and its offset.\<close>

lemma squared_error_split:
  fixes ps :: "(rat \<times> rat) list" and a b :: rat
  assumes "ps \<noteq> []"
  defines "u \<equiv> \<lambda>p :: rat \<times> rat. fst p - rat_mean (map fst ps)" and "v \<equiv> \<lambda>p :: rat \<times> rat. snd p - rat_mean (map snd ps)"
  defines "c \<equiv> rat_mean (map snd ps) - a - b * rat_mean (map fst ps)"
  shows "squared_error ps a b =
    sum_list (map (\<lambda>p. v p ^ 2) ps) - 2 * b * sum_list (map (\<lambda>p. u p * v p) ps) +
    b ^ 2 * sum_list (map (\<lambda>p. u p ^ 2) ps) + of_nat (length ps) * c ^ 2"
proof -
  have "(y - (a + b * x)) ^ 2 = v (x, y) ^ 2 + ((- 2 * b) * (u (x, y) * v (x, y)) +
      (b ^ 2 * u (x, y) ^ 2 + ((2 * c) * v (x, y) + ((- 2 * b * c) * u (x, y) + c ^ 2))))" for x y
    unfolding u_def v_def c_def by (simp add: power2_eq_square algebra_simps)
  then have "squared_error ps a b = sum_list (map (\<lambda>p. v p ^ 2 + ((- 2 * b) * (u p * v p) +
      (b ^ 2 * u p ^ 2 + ((2 * c) * v p + ((- 2 * b * c) * u p + c ^ 2))))) ps)"
    unfolding squared_error_def by (intro arg_cong [where f = sum_list] map_cong) auto
  moreover have "sum_list (map u ps) = 0" "sum_list (map v ps) = 0"
    unfolding u_def v_def using sum_list_minus_mean [OF assms(1)] by auto
  ultimately show ?thesis
    by (simp only: sum_list_addf sum_list_const_mult sum_list_triv)
qed

lemma slope_value:
  assumes "finite_points points = ps" "p \<in> set ps" "q \<in> set ps" "fst p \<noteq> fst q"
  defines "u \<equiv> \<lambda>p :: rat \<times> rat. fst p - rat_mean (map fst ps)" and "v \<equiv> \<lambda>p :: rat \<times> rat. snd p - rat_mean (map snd ps)"
  shows "0 < sum_list (map (\<lambda>p. u p ^ 2) ps)"
    "slope points * sum_list (map (\<lambda>p. u p ^ 2) ps) = sum_list (map (\<lambda>p. u p * v p) ps)"
proof -
  have two: "\<not> length ps < 2"
    using assms(2-4) by (cases ps rule: list.exhaust; cases "tl ps") auto
  have "u p \<noteq> 0 \<or> u q \<noteq> 0" using assms(4) by (auto simp: u_def)
  then obtain r where r: "r \<in> set ps" "u r \<noteq> 0" using assms(2,3) by blast
  have "sum_list (map (\<lambda>p. u p ^ 2) ps) \<noteq> 0"
    using r by (subst sum_list_nonneg_eq_0_iff) auto
  moreover have "0 \<le> sum_list (map (\<lambda>p. u p ^ 2) ps)" by (rule sum_list_nonneg) auto
  ultimately show pos: "0 < sum_list (map (\<lambda>p. u p ^ 2) ps)" by simp
  have "(\<lambda>(x, _). (x - rat_mean (map fst ps)) ^ 2) = (\<lambda>p. u p ^ 2)"
    "(\<lambda>(x, y). (x - rat_mean (map fst ps)) * (y - rat_mean (map snd ps))) = (\<lambda>p. u p * v p)"
    by (auto simp: u_def v_def)
  then show "slope points * sum_list (map (\<lambda>p. u p ^ 2) ps) = sum_list (map (\<lambda>p. u p * v p) ps)"
    using two pos by (simp add: slope_def assms(1) Let_def)
qed

section \<open>Properties\<close>

lemma slope_is_least_squares:
  assumes "finite_points points = ps" "p \<in> set ps" "q \<in> set ps" "fst p \<noteq> fst q"
  shows "squared_error ps (rat_mean (map snd ps) - slope points * rat_mean (map fst ps)) (slope points)
      \<le> squared_error ps a b \<and>
    (squared_error ps a b \<le>
      squared_error ps (rat_mean (map snd ps) - slope points * rat_mean (map fst ps)) (slope points) \<longrightarrow>
      b = slope points)"
proof -
  define suu where "suu = sum_list (map (\<lambda>p. (fst p - rat_mean (map fst ps)) ^ 2) ps)"
  define suv where "suv = sum_list (map (\<lambda>p. (fst p - rat_mean (map fst ps)) * (snd p - rat_mean (map snd ps))) ps)"
  define svv where "svv = sum_list (map (\<lambda>p. (snd p - rat_mean (map snd ps)) ^ 2) ps)"
  define off where "off = of_nat (length ps) * (rat_mean (map snd ps) - a - b * rat_mean (map fst ps)) ^ 2"
  define s where "s = slope points"
  note sv = slope_value [OF assms, folded suu_def suv_def s_def]
  have ne: "ps \<noteq> []" using assms(2) by auto
  have e: "squared_error ps a b = svv - 2 * b * suv + b ^ 2 * suu + off"
    using squared_error_split [OF ne, of a b] by (simp add: suu_def suv_def svv_def off_def)
  have "squared_error ps (rat_mean (map snd ps) - s * rat_mean (map fst ps)) s = svv - 2 * s * suv + s ^ 2 * suu"
    using squared_error_split [OF ne, of "rat_mean (map snd ps) - s * rat_mean (map fst ps)" s]
    by (simp add: suu_def suv_def svv_def)
  then have diff: "squared_error ps a b = squared_error ps (rat_mean (map snd ps) - s * rat_mean (map fst ps)) s +
      suu * (b - s) ^ 2 + off"
    using e sv(2) [symmetric] by (simp add: power2_eq_square algebra_simps)
  have nn: "0 \<le> off" "0 \<le> suu * (b - s) ^ 2" using sv(1) by (simp_all add: off_def)
  have eq: "b = s" if "suu * (b - s) ^ 2 \<le> 0"
  proof -
    have "suu * (b - s) ^ 2 = 0" using that nn(2) by linarith
    then show ?thesis using sv(1) by simp
  qed
  show ?thesis unfolding s_def [symmetric]
    by (intro conjI impI eq) (use diff nn in linarith)+
qed

lemma telemetry_keeps_latest:
  assumes "new_series maximum = Inr s"
  shows "series_items (fold series_append ws s) = drop (length ws - nat maximum) ws \<and>
    (n \<le> maximum \<longrightarrow> recent n (fold series_append ws s) = recent n \<lparr>maxlen = length ws, series_items = ws\<rparr>)"
proof -
  have s: "0 < maxlen s" "length (series_items s) \<le> maxlen s" "series_items s = []" "maxlen s = nat maximum" "2 \<le> maximum"
    using assms by (auto simp: new_series_def split: if_splits)
  have items: "series_items (fold series_append ws s) = drop (length ws - nat maximum) ws"
    using fold_append_latest [OF s(1,2), of ws] s(3,4) by simp
  have "drop (length (drop (length ws - nat maximum) ws) - nat (max 1 n)) (drop (length ws - nat maximum) ws) =
      drop (length ws - nat (max 1 n)) ws" if "n \<le> maximum"
  proof -
    have "nat (max 1 n) \<le> nat maximum" using that s(5) by linarith
    then have "length ws - (length ws - nat maximum + nat (max 1 n)) + (length ws - nat maximum) =
        length ws - nat (max 1 n)" by (rule drop_twice_index)
    then show ?thesis by simp
  qed
  then have "recent n (fold series_append ws s) = recent n \<lparr>maxlen = length ws, series_items = ws\<rparr>" if "n \<le> maximum"
    by (intro recent_cong) (simp only: items telemetry_series.simps that)
  with items show ?thesis by blast
qed

end
