(* ===== verification/Broker.thy ===== *)
theory Broker
  imports Certification "HOL-Library.List_Lexorder" "HOL-Library.Char_ord" "HOL-Library.Product_Lexorder"
begin

text \<open>
  Verification of candidates inside a campaign: the tables of \<open>src/src/sglab/research/store.py\<close>
  that hold candidates, verification jobs, candidate snapshots, pins, Director actions and
  their outcomes, with the transactions on them, and \<open>M4VerificationBroker\<close>
  (\<open>src/src/sglab/research/verification_broker.py\<close>), which turns accepted actions into jobs, runs
  \<open>certify\<close> in worker processes and commits their results.  The commit of a batch of actions,
  which pins the graphs of their candidates, and the transactions that finish, resume and
  pause the campaign are included; \<open>campaign_run\<close> lets all of them happen in any order.

  The tables are those of one campaign.  A table is the list of its rows, \<open>UPDATE\<close> maps over it,
  a transaction that raises leaves the store as it was.  Time stamps are integers.  An
  identifier that the code makes from a digest is modelled by what is digested.  The
  environment says for every poll what the worker process did: the result queue holds a
  result (then the run of \<open>certify\<close> it stands for is given by the checker and the reference
  worker of theory \<open>Certification\<close>), the deadline has passed, the process is alive; and what
  the manifest file decodes to.  The text of an exception is cut to its fixed part.
\<close>

section \<open>Tables\<close>

datatype candidate_state = Retained | Promoted | Rejected | Certified

datatype job_state = Queued | Running | Completed | Unknown | Failed

type_synonym snapshot_key = "string \<times> int list"

record candidate_row =
  cd_id :: string
  cd_graph6 :: "int list"
  cd_state :: candidate_state
  cd_status :: "string option"
  cd_artifact :: "string option"
  cd_created :: int

record snapshot_row =
  sn_id :: snapshot_key
  sn_candidate :: string
  sn_graph6 :: "int list"

record pin_row =
  pn_action :: string
  pn_candidate :: string
  pn_snapshot :: snapshot_key
  pn_job :: "string option"
  pn_active :: bool

record job_row =
  jb_id :: string
  jb_candidate :: string
  jb_action :: string
  jb_priority :: int
  jb_state :: job_state
  jb_created :: int
  jb_snapshot :: snapshot_key
  jb_status :: "string option"
  jb_artifact :: "string option"

datatype action_request = Promote string | Schedule "string list" int | Other_Request

record action_row =
  ac_id :: string
  ac_key :: string
  ac_request :: action_request
  ac_priority :: int
  ac_accepted :: bool
  ac_lease_expires :: int
  ac_created :: int

record terminal_event =
  te_kind :: string
  te_candidate :: "string option"
  te_job :: "string option"
  te_artifact :: "string option"

record research_store =
  candidates :: "candidate_row list"
  snapshots :: "snapshot_row list"
  pins :: "pin_row list"
  jobs :: "job_row list"
  actions :: "action_row list"
  outcomes :: "(string \<times> string) list"
  campaign_state :: string
  state_version :: nat
  certified_candidate :: "string option"
  terminal_events :: "terminal_event list"
  time_limited :: bool

datatype store_error = StaleCandidateTarget "string list" "string list" | StoreRaised py_error

section \<open>Transactions\<close>

definition retain_campaign_candidate :: "int \<Rightarrow> string \<Rightarrow> int list \<Rightarrow> research_store \<Rightarrow> bool \<times> research_store" where
  "retain_campaign_candidate now cid g6 st =
     (if cid \<in> set (map cd_id (candidates st)) then (False, st)
      else (True, st\<lparr>candidates := candidates st @
        [\<lparr>cd_id = cid, cd_graph6 = g6, cd_state = Retained, cd_status = None, cd_artifact = None,
          cd_created = now\<rparr>]\<rparr>))"

definition record_action_outcome :: "string \<Rightarrow> string \<Rightarrow> research_store \<Rightarrow> bool result \<times> research_store" where
  "record_action_outcome aid stat st =
     (if aid \<in> set (map fst (outcomes st)) then (Inr False, st)
      else if aid \<notin> set (map ac_id (actions st)) then (Inl KeyError, st)
      else
        let st1 = st\<lparr>outcomes := outcomes st @ [(aid, stat)],
              pins := map (\<lambda>p. if pn_action p = aid \<and> pn_active p \<and> pn_job p = None
                               then p\<lparr>pn_active := False\<rparr> else p) (pins st)\<rparr>
        in (Inr True, if stat = ''applied'' then st1\<lparr>state_version := Suc (state_version st1)\<rparr> else st1))"

definition executable :: "candidate_row \<Rightarrow> bool" where
  "executable c \<longleftrightarrow> cd_state c = Retained \<or> cd_state c = Promoted"

definition valid_candidate_ids :: "research_store \<Rightarrow> string list" where
  "valid_candidate_ids st =
     take 64 (map cd_id (sort_key (\<lambda>c. (- cd_created c, cd_id c)) (filter executable (candidates st))))"

text \<open>\<open>INSERT OR IGNORE\<close> into the two tables.\<close>

definition add_snapshot :: "snapshot_row \<Rightarrow> research_store \<Rightarrow> research_store" where
  "add_snapshot s st =
     (if sn_id s \<in> set (map sn_id (snapshots st)) then st else st\<lparr>snapshots := snapshots st @ [s]\<rparr>)"

definition add_pin :: "pin_row \<Rightarrow> research_store \<Rightarrow> research_store" where
  "add_pin p st =
     (if (pn_action p, pn_candidate p) \<in> set (map (\<lambda>p. (pn_action p, pn_candidate p)) (pins st)) then st
      else st\<lparr>pins := pins st @ [p]\<rparr>)"

definition pin_candidate :: "string \<Rightarrow> string \<Rightarrow> research_store \<Rightarrow> store_error + (snapshot_key \<times> research_store)" where
  "pin_candidate aid cid st =
     (case find (\<lambda>c. cd_id c = cid \<and> executable c) (candidates st) of
        None \<Rightarrow> Inl (StaleCandidateTarget [cid] (valid_candidate_ids st))
      | Some c \<Rightarrow>
          let sid = (cid, cd_graph6 c)
          in Inr (sid,
               add_pin \<lparr>pn_action = aid, pn_candidate = cid, pn_snapshot = sid, pn_job = None, pn_active = True\<rparr>
                 (add_snapshot \<lparr>sn_id = sid, sn_candidate = cid, sn_graph6 = cd_graph6 c\<rparr> st)))"

text \<open>The table has a primary key and is unique in the candidate.\<close>

definition insert_job :: "job_row \<Rightarrow> research_store \<Rightarrow> store_error + research_store" where
  "insert_job j st =
     (if jb_id j \<in> set (map jb_id (jobs st)) \<or> jb_candidate j \<in> set (map jb_candidate (jobs st))
      then Inl (StoreRaised (RuntimeError ''UNIQUE constraint failed''))
      else Inr (st\<lparr>jobs := jobs st @ [j]\<rparr>))"

definition find_job :: "string \<Rightarrow> research_store \<Rightarrow> job_row option" where
  "find_job cid st = find (\<lambda>j. jb_candidate j = cid) (jobs st)"

definition requeue :: "string \<Rightarrow> int \<Rightarrow> string \<Rightarrow> research_store \<Rightarrow> research_store" where
  "requeue aid priority cid st =
     st\<lparr>jobs := map (\<lambda>j. if jb_candidate j = cid
        then j\<lparr>jb_action := aid, jb_priority := priority, jb_state := Queued, jb_status := None, jb_artifact := None\<rparr>
        else j) (jobs st)\<rparr>"

definition update_pins :: "string \<Rightarrow> string \<Rightarrow> (pin_row \<Rightarrow> pin_row) \<Rightarrow> research_store \<Rightarrow> research_store" where
  "update_pins aid cid f st =
     st\<lparr>pins := map (\<lambda>p. if pn_action p = aid \<and> pn_candidate p = cid then f p else p) (pins st)\<rparr>"

definition set_candidate :: "string \<Rightarrow> (candidate_row \<Rightarrow> candidate_row) \<Rightarrow> research_store \<Rightarrow> research_store" where
  "set_candidate cid f st = st\<lparr>candidates := map (\<lambda>c. if cd_id c = cid then f c else c) (candidates st)\<rparr>"

text \<open>The body of the loop over the candidates of an action.\<close>

definition queue_candidate ::
  "int \<Rightarrow> string \<Rightarrow> int \<Rightarrow> string \<times> string \<Rightarrow> research_store \<Rightarrow> store_error + research_store" where
  "queue_candidate now aid priority cj st =
     (case cj of (cid, jid) \<Rightarrow>
        case (case find (\<lambda>p. pn_action p = aid \<and> pn_candidate p = cid \<and> pn_active p) (pins st) of
                Some p \<Rightarrow> Inr (pn_snapshot p, st)
              | None \<Rightarrow> pin_candidate aid cid st) of
          Inl e \<Rightarrow> Inl e
        | Inr (sid, st1) \<Rightarrow>
            (let existing = find_job cid st1
             in case (case existing of
                        None \<Rightarrow> insert_job \<lparr>jb_id = jid, jb_candidate = cid, jb_action = aid, jb_priority = priority,
                          jb_state = Queued, jb_created = now, jb_snapshot = sid, jb_status = None,
                          jb_artifact = None\<rparr> st1
                      | Some j \<Rightarrow> Inr (if jb_state j = Unknown \<or> jb_state j = Failed
                                       then requeue aid priority cid st1 else st1)) of
                  Inl e \<Rightarrow> Inl e
                | Inr st2 \<Rightarrow>
                    let st3 = update_pins aid cid (\<lambda>p. p\<lparr>pn_job := Some jid\<rparr>) st2;
                        st4 = (case existing of
                                 Some j \<Rightarrow> if jb_state j = Completed
                                   then update_pins aid cid (\<lambda>p. p\<lparr>pn_active := False\<rparr>) st3 else st3
                               | None \<Rightarrow> st3)
                    in Inr (set_candidate cid (\<lambda>c. c\<lparr>cd_state := Promoted\<rparr>) st4)))"

fun queue_candidates ::
  "int \<Rightarrow> string \<Rightarrow> int \<Rightarrow> (string \<times> string) list \<Rightarrow> research_store \<Rightarrow> store_error + research_store" where
  "queue_candidates now aid priority [] st = Inr st"
| "queue_candidates now aid priority (cj # cjs) st =
     (case queue_candidate now aid priority cj st of
        Inl e \<Rightarrow> Inl e
      | Inr st' \<Rightarrow> queue_candidates now aid priority cjs st')"

definition queue_verification_action ::
  "int \<Rightarrow> string \<Rightarrow> string list \<Rightarrow> int \<Rightarrow> string list \<Rightarrow> research_store \<Rightarrow> (store_error + bool) \<times> research_store" where
  "queue_verification_action now aid cids priority jids st =
     (if length cids \<noteq> length jids \<or> cids = []
      then (Inl (StoreRaised (ValueError ''verification action candidate/job mismatch'')), st)
      else if aid \<in> set (map fst (outcomes st)) then (Inr False, st)
      else if aid \<notin> set (map ac_id (filter ac_accepted (actions st))) then (Inl (StoreRaised KeyError), st)
      else
        let found = filter (\<lambda>c. cd_id c \<in> set cids) (candidates st)
        in if length found \<noteq> length cids
           then (Inl (StaleCandidateTarget (filter (\<lambda>cid. cid \<notin> set (map cd_id found)) cids)
                   (valid_candidate_ids st)), st)
           else if \<exists>c\<in>set found. cd_state c = Rejected \<or> cd_state c = Certified
           then (Inl (StoreRaised (RuntimeError ''candidate is not eligible for verification'')), st)
           else (case queue_candidates now aid priority (zip cids jids) st of
                   Inl e \<Rightarrow> (Inl e, st)
                 | Inr st1 \<Rightarrow> (Inr True, st1\<lparr>outcomes := outcomes st1 @ [(aid, ''applied'')],
                                state_version := Suc (state_version st1)\<rparr>)))"

definition pending_candidate_actions :: "research_store \<Rightarrow> action_row list" where
  "pending_candidate_actions st =
     sort_key (\<lambda>a. (- ac_priority a, ac_created a, ac_id a))
       (filter (\<lambda>a. ac_accepted a \<and> ac_request a \<noteq> Other_Request \<and> ac_id a \<notin> set (map fst (outcomes st))) (actions st))"

definition queued_verification_jobs :: "nat \<Rightarrow> research_store \<Rightarrow> job_row list" where
  "queued_verification_jobs limit st =
     take limit (sort_key (\<lambda>j. (- jb_priority j, jb_created j, jb_id j)) (filter (\<lambda>j. jb_state j = Queued) (jobs st)))"

definition candidate_snapshot_for_job :: "string \<Rightarrow> research_store \<Rightarrow> snapshot_row result" where
  "candidate_snapshot_for_job jid st =
     (case find (\<lambda>j. jb_id j = jid) (jobs st) of
        None \<Rightarrow> Inl KeyError
      | Some j \<Rightarrow> (case find (\<lambda>s. sn_id s = jb_snapshot j) (snapshots st) of
                     None \<Rightarrow> Inl KeyError | Some s \<Rightarrow> Inr s))"

definition mark_verification_started :: "string \<Rightarrow> research_store \<Rightarrow> bool \<times> research_store" where
  "mark_verification_started jid st =
     (\<exists>j\<in>set (jobs st). jb_id j = jid \<and> jb_state j = Queued,
      st\<lparr>jobs := map (\<lambda>j. if jb_id j = jid \<and> jb_state j = Queued then j\<lparr>jb_state := Running\<rparr> else j) (jobs st)\<rparr>)"

definition requeue_running :: "research_store \<Rightarrow> research_store" where
  "requeue_running st =
     st\<lparr>jobs := map (\<lambda>j. if jb_state j = Running then j\<lparr>jb_state := Queued\<rparr> else j) (jobs st)\<rparr>"

definition terminal_states :: "string \<Rightarrow> job_state \<times> candidate_state" where
  "terminal_states stat =
     (if stat = ''COUNTEREXAMPLE_VERIFIED'' then (Completed, Certified)
      else if stat = ''INVALID_CANDIDATE'' then (Completed, Rejected)
      else if stat \<in> {''UNKNOWN_TIMEOUT'', ''UNKNOWN_MEMORY_LIMIT'', ''TOOL_FAILURE''} then (Unknown, Retained)
      else (Failed, Retained))"

definition FINAL_CAMPAIGN_STATES :: "string set" where
  "FINAL_CAMPAIGN_STATES =
     {''succeeded_certified_counterexample'', ''completed_deadline_reached'', ''stopped_by_operator''}"

definition complete_verification_job ::
  "string \<Rightarrow> string \<Rightarrow> string \<Rightarrow> research_store \<Rightarrow> bool \<times> research_store" where
  "complete_verification_job jid stat artifact st =
     (case find (\<lambda>j. jb_id j = jid \<and> jb_state j = Running) (jobs st) of
        None \<Rightarrow> (False, st)
      | Some job \<Rightarrow>
          let (js, cs) = terminal_states stat; cid = jb_candidate job;
              st1 = st\<lparr>jobs := map (\<lambda>j. if jb_id j = jid
                 then j\<lparr>jb_state := js, jb_artifact := Some artifact, jb_status := Some stat\<rparr> else j) (jobs st)\<rparr>;
              st2 = set_candidate cid (\<lambda>c. c\<lparr>cd_state := cs, cd_status := Some stat, cd_artifact := Some artifact\<rparr>) st1;
              st3 = st2\<lparr>pins := map (\<lambda>p. if pn_job p = Some jid \<and> pn_active p
                 then p\<lparr>pn_active := False\<rparr> else p) (pins st2)\<rparr>
          in if stat = ''COUNTEREXAMPLE_VERIFIED'' \<and> campaign_state st3 \<notin> FINAL_CAMPAIGN_STATES
             then (True, st3\<lparr>campaign_state := ''succeeded_certified_counterexample'',
                state_version := Suc (state_version st3), certified_candidate := Some cid,
                terminal_events := terminal_events st3 @
                  [\<lparr>te_kind = ''succeeded_certified_counterexample'', te_candidate = Some cid, te_job = Some jid,
                    te_artifact = Some artifact\<rparr>]\<rparr>)
             else (False, st3))"

section \<open>Decisions of the Director\<close>

text \<open>
  The transaction that commits a batch of actions.  Whether the lanes that an action names are
  active at the version it expects is given with the action; the idempotency key is \<open>ac_key\<close>.
  The status of an action is a string, as in the code.  The rows of the batch, of the hypotheses
  and of the scheduler are left out, and with them the exceptions for a missing turn or snapshot.
\<close>

fun candidate_targets :: "action_request \<Rightarrow> string list" where
  "candidate_targets (Promote cid) = [cid]"
| "candidate_targets (Schedule cids p) = cids"
| "candidate_targets Other_Request = []"

definition commit_status :: "bool \<Rightarrow> action_row \<times> bool \<Rightarrow> research_store \<Rightarrow> string" where
  "commit_status fresh submitted st =
     (case submitted of (a, lanes_current) \<Rightarrow>
        let stat = (if \<not> lanes_current then ''rejected_stale_state''
                      else if fresh then ''accepted'' else ''rejected_stale_campaign'')
        in if stat = ''accepted'' \<and>
              (\<exists>cid\<in>set (candidate_targets (ac_request a)). \<not> (\<exists>c\<in>set (candidates st). cd_id c = cid \<and> executable c))
           then ''stale_target'' else stat)"

fun pin_candidates :: "string \<Rightarrow> string list \<Rightarrow> research_store \<Rightarrow> store_error + research_store" where
  "pin_candidates aid [] st = Inr st"
| "pin_candidates aid (cid # cids) st =
     (case pin_candidate aid cid st of Inl e \<Rightarrow> Inl e | Inr (sid, st') \<Rightarrow> pin_candidates aid cids st')"

text \<open>The body of the loop over the actions: the row, and the snapshots and pins of its candidates.\<close>

definition commit_action ::
  "bool \<Rightarrow> action_row \<times> bool \<Rightarrow> research_store \<Rightarrow> store_error + (string \<times> research_store)" where
  "commit_action fresh submitted st =
     (let a = fst submitted in
      if ac_key a \<in> set (map ac_key (actions st)) then Inr (''rejected_duplicate_idempotency'', st)
      else
        let stat = commit_status fresh submitted st
        in if ac_id a \<in> set (map ac_id (actions st))
           then Inl (StoreRaised (RuntimeError ''UNIQUE constraint failed''))
           else
             let st1 = st\<lparr>actions := actions st @ [a\<lparr>ac_accepted := (stat = ''accepted'')\<rparr>]\<rparr>
             in if stat = ''accepted''
                then (case pin_candidates (ac_id a) (candidate_targets (ac_request a)) st1 of
                        Inl e \<Rightarrow> Inl e | Inr st2 \<Rightarrow> Inr (stat, st2))
                else Inr (stat, st1))"

fun commit_actions ::
  "bool \<Rightarrow> (action_row \<times> bool) list \<Rightarrow> (string \<times> string) list \<Rightarrow> research_store \<Rightarrow>
   store_error + ((string \<times> string) list \<times> research_store)" where
  "commit_actions fresh [] statuses st = Inr (statuses, st)"
| "commit_actions fresh (submitted # rest) statuses st =
     (case commit_action fresh submitted st of
        Inl e \<Rightarrow> Inl e
      | Inr (stat, st') \<Rightarrow>
          commit_actions fresh rest (AList.update (ac_id (fst submitted)) stat statuses) st')"

text \<open>\<open>submitted_actions\<close>: the last action of the batch with an identifier.\<close>

definition submitted_keys :: "(action_row \<times> bool) list \<Rightarrow> (string \<times> string) list" where
  "submitted_keys batch = fold (\<lambda>(a, _). AList.update (ac_id a) (ac_key a)) batch []"

definition id_collision :: "research_store \<Rightarrow> string \<times> string \<Rightarrow> bool" where
  "id_collision st submitted \<longleftrightarrow>
     (\<exists>a\<in>set (actions st). ac_id a = fst submitted \<and> ac_key a \<noteq> snd submitted)"

text \<open>A scheduler batch with a rejected action blocks the accepted ones and releases their pins.\<close>

definition block_actions :: "string list \<Rightarrow> research_store \<Rightarrow> research_store" where
  "block_actions blocked st =
     st\<lparr>actions := map (\<lambda>a. if ac_id a \<in> set blocked then a\<lparr>ac_accepted := False\<rparr> else a) (actions st),
        pins := map (\<lambda>p. if pn_action p \<in> set blocked \<and> pn_active p then p\<lparr>pn_active := False\<rparr> else p) (pins st)\<rparr>"

definition commit_decision_batch ::
  "bool \<Rightarrow> nat \<Rightarrow> (action_row \<times> bool) list \<Rightarrow> research_store \<Rightarrow> (store_error + (string \<times> string) list) \<times> research_store" where
  "commit_decision_batch scheduler snapshot_version batch st =
     (let fresh = (snapshot_version = state_version st); submitted = submitted_keys batch
      in if \<exists>s\<in>set submitted. id_collision st s
         then (Inr (map (\<lambda>s. (fst s, if id_collision st s then ''rejected_action_id_collision''
                             else ''blocked_action_id_collision'')) submitted), st)
         else (case commit_actions fresh batch [] st of
                 Inl e \<Rightarrow> (Inl e, st)
               | Inr (statuses, st1) \<Rightarrow>
                   if scheduler \<and> (\<exists>s\<in>set statuses. snd s \<noteq> ''accepted'')
                   then
                     let blocked = map fst (filter (\<lambda>s. snd s = ''accepted'') statuses)
                     in (Inr (map (\<lambda>s. if fst s \<in> set blocked then (fst s, ''blocked_scheduler_batch'') else s) statuses),
                         block_actions blocked st1)
                   else (Inr statuses, if fresh then st1\<lparr>state_version := Suc (state_version st1)\<rparr> else st1)))"

section \<open>The state of the campaign\<close>

text \<open>
  The \<open>CHECK\<close> constraint of the table of terminal events allows the final states only, so
  that \<open>finish_campaign\<close> raises, and changes nothing, for the third kind that it accepts.
\<close>

definition finish_campaign :: "string \<Rightarrow> research_store \<Rightarrow> bool result \<times> research_store" where
  "finish_campaign terminal_kind st =
     (if terminal_kind \<notin> {''completed_deadline_reached'', ''stopped_by_operator'', ''director_replan_exhausted''}
      then (Inl (ValueError ''unsupported operational terminal state''), st)
      else if campaign_state st \<in> insert ''director_replan_exhausted'' FINAL_CAMPAIGN_STATES then (Inr False, st)
      else if terminal_kind = ''completed_deadline_reached'' \<and> \<not> time_limited st
      then (Inl (RuntimeError ''until-success campaigns have no deadline terminal''), st)
      else if terminal_kind \<notin> FINAL_CAMPAIGN_STATES then (Inl (RuntimeError ''CHECK constraint failed''), st)
      else (Inr True, st\<lparr>campaign_state := terminal_kind, state_version := Suc (state_version st),
              terminal_events := terminal_events st @
                [\<lparr>te_kind = terminal_kind, te_candidate = None, te_job = None, te_artifact = None\<rparr>]\<rparr>))"

definition RESUMABLE_STATES :: "string set" where
  "RESUMABLE_STATES =
     {''paused_by_operator'', ''stopped_by_operator'', ''completed_deadline_reached'', ''deadline_reached'',
      ''budget_exhausted'', ''paused_fault'', ''interrupted'', ''infrastructure_failure''}"

definition resume_campaign :: "bool \<Rightarrow> bool \<Rightarrow> research_store \<Rightarrow> string result \<times> research_store" where
  "resume_campaign repair_acknowledged host_restart_recovery st =
     (let state = campaign_state st in
      if \<not> (state = ''running'' \<and> host_restart_recovery) \<and> state \<notin> RESUMABLE_STATES
      then (Inl (RuntimeError (''campaign state is not resumable: '' @ state)), st)
      else if state = ''paused_fault'' \<and> \<not> repair_acknowledged
      then (Inl (RuntimeError ''paused_fault resume requires a repair acknowledgement''), st)
      else (Inr state, st\<lparr>campaign_state := ''running'', state_version := Suc (state_version st)\<rparr>))"

definition transition_campaign :: "nat \<Rightarrow> string \<Rightarrow> research_store \<Rightarrow> nat result \<times> research_store" where
  "transition_campaign expected_version state st =
     (if state_version st \<noteq> expected_version then (Inl (RuntimeError ''stale campaign state''), st)
      else (Inr (Suc expected_version), st\<lparr>campaign_state := state, state_version := Suc (state_version st)\<rparr>))"

definition set_campaign_coordination_state :: "nat \<Rightarrow> string \<Rightarrow> research_store \<Rightarrow> nat result \<times> research_store" where
  "set_campaign_coordination_state expected_version state st =
     (if state \<notin> {''running'', ''paused_by_operator'', ''paused_fault''}
      then (Inl (ValueError ''invalid coordination state''), st)
      else transition_campaign expected_version state st)"

text \<open>The states in which the campaign loop changes nothing any more.\<close>

definition TERMINAL_STATES :: "string set" where
  "TERMINAL_STATES = FINAL_CAMPAIGN_STATES \<union>
     {''budget_exhausted'', ''director_replan_exhausted'', ''scientifically_invalidated''}"

section \<open>The broker\<close>

record running_verification =
  rv_job :: string
  rv_graph6 :: "int list"
  rv_artifact :: string

text \<open>
  \<open>Control\<close> is an event of \<open>dispatch_pending_actions\<close>; \<open>Verification_result\<close> has the reason, the
  job, the result, whether it ended the campaign, and the error.
\<close>

datatype broker_event =
    Control string
  | Verification_result string string string bool "string option"

fun event_reason :: "broker_event \<Rightarrow> string" where
  "event_reason (Control r) = r"
| "event_reason (Verification_result r j s t e) = r"

record broker =
  b_store :: research_store
  b_target :: string
  b_max_queue :: nat
  b_max_concurrent :: nat
  b_timeout_seconds :: py_float
  b_verifier_memory :: int
  b_running :: "running_verification list"
  b_events :: "broker_event list"
  b_lanes_paused :: bool

definition new_broker :: "research_store \<Rightarrow> string \<Rightarrow> int \<Rightarrow> int \<Rightarrow> py_float \<Rightarrow> int \<Rightarrow> broker result" where
  "new_broker st target max_queue max_concurrent timeout_seconds verifier_memory =
     (if max_queue < 1 then Inl (ValueError ''verification queue limit must be positive'')
      else if py_negative timeout_seconds \<or> timeout_seconds = Fin 0
      then Inl (ValueError ''verification timeout must be positive'')
      else if \<not> (1 \<le> max_concurrent \<and> max_concurrent \<le> max_queue)
      then Inl (ValueError ''verification concurrency limit is invalid'')
      else Inr \<lparr>b_store = st, b_target = target, b_max_queue = nat max_queue,
        b_max_concurrent = nat max_concurrent, b_timeout_seconds = timeout_seconds,
        b_verifier_memory = verifier_memory, b_running = [], b_events = [], b_lanes_paused = False\<rparr>)"

definition job_id_of :: "string \<Rightarrow> string" where
  "job_id_of cid = ''verification-'' @ cid"

fun action_targets :: "int \<Rightarrow> action_request \<Rightarrow> string list \<times> int" where
  "action_targets priority (Promote cid) = ([cid], priority)"
| "action_targets priority (Schedule cids p) = (cids, p)"
| "action_targets priority Other_Request = ([], priority)"

definition unfinished :: "job_row \<Rightarrow> bool" where
  "unfinished j \<longleftrightarrow> jb_state j = Queued \<or> jb_state j = Running"

definition queue_depth :: "research_store \<Rightarrow> nat" where
  "queue_depth st = length (filter unfinished (jobs st))"

definition refuse_action :: "string \<Rightarrow> string \<Rightarrow> string \<Rightarrow> broker \<Rightarrow> unit result \<times> broker" where
  "refuse_action aid stat why b =
     (case record_action_outcome aid stat (b_store b) of
        (Inl e, st) \<Rightarrow> (Inl e, b\<lparr>b_store := st\<rparr>)
      | (Inr _, st) \<Rightarrow> (Inr (), b\<lparr>b_store := st, b_events := b_events b @ [Control why]\<rparr>))"

text \<open>One pending action; the result says whether it was applied.\<close>

definition dispatch_action :: "int \<Rightarrow> action_row \<Rightarrow> broker \<Rightarrow> bool result \<times> broker" where
  "dispatch_action now a b =
     (let refused = (\<lambda>(res, b'). (rbind res (\<lambda>_. Inr False), b'))
      in if ac_lease_expires a \<le> now
         then refused (refuse_action (ac_id a) ''rejected_lease_expired'' ''action_lease_expired'' b)
         else
           let (cids, priority) = action_targets (ac_priority a) (ac_request a)
           in if queue_depth (b_store b) + length cids > b_max_queue b
              then refused (refuse_action (ac_id a) ''failed'' ''resource_pressure'' b)
              else (case queue_verification_action now (ac_id a) cids priority (map job_id_of cids) (b_store b) of
                      (Inr _, st) \<Rightarrow> (Inr True, b\<lparr>b_store := st\<rparr>)
                    | (Inl (StaleCandidateTarget _ _), st) \<Rightarrow>
                        refused (refuse_action (ac_id a) ''stale_target'' ''stale_candidate_target'' (b\<lparr>b_store := st\<rparr>))
                    | (Inl (StoreRaised e), st) \<Rightarrow> (Inl e, b\<lparr>b_store := st\<rparr>)))"

fun dispatch_actions :: "int \<Rightarrow> action_row list \<Rightarrow> broker \<Rightarrow> string list result \<times> broker" where
  "dispatch_actions now [] b = (Inr [], b)"
| "dispatch_actions now (a # as) b =
     (case dispatch_action now a b of
        (Inl e, b1) \<Rightarrow> (Inl e, b1)
      | (Inr done, b1) \<Rightarrow>
          (case dispatch_actions now as b1 of
             (Inl e, b2) \<Rightarrow> (Inl e, b2)
           | (Inr ids, b2) \<Rightarrow> (Inr (if done then ac_id a # ids else ids), b2)))"

definition dispatch_pending_actions :: "int \<Rightarrow> broker \<Rightarrow> string list result \<times> broker" where
  "dispatch_pending_actions now b = dispatch_actions now (pending_candidate_actions (b_store b)) b"

definition start_ready :: "broker \<Rightarrow> string option result \<times> broker" where
  "start_ready b =
     (if length (b_running b) \<ge> b_max_concurrent b then (Inr None, b)
      else (case queued_verification_jobs 1 (b_store b) of
              [] \<Rightarrow> (Inr None, b)
            | job # _ \<Rightarrow>
                (case candidate_snapshot_for_job (jb_id job) (b_store b) of
                   Inl e \<Rightarrow> (Inl e, b)
                 | Inr snap \<Rightarrow>
                     let (started, st) = mark_verification_started (jb_id job) (b_store b)
                     in if \<not> started then (Inr None, b\<lparr>b_store := st\<rparr>)
                        else (Inr (Some (jb_id job)), b\<lparr>b_store := st,
                          b_running := filter (\<lambda>r. rv_job r \<noteq> jb_id job) (b_running b) @
                            [\<lparr>rv_job = jb_id job, rv_graph6 = sn_graph6 snap,
                              rv_artifact = ''verifications/'' @ jb_id job\<rparr>]\<rparr>))))"

section \<open>Results\<close>

definition verification_worker ::
  "checker_env \<Rightarrow> worker_end \<Rightarrow> int list \<Rightarrow> string \<Rightarrow> py_float \<Rightarrow> int \<Rightarrow> manifest result" where
  "verification_worker env fate g6 target timeout_seconds verifier_memory =
     rbind (from_graph6 g6) (\<lambda>g. certify env fate g timeout_seconds verifier_memory target)"

definition valid_manifest :: "manifest \<Rightarrow> bool" where
  "valid_manifest m \<longleftrightarrow>
     m_status m \<in> {''COUNTEREXAMPLE_VERIFIED'', ''INVALID_CANDIDATE'', ''UNKNOWN_TIMEOUT'',
       ''UNKNOWN_MEMORY_LIMIT'', ''TOOL_FAILURE'', ''VERIFIER_DISAGREEMENT''} \<and>
     length (m_verifiers m) = 2 \<and>
     set (map (\<lambda>v. dict_get v ''implementation'') (m_verifiers m)) =
       {JStr ''python-reference-dfs'', JStr ''cpp17-bitset-dfs''} \<and>
     (m_status m = ''COUNTEREXAMPLE_VERIFIED'' \<longrightarrow>
        set (map (\<lambda>v. dict_get v ''status'') (m_verifiers m)) = {JStr ''VERIFIED'', JStr ''ABSENT''} \<and>
        (\<forall>v\<in>set (m_verifiers m). dict_get v ''complete'' = JBool True))"

record poll_env =
  pe_finished :: "(checker_env \<times> worker_end) option"
  pe_late :: bool
  pe_alive :: bool
  pe_exitcode :: "int option"
  pe_persisted :: "manifest option"
  pe_error_text :: "py_error \<Rightarrow> string"

text \<open>The result that \<open>poll\<close> acts on: the message of the worker, or the error of the broker.\<close>

definition poll_result :: "poll_env \<Rightarrow> broker \<Rightarrow> running_verification \<Rightarrow> (string + manifest) option" where
  "poll_result pe b r =
     (case pe_finished pe of
        Some (env, fate) \<Rightarrow>
          Some (case verification_worker env fate (rv_graph6 r) (b_target b) (b_timeout_seconds b) (b_verifier_memory b) of
                  Inl e \<Rightarrow> Inl (pe_error_text pe e) | Inr m \<Rightarrow> Inr m)
      | None \<Rightarrow>
          if pe_late pe then Some (Inl ''verification broker wall-time limit exceeded'')
          else if \<not> pe_alive pe then Some (Inl (''verification process exited '' @ show_code (pe_exitcode pe)))
          else None)"

definition poll :: "poll_env \<Rightarrow> broker \<Rightarrow> broker_event option \<times> broker" where
  "poll pe b =
     (case b_running b of
        [] \<Rightarrow> (None, b)
      | r # rs \<Rightarrow>
          (case poll_result pe b r of
             None \<Rightarrow> (None, b\<lparr>b_running := rs @ [r]\<rparr>)
           | Some res \<Rightarrow>
               let (stat, artifact, err) =
                     (case res of
                        Inl msg \<Rightarrow> (''TOOL_FAILURE'', rv_artifact r, Some msg)
                      | Inr m \<Rightarrow> (if pe_persisted pe = Some m \<and> valid_manifest m then m_status m else ''TOOL_FAILURE'',
                                  rv_artifact r @ ''/manifest.json'', None));
                   (terminal, st) = complete_verification_job (rv_job r) stat artifact (b_store b);
                   event = Verification_result
                     (if stat = ''VERIFIER_DISAGREEMENT'' then ''verifier_disagreement'' else ''verification_result'')
                     (rv_job r) stat terminal err
               in (Some event, b\<lparr>b_store := st, b_running := rs, b_events := b_events b @ [event],
                     b_lanes_paused := b_lanes_paused b \<or> stat = ''COUNTEREXAMPLE_VERIFIED''\<rparr>)))"

definition queued_count :: "research_store \<Rightarrow> nat" where
  "queued_count st = length (filter (\<lambda>j. jb_state j = Queued) (jobs st))"

lemma queued_count_started:
  assumes "mark_verification_started jid st = (True, st')"
  shows "queued_count st' < queued_count st"
proof -
  let ?f = "\<lambda>j. if jb_id j = jid \<and> jb_state j = Queued then j\<lparr>jb_state := Running\<rparr> else j"
  have st': "jobs st' = map ?f (jobs st)" and ex: "\<exists>j\<in>set (jobs st). jb_id j = jid \<and> jb_state j = Queued"
    using assms by (auto simp: mark_verification_started_def)
  have split: "length (filter (\<lambda>j. jb_state j = Queued) (map ?f js)) +
      length (filter (\<lambda>j. jb_id j = jid \<and> jb_state j = Queued) js) = length (filter (\<lambda>j. jb_state j = Queued) js)" for js
    by (induction js) auto
  have "filter (\<lambda>j. jb_id j = jid \<and> jb_state j = Queued) (jobs st) \<noteq> []"
    using ex by (simp only: filter_empty_conv) blast
  then have "0 < length (filter (\<lambda>j. jb_id j = jid \<and> jb_state j = Queued) (jobs st))" by simp
  then show ?thesis unfolding queued_count_def st' using split [of "jobs st"] by linarith
qed

lemma start_ready_Some:
  assumes "start_ready b = (Inr (Some jid), b1)"
  obtains snap st where "candidate_snapshot_for_job jid (b_store b) = Inr snap"
    "mark_verification_started jid (b_store b) = (True, st)" "length (b_running b) < b_max_concurrent b"
    "b1 = b\<lparr>b_store := st, b_running := filter (\<lambda>r. rv_job r \<noteq> jid) (b_running b) @
       [\<lparr>rv_job = jid, rv_graph6 = sn_graph6 snap, rv_artifact = ''verifications/'' @ jid\<rparr>]\<rparr>"
  using assms by (auto simp: start_ready_def split: if_splits list.splits sum.splits prod.splits)

lemma start_ready_decreases:
  assumes "(Inr (Some jid), b1) = start_ready b"
  shows "queued_count (b_store b1) < queued_count (b_store b)"
  by (rule start_ready_Some [OF assms [symmetric]]) (auto dest: queued_count_started)

function start_loop :: "broker \<Rightarrow> unit result \<times> broker" where
  "start_loop b =
     (if length (b_running b) < b_max_concurrent b
      then (case start_ready b of
              (Inl e, b1) \<Rightarrow> (Inl e, b1)
            | (Inr None, b1) \<Rightarrow> (Inr (), b1)
            | (Inr (Some _), b1) \<Rightarrow> start_loop b1)
      else (Inr (), b))"
  by pat_completeness auto
termination
  by (relation "measure (\<lambda>b. queued_count (b_store b))") (auto dest: start_ready_decreases)

declare start_loop.simps [simp del]

fun poll_times :: "poll_env list \<Rightarrow> broker \<Rightarrow> broker_event list \<times> broker" where
  "poll_times [] b = ([], b)"
| "poll_times (pe # pes) b =
     (let (ev, b1) = poll pe b; (evs, b2) = poll_times pes b1
      in (case ev of None \<Rightarrow> evs | Some e \<Rightarrow> e # evs, b2))"

text \<open>The environment gives the observations of the successive polls; one poll per running job.\<close>

definition pump :: "int \<Rightarrow> (nat \<Rightarrow> poll_env) \<Rightarrow> broker \<Rightarrow> broker_event list result \<times> broker" where
  "pump now pes b =
     (case dispatch_pending_actions now b of
        (Inl e, b1) \<Rightarrow> (Inl e, b1)
      | (Inr _, b1) \<Rightarrow>
          (case start_loop b1 of
             (Inl e, b2) \<Rightarrow> (Inl e, b2)
           | (Inr _, b2) \<Rightarrow>
               let (evs, b3) = poll_times (map pes [0..<length (b_running b2)]) b2 in (Inr evs, b3)))"

definition shutdown :: "broker \<Rightarrow> broker" where
  "shutdown b = b\<lparr>b_running := []\<rparr>"

section \<open>The tables stay consistent\<close>

definition certified_graph :: "string \<Rightarrow> int list \<Rightarrow> bool" where
  "certified_graph target g6 \<longleftrightarrow> (\<exists>g. from_graph6 g6 = Inr g \<and> genuine target g)"

definition graph_keys :: "research_store \<Rightarrow> snapshot_key list" where
  "graph_keys st = map (\<lambda>c. (cd_id c, cd_graph6 c)) (candidates st)"

text \<open>A snapshot key of a candidate: it holds the graph of the candidate and is in the table.\<close>

definition key_ok :: "research_store \<Rightarrow> string \<Rightarrow> snapshot_key \<Rightarrow> bool" where
  "key_ok st cid k \<longleftrightarrow> fst k = cid \<and> k \<in> set (graph_keys st) \<and> k \<in> sn_id ` set (snapshots st)"

definition job_keys :: "research_store \<Rightarrow> (string \<times> string \<times> snapshot_key) list" where
  "job_keys st = map (\<lambda>j. (jb_id j, jb_candidate j, jb_snapshot j)) (jobs st)"

definition pin_keys :: "research_store \<Rightarrow> (string \<times> snapshot_key) list" where
  "pin_keys st = map (\<lambda>p. (pn_candidate p, pn_snapshot p)) (pins st)"

definition tables_ok :: "research_store \<Rightarrow> bool" where
  "tables_ok st \<longleftrightarrow>
     distinct (map fst (graph_keys st)) \<and> distinct (map fst (job_keys st)) \<and>
     distinct (map (fst \<circ> snd) (job_keys st)) \<and> (\<forall>s\<in>set (snapshots st). sn_graph6 s = snd (sn_id s)) \<and>
     (\<forall>(c, k)\<in>set (pin_keys st). key_ok st c k) \<and> (\<forall>(i, c, k)\<in>set (job_keys st). key_ok st c k)"

definition successes :: "research_store \<Rightarrow> terminal_event list" where
  "successes st = filter (\<lambda>e. te_kind e = ''succeeded_certified_counterexample'') (terminal_events st)"

definition certificates_ok :: "string \<Rightarrow> research_store \<Rightarrow> bool" where
  "certificates_ok target st \<longleftrightarrow>
     (\<forall>c\<in>set (candidates st). cd_state c = Certified \<longrightarrow> certified_graph target (cd_graph6 c)) \<and>
     (\<forall>cid. certified_candidate st = Some cid \<or> Some cid \<in> te_candidate ` set (terminal_events st) \<longrightarrow>
        (\<exists>c\<in>set (candidates st). cd_id c = cid \<and> certified_graph target (cd_graph6 c))) \<and>
     length (successes st) \<le> 1 \<and>
     (successes st \<noteq> [] \<longrightarrow> campaign_state st = ''succeeded_certified_counterexample'')"

definition running_ok :: "broker \<Rightarrow> bool" where
  "running_ok b \<longleftrightarrow>
     (\<forall>r\<in>set (b_running b). \<exists>c k. (rv_job r, c, k) \<in> set (job_keys (b_store b)) \<and> snd k = rv_graph6 r)"

definition broker_ok :: "broker \<Rightarrow> bool" where
  "broker_ok b \<longleftrightarrow>
     tables_ok (b_store b) \<and> certificates_ok (b_target b) (b_store b) \<and> running_ok b \<and>
     queue_depth (b_store b) \<le> b_max_queue b \<and> length (b_running b) \<le> b_max_concurrent b"

lemma key_updates [simp]:
  "graph_keys (st\<lparr>jobs := js\<rparr>) = graph_keys st" "graph_keys (st\<lparr>pins := ps\<rparr>) = graph_keys st"
  "graph_keys (st\<lparr>snapshots := ss\<rparr>) = graph_keys st" "graph_keys (st\<lparr>outcomes := os\<rparr>) = graph_keys st"
  "graph_keys (st\<lparr>state_version := v\<rparr>) = graph_keys st" "graph_keys (st\<lparr>campaign_state := z\<rparr>) = graph_keys st"
  "graph_keys (st\<lparr>certified_candidate := q\<rparr>) = graph_keys st" "graph_keys (st\<lparr>terminal_events := t\<rparr>) = graph_keys st"
  "graph_keys (st\<lparr>actions := as\<rparr>) = graph_keys st"
  "job_keys (st\<lparr>candidates := cs\<rparr>) = job_keys st" "job_keys (st\<lparr>pins := ps\<rparr>) = job_keys st"
  "job_keys (st\<lparr>snapshots := ss\<rparr>) = job_keys st" "job_keys (st\<lparr>outcomes := os\<rparr>) = job_keys st"
  "job_keys (st\<lparr>state_version := v\<rparr>) = job_keys st" "job_keys (st\<lparr>campaign_state := z\<rparr>) = job_keys st"
  "job_keys (st\<lparr>certified_candidate := q\<rparr>) = job_keys st" "job_keys (st\<lparr>terminal_events := t\<rparr>) = job_keys st"
  "job_keys (st\<lparr>actions := as\<rparr>) = job_keys st"
  "pin_keys (st\<lparr>candidates := cs\<rparr>) = pin_keys st" "pin_keys (st\<lparr>jobs := js\<rparr>) = pin_keys st"
  "pin_keys (st\<lparr>snapshots := ss\<rparr>) = pin_keys st" "pin_keys (st\<lparr>outcomes := os\<rparr>) = pin_keys st"
  "pin_keys (st\<lparr>state_version := v\<rparr>) = pin_keys st" "pin_keys (st\<lparr>campaign_state := z\<rparr>) = pin_keys st"
  "pin_keys (st\<lparr>certified_candidate := q\<rparr>) = pin_keys st" "pin_keys (st\<lparr>terminal_events := t\<rparr>) = pin_keys st"
  "pin_keys (st\<lparr>actions := as\<rparr>) = pin_keys st"
  by (simp_all add: graph_keys_def job_keys_def pin_keys_def)

lemma successes_updates [simp]:
  "successes (st\<lparr>candidates := cs\<rparr>) = successes st" "successes (st\<lparr>jobs := js\<rparr>) = successes st"
  "successes (st\<lparr>pins := ps\<rparr>) = successes st" "successes (st\<lparr>snapshots := ss\<rparr>) = successes st"
  "successes (st\<lparr>outcomes := os\<rparr>) = successes st" "successes (st\<lparr>actions := as\<rparr>) = successes st"
  "successes (st\<lparr>state_version := v\<rparr>) = successes st"
  by (simp_all add: successes_def)

lemma queue_depth_updates [simp]:
  "queue_depth (st\<lparr>candidates := cs\<rparr>) = queue_depth st" "queue_depth (st\<lparr>pins := ps\<rparr>) = queue_depth st"
  "queue_depth (st\<lparr>snapshots := ss\<rparr>) = queue_depth st" "queue_depth (st\<lparr>outcomes := os\<rparr>) = queue_depth st"
  "queue_depth (st\<lparr>state_version := v\<rparr>) = queue_depth st" "queue_depth (st\<lparr>campaign_state := z\<rparr>) = queue_depth st"
  "queue_depth (st\<lparr>certified_candidate := q\<rparr>) = queue_depth st"
  "queue_depth (st\<lparr>terminal_events := t\<rparr>) = queue_depth st" "queue_depth (st\<lparr>actions := as\<rparr>) = queue_depth st"
  by (simp_all add: queue_depth_def)

lemma job_keys_map:
  "(\<And>j. jb_id (f j) = jb_id j \<and> jb_candidate (f j) = jb_candidate j \<and> jb_snapshot (f j) = jb_snapshot j) \<Longrightarrow>
   job_keys (st\<lparr>jobs := map f (jobs st)\<rparr>) = job_keys st"
  by (simp add: job_keys_def)

lemma pin_keys_map:
  "(\<And>p. pn_candidate (f p) = pn_candidate p \<and> pn_snapshot (f p) = pn_snapshot p) \<Longrightarrow>
   pin_keys (st\<lparr>pins := map f (pins st)\<rparr>) = pin_keys st"
  by (simp add: pin_keys_def)

lemma set_candidate_keys:
  assumes "\<And>c. cd_id (f c) = cd_id c \<and> cd_graph6 (f c) = cd_graph6 c"
  shows "graph_keys (set_candidate cid f st) = graph_keys st"
  using assms by (simp add: set_candidate_def graph_keys_def)

lemma key_ok_mono:
  assumes "key_ok st c k" "set (graph_keys st) \<subseteq> set (graph_keys st')"
    "sn_id ` set (snapshots st) \<subseteq> sn_id ` set (snapshots st')"
  shows "key_ok st' c k"
  using assms by (auto simp: key_ok_def)

lemma tables_ok_cong:
  assumes "graph_keys st' = graph_keys st" "job_keys st' = job_keys st" "pin_keys st' = pin_keys st"
    "snapshots st' = snapshots st" "tables_ok st"
  shows "tables_ok st'"
  using assms by (simp add: tables_ok_def key_ok_def)

text \<open>A step of the store that adds at most \<open>n\<close> unfinished jobs.\<close>

definition evolves :: "string \<Rightarrow> nat \<Rightarrow> research_store \<Rightarrow> research_store \<Rightarrow> bool" where
  "evolves target n st st' \<longleftrightarrow>
     tables_ok st' \<and> certificates_ok target st' \<and> set (job_keys st) \<subseteq> set (job_keys st') \<and>
     queue_depth st' \<le> queue_depth st + n"

lemma evolves_trans: "evolves target m st st' \<Longrightarrow> evolves target n st' st'' \<Longrightarrow> evolves target (m + n) st st''"
  by (auto simp: evolves_def)

lemma add_snapshot_ok:
  assumes "tables_ok st" "sn_graph6 s = snd (sn_id s)"
  shows "tables_ok (add_snapshot s st)" "sn_id s \<in> sn_id ` set (snapshots (add_snapshot s st))"
  using assms by (auto simp: add_snapshot_def tables_ok_def key_ok_def)

lemma add_pin_ok:
  assumes "tables_ok st" "key_ok st (pn_candidate p) (pn_snapshot p)"
  shows "tables_ok (add_pin p st)"
  using assms by (auto simp: add_pin_def tables_ok_def key_ok_def pin_keys_def)

lemma add_fields [simp]:
  "jobs (add_pin p st) = jobs st" "candidates (add_pin p st) = candidates st" "snapshots (add_pin p st) = snapshots st"
  "jobs (add_snapshot s st) = jobs st" "candidates (add_snapshot s st) = candidates st"
  "certificates_ok target (add_pin p st) = certificates_ok target st"
  "certificates_ok target (add_snapshot s st) = certificates_ok target st"
  by (simp_all add: add_pin_def add_snapshot_def certificates_ok_def)

lemma pin_candidate_ok:
  assumes "tables_ok st" "pin_candidate aid cid st = Inr (sid, st')"
  shows "tables_ok st'" "key_ok st' cid sid" "jobs st' = jobs st" "candidates st' = candidates st"
    "certificates_ok target st' = certificates_ok target st"
proof -
  obtain c where c: "find (\<lambda>c. cd_id c = cid \<and> executable c) (candidates st) = Some c" "sid = (cid, cd_graph6 c)"
    using assms(2) by (auto simp: pin_candidate_def Let_def split: option.splits)
  then have mem: "c \<in> set (candidates st)" "cd_id c = cid" by (auto simp: find_Some_iff)
  define st1 where "st1 = add_snapshot \<lparr>sn_id = sid, sn_candidate = cid, sn_graph6 = cd_graph6 c\<rparr> st"
  have st': "st' = add_pin \<lparr>pn_action = aid, pn_candidate = cid, pn_snapshot = sid, pn_job = None, pn_active = True\<rparr> st1"
    using assms(2) c by (simp add: pin_candidate_def Let_def st1_def)
  have t1: "tables_ok st1" "sid \<in> sn_id ` set (snapshots st1)"
    using add_snapshot_ok [OF assms(1), of "\<lparr>sn_id = sid, sn_candidate = cid, sn_graph6 = cd_graph6 c\<rparr>"] c(2)
    by (simp_all add: st1_def)
  have key: "key_ok st1 cid sid" using mem c(2) t1(2) by (auto simp: key_ok_def graph_keys_def st1_def)
  show "tables_ok st'" unfolding st' by (rule add_pin_ok) (use t1(1) key in simp_all)
  show "key_ok st' cid sid" using key unfolding st' by (simp add: key_ok_def graph_keys_def)
  show "jobs st' = jobs st" "candidates st' = candidates st"
    "certificates_ok target st' = certificates_ok target st"
    unfolding st' st1_def by simp_all
qed

lemma insert_job_ok:
  assumes "tables_ok st" "insert_job j st = Inr st'" "key_ok st (jb_candidate j) (jb_snapshot j)"
    "certificates_ok target st"
  shows "evolves target 1 st st' \<and> candidates st' = candidates st"
proof -
  have new: "jb_id j \<notin> set (map jb_id (jobs st))" "jb_candidate j \<notin> set (map jb_candidate (jobs st))"
    "st' = st\<lparr>jobs := jobs st @ [j]\<rparr>"
    using assms(2) by (auto simp: insert_job_def split: if_splits)
  have keys: "job_keys st' = job_keys st @ [(jb_id j, jb_candidate j, jb_snapshot j)]"
    using new(3) by (simp add: job_keys_def)
  have "tables_ok st'"
    using assms(1,3) new unfolding tables_ok_def keys
    by (auto simp: key_ok_def job_keys_def)
  moreover have "certificates_ok target st'" using assms(4) new(3) by (simp add: certificates_ok_def)
  moreover have "queue_depth st' \<le> queue_depth st + 1" using new(3) by (simp add: queue_depth_def)
  ultimately show ?thesis using keys new(3) by (auto simp: evolves_def)
qed

lemma requeue_depth:
  assumes "distinct (map jb_candidate js)" "\<And>j. jb_candidate j \<noteq> cid \<Longrightarrow> f j = j"
  shows "length (filter unfinished (map f js)) \<le> Suc (length (filter unfinished js))"
  using assms(1)
proof (induction js)
  case (Cons j js)
  show ?case
  proof (cases "jb_candidate j = cid")
    case True
    then have "f x = x" if "x \<in> set js" for x using Cons.prems that by (intro assms(2)) (auto simp: image_iff)
    then have "map f js = js" by (intro map_idI)
    then show ?thesis by simp
  next
    case False
    then show ?thesis using Cons assms(2) [OF False] by simp
  qed
qed simp

lemma requeue_ok:
  assumes "tables_ok st" "certificates_ok target st"
  shows "evolves target 1 st (requeue aid priority cid st) \<and> candidates (requeue aid priority cid st) = candidates st"
proof -
  define f where "f = (\<lambda>j :: job_row. if jb_candidate j = cid
    then j\<lparr>jb_action := aid, jb_priority := priority, jb_state := Queued, jb_status := None, jb_artifact := None\<rparr>
    else j)"
  have js: "requeue aid priority cid st = st\<lparr>jobs := map f (jobs st)\<rparr>" by (simp add: requeue_def f_def)
  have keys: "job_keys (requeue aid priority cid st) = job_keys st"
    unfolding js by (rule job_keys_map) (simp add: f_def)
  have "tables_ok (requeue aid priority cid st)"
    by (rule tables_ok_cong [OF _ keys _ _ assms(1)]) (simp_all add: js)
  moreover have "certificates_ok target (requeue aid priority cid st)"
    using assms(2) by (simp add: js certificates_ok_def)
  moreover have "distinct (map jb_candidate (jobs st))"
    using assms(1) by (simp add: tables_ok_def job_keys_def comp_def)
  then have "length (filter unfinished (map f (jobs st))) \<le> Suc (length (filter unfinished (jobs st)))"
    by (rule requeue_depth [where cid = cid]) (simp add: f_def)
  then have "queue_depth (requeue aid priority cid st) \<le> Suc (queue_depth st)" by (simp add: queue_depth_def js)
  ultimately show ?thesis using keys by (simp add: evolves_def js)
qed

lemma update_pins_ok:
  assumes "\<And>p. pn_candidate (f p) = pn_candidate p \<and> pn_snapshot (f p) = pn_snapshot p"
    "tables_ok st" "certificates_ok target st"
  shows "evolves target 0 st (update_pins aid cid f st)"
proof -
  have "pin_keys (update_pins aid cid f st) = pin_keys st"
    unfolding update_pins_def by (rule pin_keys_map) (simp add: assms(1))
  then have "tables_ok (update_pins aid cid f st)"
    by (intro tables_ok_cong [OF _ _ _ _ assms(2)]) (simp_all add: update_pins_def)
  then show ?thesis using assms(3) by (simp add: evolves_def update_pins_def certificates_ok_def)
qed

lemma set_candidate_ok:
  assumes f: "\<And>c. cd_id (f c) = cd_id c \<and> cd_graph6 (f c) = cd_graph6 c"
    and t: "tables_ok st" and c: "certificates_ok target st"
    and n: "\<And>c. c \<in> set (candidates st) \<Longrightarrow> cd_id c = cid \<Longrightarrow> cd_state (f c) = Certified \<Longrightarrow>
      certified_graph target (cd_graph6 c)"
  shows "evolves target 0 st (set_candidate cid f st)"
proof -
  have "tables_ok (set_candidate cid f st)"
    by (rule tables_ok_cong [OF set_candidate_keys [OF f] _ _ _ t]) (simp_all add: set_candidate_def)
  moreover have "certificates_ok target (set_candidate cid f st)"
  proof -
    let ?g = "\<lambda>c. if cd_id c = cid then f c else c"
    have g: "cd_id (?g c) = cd_id c" "cd_graph6 (?g c) = cd_graph6 c" for c using f by auto
    have "\<exists>c'\<in>?g ` set (candidates st). cd_id c' = i \<and> certified_graph target (cd_graph6 c')"
      if i: "certified_candidate st = Some i \<or> Some i \<in> te_candidate ` set (terminal_events st)" for i
    proof -
      obtain c' where "c' \<in> set (candidates st)" "cd_id c' = i" "certified_graph target (cd_graph6 c')"
        using c i unfolding certificates_ok_def by blast
      then show ?thesis using f by (intro bexI [of _ "?g c'"]) auto
    qed
    moreover have "certified_graph target (cd_graph6 (?g c'))"
      if "c' \<in> set (candidates st)" "cd_state (?g c') = Certified" for c'
      using c n f that by (cases "cd_id c' = cid") (auto simp: certificates_ok_def)
    ultimately show ?thesis using c unfolding certificates_ok_def set_candidate_def
      by (simp del: if_image_distrib)
  qed
  ultimately show ?thesis by (simp add: evolves_def set_candidate_def)
qed

lemma evolves_depth_mono: "evolves target m st st' \<Longrightarrow> m \<le> n \<Longrightarrow> evolves target n st st'"
  by (auto simp: evolves_def)

lemma queue_candidate_ok:
  assumes t: "tables_ok st" and c: "certificates_ok target st"
    and q: "queue_candidate now aid priority (cid, jid) st = Inr st'"
  shows "evolves target 1 st st'"
proof -
  let ?pin = "case find (\<lambda>p. pn_action p = aid \<and> pn_candidate p = cid \<and> pn_active p) (pins st) of
    Some p \<Rightarrow> Inr (pn_snapshot p, st) | None \<Rightarrow> pin_candidate aid cid st"
  obtain sid st1 where p: "?pin = Inr (sid, st1)"
    using q by (cases ?pin) (auto simp: queue_candidate_def)
  have st1: "tables_ok st1" "key_ok st1 cid sid" "jobs st1 = jobs st" "certificates_ok target st1"
  proof -
    have "tables_ok st1 \<and> key_ok st1 cid sid \<and> jobs st1 = jobs st \<and> certificates_ok target st1"
    proof (cases "find (\<lambda>p. pn_action p = aid \<and> pn_candidate p = cid \<and> pn_active p) (pins st)")
      case None
      then show ?thesis using p pin_candidate_ok [OF t, of aid cid sid st1] c by simp
    next
      case (Some pn)
      then have "pn \<in> set (pins st)" "pn_candidate pn = cid" by (auto simp: find_Some_iff)
      then show ?thesis using p Some t c by (auto simp: tables_ok_def pin_keys_def)
    qed
    then show "tables_ok st1" "key_ok st1 cid sid" "jobs st1 = jobs st" "certificates_ok target st1" by auto
  qed
  define existing where "existing = find_job cid st1"
  define ins where "ins = (case existing of
      None \<Rightarrow> insert_job \<lparr>jb_id = jid, jb_candidate = cid, jb_action = aid, jb_priority = priority,
        jb_state = Queued, jb_created = now, jb_snapshot = sid, jb_status = None, jb_artifact = None\<rparr> st1
    | Some j \<Rightarrow> Inr (if jb_state j = Unknown \<or> jb_state j = Failed then requeue aid priority cid st1 else st1))"
  obtain st2 where i: "ins = Inr st2" and st': "st' = set_candidate cid (\<lambda>c. c\<lparr>cd_state := Promoted\<rparr>)
      (case existing of
         Some j \<Rightarrow> if jb_state j = Completed
           then update_pins aid cid (\<lambda>p. p\<lparr>pn_active := False\<rparr>) (update_pins aid cid (\<lambda>p. p\<lparr>pn_job := Some jid\<rparr>) st2)
           else update_pins aid cid (\<lambda>p. p\<lparr>pn_job := Some jid\<rparr>) st2
       | None \<Rightarrow> update_pins aid cid (\<lambda>p. p\<lparr>pn_job := Some jid\<rparr>) st2)"
    using q p unfolding ins_def existing_def
    by (auto simp: queue_candidate_def Let_def split: sum.splits)
  have "evolves target 1 st1 st2"
  proof (cases existing)
    case None
    then show ?thesis using i insert_job_ok [OF st1(1) _ _ st1(4), of _ st2] st1(2) by (simp add: ins_def)
  next
    case (Some j)
    then consider "st2 = requeue aid priority cid st1" | "st2 = st1" using i by (auto simp: ins_def split: if_splits)
    then show ?thesis
      using requeue_ok [OF st1(1,4), of aid priority cid] st1(1,4) by cases (simp_all add: evolves_def [of _ _ st1 st1])
  qed
  then have e2: "evolves target 1 st st2" using st1(3) by (simp add: evolves_def job_keys_def queue_depth_def)
  define st3 where "st3 = update_pins aid cid (\<lambda>p. p\<lparr>pn_job := Some jid\<rparr>) st2"
  have e3: "evolves target 0 st2 st3" unfolding st3_def
    by (rule update_pins_ok) (use e2 in \<open>auto simp: evolves_def\<close>)
  define st4 where "st4 = (case existing of Some j \<Rightarrow> if jb_state j = Completed
      then update_pins aid cid (\<lambda>p. p\<lparr>pn_active := False\<rparr>) st3 else st3 | None \<Rightarrow> st3)"
  have u: "evolves target 0 st3 (update_pins aid cid (\<lambda>p. p\<lparr>pn_active := False\<rparr>) st3)"
    by (rule update_pins_ok) (use e3 in \<open>auto simp: evolves_def\<close>)
  have e4: "evolves target 0 st3 st4" using u e3 by (auto simp: st4_def evolves_def split: option.splits)
  have "st' = set_candidate cid (\<lambda>c. c\<lparr>cd_state := Promoted\<rparr>) st4"
    unfolding st' st4_def st3_def by (auto split: option.splits)
  moreover have "evolves target 0 st4 (set_candidate cid (\<lambda>c. c\<lparr>cd_state := Promoted\<rparr>) st4)"
    by (rule set_candidate_ok) (use e4 in \<open>auto simp: evolves_def\<close>)
  ultimately show ?thesis
    using evolves_trans [OF evolves_trans [OF evolves_trans [OF e2 e3] e4], of 0 st'] by simp
qed

lemma queue_candidates_ok:
  "tables_ok st \<Longrightarrow> certificates_ok target st \<Longrightarrow> queue_candidates now aid priority cjs st = Inr st' \<Longrightarrow>
   evolves target (length cjs) st st'"
proof (induction cjs arbitrary: st)
  case (Cons cj cjs)
  obtain cid jid where cj: "cj = (cid, jid)" by fastforce
  obtain st1 where 1: "queue_candidate now aid priority (cid, jid) st = Inr st1"
    "queue_candidates now aid priority cjs st1 = Inr st'"
    using Cons.prems(3) cj by (auto split: sum.splits)
  note e = queue_candidate_ok [OF Cons.prems(1,2) 1(1)]
  then have "evolves target (length cjs) st1 st'" using Cons.IH 1(2) by (auto simp: evolves_def)
  from evolves_trans [OF e this] show ?case by simp
qed (simp add: evolves_def)

lemma store_fields_ok:
  assumes "tables_ok st" "certificates_ok target st"
  shows "evolves target 0 st (st\<lparr>outcomes := os, state_version := v\<rparr>)"
    "evolves target 0 st (st\<lparr>outcomes := os\<rparr>)" "evolves target 0 st (st\<lparr>actions := as\<rparr>)" "evolves target 0 st st"
  using assms
  by (auto simp: evolves_def certificates_ok_def intro!: tables_ok_cong [OF _ _ _ _ assms(1)])

lemma queue_verification_action_ok:
  assumes "tables_ok st" "certificates_ok target st"
    "queue_verification_action now aid cids priority jids st = (res, st')"
  shows "evolves target (length cids) st st'"
proof (cases "st' = st")
  case True
  then show ?thesis using assms(1,2) by (simp add: evolves_def)
next
  case False
  then obtain st1 where 1: "queue_candidates now aid priority (zip cids jids) st = Inr st1"
    "st' = st1\<lparr>outcomes := outcomes st1 @ [(aid, ''applied'')], state_version := Suc (state_version st1)\<rparr>"
    "length cids = length jids"
    using assms(3) by (auto simp: queue_verification_action_def Let_def split: if_splits sum.splits)
  have e: "evolves target (length cids) st st1" using queue_candidates_ok [OF assms(1,2) 1(1)] 1(3) by simp
  then have "evolves target 0 st1 st'" unfolding 1(2) by (intro store_fields_ok) (auto simp: evolves_def)
  from evolves_trans [OF e this] show ?thesis by simp
qed

lemma record_action_outcome_ok:
  assumes "tables_ok st" "certificates_ok target st" "record_action_outcome aid stat st = (res, st')"
  shows "evolves target 0 st st'"
proof (cases "st' = st")
  case True
  then show ?thesis using assms(1,2) by (simp add: evolves_def)
next
  case False
  define f where "f = (\<lambda>p :: pin_row. if pn_action p = aid \<and> pn_active p \<and> pn_job p = None
    then p\<lparr>pn_active := False\<rparr> else p)"
  define st1 where "st1 = st\<lparr>pins := map f (pins st)\<rparr>"
  have "tables_ok st1" unfolding st1_def
    by (rule tables_ok_cong [OF _ _ pin_keys_map _ assms(1)]) (simp_all add: f_def)
  moreover have "certificates_ok target st1" using assms(2) by (simp add: st1_def certificates_ok_def)
  ultimately have e: "evolves target 0 st st1" by (simp add: evolves_def st1_def)
  have "st' = st1\<lparr>outcomes := outcomes st @ [(aid, stat)]\<rparr> \<or>
      st' = st1\<lparr>outcomes := outcomes st @ [(aid, stat)], state_version := Suc (state_version st)\<rparr>"
    using assms(3) False by (auto simp: record_action_outcome_def Let_def st1_def f_def split: if_splits)
  then have "evolves target 0 st1 st'"
    using store_fields_ok [of st1 target] e by (auto simp: evolves_def)
  from evolves_trans [OF e this] show ?thesis by simp
qed

lemma map_jobs_ok:
  fixes f :: "job_row \<Rightarrow> job_row"
  assumes "\<And>j. jb_id (f j) = jb_id j \<and> jb_candidate (f j) = jb_candidate j \<and> jb_snapshot (f j) = jb_snapshot j"
    and "\<And>j. unfinished (f j) \<Longrightarrow> unfinished j" and "tables_ok st" "certificates_ok target st"
  shows "evolves target 0 st (st\<lparr>jobs := map f (jobs st)\<rparr>)"
proof -
  have keys: "job_keys (st\<lparr>jobs := map f (jobs st)\<rparr>) = job_keys st" by (rule job_keys_map) (rule assms(1))
  have "tables_ok (st\<lparr>jobs := map f (jobs st)\<rparr>)" by (rule tables_ok_cong [OF _ keys _ _ assms(3)]) simp_all
  moreover have "length (filter unfinished (map f js)) \<le> length (filter unfinished js)" for js
    using assms(2) by (induction js) auto
  then have "queue_depth (st\<lparr>jobs := map f (jobs st)\<rparr>) \<le> queue_depth st" by (simp add: queue_depth_def)
  ultimately show ?thesis using assms(4) keys by (simp add: evolves_def certificates_ok_def)
qed

lemma job_candidate_graph:
  assumes "tables_ok st" "j \<in> set (jobs st)"
  shows "\<exists>c\<in>set (candidates st). cd_id c = jb_candidate j"
    "c \<in> set (candidates st) \<Longrightarrow> cd_id c = jb_candidate j \<Longrightarrow> cd_graph6 c = snd (jb_snapshot j)"
proof -
  have k: "fst (jb_snapshot j) = jb_candidate j" "jb_snapshot j \<in> set (graph_keys st)"
    using assms by (auto simp: tables_ok_def job_keys_def key_ok_def)
  then obtain c' where c': "c' \<in> set (candidates st)" "jb_snapshot j = (cd_id c', cd_graph6 c')"
    by (auto simp: graph_keys_def)
  then show "\<exists>c\<in>set (candidates st). cd_id c = jb_candidate j" using k(1) by auto
  assume c: "c \<in> set (candidates st)" "cd_id c = jb_candidate j"
  have "distinct (map cd_id (candidates st))" using assms(1) by (simp add: tables_ok_def graph_keys_def comp_def)
  then have "c = c'" using c c' k(1) by (auto simp: distinct_map inj_on_def)
  then show "cd_graph6 c = snd (jb_snapshot j)" using c'(2) by simp
qed

lemma complete_ok:
  assumes t: "tables_ok st" and c: "certificates_ok target st"
    and g: "\<And>j. stat = ''COUNTEREXAMPLE_VERIFIED'' \<Longrightarrow> j \<in> set (jobs st) \<Longrightarrow> jb_id j = jid \<Longrightarrow>
      certified_graph target (snd (jb_snapshot j))"
    and e: "complete_verification_job jid stat artifact st = (fin, st')"
  shows "evolves target 0 st st'"
proof (cases "find (\<lambda>j. jb_id j = jid \<and> jb_state j = Running) (jobs st)")
  case None
  then show ?thesis using t c e by (simp add: complete_verification_job_def evolves_def)
next
  case (Some job)
  then have job: "job \<in> set (jobs st)" "jb_id job = jid" by (auto simp: find_Some_iff)
  obtain js cs where ts: "terminal_states stat = (js, cs)" by fastforce
  have fin: "\<not> (js = Queued \<or> js = Running)" "cs = Certified \<longleftrightarrow> stat = ''COUNTEREXAMPLE_VERIFIED''"
    using ts by (auto simp: terminal_states_def split: if_splits)
  define f where "f = (\<lambda>j :: job_row. if jb_id j = jid
    then j\<lparr>jb_state := js, jb_artifact := Some artifact, jb_status := Some stat\<rparr> else j)"
  define st1 where "st1 = st\<lparr>jobs := map f (jobs st)\<rparr>"
  have e1: "evolves target 0 st st1" unfolding st1_def
    by (rule map_jobs_ok [OF _ _ t c]) (use fin(1) in \<open>auto simp: f_def unfinished_def split: if_splits\<close>)
  define st2 where "st2 = set_candidate (jb_candidate job)
    (\<lambda>c. c\<lparr>cd_state := cs, cd_status := Some stat, cd_artifact := Some artifact\<rparr>) st1"
  have gc: "certified_graph target (cd_graph6 x)"
    if "x \<in> set (candidates st)" "cd_id x = jb_candidate job" "stat = ''COUNTEREXAMPLE_VERIFIED''" for x
    using g [OF that(3) job] job_candidate_graph(2) [OF t job(1) that(1,2)] by simp
  have e2: "evolves target 0 st1 st2" unfolding st2_def
    by (rule set_candidate_ok) (use e1 gc fin(2) in \<open>auto simp: evolves_def st1_def\<close>)
  define h where "h = (\<lambda>p :: pin_row. if pn_job p = Some jid \<and> pn_active p then p\<lparr>pn_active := False\<rparr> else p)"
  define st3 where "st3 = st2\<lparr>pins := map h (pins st2)\<rparr>"
  have "pin_keys st3 = pin_keys st2" unfolding st3_def by (rule pin_keys_map) (simp add: h_def)
  then have "tables_ok st3"
    using e2 by (intro tables_ok_cong [of st3 st2]) (auto simp: st3_def evolves_def)
  then have e3: "evolves target 0 st2 st3" using e2 by (simp add: evolves_def st3_def certificates_ok_def)
  have e03: "evolves target 0 st st3" using evolves_trans [OF evolves_trans [OF e1 e2] e3] by simp
  define st4 where "st4 = st3\<lparr>campaign_state := ''succeeded_certified_counterexample'',
    state_version := Suc (state_version st3), certified_candidate := Some (jb_candidate job),
    terminal_events := terminal_events st3 @ [\<lparr>te_kind = ''succeeded_certified_counterexample'',
      te_candidate = Some (jb_candidate job), te_job = Some jid, te_artifact = Some artifact\<rparr>]\<rparr>"
  have "complete_verification_job jid stat artifact st =
      (if stat = ''COUNTEREXAMPLE_VERIFIED'' \<and> campaign_state st3 \<notin> FINAL_CAMPAIGN_STATES
       then (True, st4) else (False, st3))"
    unfolding complete_verification_job_def Some option.case ts Let_def prod.case
      st4_def st3_def st2_def st1_def h_def f_def by (rule refl)
  then have st': "st' = (if stat = ''COUNTEREXAMPLE_VERIFIED'' \<and> campaign_state st3 \<notin> FINAL_CAMPAIGN_STATES
      then st4 else st3)" using e by (auto split: if_splits)
  have "evolves target 0 st3 st4"
    if v: "stat = ''COUNTEREXAMPLE_VERIFIED''" and o: "campaign_state st3 \<notin> FINAL_CAMPAIGN_STATES"
  proof -
    obtain x where x: "x \<in> set (candidates st)" "cd_id x = jb_candidate job"
      using job_candidate_graph(1) [OF t job(1)] by blast
    have "graph_keys st3 = graph_keys st"
      unfolding st3_def st2_def st1_def by (simp add: set_candidate_keys)
    then have "(cd_id x, cd_graph6 x) \<in> set (graph_keys st3)" using x(1) by (simp add: graph_keys_def)
    then obtain y where y: "y \<in> set (candidates st3)" "cd_id y = cd_id x" "cd_graph6 y = cd_graph6 x"
      by (auto simp: graph_keys_def)
    have "certificates_ok target st3" using e03 by (simp add: evolves_def)
    then have "successes st3 = []" using o by (auto simp: certificates_ok_def FINAL_CAMPAIGN_STATES_def)
    then have "length (successes st4) \<le> 1" "campaign_state st4 = ''succeeded_certified_counterexample''"
      by (simp_all add: successes_def st4_def)
    moreover have "\<exists>c\<in>set (candidates st4). cd_id c = i \<and> certified_graph target (cd_graph6 c)"
      if "certified_candidate st4 = Some i \<or> Some i \<in> te_candidate ` set (terminal_events st4)" for i
    proof (cases "i = jb_candidate job")
      case True
      then show ?thesis using gc [OF x v] x(2) y by (auto simp: st4_def)
    next
      case False
      then show ?thesis using that \<open>certificates_ok target st3\<close> by (auto simp: certificates_ok_def st4_def)
    qed
    moreover have "certified_graph target (cd_graph6 c)" if "c \<in> set (candidates st4)" "cd_state c = Certified" for c
      using that \<open>certificates_ok target st3\<close> by (simp add: certificates_ok_def st4_def)
    ultimately have "certificates_ok target st4" unfolding certificates_ok_def by blast
    moreover have "tables_ok st4"
      by (rule tables_ok_cong [of st4 st3]) (use e03 in \<open>auto simp: st4_def evolves_def\<close>)
    ultimately show ?thesis by (simp add: evolves_def st4_def)
  qed
  then show ?thesis using st' e03 evolves_trans [OF e03, of 0 st4] by auto
qed

section \<open>The broker keeps its invariant\<close>

lemma running_ok_mono:
  "running_ok b \<Longrightarrow> set (job_keys (b_store b)) \<subseteq> set (job_keys (b_store b')) \<Longrightarrow> set (b_running b') \<subseteq> set (b_running b) \<Longrightarrow>
   running_ok b'"
  unfolding running_ok_def by blast

lemma broker_store_ok:
  assumes "broker_ok b" "evolves (b_target b) n (b_store b) st" "queue_depth (b_store b) + n \<le> b_max_queue b"
  shows "broker_ok (b\<lparr>b_store := st\<rparr>)"
proof -
  have "running_ok (b\<lparr>b_store := st\<rparr>)"
    by (rule running_ok_mono [of b]) (use assms(1,2) in \<open>simp_all add: broker_ok_def evolves_def\<close>)
  then show ?thesis using assms by (simp add: broker_ok_def evolves_def)
qed

lemma broker_store_step: "broker_ok b \<Longrightarrow> evolves (b_target b) 0 (b_store b) st \<Longrightarrow> broker_ok (b\<lparr>b_store := st\<rparr>)"
  by (rule broker_store_ok [where n = 0]) (simp_all add: broker_ok_def)

lemma broker_events_ok: "broker_ok (b\<lparr>b_events := evs\<rparr>) = broker_ok b" "broker_ok (b\<lparr>b_lanes_paused := l\<rparr>) = broker_ok b"
  by (simp_all add: broker_ok_def running_ok_def)

lemma refuse_action_ok:
  assumes "broker_ok b" "refuse_action aid stat why b = (res, b')"
  shows "broker_ok b'"
proof -
  obtain r st where r: "record_action_outcome aid stat (b_store b) = (r, st)" by fastforce
  have "evolves (b_target b) 0 (b_store b) st"
    using assms(1) record_action_outcome_ok [OF _ _ r] by (simp add: broker_ok_def)
  then have "broker_ok (b\<lparr>b_store := st\<rparr>)"
    using assms(1) by (intro broker_store_ok) (auto simp: broker_ok_def)
  moreover have "b' = b\<lparr>b_store := st\<rparr> \<or> b' = b\<lparr>b_store := st\<rparr>\<lparr>b_events := b_events b @ [Control why]\<rparr>"
    using assms(2) r by (auto simp: refuse_action_def split: sum.splits)
  ultimately show ?thesis using broker_events_ok by metis
qed

lemma dispatch_action_ok:
  assumes ok: "broker_ok b" and d: "dispatch_action now a b = (res, b')"
  shows "broker_ok b'"
proof -
  obtain cids priority where t: "action_targets (ac_priority a) (ac_request a) = (cids, priority)" by fastforce
  obtain q st where q: "queue_verification_action now (ac_id a) cids priority (map job_id_of cids) (b_store b) = (q, st)"
    by fastforce
  let ?refused = "\<lambda>s w b0. refuse_action (ac_id a) s w b0"
  consider (expired) r where "?refused ''rejected_lease_expired'' ''action_lease_expired'' b = (r, b')"
    | (full) r where "?refused ''failed'' ''resource_pressure'' b = (r, b')"
    | (queued) "queue_depth (b_store b) + length cids \<le> b_max_queue b" "b' = b\<lparr>b_store := st\<rparr>"
    | (stale) r where "queue_depth (b_store b) + length cids \<le> b_max_queue b"
        "?refused ''stale_target'' ''stale_candidate_target'' (b\<lparr>b_store := st\<rparr>) = (r, b')"
    using d t q by (auto simp: dispatch_action_def Let_def split: if_splits prod.splits sum.splits store_error.splits)
  moreover have "evolves (b_target b) (length cids) (b_store b) st"
    using queue_verification_action_ok [OF _ _ q, of "b_target b"] ok by (simp add: broker_ok_def)
  note st = broker_store_ok [OF ok this]
  ultimately show ?thesis
  proof cases
    case queued
    then show ?thesis using st by simp
  next
    case stale
    then show ?thesis using refuse_action_ok [OF st] by blast
  qed (use ok refuse_action_ok in blast)+
qed

lemma dispatch_actions_ok: "broker_ok b \<Longrightarrow> dispatch_actions now as b = (res, b') \<Longrightarrow> broker_ok b'"
proof (induction as arbitrary: b res b')
  case (Cons a as)
  obtain r b1 where 1: "dispatch_action now a b = (r, b1)" by fastforce
  note b1 = dispatch_action_ok [OF Cons.prems(1) 1]
  obtain r2 b2 where 2: "dispatch_actions now as b1 = (r2, b2)" by fastforce
  have "b' = b1 \<or> b' = b2" using Cons.prems(2) 1 2 by (auto split: sum.splits)
  then show ?case using b1 Cons.IH [OF b1 2] by blast
qed simp

lemma mark_started_ok:
  assumes "tables_ok st" "certificates_ok target st"
  shows "evolves target 0 st (snd (mark_verification_started jid st)) \<and>
    job_keys (snd (mark_verification_started jid st)) = job_keys st"
proof -
  let ?f = "\<lambda>j :: job_row. if jb_id j = jid \<and> jb_state j = Queued then j\<lparr>jb_state := Running\<rparr> else j"
  have "snd (mark_verification_started jid st) = st\<lparr>jobs := map ?f (jobs st)\<rparr>"
    by (simp add: mark_verification_started_def)
  then show ?thesis
    using map_jobs_ok [of ?f, OF _ _ assms] job_keys_map [of ?f st] by (auto simp: unfinished_def split: if_splits)
qed

lemma snapshot_job:
  assumes "tables_ok st" "candidate_snapshot_for_job jid st = Inr snap"
  shows "\<exists>c k. (jid, c, k) \<in> set (job_keys st) \<and> snd k = sn_graph6 snap"
proof -
  obtain j where j: "find (\<lambda>j. jb_id j = jid) (jobs st) = Some j"
    "find (\<lambda>s. sn_id s = jb_snapshot j) (snapshots st) = Some snap"
    using assms(2) by (auto simp: candidate_snapshot_for_job_def split: option.splits)
  then have "j \<in> set (jobs st)" "jb_id j = jid" "snap \<in> set (snapshots st)" "sn_id snap = jb_snapshot j"
    by (auto simp: find_Some_iff)
  moreover have "sn_graph6 snap = snd (sn_id snap)" using assms(1) calculation(3) by (simp add: tables_ok_def)
  moreover have "(jb_id j, jb_candidate j, jb_snapshot j) \<in> set (job_keys st)"
    using calculation(1) by (simp add: job_keys_def)
  ultimately show ?thesis by metis
qed

lemma start_ready_ok:
  assumes ok: "broker_ok b" and s: "start_ready b = (res, b')"
  shows "broker_ok b'"
proof (cases "\<exists>jid. res = Inr (Some jid)")
  case True
  then obtain jid where "start_ready b = (Inr (Some jid), b')" using s by auto
  then obtain snap st where r: "candidate_snapshot_for_job jid (b_store b) = Inr snap"
    "mark_verification_started jid (b_store b) = (True, st)" "length (b_running b) < b_max_concurrent b"
    "b' = b\<lparr>b_store := st, b_running := filter (\<lambda>r. rv_job r \<noteq> jid) (b_running b) @
       [\<lparr>rv_job = jid, rv_graph6 = sn_graph6 snap, rv_artifact = ''verifications/'' @ jid\<rparr>]\<rparr>"
    by (rule start_ready_Some)
  have m: "evolves (b_target b) 0 (b_store b) st" "job_keys st = job_keys (b_store b)"
    using mark_started_ok [of "b_store b" "b_target b" jid] ok r(2) by (auto simp: broker_ok_def)
  have "running_ok b'"
    using ok snapshot_job [OF _ r(1)] m(2) r(4) by (auto simp: broker_ok_def running_ok_def)
  moreover have "length (b_running b') \<le> b_max_concurrent b"
    using r(3,4) le_less_trans [OF length_filter_le [of "\<lambda>r. rv_job r \<noteq> jid" "b_running b"] r(3)] by simp
  ultimately show ?thesis using ok m r(4) by (simp add: broker_ok_def evolves_def)
next
  case False
  have "b' = b \<or> (\<exists>jid. b' = b\<lparr>b_store := snd (mark_verification_started jid (b_store b))\<rparr>)"
    using s False by (auto simp: start_ready_def split: if_splits list.splits sum.splits prod.splits) (metis snd_conv)
  moreover have "broker_ok (b\<lparr>b_store := snd (mark_verification_started jid (b_store b))\<rparr>)" for jid
    using mark_started_ok [of "b_store b" "b_target b" jid] ok by (intro broker_store_ok [of b 0]) (auto simp: broker_ok_def)
  ultimately show ?thesis using ok by blast
qed

lemma start_loop_ok: "broker_ok b \<Longrightarrow> start_loop b = (res, b') \<Longrightarrow> broker_ok b'"
proof (induction b arbitrary: res rule: start_loop.induct)
  case (1 b)
  obtain r b1 where r: "start_ready b = (r, b1)" by fastforce
  note b1 = start_ready_ok [OF "1.prems"(1) r]
  consider "b' = b" | "b' = b1" | jid where "r = Inr (Some jid)" "length (b_running b) < b_max_concurrent b"
      "start_loop b1 = (res, b')"
    using "1.prems"(2) r by (auto simp: start_loop.simps [of b] split: if_splits sum.splits option.splits)
  then show ?case
  proof cases
    case 3
    then show ?thesis using "1.IH" b1 r by metis
  qed (use b1 "1.prems" in auto)
qed

lemma worker_certifies:
  assumes "verification_worker env fate g6 target t mem = Inr m" "m_status m = ''COUNTEREXAMPLE_VERIFIED''"
  shows "certified_graph target g6"
proof -
  obtain g where g: "from_graph6 g6 = Inr g" "certify env fate g t mem target = Inr m"
    using assms(1) by (auto simp: verification_worker_def rbind_Inr_iff)
  show ?thesis
    using certified_genuine [OF from_graph6_wf [OF g(1)] g(2) assms(2)] g(1) by (auto simp: certified_graph_def)
qed

text \<open>What \<open>poll\<close> commits: the status of a persisted and valid manifest, or a tool failure.\<close>

definition committed :: "poll_env \<Rightarrow> string + manifest \<Rightarrow> string" where
  "committed pe res =
     (case res of Inl _ \<Rightarrow> ''TOOL_FAILURE''
      | Inr m \<Rightarrow> if pe_persisted pe = Some m \<and> valid_manifest m then m_status m else ''TOOL_FAILURE'')"

lemma committed_certified:
  assumes "poll_result pe b r = Some res" "committed pe res = ''COUNTEREXAMPLE_VERIFIED''"
  shows "certified_graph (b_target b) (rv_graph6 r)"
proof -
  obtain m where m: "res = Inr m" "m_status m = ''COUNTEREXAMPLE_VERIFIED''"
    using assms(2) by (auto simp: committed_def split: sum.splits if_splits)
  obtain env fate where
    "verification_worker env fate (rv_graph6 r) (b_target b) (b_timeout_seconds b) (b_verifier_memory b) = Inr m"
    using assms(1) m(1) by (auto simp: poll_result_def split: option.splits sum.splits if_splits)
  then show ?thesis using worker_certifies m(2) by blast
qed

lemma poll_Some:
  assumes "b_running b = r # rs" "poll_result pe b r = Some res"
  obtains artifact fin st ev where
    "complete_verification_job (rv_job r) (committed pe res) artifact (b_store b) = (fin, st)"
    "poll pe b = (Some ev, b\<lparr>b_store := st, b_running := rs, b_events := b_events b @ [ev],
       b_lanes_paused := b_lanes_paused b \<or> committed pe res = ''COUNTEREXAMPLE_VERIFIED''\<rparr>)"
    "\<exists>why err. ev = Verification_result why (rv_job r) (committed pe res) fin err"
proof -
  let ?art = "case res of Inl _ \<Rightarrow> rv_artifact r | Inr _ \<Rightarrow> rv_artifact r @ ''/manifest.json''"
  obtain fin st where c: "complete_verification_job (rv_job r) (committed pe res) ?art (b_store b) = (fin, st)"
    by fastforce
  let ?ev = "Verification_result (if committed pe res = ''VERIFIER_DISAGREEMENT'' then ''verifier_disagreement''
      else ''verification_result'') (rv_job r) (committed pe res) fin (case res of Inl e \<Rightarrow> Some e | Inr _ \<Rightarrow> None)"
  have "poll pe b = (Some ?ev, b\<lparr>b_store := st, b_running := rs, b_events := b_events b @ [?ev],
      b_lanes_paused := b_lanes_paused b \<or> committed pe res = ''COUNTEREXAMPLE_VERIFIED''\<rparr>)"
  proof (cases res)
    case (Inl e)
    then show ?thesis using assms c by (simp add: poll_def committed_def Let_def)
  next
    case (Inr m)
    define s where "s = (if pe_persisted pe = Some m \<and> valid_manifest m then m_status m else ''TOOL_FAILURE'')"
    have s: "committed pe res = s" using Inr by (simp add: committed_def s_def)
    show ?thesis using assms c Inr unfolding s by (simp add: poll_def Let_def flip: s_def)
  qed
  with c that show thesis by blast
qed

lemma poll_ok:
  assumes ok: "broker_ok b" and p: "poll pe b = (ev, b')"
  shows "broker_ok b' \<and> (\<forall>e. ev = Some e \<longrightarrow> (\<exists>why j s t x. e = Verification_result why j s t x))"
proof (cases "b_running b")
  case Nil
  then show ?thesis using ok p by (simp add: poll_def)
next
  case (Cons r rs)
  show ?thesis
  proof (cases "poll_result pe b r")
    case None
    then have b': "b' = b\<lparr>b_running := rs @ [r]\<rparr>" "ev = None" using p Cons by (simp_all add: poll_def)
    have "running_ok b'" unfolding b'
      by (rule running_ok_mono [of b]) (use ok Cons in \<open>auto simp: broker_ok_def\<close>)
    then show ?thesis using ok Cons by (simp add: broker_ok_def b')
  next
    case (Some res)
    obtain artifact fin st e where c:
      "complete_verification_job (rv_job r) (committed pe res) artifact (b_store b) = (fin, st)"
      "poll pe b = (Some e, b\<lparr>b_store := st, b_running := rs, b_events := b_events b @ [e],
         b_lanes_paused := b_lanes_paused b \<or> committed pe res = ''COUNTEREXAMPLE_VERIFIED''\<rparr>)"
      "\<exists>why err. e = Verification_result why (rv_job r) (committed pe res) fin err"
      by (rule poll_Some [OF Cons Some])
    have t: "tables_ok (b_store b)" "certificates_ok (b_target b) (b_store b)" "running_ok b"
      using ok by (auto simp: broker_ok_def)
    obtain cd k where k: "(rv_job r, cd, k) \<in> set (job_keys (b_store b))" "snd k = rv_graph6 r"
      using t(3) Cons by (auto simp: running_ok_def)
    have "snd (jb_snapshot j) = rv_graph6 r" if "j \<in> set (jobs (b_store b))" "jb_id j = rv_job r" for j
    proof -
      have "(jb_id j, jb_candidate j, jb_snapshot j) \<in> set (job_keys (b_store b))" using that(1) by (simp add: job_keys_def)
      moreover have "inj_on fst (set (job_keys (b_store b)))" using t(1) by (simp add: tables_ok_def distinct_map)
      ultimately have "(jb_id j, jb_candidate j, jb_snapshot j) = (rv_job r, cd, k)"
        using k(1) that(2) by (intro inj_onD [of fst "set (job_keys (b_store b))"]) auto
      then show ?thesis using k(2) by simp
    qed
    then have "evolves (b_target b) 0 (b_store b) st"
      using committed_certified [OF Some] by (intro complete_ok [OF t(1,2) _ c(1)]) auto
    then have "broker_ok (b\<lparr>b_store := st\<rparr>)" using ok by (intro broker_store_ok) (auto simp: broker_ok_def)
    moreover have b': "b' = b\<lparr>b_store := st, b_running := rs, b_events := b_events b @ [e],
        b_lanes_paused := b_lanes_paused b \<or> committed pe res = ''COUNTEREXAMPLE_VERIFIED''\<rparr>"
      using c(2) p by simp
    have "running_ok b'" if "running_ok (b\<lparr>b_store := st\<rparr>)"
      by (rule running_ok_mono [OF that]) (use Cons in \<open>auto simp: b'\<close>)
    ultimately have "broker_ok b'" using Cons by (simp add: broker_ok_def b')
    then show ?thesis using c(2,3) p by auto
  qed
qed

lemma poll_times_ok:
  "broker_ok b \<Longrightarrow> poll_times pes b = (evs, b') \<Longrightarrow>
   broker_ok b' \<and> (\<forall>e\<in>set evs. \<exists>why j s t x. e = Verification_result why j s t x)"
proof (induction pes arbitrary: b evs)
  case (Cons pe pes)
  obtain ev b1 where 1: "poll pe b = (ev, b1)" by fastforce
  obtain evs2 b2 where 2: "poll_times pes b1 = (evs2, b2)" by fastforce
  note k = poll_ok [OF Cons.prems(1) 1]
  have "b' = b2" "evs = (case ev of None \<Rightarrow> evs2 | Some e \<Rightarrow> e # evs2)" using Cons.prems(2) 1 2 by simp_all
  then show ?case using k Cons.IH [of b1 evs2] 2 by (auto split: option.splits)
qed simp

lemma pump_ok:
  assumes "broker_ok b" "pump now pes b = (res, b')"
  shows "broker_ok b' \<and> (\<forall>evs. res = Inr evs \<longrightarrow> (\<forall>e\<in>set evs. \<exists>why j s t x. e = Verification_result why j s t x))"
proof -
  obtain r1 b1 where 1: "dispatch_pending_actions now b = (r1, b1)" by fastforce
  have b1: "broker_ok b1" using dispatch_actions_ok [OF assms(1)] 1 by (simp add: dispatch_pending_actions_def)
  obtain r2 b2 where 2: "start_loop b1 = (r2, b2)" by fastforce
  note b2 = start_loop_ok [OF b1 2]
  obtain evs b3 where 3: "poll_times (map pes [0..<length (b_running b2)]) b2 = (evs, b3)" by fastforce
  note b3 = poll_times_ok [OF b2 3]
  show ?thesis using assms(2) 1 2 3 b1 b2 b3 by (auto simp: pump_def split: sum.splits)
qed

section \<open>Certificates pass the validation of manifests\<close>

lemma reference_verified_report:
  assumes "verify_reference_bounded fate g t mem target = Inr rep" "dict_get rep ''status'' = JStr ''VERIFIED''"
  shows "dict_get rep ''implementation'' = JStr ''python-reference-dfs'' \<and> dict_get rep ''complete'' = JBool True"
proof -
  obtain p secs where p: "TARGETS target = Some p" "rep = reference_worker p g (Some secs)"
    using assms by (auto simp: verify_reference_bounded_def reference_worker_def failed_report_def
        split: if_splits option.splits worker_end.splits)
  have v: "status (plugin_verify p g) = VERIFIED"
    using p(2) assms(2) by (cases "status (plugin_verify p g)") (simp_all add: reference_worker_def Let_def status_name_def)
  have "p = ERDOS_GYARFAS \<or> p = HIDDEN_WITNESS" using p(1) by (auto simp: TARGETS_def split: if_splits)
  then have "implementation (plugin_verify p g) = ''python-reference-dfs'' \<and> complete (plugin_verify p g)"
    using v by (auto simp: ERDOS_GYARFAS_def HIDDEN_WITNESS_def eg_exact_verify_def verify_reference_def hw_exact_verify_def
        verified_result_def rejected_result_def invalid_result_def Let_def split: if_splits option.splits)
  then show ?thesis unfolding p(2) by (simp add: reference_worker_def Let_def)
qed

lemma settled_implementation:
  "dict_get (settle_payload mem r secs d) ''implementation'' = JStr ''cpp17-bitset-dfs''"
  by (simp add: settle_payload_def Let_def)

lemma cpp_absent_report:
  assumes "verify_cpp env g t mem ls = Inr rep" "dict_get rep ''status'' = JStr ''ABSENT''"
  shows "dict_get rep ''implementation'' = JStr ''cpp17-bitset-dfs''"
  using assms settled_implementation
  by (auto simp: verify_cpp_def rbind_Inr_iff cpp_report_def Let_def split: if_splits option.splits)

lemma certified_manifest_valid:
  assumes "certify env fate g t mem target = Inr m" "m_status m = ''COUNTEREXAMPLE_VERIFIED''" "wf_graph g"
  shows "valid_manifest m"
proof -
  obtain p ref ind where c: "m_verifiers m = [ref, ind]"
    "m_status m = certify_status (dict_get ref ''status'') (dict_get ind ''status'')"
    "verify_reference_bounded fate g t mem target = Inr ref"
    "verify_cpp env g t mem (Some (m_lengths m)) = Inr ind"
    using certify_Inr [OF assms(1)] by metis
  have s: "dict_get ref ''status'' = JStr ''VERIFIED''" "dict_get ind ''status'' = JStr ''ABSENT''"
    using c(2) assms(2) by (auto simp: certify_status_def split: if_splits)
  have "dict_get ind ''complete'' = JBool True"
    using certified_genuine [OF assms(3,1,2)] c(1) by (auto simp: absence_claim_def)
  then show ?thesis
    using reference_verified_report [OF c(3) s(1)] cpp_absent_report [OF c(4) s(2)] s c(1) assms(2)
    by (simp add: valid_manifest_def insert_commute)
qed

section \<open>Campaigns\<close>

definition empty_store :: research_store where
  "empty_store = \<lparr>candidates = [], snapshots = [], pins = [], jobs = [], actions = [], outcomes = [],
     campaign_state = ''running'', state_version = 0, certified_candidate = None, terminal_events = [],
     time_limited = False\<rparr>"

abbreviation with_store :: "broker \<Rightarrow> research_store \<Rightarrow> broker" where
  "with_store b st \<equiv> b\<lparr>b_store := st\<rparr>"

text \<open>
  What happens to the broker and its tables during a campaign: candidates are retained, batches
  of actions are committed, other parts of the program record outcomes of actions and raise the
  version, the orchestrator pumps, the campaign is finished, paused, stopped by a fault or a
  budget and resumed, the broker is shut down, and the application restarts at any moment, with
  the limits of the plan and without the processes (interrupted jobs are queued again).
\<close>

inductive campaign_run :: "broker \<Rightarrow> bool" where
  start: "new_broker (empty_store\<lparr>time_limited := t\<rparr>) target max_queue max_concurrent timeout_seconds memory = Inr b \<Longrightarrow>
    campaign_run b"
| retain: "campaign_run b \<Longrightarrow> campaign_run (with_store b (snd (retain_campaign_candidate now cid g6 (b_store b))))"
| decide: "campaign_run b \<Longrightarrow> campaign_run (with_store b (snd (commit_decision_batch scheduler version batch (b_store b))))"
| outcome: "campaign_run b \<Longrightarrow> campaign_run (with_store b (snd (record_action_outcome aid stat (b_store b))))"
| advance: "campaign_run b \<Longrightarrow>
    campaign_run (with_store b ((b_store b)\<lparr>state_version := Suc (state_version (b_store b))\<rparr>))"
| pump: "campaign_run b \<Longrightarrow> pump now pes b = (res, b') \<Longrightarrow> campaign_run b'"
| finish: "campaign_run b \<Longrightarrow> campaign_run (with_store b (snd (finish_campaign terminal_kind (b_store b))))"
| resume: "campaign_run b \<Longrightarrow> campaign_run (with_store b (snd (resume_campaign ack host (b_store b))))"
| coordinate: "campaign_run b \<Longrightarrow> campaign_state (b_store b) \<notin> TERMINAL_STATES \<Longrightarrow>
    campaign_run (with_store b (snd (set_campaign_coordination_state version state (b_store b))))"
| exhaust: "campaign_run b \<Longrightarrow> campaign_state (b_store b) = ''running'' \<Longrightarrow>
    campaign_run (with_store b (snd (transition_campaign version ''budget_exhausted'' (b_store b))))"
| stop: "campaign_run b \<Longrightarrow> campaign_run (shutdown b)"
| restart: "campaign_run b \<Longrightarrow>
    new_broker (requeue_running (b_store b)) (b_target b) (int (b_max_queue b)) (int (b_max_concurrent b))
      (b_timeout_seconds b) (b_verifier_memory b) = Inr b' \<Longrightarrow> campaign_run b'"

lemma retain_ok:
  assumes "tables_ok st" "certificates_ok target st"
  shows "evolves target 0 st (snd (retain_campaign_candidate now cid g6 st))"
proof (cases "cid \<in> set (map cd_id (candidates st))")
  case True
  then show ?thesis using assms by (simp add: retain_campaign_candidate_def evolves_def)
next
  case False
  let ?st = "st\<lparr>candidates := candidates st @ [\<lparr>cd_id = cid, cd_graph6 = g6, cd_state = Retained, cd_status = None,
    cd_artifact = None, cd_created = now\<rparr>]\<rparr>"
  have keys: "graph_keys ?st = graph_keys st @ [(cid, g6)]" by (simp add: graph_keys_def)
  have "key_ok ?st c k" if "key_ok st c k" for c k using that by (simp add: key_ok_def keys)
  then have "tables_ok ?st"
    using assms(1) False unfolding tables_ok_def keys by (auto simp: graph_keys_def)
  moreover have "certificates_ok target ?st" using assms(2) by (auto simp: certificates_ok_def)
  ultimately show ?thesis using False by (simp add: retain_campaign_candidate_def evolves_def)
qed

lemma requeue_running_ok:
  assumes "tables_ok st" "certificates_ok target st"
  shows "evolves target 0 st (requeue_running st)"
  unfolding requeue_running_def
  by (rule map_jobs_ok [OF _ _ assms]) (auto simp: unfinished_def split: if_splits)

lemma evolves_same: "tables_ok st \<Longrightarrow> certificates_ok target st \<Longrightarrow> evolves target 0 st st"
  by (simp add: evolves_def)

lemma pin_candidates_ok:
  "tables_ok st \<Longrightarrow> certificates_ok target st \<Longrightarrow> pin_candidates aid cids st = Inr st' \<Longrightarrow> evolves target 0 st st'"
proof (induction cids arbitrary: st)
  case (Cons cid cids)
  then obtain sid st1 where 1: "pin_candidate aid cid st = Inr (sid, st1)" "pin_candidates aid cids st1 = Inr st'"
    by (auto split: sum.splits)
  note p = pin_candidate_ok [OF Cons.prems(1) 1(1)]
  have "evolves target 0 st st1"
    using p(1,3,5) Cons.prems(2) by (simp add: evolves_def job_keys_def queue_depth_def)
  moreover have "evolves target 0 st1 st'" using Cons.IH [OF p(1) _ 1(2)] p(5) Cons.prems(2) by simp
  ultimately show ?case using evolves_trans by fastforce
qed (simp add: evolves_def)

lemma commit_action_ok:
  assumes "tables_ok st" "certificates_ok target st" "commit_action fresh submitted st = Inr (stat, st')"
  shows "evolves target 0 st st'"
proof -
  let ?st1 = "\<lambda>x. st\<lparr>actions := actions st @ [x]\<rparr>"
  consider (same) "st' = st" | (row) x where "st' = ?st1 x"
    | (pinned) aid cids x where "pin_candidates aid cids (?st1 x) = Inr st'"
    using assms(3) unfolding commit_action_def Let_def by (auto split: if_splits sum.splits)
  then show ?thesis
  proof cases
    case same
    then show ?thesis using assms by (simp add: evolves_def)
  next
    case row
    then show ?thesis using store_fields_ok(3) [OF assms(1,2)] by simp
  next
    case pinned
    have e: "evolves target 0 st (?st1 x)" by (rule store_fields_ok(3) [OF assms(1,2)])
    then have "evolves target 0 (?st1 x) st'" by (intro pin_candidates_ok [OF _ _ pinned]) (simp_all only: evolves_def)
    from evolves_trans [OF e this] show ?thesis by simp
  qed
qed

lemma commit_actions_ok:
  "tables_ok st \<Longrightarrow> certificates_ok target st \<Longrightarrow> commit_actions fresh batch statuses st = Inr (statuses', st') \<Longrightarrow>
   evolves target 0 st st'"
proof (induction batch arbitrary: st statuses)
  case (Cons submitted batch)
  then obtain stat st1 where 1: "commit_action fresh submitted st = Inr (stat, st1)"
    "commit_actions fresh batch (AList.update (ac_id (fst submitted)) stat statuses) st1 = Inr (statuses', st')"
    by (auto split: sum.splits)
  note e = commit_action_ok [OF Cons.prems(1,2) 1(1)]
  then have "evolves target 0 st1 st'" using Cons.IH [OF _ _ 1(2)] by (simp add: evolves_def)
  with evolves_trans [OF e] show ?case by fastforce
qed (simp add: evolves_def)

lemma block_actions_ok:
  assumes "tables_ok st" "certificates_ok target st"
  shows "evolves target 0 st (block_actions blocked st)"
proof -
  let ?f = "\<lambda>p. if pn_action p \<in> set blocked \<and> pn_active p then p\<lparr>pn_active := False\<rparr> else p"
  have "pin_keys (block_actions blocked st) = pin_keys st"
    by (auto simp: block_actions_def pin_keys_def)
  then have "tables_ok (block_actions blocked st)"
    by (intro tables_ok_cong [OF _ _ _ _ assms(1)]) (simp_all add: block_actions_def)
  moreover have "certificates_ok target (block_actions blocked st)"
    using assms(2) by (simp add: block_actions_def certificates_ok_def successes_def)
  ultimately show ?thesis by (simp add: evolves_def block_actions_def)
qed

lemma version_ok:
  assumes "tables_ok st" "certificates_ok target st"
  shows "evolves target 0 st (st\<lparr>state_version := v\<rparr>)"
  using store_fields_ok(1) [OF assms, where os = "outcomes st" and v = v] by simp

lemma commit_decision_batch_ok:
  assumes "tables_ok st" "certificates_ok target st"
  shows "evolves target 0 st (snd (commit_decision_batch scheduler version batch st))"
proof (cases "commit_actions (version = state_version st) batch [] st")
  case (Inl e)
  then show ?thesis using evolves_same [OF assms] by (simp add: commit_decision_batch_def Let_def)
next
  case (Inr r)
  then obtain statuses st1 where r: "commit_actions (version = state_version st) batch [] st = Inr (statuses, st1)"
    by (cases r) simp
  note e = commit_actions_ok [OF assms r]
  then have t: "tables_ok st1" "certificates_ok target st1" by (simp_all add: evolves_def)
  show ?thesis
    using evolves_same [OF assms] e evolves_trans [OF e block_actions_ok [OF t]] evolves_trans [OF e version_ok [OF t]] r
    by (auto simp: commit_decision_batch_def Let_def)
qed

text \<open>The state of a campaign that has not succeeded changes, and ends for another reason.\<close>

lemma state_change_ok:
  assumes "tables_ok st" "certificates_ok target st" "campaign_state st \<noteq> ''succeeded_certified_counterexample''"
    and "\<forall>e\<in>set es. te_candidate e = None \<and> te_kind e \<noteq> ''succeeded_certified_counterexample''"
  shows "evolves target 0 st (st\<lparr>campaign_state := s, state_version := v, terminal_events := terminal_events st @ es\<rparr>)"
proof -
  let ?st = "st\<lparr>campaign_state := s, state_version := v, terminal_events := terminal_events st @ es\<rparr>"
  have "tables_ok ?st" by (rule tables_ok_cong [OF _ _ _ _ assms(1)]) simp_all
  moreover have "successes ?st = []"
    using assms(2-4) by (auto simp: certificates_ok_def successes_def filter_empty_conv)
  moreover have "Some cid \<in> te_candidate ` set (terminal_events ?st) \<Longrightarrow>
      Some cid \<in> te_candidate ` set (terminal_events st)" for cid
    using assms(4) by auto
  ultimately show ?thesis using assms(2) by (simp add: evolves_def certificates_ok_def)
qed

lemma campaign_state_ok:
  assumes "tables_ok st" "certificates_ok target st"
  shows "evolves target 0 st (snd (finish_campaign terminal_kind st))"
    "evolves target 0 st (snd (resume_campaign ack host st))"
    "campaign_state st \<noteq> ''succeeded_certified_counterexample'' \<Longrightarrow>
     evolves target 0 st (snd (transition_campaign version state st))"
    "campaign_state st \<noteq> ''succeeded_certified_counterexample'' \<Longrightarrow>
     evolves target 0 st (snd (set_campaign_coordination_state version state st))"
proof -
  note same = evolves_same [OF assms]
  note change = state_change_ok [OF assms]
  show "evolves target 0 st (snd (finish_campaign terminal_kind st))"
  proof (cases "snd (finish_campaign terminal_kind st) = st")
    case False
    then have "campaign_state st \<noteq> ''succeeded_certified_counterexample''"
      "terminal_kind \<noteq> ''succeeded_certified_counterexample''"
      "snd (finish_campaign terminal_kind st) = st\<lparr>campaign_state := terminal_kind, state_version := Suc (state_version st),
         terminal_events := terminal_events st @
           [\<lparr>te_kind = terminal_kind, te_candidate = None, te_job = None, te_artifact = None\<rparr>]\<rparr>"
      by (auto simp: finish_campaign_def FINAL_CAMPAIGN_STATES_def)
    with change show ?thesis by simp
  qed (use same in simp)
  show "evolves target 0 st (snd (resume_campaign ack host st))"
    using same change [where es = "[]"]
    by (auto simp: resume_campaign_def RESUMABLE_STATES_def Let_def)
  show t: "campaign_state st \<noteq> ''succeeded_certified_counterexample'' \<Longrightarrow>
      evolves target 0 st (snd (transition_campaign version state st))" for state
    using same change [where es = "[]"] by (simp add: transition_campaign_def)
  show "campaign_state st \<noteq> ''succeeded_certified_counterexample'' \<Longrightarrow>
      evolves target 0 st (snd (set_campaign_coordination_state version state st))"
    using same t by (simp add: set_campaign_coordination_state_def)
qed

lemma campaign_run_ok: "campaign_run b \<Longrightarrow> broker_ok b"
proof (induction rule: campaign_run.induct)
  case (start t target max_queue max_concurrent timeout_seconds memory b)
  then show ?case
    by (auto simp: new_broker_def broker_ok_def tables_ok_def certificates_ok_def successes_def running_ok_def
        queue_depth_def empty_store_def graph_keys_def job_keys_def pin_keys_def split: if_splits)
next
  case (retain b now cid g6)
  then show ?case using retain_ok by (intro broker_store_step) (auto simp: broker_ok_def)
next
  case (decide b scheduler version batch)
  then show ?case using commit_decision_batch_ok by (intro broker_store_step) (auto simp: broker_ok_def)
next
  case (outcome b aid stat)
  then show ?case
    using record_action_outcome_ok [OF _ _ surjective_pairing]
    by (intro broker_store_step) (auto simp: broker_ok_def)
next
  case (advance b)
  then show ?case using version_ok by (intro broker_store_step) (auto simp: broker_ok_def)
next
  case (pump b now pes res b')
  then show ?case using pump_ok by blast
next
  case (finish b terminal_kind)
  then show ?case using campaign_state_ok(1) by (intro broker_store_step) (auto simp: broker_ok_def)
next
  case (resume b ack host)
  then show ?case using campaign_state_ok(2) by (intro broker_store_step) (auto simp: broker_ok_def)
next
  case (coordinate b version state)
  then have "campaign_state (b_store b) \<noteq> ''succeeded_certified_counterexample''"
    by (auto simp: TERMINAL_STATES_def FINAL_CAMPAIGN_STATES_def)
  with coordinate show ?case using campaign_state_ok(4) by (intro broker_store_step) (auto simp: broker_ok_def)
next
  case (exhaust b version)
  then show ?case using campaign_state_ok(3) by (intro broker_store_step) (auto simp: broker_ok_def)
next
  case (stop b)
  then show ?case by (simp add: broker_ok_def running_ok_def shutdown_def)
next
  case (restart b b')
  then have "broker_ok (b\<lparr>b_store := requeue_running (b_store b)\<rparr>)"
    using requeue_running_ok by (intro broker_store_step) (auto simp: broker_ok_def)
  then show ?case using restart.hyps(2) by (auto simp: broker_ok_def running_ok_def new_broker_def split: if_splits)
qed

section \<open>A small campaign\<close>

definition control_target :: string where
  "control_target = ''m6_hidden_witness_control_v1''"

definition petersen6 :: "int list" where
  "petersen6 = [73, 104, 101, 65, 64, 71, 85, 65, 111]"

definition promote_action :: "int \<Rightarrow> action_row" where
  "promote_action lease = \<lparr>ac_id = ''a1'', ac_key = ''k1'', ac_request = Promote ''c1'', ac_priority = 1, ac_accepted = True,
     ac_lease_expires = lease, ac_created = 0\<rparr>"

definition demo_store :: "int \<Rightarrow> research_store" where
  "demo_store lease =
     snd (commit_decision_batch False 0 [(promote_action lease, True)]
       (snd (retain_campaign_candidate 0 ''c1'' petersen6 empty_store)))"

definition demo_broker :: "int \<Rightarrow> broker" where
  "demo_broker lease =
     \<lparr>b_store = demo_store lease, b_target = control_target, b_max_queue = 4, b_max_concurrent = 1,
      b_timeout_seconds = Fin 10, b_verifier_memory = 0, b_running = [], b_events = [], b_lanes_paused = False\<rparr>"

definition demo_started :: broker where
  "demo_started = snd (start_loop (snd (dispatch_pending_actions 1 (demo_broker 5))))"

lemma demo_broker_run: "campaign_run (demo_broker lease)"
proof -
  have "empty_store\<lparr>time_limited := False\<rparr> = empty_store" by (simp add: empty_store_def)
  then have "new_broker (empty_store\<lparr>time_limited := False\<rparr>) control_target 4 1 (Fin 10) 0 =
      Inr ((demo_broker lease)\<lparr>b_store := empty_store\<rparr>)"
    by (simp add: new_broker_def demo_broker_def py_negative_def)
  from campaign_run.decide [OF campaign_run.retain [OF campaign_run.start [OF this], of 0 "''c1''" petersen6],
      of False 0 "[(promote_action lease, True)]"]
  show ?thesis by (simp add: demo_broker_def demo_store_def)
qed

lemma demo_candidates:
  "candidates (demo_store 5) = [\<lparr>cd_id = ''c1'', cd_graph6 = petersen6, cd_state = Retained, cd_status = None,
     cd_artifact = None, cd_created = 0\<rparr>]"
  by code_simp

text \<open>The accepted action has pinned the graph of its candidate.\<close>

lemma demo_pinned:
  "map (\<lambda>p. (pn_action p, pn_candidate p, pn_snapshot p, pn_active p)) (pins (demo_store 5)) =
     [(''a1'', ''c1'', (''c1'', petersen6), True)]"
  by code_simp

lemma demo_dispatch:
  "fst (dispatch_pending_actions 1 (demo_broker 5)) = Inr [''a1'']"
  "fst (start_loop (snd (dispatch_pending_actions 1 (demo_broker 5)))) = Inr ()"
  "b_running demo_started = [\<lparr>rv_job = ''verification-c1'', rv_graph6 = petersen6, rv_artifact = ''verifications/verification-c1''\<rparr>]"
  by code_simp+

lemma complete_certifies:
  assumes "find (\<lambda>j. jb_id j = jid \<and> jb_state j = Running) (jobs st) = Some job"
    "campaign_state st \<notin> FINAL_CAMPAIGN_STATES"
  shows "\<exists>st'. complete_verification_job jid ''COUNTEREXAMPLE_VERIFIED'' artifact st = (True, st') \<and>
    certified_candidate st' = Some (jb_candidate job) \<and> campaign_state st' = ''succeeded_certified_counterexample'' \<and>
    terminal_events st' = terminal_events st @ [\<lparr>te_kind = ''succeeded_certified_counterexample'',
      te_candidate = Some (jb_candidate job), te_job = Some jid, te_artifact = Some artifact\<rparr>]"
  using assms by (simp add: complete_verification_job_def terminal_states_def set_candidate_def Let_def)

lemma poll_certifies:
  assumes r: "b_running b = r # rs" and f: "pe_finished pe = Some (env, fate)"
    and w: "verification_worker env fate (rv_graph6 r) (b_target b) (b_timeout_seconds b) (b_verifier_memory b) = Inr m"
    and m: "m_status m = ''COUNTEREXAMPLE_VERIFIED''" "pe_persisted pe = Some m"
    and j: "find (\<lambda>j. jb_id j = rv_job r \<and> jb_state j = Running) (jobs (b_store b)) = Some job"
    and o: "campaign_state (b_store b) \<notin> FINAL_CAMPAIGN_STATES"
  shows "\<exists>ev b'. poll pe b = (Some ev, b') \<and> certified_candidate (b_store b') = Some (jb_candidate job) \<and>
    campaign_state (b_store b') = ''succeeded_certified_counterexample'' \<and> b_lanes_paused b' \<and>
    (\<exists>why x. ev = Verification_result why (rv_job r) ''COUNTEREXAMPLE_VERIFIED'' True x)"
proof -
  obtain g where g: "from_graph6 (rv_graph6 r) = Inr g"
    "certify env fate g (b_timeout_seconds b) (b_verifier_memory b) (b_target b) = Inr m"
    using w by (auto simp: verification_worker_def rbind_Inr_iff)
  have "valid_manifest m" by (rule certified_manifest_valid [OF g(2) m(1) from_graph6_wf [OF g(1)]])
  then have c: "committed pe (Inr m) = ''COUNTEREXAMPLE_VERIFIED''" using m by (simp add: committed_def)
  have "poll_result pe b r = Some (Inr m)" using f w by (simp add: poll_result_def)
  from poll_Some [OF r this] obtain artifact fin st ev where p:
    "complete_verification_job (rv_job r) (committed pe (Inr m)) artifact (b_store b) = (fin, st)"
    "poll pe b = (Some ev, b\<lparr>b_store := st, b_running := rs, b_events := b_events b @ [ev],
       b_lanes_paused := b_lanes_paused b \<or> committed pe (Inr m) = ''COUNTEREXAMPLE_VERIFIED''\<rparr>)"
    "\<exists>why err. ev = Verification_result why (rv_job r) (committed pe (Inr m)) fin err" .
  have "fin \<and> certified_candidate st = Some (jb_candidate job) \<and> campaign_state st = ''succeeded_certified_counterexample''"
    using complete_certifies [OF j o, of artifact] p(1) unfolding c by auto
  then show ?thesis using p(2,3) unfolding c by simp
qed

lemma demo_worker:
  obtains m where "verification_worker honest_env (Worker_Returned (Fin 1)) petersen6 control_target (Fin 10) 0 = Inr m"
    "m_status m = ''COUNTEREXAMPLE_VERIFIED''"
proof -
  have dec: "from_graph6 petersen6 = Inr petersen" by code_simp
  have "order petersen = 10" by (simp add: petersen_def)
  from control_certificate [OF wf_petersen petersen_encodes this] obtain m where
    "certify honest_env (Worker_Returned (Fin 1)) petersen (Fin 10) 0 ''m6_hidden_witness_control_v1'' = Inr m"
    "m_status m = certify_status (JStr (status_name (status (hw_exact_verify petersen)))) (JStr ''ABSENT'')" by blast
  with that dec hw_petersen_verified show thesis
    by (simp add: verification_worker_def control_target_def certify_status_evidence)
qed

lemma demo_started_job:
  "\<exists>job. find (\<lambda>j. jb_id j = ''verification-c1'' \<and> jb_state j = Running) (jobs (b_store demo_started)) = Some job \<and>
     jb_candidate job = ''c1''"
  "campaign_state (b_store demo_started) = ''running''" "b_target demo_started = control_target"
  "b_timeout_seconds demo_started = Fin 10" "b_verifier_memory demo_started = 0"
proof -
  have "map_option jb_candidate (find (\<lambda>j. jb_id j = ''verification-c1'' \<and> jb_state j = Running)
      (jobs (b_store demo_started))) = Some ''c1''" by code_simp
  then show "\<exists>job. find (\<lambda>j. jb_id j = ''verification-c1'' \<and> jb_state j = Running) (jobs (b_store demo_started)) = Some job \<and>
     jb_candidate job = ''c1''" by auto
  show "campaign_state (b_store demo_started) = ''running''" "b_target demo_started = control_target"
    "b_timeout_seconds demo_started = Fin 10" "b_verifier_memory demo_started = 0" by code_simp+
qed

lemma demo_certified:
  "\<exists>pes evs b. pump 1 pes (demo_broker 5) = (Inr evs, b) \<and> b_target b = control_target \<and>
     certified_candidate (b_store b) = Some ''c1''"
proof -
  obtain m where m: "verification_worker honest_env (Worker_Returned (Fin 1)) petersen6 control_target (Fin 10) 0 = Inr m"
    "m_status m = ''COUNTEREXAMPLE_VERIFIED''" by (rule demo_worker)
  define pe where "pe = \<lparr>pe_finished = Some (honest_env, Worker_Returned (Fin 1)), pe_late = False, pe_alive = False,
    pe_exitcode = Some 0, pe_persisted = Some m, pe_error_text = (\<lambda>_. [])\<rparr>"
  obtain job where job: "find (\<lambda>j. jb_id j = ''verification-c1'' \<and> jb_state j = Running) (jobs (b_store demo_started)) = Some job"
    "jb_candidate job = ''c1''" using demo_started_job(1) by blast
  have "\<exists>ev b'. poll pe demo_started = (Some ev, b') \<and> certified_candidate (b_store b') = Some (jb_candidate job) \<and>
      campaign_state (b_store b') = ''succeeded_certified_counterexample'' \<and> b_lanes_paused b' \<and>
      (\<exists>why x. ev = Verification_result why ''verification-c1'' ''COUNTEREXAMPLE_VERIFIED'' True x)"
    using poll_certifies [OF demo_dispatch(3), of pe honest_env "Worker_Returned (Fin 1)" m job] m job
      demo_started_job by (simp add: pe_def FINAL_CAMPAIGN_STATES_def)
  then obtain ev b' where p: "poll pe demo_started = (Some ev, b')" "certified_candidate (b_store b') = Some ''c1''"
    using job(2) by auto
  have "b_target b' = b_target demo_started"
    using p(1) by (auto simp: poll_def Let_def split: list.splits option.splits prod.splits)
  moreover obtain b1 where b1: "dispatch_pending_actions 1 (demo_broker 5) = (Inr [''a1''], b1)"
    using demo_dispatch(1) by (metis prod.collapse)
  moreover have "start_loop b1 = (Inr (), demo_started)"
    using demo_dispatch(2) b1 by (simp add: demo_started_def) (metis prod.collapse)
  moreover have "length (b_running demo_started) = 1" by (simp add: demo_dispatch(3))
  ultimately have "pump 1 (\<lambda>_. pe) (demo_broker 5) = (Inr [ev], b')" using p(1) by (simp add: pump_def)
  then show ?thesis using p(2) \<open>b_target b' = b_target demo_started\<close> demo_started_job(3) by metis
qed

section \<open>Properties\<close>

text \<open>
  C2. A campaign never claims a false success: in every state a campaign can reach, whatever
  batches of actions are committed, with the snapshots and pins that this makes, however the
  worker processes and the external checker behave, whichever way the campaign is finished,
  paused and resumed, and across restarts, the candidate recorded as certified, every candidate
  that a terminal event names, and every candidate in the state \<open>certified\<close> decode to a genuine
  counterexample of the campaign's target.
\<close>

theorem certified_campaign_is_genuine:
  assumes "campaign_run b"
  shows "(\<forall>cid. certified_candidate (b_store b) = Some cid \<or>
        (\<exists>e\<in>set (terminal_events (b_store b)). te_candidate e = Some cid) \<longrightarrow>
      (\<exists>c g. c \<in> set (candidates (b_store b)) \<and> cd_id c = cid \<and> from_graph6 (cd_graph6 c) = Inr g \<and>
         genuine (b_target b) g)) \<and>
    (\<forall>c\<in>set (candidates (b_store b)). cd_state c = Certified \<longrightarrow>
      (\<exists>g. from_graph6 (cd_graph6 c) = Inr g \<and> genuine (b_target b) g))"
proof -
  have ok: "certificates_ok (b_target b) (b_store b)" using campaign_run_ok [OF assms] by (simp add: broker_ok_def)
  have "\<exists>c\<in>set (candidates (b_store b)). cd_id c = cid \<and> certified_graph (b_target b) (cd_graph6 c)"
    if "certified_candidate (b_store b) = Some cid \<or> (\<exists>e\<in>set (terminal_events (b_store b)). te_candidate e = Some cid)"
    for cid
  proof -
    have "certified_candidate (b_store b) = Some cid \<or> Some cid \<in> te_candidate ` set (terminal_events (b_store b))"
      using that by force
    then show ?thesis using ok unfolding certificates_ok_def by blast
  qed
  then show ?thesis using ok unfolding certificates_ok_def certified_graph_def by blast
qed

theorem certified_campaign_is_genuine_witness:
  "\<exists>b g. campaign_run b \<and> certified_candidate (b_store b) = Some ''c1'' \<and> genuine control_target g"
proof -
  obtain pes evs b where b: "pump 1 pes (demo_broker 5) = (Inr evs, b)" "b_target b = control_target"
    "certified_candidate (b_store b) = Some ''c1''" using demo_certified by blast
  have run: "campaign_run b" by (rule campaign_run.pump [OF demo_broker_run b(1)])
  from certified_campaign_is_genuine [OF run] b(2,3) obtain g where "genuine control_target g" by force
  then show ?thesis using run b(3) by blast
qed



text \<open>
  C23. A verified candidate ends the campaign: when the worker process of the polled job delivers
  a manifest with \<open>COUNTEREXAMPLE_VERIFIED\<close> that is also the manifest on disk, the job is still
  running and the campaign has not ended, then \<open>poll\<close> records the candidate as the certified
  one, ends the campaign, pauses the lanes and reports a terminal result.  In particular no
  certificate is lost to the validation of manifests.
\<close>

theorem verified_candidate_ends_campaign:
  assumes "b_running b = r # rs" "pe_finished pe = Some (env, fate)"
    and "verification_worker env fate (rv_graph6 r) (b_target b) (b_timeout_seconds b) (b_verifier_memory b) = Inr m"
    and "m_status m = ''COUNTEREXAMPLE_VERIFIED''" "pe_persisted pe = Some m"
    and "find (\<lambda>j. jb_id j = rv_job r \<and> jb_state j = Running) (jobs (b_store b)) = Some job"
    and "campaign_state (b_store b) \<notin> FINAL_CAMPAIGN_STATES"
  shows "\<exists>ev b'. poll pe b = (Some ev, b') \<and> certified_candidate (b_store b') = Some (jb_candidate job) \<and>
    campaign_state (b_store b') = ''succeeded_certified_counterexample'' \<and> b_lanes_paused b' \<and>
    (\<exists>why x. ev = Verification_result why (rv_job r) ''COUNTEREXAMPLE_VERIFIED'' True x)"
  by (rule poll_certifies) (fact assms)+

theorem verified_candidate_ends_campaign_witness:
  "\<exists>pe ev b'. poll pe demo_started = (Some ev, b') \<and> certified_candidate (b_store b') = Some ''c1''"
proof -
  obtain m where m: "verification_worker honest_env (Worker_Returned (Fin 1)) petersen6 control_target (Fin 10) 0 = Inr m"
    "m_status m = ''COUNTEREXAMPLE_VERIFIED''" by (rule demo_worker)
  define pe where "pe = \<lparr>pe_finished = Some (honest_env, Worker_Returned (Fin 1)), pe_late = False, pe_alive = False,
    pe_exitcode = Some 0, pe_persisted = Some m, pe_error_text = (\<lambda>_. [])\<rparr>"
  obtain job where job: "find (\<lambda>j. jb_id j = ''verification-c1'' \<and> jb_state j = Running) (jobs (b_store demo_started)) = Some job"
    "jb_candidate job = ''c1''" using demo_started_job(1) by blast
  have "\<exists>ev b'. poll pe demo_started = (Some ev, b') \<and> certified_candidate (b_store b') = Some (jb_candidate job) \<and>
      campaign_state (b_store b') = ''succeeded_certified_counterexample'' \<and> b_lanes_paused b' \<and>
      (\<exists>why x. ev = Verification_result why ''verification-c1'' ''COUNTEREXAMPLE_VERIFIED'' True x)"
    using verified_candidate_ends_campaign [OF demo_dispatch(3), of pe honest_env "Worker_Returned (Fin 1)" m job] m job
      demo_started_job by (simp add: pe_def FINAL_CAMPAIGN_STATES_def)
  then show ?thesis using job(2) by auto
qed

lemma dispatch_events_stay_in_broker:
  assumes "campaign_run b" "pump now pes b = (Inr evs, b')"
  shows "Control why \<notin> set evs"
  using pump_ok [OF campaign_run_ok [OF assms(1)] assms(2)] by fastforce

text \<open>
  C37. An ineligible candidate blocks the broker: when the first pending action has a valid lease
  and room in the queue, and one of its candidates is already rejected or certified, \<open>pump\<close>
  raises and leaves everything as it was, so that the action stays pending, nothing is polled
  and every later call raises again until the lease expires.
\<close>

theorem ineligible_candidate_blocks_pump:
  assumes "pending_candidate_actions (b_store b) = a # as" "now < ac_lease_expires a"
    and "action_targets (ac_priority a) (ac_request a) = (cids, priority)"
    and "queue_depth (b_store b) + length cids \<le> b_max_queue b"
    and "length (filter (\<lambda>c. cd_id c \<in> set cids) (candidates (b_store b))) = length cids"
    and "c \<in> set (candidates (b_store b))" "cd_id c \<in> set cids" "cd_state c = Rejected \<or> cd_state c = Certified"
  shows "pump now pes b = (Inl (RuntimeError ''candidate is not eligible for verification''), b)"
proof -
  have "a \<in> set (pending_candidate_actions (b_store b))" using assms(1) by simp
  then have a: "a \<in> set (actions (b_store b))" "ac_accepted a" "ac_id a \<notin> set (map fst (outcomes (b_store b)))"
    by (auto simp: pending_candidate_actions_def)
  have "cids \<noteq> []" using assms(7) by auto
  then have "queue_verification_action now (ac_id a) cids priority (map job_id_of cids) (b_store b) =
      (Inl (StoreRaised (RuntimeError ''candidate is not eligible for verification'')), b_store b)"
    using a assms(5-8) by (auto simp: queue_verification_action_def Let_def image_iff)
  then have "dispatch_action now a b = (Inl (RuntimeError ''candidate is not eligible for verification''), b)"
    using assms(2-4) by (simp add: dispatch_action_def)
  then show ?thesis using assms(1) by (simp add: pump_def dispatch_pending_actions_def)
qed

theorem ineligible_candidate_blocks_pump_witness:
  "pump 1 undefined ((demo_broker 5)\<lparr>b_store := set_candidate ''c1'' (\<lambda>c. c\<lparr>cd_state := Rejected\<rparr>) (b_store (demo_broker 5))\<rparr>) =
    (Inl (RuntimeError ''candidate is not eligible for verification''),
     (demo_broker 5)\<lparr>b_store := set_candidate ''c1'' (\<lambda>c. c\<lparr>cd_state := Rejected\<rparr>) (b_store (demo_broker 5))\<rparr>)"
proof -
  let ?b = "(demo_broker 5)\<lparr>b_store := set_candidate ''c1'' (\<lambda>c. c\<lparr>cd_state := Rejected\<rparr>) (b_store (demo_broker 5))\<rparr>"
  let ?c = "\<lparr>cd_id = ''c1'', cd_graph6 = petersen6, cd_state = Rejected, cd_status = None, cd_artifact = None, cd_created = 0\<rparr>"
  have p: "pending_candidate_actions (b_store ?b) = [promote_action 5]"
    "queue_depth (b_store ?b) + length [''c1''] \<le> b_max_queue ?b"
    "length (filter (\<lambda>c. cd_id c \<in> set [''c1'']) (candidates (b_store ?b))) = length [''c1'']" by code_simp+
  have t: "1 < ac_lease_expires (promote_action 5)"
    "action_targets (ac_priority (promote_action 5)) (ac_request (promote_action 5)) = ([''c1''], 1)"
    by (simp_all add: promote_action_def)
  have "?c \<in> set (candidates (b_store ?b))" by (simp add: demo_broker_def set_candidate_def demo_candidates)
  from ineligible_candidate_blocks_pump [OF p(1) t p(2,3) this] show ?thesis by simp
qed

end
