(* ===== verification/Lane_Keys.thy ===== *)
theory Lane_Keys
  imports Graph6 Mutation
begin

text \<open>
  The graph keys of a search lane, \<open>src/src/sglab/research/lanes.py\<close>: the 256-bit Zobrist key
  with its incremental update after a mutation, the reference form of the SHA-256 key, the
  choice between the two in \<open>_candidate_search_key\<close>, and the window of recent keys.

  Python integers are \<open>int\<close>; the 64-bit arithmetic is the masking the source writes out.
  SHA-256 (\<open>hashlib\<close>) is a parameter: a function from bytes to the text of the digest.

  The update of a key by the edges of a mutation equals the key computed from the mutated
  graph (\<open>lane_key_update_exact\<close>), so a lane may carry its key from candidate to candidate;
  the byte-wise reference of the SHA-256 key hashes exactly the graph6 encoding.
\<close>

unbundle bit_operations_syntax

section \<open>Zobrist keys\<close>

definition UINT64_MASK :: int where
  "UINT64_MASK = shl1 64 - 1"

definition splitmix64 :: "int \<Rightarrow> int" where
  "splitmix64 w0 =
     (let w1 = (w0 + 0x9E3779B97F4A7C15) AND UINT64_MASK;
          w2 = ((w1 XOR drop_bit 30 w1) * 0xBF58476D1CE4E5B9) AND UINT64_MASK;
          w3 = ((w2 XOR drop_bit 27 w2) * 0x94D049BB133111EB) AND UINT64_MASK
      in w3 XOR drop_bit 31 w3)"

definition zobrist_token :: "int \<Rightarrow> int" where
  "zobrist_token x =
     fold (\<lambda>domain acc.
         acc OR push_bit (domain * 64)
           (splitmix64 (x XOR (0xD6E8FEB86659FD93 * (int domain + 1)))))
       [0..<4] 0"

definition edge_token :: "edge \<Rightarrow> int" where
  "edge_token e = zobrist_token (push_bit 32 (int (fst e)) OR int (snd e))"

text \<open>\<open>f"{value:064x}"\<close>: lower-case hexadecimal, padded with zeros to 64 characters.\<close>

definition hex_char :: "nat \<Rightarrow> char" where
  "hex_char d = (if d < 10 then char_of (48 + d) else char_of (87 + d))"

fun show_hex :: "nat \<Rightarrow> string" where
  "show_hex n = (if n < 16 then [hex_char n] else show_hex (n div 16) @ [hex_char (n mod 16)])"

declare show_hex.simps [simp del]

definition zero_pad :: "nat \<Rightarrow> string \<Rightarrow> string" where
  "zero_pad w s = replicate (w - length s) CHR ''0'' @ s"

definition hex64 :: "int \<Rightarrow> string" where
  "hex64 x = (if x < 0 then CHR ''-'' # zero_pad 63 (show_hex (nat (- x)))
              else zero_pad 64 (show_hex (nat x)))"

text \<open>
  \<open>int(key, 16)\<close>: surrounding white space, a sign, the prefix \<open>0x\<close> and single underscores
  between digits are accepted.
\<close>

definition hex_digit :: "char \<Rightarrow> nat option" where
  "hex_digit c =
     (let n = of_char c :: nat
      in if 48 \<le> n \<and> n \<le> 57 then Some (n - 48)
         else if 97 \<le> n \<and> n \<le> 102 then Some (n - 87)
         else if 65 \<le> n \<and> n \<le> 70 then Some (n - 55)
         else None)"

definition py_space :: "char \<Rightarrow> bool" where
  "py_space c = (let n = of_char c :: nat in n = 32 \<or> 9 \<le> n \<and> n \<le> 13 \<or> 28 \<le> n \<and> n \<le> 31 \<or> n = 133 \<or> n = 160)"

definition strip_space :: "string \<Rightarrow> string" where
  "strip_space s = rev (dropWhile py_space (rev (dropWhile py_space s)))"

text \<open>Digits with single underscores between them, read from the left.\<close>

fun hex_digits :: "nat \<Rightarrow> string \<Rightarrow> nat option" where
  "hex_digits acc [] = Some acc"
| "hex_digits acc (c # s) =
     (case hex_digit c of
        Some d \<Rightarrow> hex_digits (16 * acc + d) s
      | None \<Rightarrow>
          (if c = CHR ''_'' \<and> s \<noteq> [] \<and> hd s \<noteq> CHR ''_'' then hex_digits acc s else None))"

definition hex_prefix :: "string \<Rightarrow> bool" where
  "hex_prefix s = (2 \<le> length s \<and> s ! 0 = CHR ''0'' \<and> (s ! 1 = CHR ''x'' \<or> s ! 1 = CHR ''X''))"

definition hex_magnitude :: "string \<Rightarrow> nat result" where
  "hex_magnitude s =
     (let t = (if hex_prefix s
               then (if 2 < length s \<and> s ! 2 = CHR ''_'' then drop 3 s else drop 2 s) else s)
      in if t = [] \<or> hd t = CHR ''_'' then Inl (ValueError ''invalid literal for int() with base 16'')
         else case hex_digits 0 t of
                None \<Rightarrow> Inl (ValueError ''invalid literal for int() with base 16'')
              | Some n \<Rightarrow> Inr n)"

definition int_base16 :: "string \<Rightarrow> int result" where
  "int_base16 key =
     (let s = strip_space key
      in if s \<noteq> [] \<and> hd s = CHR ''-'' then rbind (hex_magnitude (tl s)) (\<lambda>n. Inr (- int n))
         else if s \<noteq> [] \<and> hd s = CHR ''+'' then rbind (hex_magnitude (tl s)) (\<lambda>n. Inr (int n))
         else rbind (hex_magnitude s) (\<lambda>n. Inr (int n)))"

definition zobrist_value :: "bitgraph \<Rightarrow> int" where
  "zobrist_value g =
     fold (\<lambda>e acc. acc XOR edge_token e) (edges g)
       (zobrist_token (0x8000000000000000 OR int (order g)))"

definition zobrist_graph_key :: "bitgraph \<Rightarrow> string" where
  "zobrist_graph_key g = hex64 (zobrist_value g)"

definition zobrist_update_key :: "string \<Rightarrow> edge list \<Rightarrow> edge list \<Rightarrow> string result" where
  "zobrist_update_key key removed added =
     rbind (int_base16 key) (\<lambda>x0.
       Inr (hex64 (fold (\<lambda>e acc. acc XOR edge_token (sort_pair e)) (removed @ added) x0)))"

section \<open>SHA-256 keys\<close>

text \<open>The byte-wise reference of the graph6 encoding that the legacy key hashes.\<close>

definition legacy_prefix :: "nat \<Rightarrow> int list result" where
  "legacy_prefix n =
     (if n \<le> 62 then Inr [int n + 63]
      else if n \<le> 258047 then
        Inr [126, (drop_bit 12 (int n) AND 63) + 63, (drop_bit 6 (int n) AND 63) + 63, (int n AND 63) + 63]
      else Inl (ValueError ''graph6 export supports at most 258047 vertices''))"

definition legacy_bits :: "bitgraph \<Rightarrow> int list" where
  "legacy_bits g =
     (let bits = concat (map (\<lambda>v. map (\<lambda>u. of_bool (has_edge g u v)) [0..<v]) [1..<order g])
      in bits @ replicate (nat ((- int (length bits)) mod 6)) 0)"

definition legacy_data :: "int list \<Rightarrow> int list" where
  "legacy_data bits =
     map (\<lambda>k. sum_list (map (\<lambda>b. push_bit (5 - b) (bits ! (6 * k + b))) [0..<6]) + 63)
       [0..<length bits div 6]"

definition legacy_graph_key_reference :: "(int list \<Rightarrow> string) \<Rightarrow> bitgraph \<Rightarrow> string result" where
  "legacy_graph_key_reference sha g =
     rbind (legacy_prefix (order g)) (\<lambda>pre. Inr (sha (pre @ legacy_data (legacy_bits g))))"

definition stable_hash :: "(int list \<Rightarrow> string) \<Rightarrow> bitgraph \<Rightarrow> string result" where
  "stable_hash sha g = rbind (encode_graph6_into g) (\<lambda>enc. Inr (sha enc))"

section \<open>The key of a candidate\<close>

definition LEGACY_GRAPH_KEY_SCHEME :: string where
  "LEGACY_GRAPH_KEY_SCHEME = ''legacy_sha_graph6_v1''"

definition FAST_GRAPH_KEY_SCHEME :: string where
  "FAST_GRAPH_KEY_SCHEME = ''delta_local_v2''"

definition LEGACY_GRAPH_KEY_ALIAS :: string where
  "LEGACY_GRAPH_KEY_ALIAS = ''sha256_graph6_v1''"

definition FAST_GRAPH_KEY_ALIAS :: string where
  "FAST_GRAPH_KEY_ALIAS = ''zobrist256_v1''"

definition normalize_duplicate_key_scheme :: "string \<Rightarrow> string result" where
  "normalize_duplicate_key_scheme scheme =
     (if scheme \<in> {LEGACY_GRAPH_KEY_SCHEME, LEGACY_GRAPH_KEY_ALIAS} then Inr LEGACY_GRAPH_KEY_SCHEME
      else if scheme \<in> {FAST_GRAPH_KEY_SCHEME, FAST_GRAPH_KEY_ALIAS} then Inr FAST_GRAPH_KEY_SCHEME
      else Inl (ValueError (''unsupported duplicate key scheme: '' @ scheme)))"

definition duplicate_key_compatibility_alias :: "string \<Rightarrow> string" where
  "duplicate_key_compatibility_alias scheme =
     (if scheme = FAST_GRAPH_KEY_SCHEME then FAST_GRAPH_KEY_ALIAS else LEGACY_GRAPH_KEY_ALIAS)"

text \<open>The fields of the lane kernel that the keys depend on.\<close>

record lane_keys =
  tabu_key_scheme :: string
  optimized_legacy_key :: bool
  current_graph_key :: string
  recent_hashes :: "string list"
  recent_maxlen :: nat
  recent_hash_set :: "string set"

definition graph_sha256 :: "(int list \<Rightarrow> string) \<Rightarrow> lane_keys \<Rightarrow> bitgraph \<Rightarrow> string result" where
  "graph_sha256 sha k g =
     (if optimized_legacy_key k then stable_hash sha g else legacy_graph_key_reference sha g)"

definition full_search_key :: "(int list \<Rightarrow> string) \<Rightarrow> lane_keys \<Rightarrow> bitgraph \<Rightarrow> string result" where
  "full_search_key sha k g =
     (if tabu_key_scheme k = FAST_GRAPH_KEY_SCHEME then Inr (zobrist_graph_key g)
      else graph_sha256 sha k g)"

definition candidate_search_key ::
  "(int list \<Rightarrow> string) \<Rightarrow> lane_keys \<Rightarrow> bitgraph \<Rightarrow> mutation_result option \<Rightarrow> string result" where
  "candidate_search_key sha k g delta =
     (if tabu_key_scheme k \<noteq> FAST_GRAPH_KEY_SCHEME then graph_sha256 sha k g
      else case delta of
        Some mr \<Rightarrow>
          (if mr_graph mr = g \<and> (removed_edges mr \<noteq> [] \<or> added_edges mr \<noteq> [])
           then zobrist_update_key (current_graph_key k) (removed_edges mr) (added_edges mr)
           else Inr (zobrist_graph_key g))
      | None \<Rightarrow> Inr (zobrist_graph_key g))"

definition candidate_id_from_graph_sha256 :: "(string \<Rightarrow> string) \<Rightarrow> string \<Rightarrow> string \<Rightarrow> string" where
  "candidate_id_from_graph_sha256 sha campaign_id graph_sha =
     ''candidate-'' @ take 24 (sha (campaign_id @ '':'' @ graph_sha))"

definition remember_hash :: "string \<Rightarrow> lane_keys \<Rightarrow> lane_keys result" where
  "remember_hash key k =
     (if length (recent_hashes k) = recent_maxlen k then
        (case recent_hashes k of
           [] \<Rightarrow> Inl IndexError
         | removed # rest \<Rightarrow>
             let kept = (if removed \<in> set rest then recent_hash_set k else recent_hash_set k - {removed})
             in Inr (k\<lparr>recent_hashes := rest @ [key], recent_hash_set := insert key kept\<rparr>))
      else Inr (k\<lparr>recent_hashes := recent_hashes k @ [key],
                  recent_hash_set := insert key (recent_hash_set k)\<rparr>))"

section \<open>Hexadecimal round trip\<close>

lemma of_hex_char: "d < 16 \<Longrightarrow> of_char (hex_char d) = (if d < 10 then 48 + d else 87 + d)"
  unfolding hex_char_def by (cases "d < 10") (simp_all add: of_char_of)

lemma hex_digit_char: "d < 16 \<Longrightarrow> hex_digit (hex_char d) = Some d"
proof -
  assume d: "d < 16"
  define n where "n = (of_char (hex_char d) :: nat)"
  have "n = (if d < 10 then 48 + d else 87 + d)" unfolding n_def by (rule of_hex_char [OF d])
  with d show ?thesis unfolding hex_digit_def Let_def n_def [symmetric] by auto
qed

lemma hex_digits_append:
  "(\<And>c. c \<in> set s \<Longrightarrow> hex_digit c \<noteq> None) \<Longrightarrow>
   hex_digits acc (s @ t) = (case hex_digits acc s of None \<Rightarrow> None | Some n \<Rightarrow> hex_digits n t)"
proof (induction s arbitrary: acc)
  case (Cons c s)
  then obtain d where "hex_digit c = Some d" by fastforce
  then show ?case using Cons by simp
qed simp

lemma set_show_hex: "c \<in> set (show_hex n) \<Longrightarrow> \<exists>d<16. c = hex_char d"
proof (induction n rule: show_hex.induct)
  case (1 n)
  show ?case
  proof (cases "n < 16")
    case True
    with 1 show ?thesis by (auto simp: show_hex.simps [of n])
  next
    case False
    with 1 have "c \<in> set (show_hex (n div 16)) \<or> c = hex_char (n mod 16)"
      by (auto simp: show_hex.simps [of n])
    moreover have "n mod 16 < 16" by simp
    ultimately show ?thesis using 1(1) [OF False] by blast
  qed
qed

lemma hex_digits_show_hex: "hex_digits 0 (show_hex n) = Some n"
proof (induction n rule: show_hex.induct)
  case (1 n)
  show ?case
  proof (cases "n < 16")
    case True
    then show ?thesis by (subst show_hex.simps) (simp add: hex_digit_char)
  next
    case False
    have "hex_digit c \<noteq> None" if "c \<in> set (show_hex (n div 16))" for c
      using set_show_hex [OF that] hex_digit_char by auto
    with False 1 show ?thesis
      by (subst show_hex.simps) (simp add: hex_digits_append hex_digit_char)
  qed
qed

lemma hex_digits_zeros: "hex_digits 0 (replicate m CHR ''0'' @ s) = hex_digits 0 s"
  by (induction m) (simp_all add: hex_digit_def Let_def)

lemma hex_text:
  assumes "c \<in> set (hex64 x)" "0 \<le> x"
  shows "\<not> py_space c" "c \<noteq> CHR ''-''" "c \<noteq> CHR ''+''" "c \<noteq> CHR ''_''" "c \<noteq> CHR ''x''" "c \<noteq> CHR ''X''"
proof -
  have "c = CHR ''0'' \<or> (\<exists>d<16. c = hex_char d)"
    using assms set_show_hex by (auto simp: hex64_def zero_pad_def)
  then have c: "48 \<le> (of_char c :: nat) \<and> (of_char c :: nat) \<le> 57 \<or>
      97 \<le> (of_char c :: nat) \<and> (of_char c :: nat) \<le> 102"
    by (auto simp: of_hex_char split: if_splits)
  show "\<not> py_space c" using c by (auto simp: py_space_def)
  show "c \<noteq> CHR ''-''" "c \<noteq> CHR ''+''" "c \<noteq> CHR ''_''" "c \<noteq> CHR ''x''" "c \<noteq> CHR ''X''"
    using c by auto
qed

lemma hex64_nonempty: "hex64 x \<noteq> []"
  by (auto simp: hex64_def zero_pad_def show_hex.simps [of "nat x"])

lemma strip_space_id: "(\<And>c. c \<in> set s \<Longrightarrow> \<not> py_space c) \<Longrightarrow> strip_space s = s"
proof -
  assume *: "\<And>c. c \<in> set s \<Longrightarrow> \<not> py_space c"
  then have "dropWhile py_space s = s" "dropWhile py_space (rev s) = rev s"
    by (simp_all add: dropWhile_eq_self_iff) (metis list.set_sel(1) set_rev rev_is_Nil_conv)
  then show ?thesis by (simp add: strip_space_def)
qed

lemma int_base16_hex64: "0 \<le> x \<Longrightarrow> int_base16 (hex64 x) = Inr x"
proof -
  assume x: "0 \<le> x"
  note t = hex_text [OF _ x]
  have hd: "hd (hex64 x) \<in> set (hex64 x)" using hex64_nonempty by simp
  have s: "strip_space (hex64 x) = hex64 x" by (rule strip_space_id) (rule t)
  have p: "\<not> hex_prefix (hex64 x)"
    unfolding hex_prefix_def using t(5,6) [of "hex64 x ! 1"] by force
  have d: "hex_digits 0 (hex64 x) = Some (nat x)"
    using x by (simp add: hex64_def zero_pad_def hex_digits_zeros hex_digits_show_hex)
  show ?thesis
    using t(2-4) [OF hd] hex64_nonempty [of x] d x
    by (simp add: int_base16_def s hex_magnitude_def p)
qed

section \<open>Keys as sums over edge sets\<close>

text \<open>Exclusive or is a commutative monoid: sums over finite sets of edges.\<close>

interpretation xsum: comm_monoid_set "(XOR) :: int \<Rightarrow> int \<Rightarrow> int" 0
  by unfold_locales (simp_all add: ac_simps)

definition edge_sum :: "nat set set \<Rightarrow> int" where
  "edge_sum E = xsum.F (\<lambda>e. edge_token (Min e, Max e)) E"

lemma edge_sum_union: "finite A \<Longrightarrow> finite B \<Longrightarrow> A \<inter> B = {} \<Longrightarrow> edge_sum (A \<union> B) = edge_sum A XOR edge_sum B"
  by (simp add: edge_sum_def xsum.union_disjoint)

lemma edge_sum_diff:
  assumes "finite E" "R \<subseteq> E"
  shows "edge_sum (E - R) = edge_sum E XOR edge_sum R"
proof -
  have "edge_sum E = edge_sum ((E - R) \<union> R)" using assms by (simp add: Un_absorb2)
  also have "\<dots> = edge_sum (E - R) XOR edge_sum R"
    using assms by (intro edge_sum_union) (auto intro: finite_subset)
  finally show ?thesis by (simp add: xor.assoc)
qed

lemma edge_token_ends: "edge_token (sort_pair e) = edge_token (Min (ends e), Max (ends e))"
  by (simp add: sort_pair_def ends_def)

lemma fold_tokens:
  assumes "distinct (map ends es)" "\<And>e. e \<in> set es \<Longrightarrow> f e = edge_token (Min (ends e), Max (ends e))"
  shows "fold (\<lambda>e acc. acc XOR f e) es x = x XOR edge_sum (ends ` set es)"
  using assms
proof (induction es arbitrary: x)
  case Nil
  then show ?case by (simp add: edge_sum_def)
next
  case (Cons e es)
  then have "edge_sum (ends ` set (e # es)) = f e XOR edge_sum (ends ` set es)"
    by (simp add: edge_sum_def)
  with Cons show ?case by (simp add: xor.assoc)
qed

lemma distinct_ends_edges: "wf_graph g \<Longrightarrow> distinct (map ends (edges g))"
  using distinct_ends_filter [of g "\<lambda>_. True"] by simp

lemma zobrist_value_sum:
  assumes "wf_graph g"
  shows "zobrist_value g = zobrist_token (0x8000000000000000 OR int (order g)) XOR edge_sum (edge_set g)"
proof -
  have "edge_token e = edge_token (Min (ends e), Max (ends e))" if "e \<in> set (edges g)" for e
    using that set_edges [OF assms] by (auto simp: ends_def min_def max_def)
  from fold_tokens [OF distinct_ends_edges [OF assms] this] show ?thesis
    by (simp add: zobrist_value_def ends_edges [OF assms])
qed

lemma zobrist_value_delta:
  assumes "wf_graph g" "delta_ok g mr"
  shows "zobrist_value (mr_graph mr) =
    fold (\<lambda>e acc. acc XOR edge_token (sort_pair e)) (removed_edges mr @ added_edges mr) (zobrist_value g)"
proof -
  let ?R = "ends ` set (removed_edges mr)" and ?A = "ends ` set (added_edges mr)"
  from assms(2) have d: "wf_graph (mr_graph mr)" "order (mr_graph mr) = order g"
    "distinct (map ends (removed_edges mr))" "distinct (map ends (added_edges mr))"
    "?R \<subseteq> edge_set g" "?A \<inter> edge_set g = {}" "edge_set (mr_graph mr) = (edge_set g - ?R) \<union> ?A"
    by (simp_all add: delta_ok_def)
  have "edge_sum (edge_set (mr_graph mr)) = edge_sum (edge_set g) XOR edge_sum ?R XOR edge_sum ?A"
    unfolding d(7) using d(5,6) finite_edge_set [of g]
    by (subst edge_sum_union) (auto simp: edge_sum_diff xor.assoc)
  then show ?thesis
    by (simp add: zobrist_value_sum d(1,2) assms(1) fold_tokens [OF d(3)] fold_tokens [OF d(4)]
      edge_token_ends xor.assoc)
qed

section \<open>Keys have 256 bits\<close>

lemma bit_and_mask64: "bit (x AND UINT64_MASK) i \<Longrightarrow> i < 64"
  by (simp add: UINT64_MASK_def bit_and_iff)

lemma bit_shift_mix: "bit ((x AND UINT64_MASK) XOR drop_bit k (x AND UINT64_MASK)) i \<Longrightarrow> i < 64"
proof -
  assume "bit ((x AND UINT64_MASK) XOR drop_bit k (x AND UINT64_MASK)) i"
  then have "bit (x AND UINT64_MASK) i \<or> bit (x AND UINT64_MASK) (k + i)"
    by (auto simp only: bit_xor_iff bit_drop_bit_eq comp_def)
  then show "i < 64" using bit_and_mask64 by fastforce
qed

lemma bit_splitmix64: "bit (splitmix64 w) i \<Longrightarrow> i < 64"
  unfolding splitmix64_def Let_def by (rule bit_shift_mix)

lemma bit_zobrist_token: "bit (zobrist_token x) i \<Longrightarrow> i < 256"
  by (auto simp: zobrist_token_def upt_rec bit_or_iff bit_push_bit_iff dest!: bit_splitmix64)

lemma bit_fold_tokens:
  "bit (fold (\<lambda>e acc. acc XOR edge_token (f e)) es x) i \<Longrightarrow> (\<And>j. bit x j \<Longrightarrow> j < 256) \<Longrightarrow> i < 256"
proof (induction es arbitrary: x)
  case (Cons e es)
  have "j < 256" if "bit (x XOR edge_token (f e)) j" for j
    using that Cons.prems(2) bit_zobrist_token by (auto simp: bit_xor_iff edge_token_def)
  with Cons show ?case by simp
qed simp

lemma zobrist_value_range: "0 \<le> zobrist_value g \<and> zobrist_value g < 2 ^ 256"
proof (rule bits_ge_0I)
  fix i :: nat assume "256 \<le> i"
  then show "\<not> bit (zobrist_value g) i"
    using bit_fold_tokens [of "\<lambda>e. e"] bit_zobrist_token unfolding zobrist_value_def by force
qed

lemma length_show_hex: "n < 16 ^ k \<Longrightarrow> 0 < k \<Longrightarrow> length (show_hex n) \<le> k"
proof (induction k arbitrary: n)
  case (Suc k)
  show ?case
  proof (cases "n < 16")
    case False
    with Suc.prems have "0 < k" "n div 16 < 16 ^ k"
      by (cases k; simp add: less_mult_imp_div_less mult.commute)+
    with Suc.IH False show ?thesis by (simp add: show_hex.simps [of n])
  qed (simp add: show_hex.simps [of n])
qed simp

lemma length_zobrist_graph_key: "length (zobrist_graph_key g) = 64"
proof -
  have "nat (zobrist_value g) < 16 ^ 64" using zobrist_value_range [of g] by (simp add: nat_less_iff)
  from length_show_hex [OF this] zobrist_value_range [of g] show ?thesis
    by (simp add: zobrist_graph_key_def hex64_def zero_pad_def)
qed

lemma zobrist_update_exact:
  assumes "wf_graph g" "delta_ok g mr"
  shows "zobrist_update_key (zobrist_graph_key g) (removed_edges mr) (added_edges mr) =
    Inr (zobrist_graph_key (mr_graph mr))"
  using zobrist_value_range [of g] zobrist_value_delta [OF assms]
  by (simp add: zobrist_update_key_def zobrist_graph_key_def int_base16_hex64)

section \<open>The reference encoding\<close>

lemma legacy_bits_padded:
  "legacy_bits g = map of_bool (adjacency_bits g) @
     replicate (nat ((- int (length (adjacency_bits g))) mod 6)) 0"
proof -
  have "concat (map (\<lambda>v. map (\<lambda>u. of_bool (has_edge g u v)) [0..<v]) [1..<order g]) =
      (map of_bool (adjacency_bits g) :: int list)"
    by (simp add: adjacency_bits_def pairs_def map_concat comp_def)
  then show ?thesis by (simp add: legacy_bits_def Let_def)
qed

lemma length_padding: "k + nat ((- int k) mod 6) = 6 * ((k + 5) div 6)"
proof -
  have "z + (- z) mod 6 = 6 * ((z + 5) div 6)" for z :: int by presburger
  from this [of "int k"] have "int (k + nat ((- int k) mod 6)) = int (6 * ((k + 5) div 6))"
    by (simp add: zdiv_int)
  then show ?thesis by (simp only: of_nat_eq_iff)
qed

lemma upt6: "[0..<6] = [0, 1, 2, 3, 4, 5::nat]"
  by (simp add: upt_rec numeral_eq_Suc)

lemma legacy_bits_nth:
  assumes "i < length (legacy_bits g)"
  shows "legacy_bits g ! i = of_bool (i < length (adjacency_bits g) \<and> adjacency_bits g ! i)"
  using assms by (auto simp: legacy_bits_padded nth_append simp del: length_adjacency_bits)

lemma six_bits:
  "bit (sum_list (map (\<lambda>b. push_bit (5 - b) (of_bool (f b) :: int)) [0..<6])) i \<longleftrightarrow> i \<le> 5 \<and> f (5 - i)"
proof -
  have "sum_list (map (\<lambda>b. push_bit (5 - b) (of_bool (f b) :: int)) [0..<6]) =
      horner_sum of_bool 2 (map (\<lambda>i. f (5 - i)) [0..<6])"
    by (simp add: upt6 push_bit_eq_mult algebra_simps del: of_bool_eq_iff)
  then show ?thesis by (auto simp: bit_horner_sum_bit_iff nth_append)
qed

lemma legacy_data_packs: "packs (adjacency_bits g) (legacy_data (legacy_bits g))"
proof -
  let ?bs = "adjacency_bits g" and ?ls = "legacy_bits g"
  have len: "length ?ls = 6 * ((length ?bs + 5) div 6)"
    using length_padding [of "length ?bs"] by (simp add: legacy_bits_padded del: length_adjacency_bits)
  have "legacy_data ?ls ! j - 63 =
      sum_list (map (\<lambda>b. push_bit (5 - b)
        (of_bool (6 * j + b < length ?bs \<and> ?bs ! (6 * j + b)))) [0..<6])"
    if "j < (length ?bs + 5) div 6" for j
  proof -
    have "map (\<lambda>b. push_bit (5 - b) (?ls ! (6 * j + b))) [0..<6] =
        map (\<lambda>b. push_bit (5 - b) (of_bool (6 * j + b < length ?bs \<and> ?bs ! (6 * j + b)))) [0..<6]"
      using that len by (intro map_cong refl) (subst legacy_bits_nth, auto)
    then show ?thesis using that len by (simp add: legacy_data_def del: length_adjacency_bits map_eq_conv)
  qed
  then show ?thesis
    using len by (simp add: packs_def six_bits legacy_data_def del: length_adjacency_bits)
qed

lemma legacy_key_eq_stable_hash: "legacy_graph_key_reference sha g = stable_hash sha g"
proof -
  have pre: "legacy_prefix (order g) = order_header (order g)"
    by (simp add: legacy_prefix_def order_header_def)
  show ?thesis
  proof (cases "order_header (order g)")
    case (Inl e)
    then show ?thesis by (simp add: legacy_graph_key_reference_def stable_hash_def pre encode_graph6_into_def)
  next
    case (Inr hdr)
    from encode_graph6_packs [OF Inr] obtain body where
      body: "to_graph6 g = Inr (hdr @ body)" "packs (adjacency_bits g) body" by blast
    have "body = legacy_data (legacy_bits g)" by (rule packs_unique [OF body(2) legacy_data_packs])
    with body Inr show ?thesis
      by (simp add: legacy_graph_key_reference_def stable_hash_def pre flip: to_graph6_def)
  qed
qed

section \<open>The window of recent keys\<close>

definition recent_ok :: "lane_keys \<Rightarrow> bool" where
  "recent_ok k \<longleftrightarrow>
     0 < recent_maxlen k \<and> length (recent_hashes k) \<le> recent_maxlen k \<and>
     recent_hash_set k = set (recent_hashes k)"

text \<open>The set always holds exactly the last \<open>maxlen\<close> keys, duplicates included.\<close>

lemma remember_hash_window:
  assumes "recent_ok k"
  shows "\<exists>k'. remember_hash key k = Inr k' \<and> recent_ok k' \<and>
    recent_hashes k' = drop (length (recent_hashes k) + 1 - recent_maxlen k) (recent_hashes k @ [key])"
proof (cases "length (recent_hashes k) = recent_maxlen k")
  case True
  with assms obtain x xs where "recent_hashes k = x # xs" by (cases "recent_hashes k") (auto simp: recent_ok_def)
  with True assms show ?thesis by (auto simp: remember_hash_def recent_ok_def Let_def)
next
  case False
  with assms show ?thesis by (auto simp: remember_hash_def recent_ok_def)
qed

section \<open>Properties\<close>

lemma candidate_key_of_delta:
  assumes "wf_graph g" "delta_ok g mr" "full_search_key sha k g = Inr (current_graph_key k)"
  shows "candidate_search_key sha k (mr_graph mr) (Some mr) = full_search_key sha k (mr_graph mr)"
  using assms(3) zobrist_update_exact [OF assms(1,2)]
  by (auto simp: candidate_search_key_def full_search_key_def)

text \<open>
  C14. The key a lane computes for a mutated candidate is the key of that graph: when the current
  key belongs to the current graph, updating it by the edges the mutation removed and added
  gives what a full computation on the new graph gives, in either key scheme and whether or
  not the optimised encoder is used; a Zobrist key is always 64 hexadecimal digits.
\<close>

theorem incremental_key_exact:
  assumes "wf_graph (heap oid)" "valid (eg_validate_graph (heap oid))" "config_ok lens heap oid cfg"
    and "mutate_with_delta lens (oid, heap oid) r cfg = Inr (mr, r', cfg')"
    and "full_search_key sha k (heap oid) = Inr (current_graph_key k)"
  shows "candidate_search_key sha k (mr_graph mr) (Some mr) = full_search_key sha k (mr_graph mr) \<and>
    full_search_key sha (k\<lparr>optimized_legacy_key := b\<rparr>) (mr_graph mr) = full_search_key sha k (mr_graph mr) \<and>
    length (zobrist_graph_key (mr_graph mr)) = 64"
proof -
  have "delta_ok (heap oid) mr"
    using mutate_with_delta_ok [OF assms(1) _ assms(3), of r] assms(2,4)
    by (auto simp: eg_valid_def mutated_def)
  from candidate_key_of_delta [OF assms(1) this assms(5)] show ?thesis
    by (auto simp: full_search_key_def graph_sha256_def legacy_key_eq_stable_hash length_zobrist_graph_key)
qed

definition sample_keys :: lane_keys where
  "sample_keys = \<lparr>tabu_key_scheme = FAST_GRAPH_KEY_SCHEME, optimized_legacy_key = True,
     current_graph_key = zobrist_graph_key petersen, recent_hashes = [], recent_maxlen = 4096,
     recent_hash_set = {}\<rparr>"

theorem incremental_key_exact_witness:
  "\<exists>mr r' cfg'. mutate_with_delta forbidden_lengths (7, petersen) [5, 3, 1] default_config = Inr (mr, r', cfg') \<and>
     candidate_search_key (\<lambda>_. []) sample_keys (mr_graph mr) (Some mr) = Inr (zobrist_graph_key (mr_graph mr))"
proof -
  have v: "valid (eg_validate_graph petersen)" by code_simp
  have c: "config_ok forbidden_lengths (\<lambda>_. petersen) 7 default_config"
    by (simp add: config_ok_def default_config_def cache_ok_def new_mutation_context_def eg_profiled petersen_def)
  obtain mr r' cfg' where m: "mutate_with_delta forbidden_lengths (7, petersen) [5, 3, 1] default_config = Inr (mr, r', cfg')"
    using mutate_with_delta_ok [OF wf_petersen _ c, of "[5, 3, 1]"] v by (auto simp: eg_valid_def)
  have k: "full_search_key (\<lambda>_. []) sample_keys petersen = Inr (current_graph_key sample_keys)"
    by (simp add: full_search_key_def sample_keys_def)
  have "candidate_search_key (\<lambda>_. []) sample_keys (mr_graph mr) (Some mr) =
      full_search_key (\<lambda>_. []) sample_keys (mr_graph mr)"
    using incremental_key_exact [of "\<lambda>_. petersen" 7, OF wf_petersen v c m k] by blast
  with m show ?thesis by (auto simp: full_search_key_def sample_keys_def)
qed

end
