(* ===== verification/Protocol.thy ===== *)
theory Protocol
  imports Json "HOL-Library.List_Lexorder" "HOL-Library.Char_ord"
begin

text \<open>
  The wire format of Director decisions, \<open>src/src/sglab/research/protocol.py\<close>: canonical JSON
  with its size limit and the issue and result types of validation, and what the validator
  uses of Python itself: \<open>str\<close> and \<open>repr\<close> of JSON values, float arithmetic with overflow,
  comparison and membership tests.

  A Python string is a list of 8-bit characters (the code points below 256).  Finite floats
  are rationals, so the decimal text of one is a parameter \<open>frepr\<close> of the definitions that
  print; sums that exceed the largest double overflow to an infinity as in Python, rounding
  is not modelled.

  A validator reports problems by appending to a list and may raise: \<open>'a checked\<close> is either
  an exception or the issues appended with the value returned.  \<open>passes\<close> says that a check
  returned without an exception and without an issue; its rules (\<open>pass_facts\<close>) turn an
  accepting run of the validator into the conjunction of everything it tested.
\<close>

named_theorems pass_facts \<open>what a check that passes has tested\<close>

section \<open>Text\<close>

definition int_text :: "int \<Rightarrow> string" where
  "int_text i = (if i < 0 then CHR ''-'' # show_nat (nat (- i)) else show_nat (nat i))"

definition low_hex :: "nat \<Rightarrow> char" where
  "low_hex d = (if d < 10 then char_of (48 + d) else char_of (87 + d))"

definition hex_byte :: "char \<Rightarrow> string" where
  "hex_byte c = (let n = of_char c :: nat in [low_hex (n div 16), low_hex (n mod 16)])"

fun join :: "string \<Rightarrow> string list \<Rightarrow> string" where
  "join sep [] = []"
| "join sep [s] = s"
| "join sep (s # t # ss) = s @ sep @ join sep (t # ss)"

text \<open>Escapes of \<open>json.dumps\<close> with \<open>ensure_ascii\<close>.\<close>

definition json_escape :: "char \<Rightarrow> string" where
  "json_escape c =
     (let n = of_char c :: nat
      in if n = 34 then [CHR 0x5C, c]
         else if n = 92 then [CHR 0x5C, c]
         else if n = 10 then [CHR 0x5C, CHR ''n'']
         else if n = 13 then [CHR 0x5C, CHR ''r'']
         else if n = 9 then [CHR 0x5C, CHR ''t'']
         else if n = 8 then [CHR 0x5C, CHR ''b'']
         else if n = 12 then [CHR 0x5C, CHR ''f'']
         else if 32 \<le> n \<and> n \<le> 126 then [c]
         else [CHR 0x5C, CHR ''u'', CHR ''0'', CHR ''0''] @ hex_byte c)"

definition json_quote :: "string \<Rightarrow> string" where
  "json_quote s = [CHR 0x22] @ concat (map json_escape s) @ [CHR 0x22]"

fun dumps :: "(rat \<Rightarrow> string) \<Rightarrow> json \<Rightarrow> string" where
  "dumps frepr JNull = ''null''"
| "dumps frepr (JBool b) = (if b then ''true'' else ''false'')"
| "dumps frepr (JInt i) = int_text i"
| "dumps frepr (JFloat x) =
     (case x of Fin r \<Rightarrow> frepr r | PosInf \<Rightarrow> ''Infinity'' | NegInf \<Rightarrow> ''-Infinity'' | NaN \<Rightarrow> ''NaN'')"
| "dumps frepr (JStr s) = json_quote s"
| "dumps frepr (JList xs) = ''['' @ join '','' (map (dumps frepr) xs) @ '']''"
| "dumps frepr (JObj d) =
     ''{'' @ join '','' (map (\<lambda>(k, t). json_quote k @ '':'' @ t)
       (sort_key fst (map (\<lambda>(k, v). (k, dumps frepr v)) d))) @ ''}''"

text \<open>\<open>repr\<close> of a string: single quotes unless it holds one and no double quote.\<close>

definition repr_escape :: "char \<Rightarrow> char \<Rightarrow> string" where
  "repr_escape q c =
     (let n = of_char c :: nat
      in if c = q \<or> n = 92 then [CHR 0x5C, c]
         else if n = 9 then [CHR 0x5C, CHR ''t'']
         else if n = 10 then [CHR 0x5C, CHR ''n'']
         else if n = 13 then [CHR 0x5C, CHR ''r'']
         else if n < 32 \<or> 127 \<le> n \<and> n < 161 \<or> n = 173 then [CHR 0x5C, CHR ''x''] @ hex_byte c
         else [c])"

definition str_repr :: "string \<Rightarrow> string" where
  "str_repr s =
     (let q = (if CHR 0x27 \<in> set s \<and> CHR 0x22 \<notin> set s then CHR 0x22 else CHR 0x27)
      in [q] @ concat (map (repr_escape q) s) @ [q])"

fun py_repr :: "(rat \<Rightarrow> string) \<Rightarrow> json \<Rightarrow> string" where
  "py_repr frepr JNull = ''None''"
| "py_repr frepr (JBool b) = (if b then ''True'' else ''False'')"
| "py_repr frepr (JInt i) = int_text i"
| "py_repr frepr (JFloat x) =
     (case x of Fin r \<Rightarrow> frepr r | PosInf \<Rightarrow> ''inf'' | NegInf \<Rightarrow> ''-inf'' | NaN \<Rightarrow> ''nan'')"
| "py_repr frepr (JStr s) = str_repr s"
| "py_repr frepr (JList xs) = ''['' @ join '', '' (map (py_repr frepr) xs) @ '']''"
| "py_repr frepr (JObj d) =
     ''{'' @ join '', '' (map (\<lambda>(k, v). str_repr k @ '': '' @ py_repr frepr v) d) @ ''}''"

definition py_str :: "(rat \<Rightarrow> string) \<Rightarrow> json \<Rightarrow> string" where
  "py_str frepr j = (case j of JStr s \<Rightarrow> s | _ \<Rightarrow> py_repr frepr j)"

section \<open>Floats\<close>

text \<open>The smallest magnitude that a conversion to double rounds up to infinity.\<close>

definition float_limit :: int where
  "float_limit = 2 ^ 1024 - 2 ^ 970"

definition float_of_int :: "int \<Rightarrow> py_float result" where
  "float_of_int i = (if \<bar>i\<bar> < float_limit then Inr (Fin (of_int i))
                     else Inl (OverflowError ''int too large to convert to float''))"

definition py_add :: "py_float \<Rightarrow> py_float \<Rightarrow> py_float" where
  "py_add x y =
     (case (x, y) of
        (Fin a, Fin b) \<Rightarrow>
          (if of_int float_limit \<le> a + b then PosInf
           else if a + b \<le> - of_int float_limit then NegInf else Fin (a + b))
      | (NaN, _) \<Rightarrow> NaN
      | (_, NaN) \<Rightarrow> NaN
      | (PosInf, NegInf) \<Rightarrow> NaN
      | (NegInf, PosInf) \<Rightarrow> NaN
      | (PosInf, _) \<Rightarrow> PosInf
      | (NegInf, _) \<Rightarrow> NegInf
      | (_, y') \<Rightarrow> y')"

definition py_lt :: "py_float \<Rightarrow> py_float \<Rightarrow> bool" where
  "py_lt x y =
     (case (x, y) of
        (NaN, _) \<Rightarrow> False
      | (_, NaN) \<Rightarrow> False
      | (Fin a, Fin b) \<Rightarrow> a < b
      | (NegInf, y') \<Rightarrow> y' \<noteq> NegInf
      | (x', PosInf) \<Rightarrow> x' \<noteq> PosInf
      | _ \<Rightarrow> False)"

definition py_le :: "py_float \<Rightarrow> py_float \<Rightarrow> bool" where
  "py_le x y = (py_lt x y \<or> (x = y \<and> x \<noteq> NaN))"

text \<open>Division; a zero divisor raises, an overflowing quotient is an infinity.\<close>

definition signed_inf :: "bool \<Rightarrow> py_float" where
  "signed_inf positive = (if positive then PosInf else NegInf)"

definition py_div :: "py_float \<Rightarrow> py_float \<Rightarrow> py_float result" where
  "py_div x y =
     (case (x, y) of
        (_, Fin b) \<Rightarrow>
          (if b = 0 then Inl ZeroDivisionError
           else case x of
             Fin a \<Rightarrow> Inr (if of_int float_limit \<le> \<bar>a / b\<bar> then signed_inf (0 < a / b) else Fin (a / b))
           | PosInf \<Rightarrow> Inr (signed_inf (0 < b))
           | NegInf \<Rightarrow> Inr (signed_inf (b < 0))
           | NaN \<Rightarrow> Inr NaN)
      | (Fin _, NaN) \<Rightarrow> Inr NaN
      | (Fin _, _) \<Rightarrow> Inr (Fin 0)
      | _ \<Rightarrow> Inr NaN)"

definition num_value :: "json \<Rightarrow> py_float" where
  "num_value j = (case j of JInt i \<Rightarrow> Fin (of_int i) | JFloat x \<Rightarrow> x | _ \<Rightarrow> NaN)"

section \<open>Canonical JSON\<close>

definition MAX_SNAPSHOT_BYTES :: nat where
  "MAX_SNAPSHOT_BYTES = 256 * 1024"

definition MAX_DECISION_BYTES :: nat where
  "MAX_DECISION_BYTES = 128 * 1024"

definition canonical_json :: "(rat \<Rightarrow> string) \<Rightarrow> json \<Rightarrow> nat \<Rightarrow> string result" where
  "canonical_json frepr j max_bytes =
     (let payload = dumps frepr j
      in if max_bytes < length payload
         then Inl (ValueError (''JSON payload exceeds '' @ show_nat max_bytes @ '' bytes''))
         else Inr payload)"

record validation_issue =
  vi_path :: string
  vi_message :: string

record decision_validation =
  accepted :: bool
  issues :: "validation_issue list"
  normalized :: "json option"

section \<open>Membership\<close>

definition is_str :: "json \<Rightarrow> string list \<Rightarrow> bool" where
  "is_str j names = (case j of JStr s \<Rightarrow> s \<in> set names | _ \<Rightarrow> False)"

text \<open>Membership in a set or dictionary of strings raises on an unhashable value.\<close>

definition in_ids :: "json \<Rightarrow> string set \<Rightarrow> bool result" where
  "in_ids j S =
     (if hashable j then Inr (case j of JStr s \<Rightarrow> s \<in> S | _ \<Rightarrow> False)
      else Inl (TypeError ''unhashable type''))"

section \<open>Checks\<close>

type_synonym 'a checked = "(validation_issue list \<times> 'a) result"

definition ret :: "'a \<Rightarrow> 'a checked" where
  "ret x = Inr ([], x)"

definition issue :: "string \<Rightarrow> string \<Rightarrow> unit checked" where
  "issue p m = Inr ([\<lparr>vi_path = p, vi_message = m\<rparr>], ())"

definition issue_if :: "bool \<Rightarrow> string \<Rightarrow> string \<Rightarrow> unit checked" where
  "issue_if b p m = (if b then issue p m else ret ())"

definition cbind :: "'a checked \<Rightarrow> ('a \<Rightarrow> 'b checked) \<Rightarrow> 'b checked" where
  "cbind m f =
     (case m of Inl e \<Rightarrow> Inl e
      | Inr (ps, x) \<Rightarrow> (case f x of Inl e \<Rightarrow> Inl e | Inr (qs, y) \<Rightarrow> Inr (ps @ qs, y)))"

definition lift_result :: "'a result \<Rightarrow> 'a checked" where
  "lift_result r = (case r of Inl e \<Rightarrow> Inl e | Inr x \<Rightarrow> Inr ([], x))"

fun checks :: "unit checked list \<Rightarrow> unit checked" where
  "checks [] = ret ()"
| "checks (c # cs) = cbind c (\<lambda>_. checks cs)"

fun fold_checked :: "('a \<Rightarrow> 's \<Rightarrow> 's checked) \<Rightarrow> 'a list \<Rightarrow> 's \<Rightarrow> 's checked" where
  "fold_checked f [] s = ret s"
| "fold_checked f (x # xs) s = cbind (f x s) (fold_checked f xs)"

definition passes :: "'a checked \<Rightarrow> 'a \<Rightarrow> bool" where
  "passes m x \<longleftrightarrow> m = Inr ([], x)"

lemma passes_Inl [pass_facts]: "\<not> passes (Inl e) x"
  by (simp add: passes_def)

lemma passes_ret [pass_facts]: "passes (ret x) y \<longleftrightarrow> y = x"
  by (auto simp: passes_def ret_def)

lemma ex_passes_ret [pass_facts]: "Ex (passes (ret x))"
  by (rule exI [of _ x]) (simp add: passes_ret)

lemma passes_issue [pass_facts]: "\<not> passes (issue p m) u"
  by (simp add: passes_def issue_def)

lemma passes_issue_if [pass_facts]: "passes (issue_if b p m) u \<longleftrightarrow> \<not> b"
  by (auto simp: issue_if_def pass_facts)

lemma passes_cbind [pass_facts]: "passes (cbind m f) y \<longleftrightarrow> (\<exists>x. passes m x \<and> passes (f x) y)"
  by (auto simp: passes_def cbind_def split: sum.splits)

lemma passes_lift [pass_facts]: "passes (lift_result r) x \<longleftrightarrow> r = Inr x"
  by (cases r) (auto simp: passes_def lift_result_def)

lemma passes_checks [pass_facts]: "passes (checks cs) u \<longleftrightarrow> (\<forall>c\<in>set cs. passes c ())"
  by (induction cs) (auto simp: pass_facts)

lemma passes_if [pass_facts]:
  "passes (if b then m else n) x \<longleftrightarrow> (if b then passes m x else passes n x)"
  by simp

lemma passes_when: "passes (if b then m else ret ()) u \<longleftrightarrow> (b \<longrightarrow> passes m ())"
  by (auto simp: passes_def ret_def)

lemma passes_fold_Nil [pass_facts]: "passes (fold_checked f [] s) t \<longleftrightarrow> t = s"
  by (simp add: pass_facts)

lemma passes_fold_Cons [pass_facts]:
  "passes (fold_checked f (x # xs) s) t \<longleftrightarrow> (\<exists>s'. passes (f x s) s' \<and> passes (fold_checked f xs s') t)"
  by (simp add: pass_facts)

lemma ex_collapse [pass_facts]:
  "(\<exists>x. (\<exists>i. A i \<and> x = f i \<and> B i) \<and> C x) \<longleftrightarrow> (\<exists>i. A i \<and> B i \<and> C (f i))"
  by blast

lemma ex_bool_conj [pass_facts]: "(\<exists>x. x \<and> C x) \<longleftrightarrow> C True"
  by (metis (full_types))

text \<open>A loop that passes ran every iteration to a pass, so an invariant can be threaded.\<close>

lemma passes_fold_invariant:
  assumes "passes (fold_checked f xs s) t" "P [] s"
    and "\<And>ys x s s'. P ys s \<Longrightarrow> x \<in> set xs \<Longrightarrow> passes (f x s) s' \<Longrightarrow> P (ys @ [x]) s'"
  shows "P xs t"
proof -
  have "P (ys @ xs) t" if "P ys s" for ys
    using assms(1,3) that
  proof (induction xs arbitrary: ys s)
    case Nil
    then show ?case by (simp add: pass_facts)
  next
    case (Cons x xs)
    then obtain s' where s': "passes (f x s) s'" "passes (fold_checked f xs s') t"
      by (auto simp: pass_facts)
    have "P (ys @ [x]) s'" using Cons.prems s'(1) by auto
    then show ?case using Cons.IH [OF s'(2), of "ys @ [x]"] Cons.prems(2) by auto
  qed
  from this [of "[]"] assms(2) show ?thesis by simp
qed

lemma in_ids_Inr [result_facts]:
  "in_ids j S = Inr b \<longleftrightarrow> hashable j \<and> b = (\<exists>s\<in>S. j = JStr s)"
  by (auto simp: in_ids_def split: json.splits)

lemma is_str_iff: "is_str j names \<longleftrightarrow> (\<exists>s\<in>set names. j = JStr s)"
  by (cases j) (auto simp: is_str_def)

end
