(* ===== verification/Validation.thy ===== *)
theory Validation
  imports Protocol Triggers
begin

text \<open>
  The validator of Director decisions, \<open>src/src/sglab/research/validation.py\<close>, with the
  reviewed catalog \<open>src/src/sglab/research/catalog.py\<close>: the boundary at which a decision of a
  language model (or of the passive scheduler) is checked against the committed snapshot
  before any action of it may run.

  The order of the tests, the issues they report and the exceptions some of them raise are
  those of the source; the dictionaries of a decision are association lists in insertion
  order.
\<close>

section \<open>The reviewed catalog\<close>

definition REVIEWED_PROPOSAL_RANKING_CATALOG_ID :: string where
  "REVIEWED_PROPOSAL_RANKING_CATALOG_ID = ''mutation_forge_stage4r_v1''"

definition PROPOSAL_RANKING_MUTATION_ALGORITHMS :: "string list" where
  "PROPOSAL_RANKING_MUTATION_ALGORITHMS =
     [''simulated_annealing'', ''iterated_local_search'', ''iterated_local_search_tabu'']"

definition RANDOM_RESTART_UNRANKED_INSTRUCTION :: string where
  "RANDOM_RESTART_UNRANKED_INSTRUCTION =
     ''For algorithm=random_restart, omit proposal_ranking entirely. The '' @
     ''parameters object must contain only order, batch_candidates, and '' @
     ''witness_cap; do not send the key with a null value.''"

definition normalize_proposal_ranking_catalog_id :: "string option \<Rightarrow> string option result" where
  "normalize_proposal_ranking_catalog_id v =
     (case v of None \<Rightarrow> Inr None
      | Some s \<Rightarrow>
          (if s \<noteq> REVIEWED_PROPOSAL_RANKING_CATALOG_ID
           then Inl (ValueError (''proposal-ranking must use the reviewed catalog ID '' @
                  REVIEWED_PROPOSAL_RANKING_CATALOG_ID))
           else Inr (Some REVIEWED_PROPOSAL_RANKING_CATALOG_ID)))"

definition EXPERIMENT_ALGORITHMS :: "string list" where
  "EXPERIMENT_ALGORITHMS = [''random_restart'', ''simulated_annealing'', ''iterated_local_search_tabu'']"

definition ALGORITHMS :: "string list" where
  "ALGORITHMS = EXPERIMENT_ALGORITHMS @ [''iterated_local_search'']"

definition GRAPH_FAMILIES :: "(string \<times> string) list" where
  "GRAPH_FAMILIES =
     [(''connected_cubic'', ''cubic_first''),
      (''predominantly_cubic'', ''minimal_structure_mixed_degree''),
      (''unrestricted_min_degree_3'', ''unrestricted_min_degree_3'')]"

definition ACTION_TYPES :: "string list" where
  "ACTION_TYPES =
     [''start_lane'', ''patch_lane'', ''fork_lane'', ''restart_lane'', ''stop_lane'',
      ''reallocate_resources'', ''promote_candidate'', ''request_diagnostic'',
      ''schedule_verification'', ''set_review_trigger'']"

definition DIAGNOSTICS :: "string list" where
  "DIAGNOSTICS =
     [''cycle_length_profile'', ''graph_invariants'', ''mutation_ancestry'',
      ''archive_cluster_comparison'', ''operator_yield'', ''seed_generation_efficiency'',
      ''candidate_structural_diff'', ''canonical_duplicate_analysis'']"

datatype domain = Integer_Domain int int | Number_Domain rat rat | Enum_Domain "string list"

definition PARAMETER_DOMAINS :: "(string \<times> domain) list" where
  "PARAMETER_DOMAINS =
     [(''order'', Integer_Domain 4 128),
      (''batch_candidates'', Integer_Domain 100 1000000),
      (''witness_cap'', Integer_Domain 1 10000),
      (''temperature'', Number_Domain (1 / 1000) 100),
      (''cooling'', Number_Domain (9 / 10) 1),
      (''restart_threshold'', Integer_Domain 100 10000000),
      (''tabu_tenure'', Integer_Domain 1 4096),
      (''perturbation_interval'', Integer_Domain 1 1000000),
      (''proposal_ranking'', Enum_Domain [REVIEWED_PROPOSAL_RANKING_CATALOG_ID])]"

definition MUTATION_OPERATORS :: "string list" where
  "MUTATION_OPERATORS = [''uniform_two_edge_switch'', ''forbidden_cycle_break_switch'']"

definition MUTATION_WEIGHTS_PARAMETER :: string where
  "MUTATION_WEIGHTS_PARAMETER = ''mutation_weights''"

definition ALGORITHM_PARAMETERS :: "(string \<times> string list) list" where
  "ALGORITHM_PARAMETERS =
     [(''random_restart'', [''order'', ''batch_candidates'', ''witness_cap'']),
      (''simulated_annealing'',
        [''order'', ''batch_candidates'', ''witness_cap'', ''temperature'', ''cooling'',
         ''restart_threshold'', MUTATION_WEIGHTS_PARAMETER, ''proposal_ranking'']),
      (''iterated_local_search'',
        [''order'', ''batch_candidates'', ''witness_cap'', ''tabu_tenure'',
         ''perturbation_interval'', MUTATION_WEIGHTS_PARAMETER, ''proposal_ranking'']),
      (''iterated_local_search_tabu'',
        [''order'', ''batch_candidates'', ''witness_cap'', ''tabu_tenure'',
         ''perturbation_interval'', MUTATION_WEIGHTS_PARAMETER, ''proposal_ranking''])]"

definition PATCHABLE_PARAMETERS :: "(string \<times> string list) list" where
  "PATCHABLE_PARAMETERS =
     map (\<lambda>(algorithm, ps). (algorithm, filter (\<lambda>p. p \<notin> {''order'', ''proposal_ranking''}) ps))
       ALGORITHM_PARAMETERS"

definition parameter_effects :: "(string \<times> string) list" where
  "parameter_effects =
     [(''order'', ''Graph order used for seed generation.''),
      (''batch_candidates'', ''Maximum candidate evaluations in one lane batch.''),
      (''witness_cap'', ''Per-forbidden-length witness-count cap; capped counts are not exact.''),
      (''temperature'', ''Initial simulated-annealing acceptance temperature.''),
      (''cooling'', ''Multiplicative simulated-annealing cooling factor.''),
      (''restart_threshold'', ''Simulated annealing reseeds after this many evaluations.''),
      (''tabu_tenure'', ''Maximum recent candidate hashes retained by tabu search.''),
      (''perturbation_interval'', ''ILS-tabu permits a perturbation acceptance at this cadence.''),
      (MUTATION_WEIGHTS_PARAMETER, ''Normalized selection probabilities over reviewed safe mutations.''),
      (''proposal_ranking'',
        ''Explicit reviewed proposal-ranking catalog ID for mutation lanes; '' @
        ''omitted means disabled. '' @ RANDOM_RESTART_UNRANKED_INSTRUCTION)]"

definition HYPOTHESIS_CREATE_OPERATION :: string where
  "HYPOTHESIS_CREATE_OPERATION = ''create''"

definition HYPOTHESIS_EXISTING_OPERATIONS :: "string list" where
  "HYPOTHESIS_EXISTING_OPERATIONS = [''confirm'', ''weaken'', ''reject'', ''retain'', ''revise'']"

definition HYPOTHESIS_OPERATIONS :: "string list" where
  "HYPOTHESIS_OPERATIONS = HYPOTHESIS_CREATE_OPERATION # HYPOTHESIS_EXISTING_OPERATIONS"

definition COMMON_ACTION_FIELDS :: "string list" where
  "COMMON_ACTION_FIELDS =
     [''action_id'', ''type'', ''priority'', ''hypothesis_ids'', ''evidence_ids'', ''rationale'',
      ''expected_effect'', ''evaluation_window'', ''idempotency_key'', ''lease_seconds'', ''fallback'']"

definition ACTION_FIELDS :: "(string \<times> string list) list" where
  "ACTION_FIELDS =
     [(''start_lane'', [''spec'']),
      (''patch_lane'', [''lane_id'', ''expected_lane_version'', ''patch'']),
      (''fork_lane'', [''lane_id'', ''expected_lane_version'', ''checkpoint_id'', ''variants'']),
      (''restart_lane'', [''lane_id'', ''expected_lane_version'', ''restart_spec'']),
      (''stop_lane'', [''lane_id'', ''expected_lane_version'']),
      (''reallocate_resources'', [''allocations'']),
      (''promote_candidate'', [''candidate_id'']),
      (''request_diagnostic'', [''diagnostic_type'', ''subject_ids'']),
      (''schedule_verification'', [''candidate_ids'', ''verification_priority'']),
      (''set_review_trigger'', [''review_trigger''])]"

section \<open>Field names\<close>

definition window_fields :: "string list" where
  "window_fields =
     [''max_wall_seconds'', ''max_candidate_delta'']"

definition review_fields :: "string list" where
  "review_fields =
     [''min_wall_seconds'', ''max_wall_seconds'', ''candidate_delta'', ''events'']"

definition start_fields :: "string list" where
  "start_fields =
     [''algorithm'', ''graph_family'', ''seed'', ''parameters'', ''resource_share'']"

definition variant_fields :: "string list" where
  "variant_fields =
     [''name'', ''patch'', ''resource_share'']"

definition allocation_fields :: "string list" where
  "allocation_fields =
     [''lane_id'', ''expected_lane_version'', ''resource_share'']"

definition hypothesis_fields :: "string list" where
  "hypothesis_fields =
     [''hypothesis_id'', ''operation'', ''statement'', ''confidence'', ''evidence_for'', ''evidence_against'']"

definition restart_required :: "string list" where
  "restart_required =
     [''source'', ''seed'']"

definition restart_allowed :: "string list" where
  "restart_allowed =
     [''source'', ''seed'', ''checkpoint_id'', ''candidate_id'']"

definition fallback_fields :: "string list" where
  "fallback_fields =
     [''on_precondition_failure'']"

definition restart_sources :: "string list" where
  "restart_sources =
     [''new_seed'', ''checkpoint'', ''archive_elite'']"

definition lane_actions :: "string list" where
  "lane_actions =
     [''patch_lane'', ''fork_lane'', ''restart_lane'', ''stop_lane'']"

definition max_int63 :: int where
  "max_int63 = 2 ^ 63 - 1"

section \<open>The decision context\<close>

record decision_context =
  dc_snapshot_id :: string
  dc_evidence_ids :: "string set"
  dc_lane_versions :: "(string \<times> int) list"
  dc_lane_algorithms :: "(string \<times> string) list"
  dc_checkpoint_ids :: "string set"
  dc_candidate_ids :: "string set"
  dc_hypothesis_ids :: "string set"
  dc_max_active_lanes :: int
  dc_advisory_target_ids :: "string set"
  dc_executable_target_ids :: "string set"
  dc_diagnostic_subject_ids :: "string set"
  dc_applicable_action_types :: "string set"
  dc_reserved_action_ids :: "string set"
  dc_proposal_ranking :: "string option"

text \<open>
  Construction with the three role registries possibly absent: the defaults of
  \<open>__post_init__\<close>.  The argument carries the other fields.
\<close>

definition post_init_context ::
  "decision_context \<Rightarrow> string set option \<Rightarrow> string set option \<Rightarrow> string set option \<Rightarrow>
   decision_context result" where
  "post_init_context c advisory executable diagnostic =
     (let lanes = fst ` set (dc_lane_versions c);
          c1 = c\<lparr>dc_advisory_target_ids :=
                   (case advisory of None \<Rightarrow> dc_evidence_ids c | Some s \<Rightarrow> s),
                 dc_executable_target_ids :=
                   (case executable of None \<Rightarrow> lanes \<union> dc_checkpoint_ids c \<union> dc_candidate_ids c | Some s \<Rightarrow> s),
                 dc_diagnostic_subject_ids :=
                   (case diagnostic of None \<Rightarrow> lanes \<union> dc_candidate_ids c | Some s \<Rightarrow> s)\<rparr>
      in rbind (normalize_proposal_ranking_catalog_id (dc_proposal_ranking c))
           (\<lambda>n. Inr (c1\<lparr>dc_proposal_ranking := n\<rparr>)))"

section \<open>Field checks\<close>

definition at_index :: "string \<Rightarrow> nat \<Rightarrow> string" where
  "at_index p i = p @ ''['' @ show_nat i @ '']''"

definition exact_keys :: "json \<Rightarrow> string \<Rightarrow> string list \<Rightarrow> string list \<Rightarrow> bool checked" where
  "exact_keys v p required allowed =
     (case v of
        JObj d \<Rightarrow>
          let missing = sort (filter (\<lambda>k. k \<notin> fst ` set d) required);
              extra = sort (filter (\<lambda>k. k \<notin> set allowed) (map fst d))
          in cbind (checks (map (\<lambda>k. issue (p @ ''.'' @ k) ''is required'') missing)) (\<lambda>_.
             cbind (checks (map (\<lambda>k. issue (p @ ''.'' @ k) ''is not allowed'') extra)) (\<lambda>_.
             ret (missing = [] \<and> extra = [])))
      | _ \<Rightarrow> cbind (issue p ''must be an object'') (\<lambda>_. ret False))"

definition letter_or_digit :: "char \<Rightarrow> bool" where
  "letter_or_digit c =
     (let n = of_char c :: nat in 48 \<le> n \<and> n \<le> 57 \<or> 65 \<le> n \<and> n \<le> 90 \<or> 97 \<le> n \<and> n \<le> 122)"

definition identifier_char :: "char \<Rightarrow> bool" where
  "identifier_char c = (letter_or_digit c \<or> c \<in> {CHR ''_'', CHR ''.'', CHR '':'', CHR ''-''})"

text \<open>The pattern \<open>[A-Za-z0-9][A-Za-z0-9_.:-]{0,127}\<close>.\<close>

definition matches_identifier :: "string \<Rightarrow> bool" where
  "matches_identifier s =
     (s \<noteq> [] \<and> letter_or_digit (hd s) \<and> list_all identifier_char (tl s) \<and> length s \<le> 128)"

definition check_identifier :: "json \<Rightarrow> string \<Rightarrow> nat \<Rightarrow> string checked" where
  "check_identifier v p minimum =
     (case v of
        JStr s \<Rightarrow>
          (if \<not> (minimum \<le> length s \<and> length s \<le> 128) \<or> \<not> matches_identifier s
           then cbind (issue p ''must be a bounded identifier'') (\<lambda>_. ret [])
           else ret s)
      | _ \<Rightarrow> cbind (issue p ''must be a bounded identifier'') (\<lambda>_. ret []))"

definition bounded_text :: "json \<Rightarrow> string \<Rightarrow> nat \<Rightarrow> nat \<Rightarrow> unit checked" where
  "bounded_text v p minimum maximum =
     issue_if (case v of JStr s \<Rightarrow> \<not> (minimum \<le> length s \<and> length s \<le> maximum) | _ \<Rightarrow> True)
       p (''must be text of length '' @ show_nat minimum @ ''..'' @ show_nat maximum)"

definition integer :: "json \<Rightarrow> string \<Rightarrow> int \<Rightarrow> int \<Rightarrow> int option checked" where
  "integer v p minimum maximum =
     (case v of
        JInt i \<Rightarrow>
          cbind (issue_if (\<not> (minimum \<le> i \<and> i \<le> maximum)) p
            (''must be between '' @ int_text minimum @ '' and '' @ int_text maximum)) (\<lambda>_. ret (Some i))
      | _ \<Rightarrow> cbind (issue p ''must be an integer'') (\<lambda>_. ret None))"

text \<open>The bounds are numbers as the caller writes them, integers or floats.\<close>

definition number_in_range ::
  "(rat \<Rightarrow> string) \<Rightarrow> py_float \<Rightarrow> string \<Rightarrow> json \<Rightarrow> json \<Rightarrow> bool \<Rightarrow> py_float option checked" where
  "number_in_range frepr x p minimum maximum exclusive =
     cbind
       (if \<not> isfinite x then issue p ''must be finite''
        else issue_if
          ((if exclusive then py_le x (num_value minimum) else py_lt x (num_value minimum)) \<or>
           py_lt (num_value maximum) x) p
          (''must be '' @ (if exclusive then ''greater than'' else ''at least'') @ '' '' @
           py_str frepr minimum @ '' and at most '' @ py_str frepr maximum))
       (\<lambda>_. ret (Some x))"

definition number ::
  "(rat \<Rightarrow> string) \<Rightarrow> json \<Rightarrow> string \<Rightarrow> json \<Rightarrow> json \<Rightarrow> bool \<Rightarrow> py_float option checked" where
  "number frepr v p minimum maximum exclusive =
     (case v of
        JInt i \<Rightarrow> cbind (lift_result (float_of_int i))
                    (\<lambda>x. number_in_range frepr x p minimum maximum exclusive)
      | JFloat x \<Rightarrow> number_in_range frepr x p minimum maximum exclusive
      | _ \<Rightarrow> cbind (issue p ''must be a number'') (\<lambda>_. ret None))"

definition forget :: "'a checked \<Rightarrow> unit checked" where
  "forget m = cbind m (\<lambda>_. ret ())"

definition each :: "(string \<Rightarrow> json \<Rightarrow> unit checked) \<Rightarrow> string \<Rightarrow> json list \<Rightarrow> unit checked" where
  "each f p xs = checks (map (\<lambda>(i, x). f (at_index p i) x) (enumerate 0 xs))"

definition id_list ::
  "(rat \<Rightarrow> string) \<Rightarrow> json \<Rightarrow> string \<Rightarrow> nat \<Rightarrow> nat \<Rightarrow> string set \<Rightarrow> unit checked" where
  "id_list frepr v p minimum maximum allowed =
     (case v of
        JList xs \<Rightarrow>
          if \<not> (minimum \<le> length xs \<and> length xs \<le> maximum)
          then issue p (''must contain between '' @ show_nat minimum @ '' and '' @ show_nat maximum @ '' identifiers'')
          else
            cbind (issue_if (\<not> distinct (map (py_str frepr) xs)) p ''must be unique'') (\<lambda>_.
            each (\<lambda>q x. cbind (check_identifier x q 1) (\<lambda>s.
                issue_if (s \<noteq> [] \<and> s \<notin> allowed) q
                  (''unknown reference '' @ str_repr s @ '' is not admissible in this snapshot''))) p xs)
      | _ \<Rightarrow> issue p (''must contain between '' @ show_nat minimum @ '' and '' @ show_nat maximum @ '' identifiers''))"

text \<open>A value that must be in a set or dictionary of strings; the test may raise.\<close>

definition member_check :: "json \<Rightarrow> string set \<Rightarrow> string \<Rightarrow> string \<Rightarrow> unit checked" where
  "member_check v S p m = cbind (lift_result (in_ids v S)) (\<lambda>known. issue_if (\<not> known) p m)"

definition evaluation_window :: "json \<Rightarrow> string \<Rightarrow> unit checked" where
  "evaluation_window v p =
     (cbind (exact_keys v p window_fields window_fields) (\<lambda>ok.
         case v of
           JObj d \<Rightarrow>
             if \<not> ok then ret ()
             else
               cbind (integer (dict_get d ''max_wall_seconds'') (p @ ''.max_wall_seconds'') 10 7200) (\<lambda>_.
               forget (integer (dict_get d ''max_candidate_delta'') (p @ ''.max_candidate_delta'') 1 100000000))
         | _ \<Rightarrow> ret ()))"

definition review_events :: "(rat \<Rightarrow> string) \<Rightarrow> json \<Rightarrow> string \<Rightarrow> unit checked" where
  "review_events frepr v p =
     (case v of
        JList es \<Rightarrow>
          if 16 < length es then issue p ''must be an array of at most 16 events''
          else
            cbind (issue_if (\<not> distinct (map (py_str frepr) es)) p ''must be unique'') (\<lambda>_.
            each (\<lambda>q e. issue_if (\<not> is_str e REVIEW_EVENTS) q ''is not a reviewed event'') p es)
      | _ \<Rightarrow> issue p ''must be an array of at most 16 events'')"

definition review :: "(rat \<Rightarrow> string) \<Rightarrow> json \<Rightarrow> string \<Rightarrow> unit checked" where
  "review frepr v p =
     (cbind (exact_keys v p review_fields review_fields) (\<lambda>ok.
         case v of
           JObj d \<Rightarrow>
             if \<not> ok then ret ()
             else
               cbind (integer (dict_get d ''min_wall_seconds'') (p @ ''.min_wall_seconds'') 10 3600) (\<lambda>lo.
               cbind (integer (dict_get d ''max_wall_seconds'') (p @ ''.max_wall_seconds'') 30 7200) (\<lambda>hi.
               cbind (issue_if (case (lo, hi) of (Some a, Some b) \<Rightarrow> b < a | _ \<Rightarrow> False) p
                        ''minimum review time exceeds maximum'') (\<lambda>_.
               cbind (integer (dict_get d ''candidate_delta'') (p @ ''.candidate_delta'') 1 100000000) (\<lambda>_.
               review_events frepr (dict_get d ''events'') (p @ ''.events'')))))
         | _ \<Rightarrow> ret ()))"

definition candidate :: "decision_context \<Rightarrow> json \<Rightarrow> string \<Rightarrow> unit checked" where
  "candidate ctx v p =
     cbind (check_identifier v p 1) (\<lambda>s.
       if s \<notin> dc_candidate_ids ctx then issue p ''is not an admissible retained candidate''
       else issue_if (s \<notin> dc_executable_target_ids ctx) p ''is not in executable_target_ids for this turn'')"

definition candidate_list :: "(rat \<Rightarrow> string) \<Rightarrow> decision_context \<Rightarrow> json \<Rightarrow> string \<Rightarrow> unit checked" where
  "candidate_list frepr ctx v p =
     (case v of
        JList xs \<Rightarrow>
          if \<not> (1 \<le> length xs \<and> length xs \<le> 32)
          then issue p ''must contain between 1 and 32 candidates''
          else
            cbind (issue_if (\<not> distinct (map (py_str frepr) xs)) p ''must be unique'') (\<lambda>_.
            each (\<lambda>q x. candidate ctx x q) p xs)
      | _ \<Rightarrow> issue p ''must contain between 1 and 32 candidates'')"

section \<open>Parameters\<close>

definition add_weight ::
  "(rat \<Rightarrow> string) \<Rightarrow> string \<Rightarrow> string \<times> json \<Rightarrow> py_float \<Rightarrow> py_float checked" where
  "add_weight frepr p = (\<lambda>(name, w) acc.
     if name \<notin> set MUTATION_OPERATORS then ret acc
     else cbind (number frepr w (p @ ''.'' @ name) (JInt 0) (JFloat PosInf) False)
            (\<lambda>x. ret (case x of None \<Rightarrow> acc | Some y \<Rightarrow> py_add acc y)))"

definition mutation_weights :: "(rat \<Rightarrow> string) \<Rightarrow> json \<Rightarrow> string \<Rightarrow> unit checked" where
  "mutation_weights frepr v p =
     (case v of
        JObj d \<Rightarrow>
          cbind (checks (map (\<lambda>k. issue (p @ ''.'' @ k) ''is not a reviewed mutation operator'')
                  (sort (filter (\<lambda>k. k \<notin> set MUTATION_OPERATORS) (map fst d))))) (\<lambda>_.
          if d = [] then issue p ''must contain at least one operator weight''
          else
            cbind (fold_checked (add_weight frepr p) d (Fin 0)) (\<lambda>acc.
            issue_if (py_le acc (Fin 0)) p ''weight sum must be positive''))
      | _ \<Rightarrow> issue p ''must be an object'')"

definition domain_default :: "(string \<times> string list) list \<Rightarrow> string option \<Rightarrow> string list" where
  "domain_default domains algorithm =
     (case Option.bind algorithm (map_of domains) of None \<Rightarrow> map fst PARAMETER_DOMAINS | Some ps \<Rightarrow> ps)"

definition parameter ::
  "(rat \<Rightarrow> string) \<Rightarrow> string option \<Rightarrow> string option \<Rightarrow> string list \<Rightarrow> string \<Rightarrow> string \<times> json \<Rightarrow> unit checked" where
  "parameter frepr algorithm ranking allowed p = (\<lambda>(name, v).
     let q = p @ ''.'' @ name in
     if name = ''proposal_ranking'' \<and> algorithm = Some ''random_restart'' then
       issue q (''random_restart lanes must omit proposal_ranking entirely; '' @
         ''ranking is supported only by reviewed mutation lanes'')
     else if name \<notin> set allowed then issue q ''is not valid for this algorithm''
     else if name = MUTATION_WEIGHTS_PARAMETER then mutation_weights frepr v q
     else
       case map_of PARAMETER_DOMAINS name of
         None \<Rightarrow> Inl KeyError
       | Some bounds \<Rightarrow>
           if name = ''proposal_ranking'' then
             (if v \<noteq> JStr REVIEWED_PROPOSAL_RANKING_CATALOG_ID then
                issue q ''must name the reviewed proposal-ranking catalog entry''
              else if ranking = None then
                issue q ''is unavailable because proposal ranking is disabled in the campaign plan''
              else if algorithm = Some ''random_restart'' then
                issue q ''random_restart lanes must remain unranked''
              else issue_if (case algorithm of None \<Rightarrow> True
                             | Some a \<Rightarrow> a \<notin> set PROPOSAL_RANKING_MUTATION_ALGORITHMS)
                     q ''is only supported for reviewed mutation lanes'')
           else
             (case bounds of
                Integer_Domain lo hi \<Rightarrow> forget (integer v q lo hi)
              | Number_Domain lo hi \<Rightarrow> forget (number frepr v q (JFloat (Fin lo)) (JFloat (Fin hi)) False)
              | Enum_Domain _ \<Rightarrow> Inl KeyError))"

definition parameters ::
  "(rat \<Rightarrow> string) \<Rightarrow> json \<Rightarrow> string \<Rightarrow> string option \<Rightarrow> bool \<Rightarrow> string option \<Rightarrow> unit checked" where
  "parameters frepr v p algorithm partial ranking =
     (case v of
        JObj d \<Rightarrow>
          let allowed = domain_default (if partial then PATCHABLE_PARAMETERS else ALGORITHM_PARAMETERS) algorithm
          in cbind (issue_if (partial \<and> d = []) p ''must not be empty'') (\<lambda>_.
             cbind (checks (map (parameter frepr algorithm ranking allowed p) d)) (\<lambda>_.
             if partial then ret ()
             else
               cbind (checks (map (\<lambda>k. issue_if (k \<notin> fst ` set d) (p @ ''.'' @ k) ''is required'')
                       [''order'', ''batch_candidates'', ''witness_cap''])) (\<lambda>_.
               issue_if
                 ((case algorithm of None \<Rightarrow> False | Some a \<Rightarrow> a \<in> set PROPOSAL_RANKING_MUTATION_ALGORITHMS) \<and>
                  (case ranking of None \<Rightarrow> False | Some r \<Rightarrow> dict_get d ''proposal_ranking'' \<noteq> JStr r))
                 (p @ ''.proposal_ranking'')
                 ''must equal the campaign's reviewed proposal-ranking catalog ID'')))
      | _ \<Rightarrow> issue p ''must be an object'')"

section \<open>Actions\<close>

definition lane_target :: "decision_context \<Rightarrow> json_obj \<Rightarrow> string \<Rightarrow> string option checked" where
  "lane_target ctx action p =
     cbind (check_identifier (dict_get action ''lane_id'') (p @ ''.lane_id'') 1) (\<lambda>lane_id.
     cbind (integer (dict_get action ''expected_lane_version'') (p @ ''.expected_lane_version'')
              0 max_int63) (\<lambda>version.
     case map_of (dc_lane_versions ctx) lane_id of
       None \<Rightarrow> cbind (issue (p @ ''.lane_id'') ''does not reference an active lane'') (\<lambda>_. ret None)
     | Some current \<Rightarrow>
         if lane_id \<notin> dc_executable_target_ids ctx then
           cbind (issue (p @ ''.lane_id'') ''is not in executable_target_ids for this turn'') (\<lambda>_. ret None)
         else
           cbind (issue_if (version \<noteq> Some current) (p @ ''.expected_lane_version'')
                    ''is stale for the committed snapshot'') (\<lambda>_.
           ret (map_of (dc_lane_algorithms ctx) lane_id))))"

definition known_algorithm :: "json \<Rightarrow> string option" where
  "known_algorithm v = (case v of JStr s \<Rightarrow> if s \<in> set ALGORITHMS then Some s else None | _ \<Rightarrow> None)"

text \<open>An odd order for a cubic graph; a \<open>bool\<close> is an \<open>int\<close> here.\<close>

definition odd_cubic_order :: "json_obj \<Rightarrow> bool" where
  "odd_cubic_order d =
     (case dict_get d ''parameters'' of
        JObj ps \<Rightarrow>
          dict_get d ''graph_family'' = JStr ''connected_cubic'' \<and>
          (case dict_get ps ''order'' of JInt i \<Rightarrow> i mod 2 \<noteq> 0 | JBool b \<Rightarrow> b | _ \<Rightarrow> False)
      | _ \<Rightarrow> False)"

definition start_lane :: "(rat \<Rightarrow> string) \<Rightarrow> decision_context \<Rightarrow> json \<Rightarrow> string \<Rightarrow> unit checked" where
  "start_lane frepr ctx spec p =
     cbind (exact_keys spec p start_fields start_fields) (\<lambda>ok.
       case spec of
         JObj d \<Rightarrow>
           if \<not> ok then ret ()
           else
             let algorithm = known_algorithm (dict_get d ''algorithm'')
             in cbind (issue_if (algorithm = None) (p @ ''.algorithm'') ''is not supported'') (\<lambda>_.
                cbind (member_check (dict_get d ''graph_family'') (fst ` set GRAPH_FAMILIES)
                         (p @ ''.graph_family'') ''is not supported'') (\<lambda>_.
                cbind (integer (dict_get d ''seed'') (p @ ''.seed'') 0 max_int63) (\<lambda>_.
                cbind (number frepr (dict_get d ''resource_share'') (p @ ''.resource_share'')
                         (JInt 0) (JInt 1) True) (\<lambda>_.
                cbind (parameters frepr (dict_get d ''parameters'') (p @ ''.parameters'') algorithm False
                         (dc_proposal_ranking ctx)) (\<lambda>_.
                issue_if (odd_cubic_order d)
                  (p @ ''.parameters.order'') ''must be even for connected_cubic'')))))
       | _ \<Rightarrow> ret ())"

definition fork_variant ::
  "(rat \<Rightarrow> string) \<Rightarrow> string option \<Rightarrow> string option \<Rightarrow> string \<Rightarrow> json \<Rightarrow> unit checked" where
  "fork_variant frepr algorithm ranking q variant =
     (cbind (exact_keys variant q variant_fields variant_fields) (\<lambda>ok.
         case variant of
           JObj d \<Rightarrow>
             if \<not> ok then ret ()
             else
               cbind (bounded_text (dict_get d ''name'') (q @ ''.name'') 1 128) (\<lambda>_.
               cbind (parameters frepr (dict_get d ''patch'') (q @ ''.patch'') algorithm True ranking) (\<lambda>_.
               forget (number frepr (dict_get d ''resource_share'') (q @ ''.resource_share'')
                         (JInt 0) (JInt 1) True)))
         | _ \<Rightarrow> ret ()))"

definition fork ::
  "(rat \<Rightarrow> string) \<Rightarrow> decision_context \<Rightarrow> json_obj \<Rightarrow> string \<Rightarrow> string option \<Rightarrow> unit checked" where
  "fork frepr ctx action p algorithm =
     cbind (check_identifier (dict_get action ''checkpoint_id'') (p @ ''.checkpoint_id'') 1) (\<lambda>checkpoint.
     cbind (if checkpoint \<notin> dc_checkpoint_ids ctx
            then issue (p @ ''.checkpoint_id'') ''is not an admissible checkpoint''
            else issue_if (checkpoint \<notin> dc_executable_target_ids ctx) (p @ ''.checkpoint_id'')
                   ''is not in executable_target_ids for this turn'') (\<lambda>_.
     case dict_get action ''variants'' of
       JList vs \<Rightarrow>
         if \<not> (1 \<le> length vs \<and> length vs \<le> 4)
         then issue (p @ ''.variants'') ''must contain between 1 and 4 variants''
         else each (fork_variant frepr algorithm (dc_proposal_ranking ctx)) (p @ ''.variants'') vs
     | _ \<Rightarrow> issue (p @ ''.variants'') ''must contain between 1 and 4 variants''))"

text \<open>A reference that a restart takes from its optional field, with no test of its type.\<close>

definition restart_reference ::
  "decision_context \<Rightarrow> string set \<Rightarrow> json \<Rightarrow> string \<Rightarrow> unit checked" where
  "restart_reference ctx admissible v q =
     cbind (lift_result (in_ids v admissible)) (\<lambda>known.
       if \<not> known then issue q ''is not admissible''
       else cbind (lift_result (in_ids v (dc_executable_target_ids ctx))) (\<lambda>executable.
              issue_if (\<not> executable) q ''is not in executable_target_ids for this turn''))"

definition check_restart :: "decision_context \<Rightarrow> json \<Rightarrow> string \<Rightarrow> unit checked" where
  "check_restart ctx spec p =
     (cbind (exact_keys spec p restart_required restart_allowed) (\<lambda>ok.
         case spec of
           JObj d \<Rightarrow>
             if \<not> ok then ret ()
             else
               let source = dict_get d ''source''
               in cbind (member_check source (set restart_sources) (p @ ''.source'') ''is not supported'') (\<lambda>_.
                  cbind (integer (dict_get d ''seed'') (p @ ''.seed'') 0 max_int63) (\<lambda>_.
                  cbind (if source = JStr ''checkpoint''
                         then restart_reference ctx (dc_checkpoint_ids ctx) (dict_get d ''checkpoint_id'')
                                (p @ ''.checkpoint_id'')
                         else ret ()) (\<lambda>_.
                  if source = JStr ''archive_elite''
                  then restart_reference ctx (dc_candidate_ids ctx) (dict_get d ''candidate_id'')
                         (p @ ''.candidate_id'')
                  else ret ())))
         | _ \<Rightarrow> ret ()))"

definition allocation ::
  "(rat \<Rightarrow> string) \<Rightarrow> decision_context \<Rightarrow> string \<Rightarrow> nat \<times> json \<Rightarrow> py_float \<times> string set \<Rightarrow>
   (py_float \<times> string set) checked" where
  "allocation frepr ctx p = (\<lambda>(index, v) (acc, seen).
     let q = at_index p index
     in cbind (exact_keys v q allocation_fields allocation_fields) (\<lambda>ok.
        case v of
          JObj d \<Rightarrow>
            if \<not> ok then ret (acc, seen)
            else
              cbind (lane_target ctx d q) (\<lambda>_.
              let lane_id = py_str frepr (dict_get d ''lane_id'')
              in cbind (issue_if (lane_id \<in> seen) (q @ ''.lane_id'') ''is duplicated'') (\<lambda>_.
                 cbind (number frepr (dict_get d ''resource_share'') (q @ ''.resource_share'')
                          (JInt 0) (JInt 1) False) (\<lambda>share.
                 ret (case share of None \<Rightarrow> acc | Some x \<Rightarrow> py_add acc x, insert lane_id seen))))
        | _ \<Rightarrow> ret (acc, seen)))"

definition allocations :: "(rat \<Rightarrow> string) \<Rightarrow> decision_context \<Rightarrow> json \<Rightarrow> string \<Rightarrow> unit checked" where
  "allocations frepr ctx v p =
     (case v of
        JList xs \<Rightarrow>
          if \<not> (1 \<le> length xs \<and> length xs \<le> 32)
          then issue p ''must contain between 1 and 32 allocations''
          else
            cbind (fold_checked (allocation frepr ctx p) (enumerate 0 xs) (Fin 0, {})) (\<lambda>(acc, seen).
            issue_if (py_lt (Fin (1 + 1 / 1000000000)) acc) p ''resource shares exceed 1.0'')
      | _ \<Rightarrow> issue p ''must contain between 1 and 32 allocations'')"

section \<open>Hypotheses\<close>

definition hypothesis_update ::
  "(rat \<Rightarrow> string) \<Rightarrow> decision_context \<Rightarrow> nat \<times> json \<Rightarrow> string set \<Rightarrow> string set checked" where
  "hypothesis_update frepr ctx = (\<lambda>(index, item) created.
     let q = at_index ''$.hypothesis_updates'' index
     in cbind (exact_keys item q hypothesis_fields hypothesis_fields) (\<lambda>ok.
        case item of
          JObj d \<Rightarrow>
            if \<not> ok then ret created
            else
              cbind (check_identifier (dict_get d ''hypothesis_id'') (q @ ''.hypothesis_id'') 1) (\<lambda>ident.
              let operation = dict_get d ''operation''; is_new = (operation = JStr HYPOTHESIS_CREATE_OPERATION)
              in cbind (issue_if (\<not> is_str operation HYPOTHESIS_OPERATIONS) (q @ ''.operation'')
                          ''is not supported'') (\<lambda>_.
                 cbind (if is_new
                        then issue_if (ident \<in> dc_hypothesis_ids ctx \<or> ident \<in> created)
                               (q @ ''.hypothesis_id'') ''already exists''
                        else issue_if (is_str operation HYPOTHESIS_EXISTING_OPERATIONS \<and>
                                       ident \<notin> dc_hypothesis_ids ctx)
                               (q @ ''.hypothesis_id'') ''must reference an existing hypothesis'') (\<lambda>_.
                 cbind (bounded_text (dict_get d ''statement'') (q @ ''.statement'') 1 4000) (\<lambda>_.
                 cbind (number frepr (dict_get d ''confidence'') (q @ ''.confidence'') (JInt 0) (JInt 1) False) (\<lambda>_.
                 cbind (id_list frepr (dict_get d ''evidence_for'') (q @ ''.evidence_for'') 0 32
                          (dc_evidence_ids ctx)) (\<lambda>_.
                 cbind (id_list frepr (dict_get d ''evidence_against'') (q @ ''.evidence_against'') 0 32
                          (dc_evidence_ids ctx)) (\<lambda>_.
                 ret (if is_new then insert ident created else created))))))))
        | _ \<Rightarrow> ret created))"

definition validate_hypotheses ::
  "(rat \<Rightarrow> string) \<Rightarrow> decision_context \<Rightarrow> json \<Rightarrow> string set checked" where
  "validate_hypotheses frepr ctx v =
     (case v of
        JList xs \<Rightarrow>
          if 32 < length xs
          then cbind (issue ''$.hypothesis_updates'' ''must be an array of at most 32 items'') (\<lambda>_. ret {})
          else fold_checked (hypothesis_update frepr ctx) (enumerate 0 xs) {}
      | _ \<Rightarrow> cbind (issue ''$.hypothesis_updates'' ''must be an array of at most 32 items'') (\<lambda>_. ret {}))"

section \<open>Transport nulls\<close>

text \<open>Applies a change to the dictionary stored under a key, if there is one.\<close>

definition in_field :: "string \<Rightarrow> (json_obj \<Rightarrow> json_obj) \<Rightarrow> json_obj \<Rightarrow> json_obj" where
  "in_field k f d = (case dict_get d k of JObj e \<Rightarrow> dict_set k (JObj (f e)) d | _ \<Rightarrow> d)"

definition drop_null_values :: "json_obj \<Rightarrow> json_obj" where
  "drop_null_values d =
     filter (\<lambda>(k, v). \<not> (v = JNull \<and> k \<in> set (MUTATION_WEIGHTS_PARAMETER # map fst PARAMETER_DOMAINS))) d"

definition pop_null :: "string \<Rightarrow> json_obj \<Rightarrow> json_obj" where
  "pop_null k d = (if dict_get d k = JNull then filter (\<lambda>(k', _). k' \<noteq> k) d else d)"

definition normalize_action :: "json \<Rightarrow> json" where
  "normalize_action a =
     (case a of
        JObj d \<Rightarrow>
          let t = dict_get d ''type''
          in JObj
            (if t = JStr ''start_lane'' then in_field ''spec'' (in_field ''parameters'' drop_null_values) d
             else if t = JStr ''patch_lane'' then in_field ''patch'' drop_null_values d
             else if t = JStr ''fork_lane'' then
               (case dict_get d ''variants'' of
                  JList vs \<Rightarrow>
                    dict_set ''variants''
                      (JList (map (\<lambda>v. case v of JObj e \<Rightarrow> JObj (in_field ''patch'' drop_null_values e) | _ \<Rightarrow> v) vs)) d
                | _ \<Rightarrow> d)
             else if t = JStr ''restart_lane'' then
               in_field ''restart_spec'' (\<lambda>e. pop_null ''candidate_id'' (pop_null ''checkpoint_id'' e)) d
             else d)
      | _ \<Rightarrow> a)"

definition normalize_transport_nulls :: "json \<Rightarrow> json" where
  "normalize_transport_nulls v =
     (case v of
        JObj d \<Rightarrow>
          (case dict_get d ''actions'' of
             JList as \<Rightarrow> JObj (dict_set ''actions'' (JList (map normalize_action as)) d)
           | _ \<Rightarrow> v)
      | _ \<Rightarrow> v)"

section \<open>Audit annotations\<close>

fun sum_weights :: "json list \<Rightarrow> py_float \<Rightarrow> py_float result" where
  "sum_weights [] acc = Inr acc"
| "sum_weights (w # ws) acc =
     (case w of
        JInt i \<Rightarrow> rbind (float_of_int i) (\<lambda>x. sum_weights ws (py_add acc x))
      | JFloat x \<Rightarrow> sum_weights ws (py_add acc x)
      | _ \<Rightarrow> Inl (TypeError ''float() argument must be a string or a real number''))"

definition weight_share :: "json_obj \<Rightarrow> py_float \<Rightarrow> string \<Rightarrow> (string \<times> json) result" where
  "weight_share weights whole name =
     rbind (case map_of weights name of
              None \<Rightarrow> Inr (Fin 0)
            | Some (JInt i) \<Rightarrow> float_of_int i
            | Some (JFloat x) \<Rightarrow> Inr x
            | Some _ \<Rightarrow> Inl (TypeError ''float() argument must be a string or a real number'')) (\<lambda>x.
     rbind (py_div x whole) (\<lambda>y. Inr (name, JFloat y)))"

definition normalize_weights :: "json \<Rightarrow> json result" where
  "normalize_weights v =
     (case v of
        JObj weights \<Rightarrow>
          rbind (sum_weights (map snd weights) (Fin 0)) (\<lambda>whole.
          rbind (fold_result (\<lambda>name acc. rbind (weight_share weights whole name) (\<lambda>e. Inr (acc @ [e])))
                   MUTATION_OPERATORS []) (\<lambda>d.
          Inr (JObj d)))
      | _ \<Rightarrow> Inl (TypeError ''object has no attribute values''))"

text \<open>The executable parameters of an action with the weights normalised in place.\<close>

definition normalize_parameters :: "json_obj \<Rightarrow> json_obj result" where
  "normalize_parameters ps =
     (if MUTATION_WEIGHTS_PARAMETER \<in> fst ` set ps
      then rbind (normalize_weights (dict_get ps MUTATION_WEIGHTS_PARAMETER)) (\<lambda>w.
             Inr (dict_set MUTATION_WEIGHTS_PARAMETER w ps))
      else Inr ps)"

definition obj_field :: "json_obj \<Rightarrow> string \<Rightarrow> json_obj" where
  "obj_field d k = (case dict_get d k of JObj e \<Rightarrow> e | _ \<Rightarrow> [])"

definition str_field :: "json_obj \<Rightarrow> string \<Rightarrow> string" where
  "str_field d k = (case dict_get d k of JStr s \<Rightarrow> s | _ \<Rightarrow> [])"

definition audit ::
  "string option \<Rightarrow> json_obj \<Rightarrow> json_obj \<Rightarrow> json_obj result" where
  "audit algorithm effective d =
     (let d1 = dict_set ''effective_parameters'' (JObj effective) d;
          d2 = dict_set ''ignored_parameters'' (JObj []) d1;
          d3 = dict_set ''rejected_parameters'' (JObj []) d2;
          d4 = dict_set ''parameter_effects''
                 (JObj (map (\<lambda>k. (k, JStr (the (map_of parameter_effects k))))
                   (filter (\<lambda>k. k \<in> fst ` set parameter_effects) (map fst effective)))) d3
      in case algorithm of
           None \<Rightarrow> Inr d4
         | Some a \<Rightarrow>
             (case map_of ALGORITHM_PARAMETERS a of
                None \<Rightarrow> Inl KeyError
              | Some ps \<Rightarrow> Inr (dict_set ''implemented_controls'' (JList (map JStr (sort ps))) d4)))"

definition annotate_action :: "decision_context \<Rightarrow> json \<Rightarrow> json result" where
  "annotate_action ctx a =
     (case a of
        JObj d \<Rightarrow>
          let t = dict_get d ''type''; lane = map_of (dc_lane_algorithms ctx) (str_field d ''lane_id'')
          in rbind
            (if t = JStr ''start_lane'' then
               let spec = obj_field d ''spec''
               in rbind (normalize_parameters (obj_field spec ''parameters'')) (\<lambda>ps.
                  audit (Some (str_field spec ''algorithm'')) ps
                    (dict_set ''spec'' (JObj (dict_set ''parameters'' (JObj ps) spec)) d))
             else if t = JStr ''patch_lane'' then
               rbind (normalize_parameters (obj_field d ''patch'')) (\<lambda>ps.
               audit lane ps (dict_set ''patch'' (JObj ps) d))
             else if t = JStr ''fork_lane'' then audit lane [] d
             else audit None [] d)
            (\<lambda>d'. Inr (JObj d'))
      | _ \<Rightarrow> Inl (TypeError ''object is not subscriptable''))"

definition annotate_parameter_effects :: "decision_context \<Rightarrow> json_obj \<Rightarrow> json_obj result" where
  "annotate_parameter_effects ctx v =
     (case dict_get v ''actions'' of
        JList as \<Rightarrow>
          rbind (fold_result (\<lambda>a acc. rbind (annotate_action ctx a) (\<lambda>a'. Inr (acc @ [a']))) as []) (\<lambda>as'.
          Inr (dict_set ''actions'' (JList as') v))
      | _ \<Rightarrow> Inl (TypeError ''object is not iterable''))"

section \<open>The validator\<close>

text \<open>What each action type requires beyond the common fields; the number of lanes it starts.\<close>

definition action_body ::
  "(rat \<Rightarrow> string) \<Rightarrow> decision_context \<Rightarrow> string \<Rightarrow> json_obj \<Rightarrow> string \<Rightarrow> int checked" where
  "action_body frepr ctx t d p =
     (if t = ''start_lane'' then
        cbind (start_lane frepr ctx (dict_get d ''spec'') (p @ ''.spec'')) (\<lambda>_. ret 1)
      else if t \<in> set lane_actions then
        cbind (lane_target ctx d p) (\<lambda>algorithm.
          if t = ''patch_lane'' then
            cbind (parameters frepr (dict_get d ''patch'') (p @ ''.patch'') algorithm True
                     (dc_proposal_ranking ctx)) (\<lambda>_. ret 0)
          else if t = ''fork_lane'' then
            cbind (fork frepr ctx d p algorithm) (\<lambda>_.
            ret (case dict_get d ''variants'' of JList vs \<Rightarrow> int (length vs) | _ \<Rightarrow> 0))
          else if t = ''restart_lane'' then
            cbind (check_restart ctx (dict_get d ''restart_spec'') (p @ ''.restart_spec'')) (\<lambda>_. ret 0)
          else ret 0)
      else if t = ''reallocate_resources'' then
        cbind (allocations frepr ctx (dict_get d ''allocations'') (p @ ''.allocations'')) (\<lambda>_. ret 0)
      else if t = ''promote_candidate'' then
        cbind (candidate ctx (dict_get d ''candidate_id'') (p @ ''.candidate_id'')) (\<lambda>_. ret 0)
      else if t = ''request_diagnostic'' then
        cbind (issue_if (\<not> is_str (dict_get d ''diagnostic_type'') DIAGNOSTICS) (p @ ''.diagnostic_type'')
                 ''is not a reviewed diagnostic'') (\<lambda>_.
        cbind (id_list frepr (dict_get d ''subject_ids'') (p @ ''.subject_ids'') 1 32
                 (dc_diagnostic_subject_ids ctx)) (\<lambda>_. ret 0))
      else if t = ''schedule_verification'' then
        cbind (candidate_list frepr ctx (dict_get d ''candidate_ids'') (p @ ''.candidate_ids'')) (\<lambda>_.
        cbind (integer (dict_get d ''verification_priority'') (p @ ''.verification_priority'') 0 100) (\<lambda>_. ret 0))
      else if t = ''set_review_trigger'' then
        cbind (review frepr (dict_get d ''review_trigger'') (p @ ''.review_trigger'')) (\<lambda>_. ret 0)
      else ret 0)"

definition fallback :: "json \<Rightarrow> string \<Rightarrow> unit checked" where
  "fallback v p =
     cbind (exact_keys v p fallback_fields fallback_fields) (\<lambda>ok.
       case v of
         JObj d \<Rightarrow>
           if \<not> ok then ret ()
           else member_check (dict_get d ''on_precondition_failure'') {''reject'', ''replan''}
                  (p @ ''.on_precondition_failure'') ''must be reject or replan''
       | _ \<Rightarrow> ret ())"

record action_state =
  action_ids :: "string set"
  idempotency_keys :: "string set"
  projected_starts :: int

definition common_fields ::
  "(rat \<Rightarrow> string) \<Rightarrow> decision_context \<Rightarrow> string set \<Rightarrow> json_obj \<Rightarrow> string \<Rightarrow> action_state \<Rightarrow> action_state checked" where
  "common_fields frepr ctx new_hypotheses d p st =
     cbind (check_identifier (dict_get d ''action_id'') (p @ ''.action_id'') 1) (\<lambda>action_id.
     cbind (issue_if (action_id \<in> action_ids st) (p @ ''.action_id'') ''is duplicated in this batch'') (\<lambda>_.
     cbind (issue_if (action_id \<in> dc_reserved_action_ids ctx) (p @ ''.action_id'')
              ''already exists in the durable workspace; choose a new ID'') (\<lambda>_.
     cbind (check_identifier (dict_get d ''idempotency_key'') (p @ ''.idempotency_key'') 8) (\<lambda>key.
     cbind (issue_if (key \<in> idempotency_keys st) (p @ ''.idempotency_key'') ''is duplicated in this batch'') (\<lambda>_.
     cbind (integer (dict_get d ''priority'') (p @ ''.priority'') 0 100) (\<lambda>_.
     cbind (integer (dict_get d ''lease_seconds'') (p @ ''.lease_seconds'') 30 7200) (\<lambda>_.
     cbind (bounded_text (dict_get d ''rationale'') (p @ ''.rationale'') 1 4000) (\<lambda>_.
     cbind (bounded_text (dict_get d ''expected_effect'') (p @ ''.expected_effect'') 1 2000) (\<lambda>_.
     cbind (id_list frepr (dict_get d ''evidence_ids'') (p @ ''.evidence_ids'') 0 32 (dc_evidence_ids ctx)) (\<lambda>_.
     cbind (id_list frepr (dict_get d ''hypothesis_ids'') (p @ ''.hypothesis_ids'') 0 16
              (dc_hypothesis_ids ctx \<union> new_hypotheses)) (\<lambda>_.
     cbind (evaluation_window (dict_get d ''evaluation_window'') (p @ ''.evaluation_window'')) (\<lambda>_.
     cbind (fallback (dict_get d ''fallback'') (p @ ''.fallback'')) (\<lambda>_.
     ret (st\<lparr>action_ids := insert action_id (action_ids st),
             idempotency_keys := insert key (idempotency_keys st)\<rparr>))))))))))))))"

definition validate_action ::
  "(rat \<Rightarrow> string) \<Rightarrow> decision_context \<Rightarrow> string set \<Rightarrow> nat \<times> json \<Rightarrow> action_state \<Rightarrow> action_state checked" where
  "validate_action frepr ctx new_hypotheses = (\<lambda>(index, action) st.
     let p = at_index ''$.actions'' index;
         t = (case action of JObj d \<Rightarrow> dict_get d ''type'' | _ \<Rightarrow> JNull)
     in if \<not> is_str t ACTION_TYPES then
          cbind (issue (p @ ''.type'') ''is not in the reviewed action catalog'') (\<lambda>_. ret st)
        else
          case (action, t) of
            (JObj d, JStr type) \<Rightarrow>
              if type \<notin> dc_applicable_action_types ctx then
                cbind (issue (p @ ''.type'') ''is not applicable in the submitted action space'') (\<lambda>_. ret st)
              else
                let required = COMMON_ACTION_FIELDS @ the (map_of ACTION_FIELDS type)
                in cbind (exact_keys action p required required) (\<lambda>ok.
                   if \<not> ok then ret st
                   else
                     cbind (common_fields frepr ctx new_hypotheses d p st) (\<lambda>st'.
                     cbind (action_body frepr ctx type d p) (\<lambda>starts.
                     ret (st'\<lparr>projected_starts := projected_starts st' + starts\<rparr>))))
          | _ \<Rightarrow> ret st)"

definition top_fields :: "string list" where
  "top_fields = [''schema_version'', ''snapshot_id'', ''campaign_assessment'', ''hypothesis_updates'',
                 ''actions'', ''next_review'']"

definition validate_fields :: "(rat \<Rightarrow> string) \<Rightarrow> decision_context \<Rightarrow> json_obj \<Rightarrow> unit checked" where
  "validate_fields frepr ctx d =
     cbind (issue_if (dict_get d ''schema_version'' \<noteq> JStr ''1.0'') ''$.schema_version'' ''must equal 1.0'') (\<lambda>_.
     cbind (issue_if (dict_get d ''snapshot_id'' \<noteq> JStr (dc_snapshot_id ctx)) ''$.snapshot_id''
              ''does not match the committed snapshot'') (\<lambda>_.
     cbind (bounded_text (dict_get d ''campaign_assessment'') ''$.campaign_assessment'' 1 6000) (\<lambda>_.
     cbind (validate_hypotheses frepr ctx (dict_get d ''hypothesis_updates'')) (\<lambda>new_hypotheses.
     cbind (case dict_get d ''actions'' of
              JList as \<Rightarrow>
                if \<not> (1 \<le> length as \<and> length as \<le> 12)
                then cbind (issue ''$.actions'' ''must contain between 1 and 12 actions'') (\<lambda>_. ret [])
                else ret as
            | _ \<Rightarrow> cbind (issue ''$.actions'' ''must contain between 1 and 12 actions'') (\<lambda>_. ret [])) (\<lambda>as.
     cbind (fold_checked (validate_action frepr ctx new_hypotheses) (enumerate 0 as)
              \<lparr>action_ids = {}, idempotency_keys = {}, projected_starts = 0\<rparr>) (\<lambda>st.
     cbind (issue_if (dc_max_active_lanes ctx < int (length (dc_lane_versions ctx)) + projected_starts st)
              ''$.actions'' (''would exceed max_active_lanes='' @ int_text (dc_max_active_lanes ctx))) (\<lambda>_.
     review frepr (dict_get d ''next_review'') ''$.next_review'')))))))"

definition rejected :: "validation_issue list \<Rightarrow> decision_validation" where
  "rejected ps = \<lparr>accepted = False, issues = ps, normalized = None\<rparr>"

definition validate_decision ::
  "(rat \<Rightarrow> string) \<Rightarrow> json \<Rightarrow> decision_context \<Rightarrow> decision_validation result" where
  "validate_decision frepr v ctx =
     (case canonical_json frepr v MAX_DECISION_BYTES of
        Inl e \<Rightarrow>
          (case e of
             ValueError m \<Rightarrow> Inr (rejected [\<lparr>vi_path = ''$'', vi_message = m\<rparr>])
           | TypeError m \<Rightarrow> Inr (rejected [\<lparr>vi_path = ''$'', vi_message = m\<rparr>])
           | _ \<Rightarrow> Inl e)
      | Inr _ \<Rightarrow>
          let n = normalize_transport_nulls v
          in rbind (exact_keys n ''$'' top_fields top_fields) (\<lambda>(ps, ok).
             case n of
               JObj d \<Rightarrow>
                 if \<not> ok then Inr (rejected ps)
                 else
                   rbind (validate_fields frepr ctx d) (\<lambda>(qs, _).
                   if qs \<noteq> [] then Inr (rejected (ps @ qs))
                   else rbind (annotate_parameter_effects ctx d) (\<lambda>a.
                          Inr \<lparr>accepted = True, issues = [], normalized = Some (JObj a)\<rparr>))
             | _ \<Rightarrow> Inr (rejected ps)))"

end
