(* ===== verification/Decision_Spec.thy ===== *)
theory Decision_Spec
  imports Validation
begin

text \<open>
  What the validator of \<open>Validation\<close> tests: for every check the predicate that holds exactly
  when the check passes, up to \<open>action_body_ok\<close> and \<open>common_ok\<close> for a whole action.
\<close>

section \<open>What a passing check has tested\<close>

definition is_number :: "json \<Rightarrow> rat \<Rightarrow> bool" where
  "is_number v r \<longleftrightarrow> v = JFloat (Fin r) \<or> (\<exists>i. v = JInt i \<and> \<bar>i\<bar> < float_limit \<and> r = of_int i)"

definition has_keys :: "json_obj \<Rightarrow> string list \<Rightarrow> string list \<Rightarrow> bool" where
  "has_keys d required allowed \<longleftrightarrow> set required \<subseteq> fst ` set d \<and> fst ` set d \<subseteq> set allowed"

lemma sort_Nil_iff: "sort xs = [] \<longleftrightarrow> xs = []"
  by (metis set_empty set_sort)

lemma pass_exact_keys [pass_facts]:
  "passes (exact_keys v p required allowed) ok \<longleftrightarrow>
     ok \<and> (\<exists>d. v = JObj d \<and> has_keys d required allowed)"
  by (cases v) (auto simp: exact_keys_def pass_facts Let_def filter_empty_conv sort_Nil_iff has_keys_def)

lemma pass_identifier [pass_facts]:
  "passes (check_identifier v p m) x \<longleftrightarrow> v = JStr x \<and> m \<le> length x \<and> matches_identifier x"
  by (cases v) (auto simp: check_identifier_def pass_facts matches_identifier_def)

definition text_ok :: "json \<Rightarrow> nat \<Rightarrow> nat \<Rightarrow> bool" where
  "text_ok v lo hi \<longleftrightarrow>
     (\<exists>s. v = JStr s \<and> lo \<le> length s \<and> length s \<le> hi)"

lemma pass_bounded_text [pass_facts]: "passes (bounded_text v p lo hi) u \<longleftrightarrow> text_ok v lo hi"
  unfolding text_ok_def
  by (cases v) (auto simp: bounded_text_def pass_facts)

lemma pass_integer [pass_facts]:
  "passes (integer v p lo hi) x \<longleftrightarrow> (\<exists>i. v = JInt i \<and> x = Some i \<and> lo \<le> i \<and> i \<le> hi)"
  by (cases v) (auto simp: integer_def pass_facts)

lemma pass_number_in_range:
  "passes (number_in_range frepr y p lo hi ex) x \<longleftrightarrow>
     (\<exists>r. y = Fin r \<and> x = Some (Fin r) \<and> \<not> py_lt (num_value hi) (Fin r) \<and>
       \<not> (if ex then py_le (Fin r) (num_value lo) else py_lt (Fin r) (num_value lo)))"
  by (cases y) (auto simp: number_in_range_def pass_facts isfinite_def)

lemma pass_number [pass_facts]:
  "passes (number frepr v p lo hi ex) x \<longleftrightarrow>
     (\<exists>r. is_number v r \<and> x = Some (Fin r) \<and> \<not> py_lt (num_value hi) (Fin r) \<and>
       \<not> (if ex then py_le (Fin r) (num_value lo) else py_lt (Fin r) (num_value lo)))"
  by (cases v)
    (auto simp: number_def pass_facts pass_number_in_range is_number_def float_of_int_def
      split: if_splits)

lemma pass_forget [pass_facts]: "passes (forget m) u \<longleftrightarrow> (\<exists>x. passes m x)"
  by (simp add: forget_def pass_facts)

lemma pass_each [pass_facts]:
  "passes (each f p xs) u \<longleftrightarrow> (\<forall>i<length xs. passes (f (at_index p i) (xs ! i)) ())"
  by (simp add: each_def pass_facts ball_enumerate)

lemma all_JStr:
  "(\<forall>i<length xs. \<exists>s. xs ! i = JStr s \<and> P s) \<longleftrightarrow> (\<exists>ss. xs = map JStr ss \<and> (\<forall>s\<in>set ss. P s))"
  (is "?l = ?r")
proof
  assume ?l
  then have "\<forall>x\<in>set xs. \<exists>s. x = JStr s \<and> P s" by (metis in_set_conv_nth)
  then show ?r
  proof (induction xs)
    case (Cons x xs)
    then obtain s ss where "x = JStr s" "P s" "xs = map JStr ss" "\<forall>s\<in>set ss. P s" by auto
    then show ?case by (intro exI [of _ "s # ss"]) simp
  qed simp
qed auto

lemma py_str_JStr [simp]: "py_str frepr (JStr s) = s"
  by (simp add: py_str_def)

definition ids_ok :: "json \<Rightarrow> nat \<Rightarrow> nat \<Rightarrow> string set \<Rightarrow> bool" where
  "ids_ok v lo hi allowed \<longleftrightarrow>
     (\<exists>ss. v = JList (map JStr ss) \<and> lo \<le> length ss \<and> length ss \<le> hi \<and> distinct ss \<and>
       set ss \<subseteq> allowed \<and> (\<forall>s\<in>set ss. matches_identifier s))"

lemma pass_id_list [pass_facts]: "passes (id_list frepr v p lo hi allowed) u \<longleftrightarrow> ids_ok v lo hi allowed"
proof (cases v)
  case (JList xs)
  have "(\<forall>i<length xs. \<exists>s. xs ! i = JStr s \<and> Suc 0 \<le> length s \<and> matches_identifier s \<and> (s = [] \<or> s \<in> allowed))
     \<longleftrightarrow> (\<exists>ss. xs = map JStr ss \<and> set ss \<subseteq> allowed \<and> (\<forall>s\<in>set ss. matches_identifier s))"
    unfolding all_JStr by (auto simp: matches_identifier_def Suc_le_eq)
  with JList show ?thesis
    by (auto simp: id_list_def ids_ok_def pass_facts comp_def)
qed (auto simp: id_list_def ids_ok_def pass_facts)

definition candidate_ok :: "decision_context \<Rightarrow> json \<Rightarrow> bool" where
  "candidate_ok ctx v \<longleftrightarrow>
     (\<exists>s. v = JStr s \<and> matches_identifier s \<and> s \<in> dc_candidate_ids ctx \<and> s \<in> dc_executable_target_ids ctx)"

lemma pass_candidate [pass_facts]: "passes (candidate ctx v p) u \<longleftrightarrow> candidate_ok ctx v"
  unfolding candidate_ok_def
  by (auto simp: candidate_def pass_facts matches_identifier_def Suc_le_eq)

definition candidates_ok :: "decision_context \<Rightarrow> json \<Rightarrow> bool" where
  "candidates_ok ctx v \<longleftrightarrow>
     (\<exists>ss. v = JList (map JStr ss) \<and> 1 \<le> length ss \<and> length ss \<le> 32 \<and> distinct ss \<and>
       set ss \<subseteq> dc_candidate_ids ctx \<inter> dc_executable_target_ids ctx \<and> (\<forall>s\<in>set ss. matches_identifier s))"

lemma pass_candidate_list [pass_facts]: "passes (candidate_list frepr ctx v p) u \<longleftrightarrow> candidates_ok ctx v"
proof (cases v)
  case (JList xs)
  have "(\<forall>i<length xs. \<exists>s. xs ! i = JStr s \<and> matches_identifier s \<and> s \<in> dc_candidate_ids ctx \<and>
        s \<in> dc_executable_target_ids ctx) \<longleftrightarrow>
      (\<exists>ss. xs = map JStr ss \<and> set ss \<subseteq> dc_candidate_ids ctx \<inter> dc_executable_target_ids ctx \<and>
        (\<forall>s\<in>set ss. matches_identifier s))"
    unfolding all_JStr by auto
  with JList show ?thesis by (auto simp: candidate_list_def candidates_ok_def pass_facts candidate_ok_def comp_def)
qed (auto simp: candidate_list_def candidates_ok_def pass_facts)

lemma pass_lane_target:
  "passes (lane_target ctx d p) algorithm \<longleftrightarrow>
     (\<exists>lane version. dict_get d ''lane_id'' = JStr lane \<and> dict_get d ''expected_lane_version'' = JInt version \<and>
       matches_identifier lane \<and> 0 \<le> version \<and> version \<le> max_int63 \<and>
       map_of (dc_lane_versions ctx) lane = Some version \<and> lane \<in> dc_executable_target_ids ctx \<and>
       algorithm = map_of (dc_lane_algorithms ctx) lane)"
  by (auto simp: lane_target_def pass_facts matches_identifier_def Suc_le_eq split: option.splits)

definition window_ok :: "json \<Rightarrow> bool" where
  "window_ok v \<longleftrightarrow>
     (\<exists>d wall delta. v = JObj d \<and> has_keys d window_fields window_fields \<and>
       dict_get d ''max_wall_seconds'' = JInt wall \<and> 10 \<le> wall \<and> wall \<le> 7200 \<and>
       dict_get d ''max_candidate_delta'' = JInt delta \<and> 1 \<le> delta \<and> delta \<le> 100000000)"

lemma pass_evaluation_window [pass_facts]: "passes (evaluation_window v p) u \<longleftrightarrow> window_ok v"
  unfolding window_ok_def
  by (cases v) (auto simp: evaluation_window_def pass_facts Let_def)

lemma pass_review_events [pass_facts]:
  "passes (review_events frepr v p) u \<longleftrightarrow>
     (\<exists>es. v = JList (map JStr es) \<and> length es \<le> 16 \<and> distinct es \<and> set es \<subseteq> set REVIEW_EVENTS)"
proof (cases v)
  case (JList xs)
  have "(\<forall>i<length xs. is_str (xs ! i) REVIEW_EVENTS) \<longleftrightarrow>
      (\<exists>es. xs = map JStr es \<and> set es \<subseteq> set REVIEW_EVENTS)"
    unfolding is_str_iff Bex_def conj_commute [of "_ \<in> _"] all_JStr by auto
  with JList show ?thesis by (auto simp: review_events_def pass_facts comp_def)
qed (simp_all add: review_events_def pass_facts)

lemma pass_member_check [pass_facts]:
  "passes (member_check v S p m) u \<longleftrightarrow> (\<exists>s\<in>S. v = JStr s)"
  by (auto simp: member_check_def pass_facts in_ids_Inr hashable_def)

definition review_ok :: "json \<Rightarrow> bool" where
  "review_ok v \<longleftrightarrow>
     (\<exists>d lo hi delta es. v = JObj d \<and>
       has_keys d review_fields review_fields \<and>
       dict_get d ''min_wall_seconds'' = JInt lo \<and> 10 \<le> lo \<and> lo \<le> 3600 \<and>
       dict_get d ''max_wall_seconds'' = JInt hi \<and> 30 \<le> hi \<and> hi \<le> 7200 \<and> lo \<le> hi \<and>
       dict_get d ''candidate_delta'' = JInt delta \<and> 1 \<le> delta \<and> delta \<le> 100000000 \<and>
       dict_get d ''events'' = JList (map JStr es) \<and> length es \<le> 16 \<and> distinct es \<and>
       set es \<subseteq> set REVIEW_EVENTS)"

lemma pass_review [pass_facts]: "passes (review frepr v p) u \<longleftrightarrow> review_ok v"
  unfolding review_ok_def
  by (cases v) (auto simp: review_def pass_facts not_less)

definition fallback_ok :: "json \<Rightarrow> bool" where
  "fallback_ok v \<longleftrightarrow>
     (\<exists>d. v = JObj d \<and> has_keys d fallback_fields fallback_fields \<and>
       (dict_get d ''on_precondition_failure'' = JStr ''reject'' \<or>
        dict_get d ''on_precondition_failure'' = JStr ''replan''))"

lemma pass_fallback [pass_facts]: "passes (fallback v p) u \<longleftrightarrow> fallback_ok v"
  unfolding fallback_ok_def
  by (cases v) (auto simp: fallback_def pass_facts)

section \<open>What passing parameters satisfy\<close>

lemma py_lt_Fin [simp]: "py_lt (Fin a) (Fin b) \<longleftrightarrow> a < b" "\<not> py_lt PosInf x" "py_lt (Fin a) PosInf"
  by (auto simp: py_lt_def split: py_float.splits)

lemma py_le_Fin [simp]: "py_le (Fin a) (Fin b) \<longleftrightarrow> a \<le> b"
  by (auto simp: py_le_def)

lemma num_value_simps [simp]: "num_value (JInt i) = Fin (of_int i)" "num_value (JFloat x) = x"
  by (simp_all add: num_value_def)

definition weight_sum :: "py_float \<Rightarrow> rat list \<Rightarrow> py_float" where
  "weight_sum acc rs = fold (\<lambda>r x. py_add x (Fin r)) rs acc"

definition weight_values :: "json_obj \<Rightarrow> rat list \<Rightarrow> bool" where
  "weight_values d rs \<longleftrightarrow> list_all2 (\<lambda>(k, w) r. is_number w r \<and> 0 \<le> r) d rs"

definition weights_ok :: "json \<Rightarrow> bool" where
  "weights_ok v \<longleftrightarrow>
     (\<exists>d rs. v = JObj d \<and> d \<noteq> [] \<and> fst ` set d \<subseteq> set MUTATION_OPERATORS \<and> weight_values d rs \<and>
       \<not> py_le (weight_sum (Fin 0) rs) (Fin 0))"

lemma weight_sum_simps [simp]: "weight_sum acc [] = acc" "weight_sum acc (r # rs) = weight_sum (py_add acc (Fin r)) rs"
  by (simp_all add: weight_sum_def)

lemma weight_values_Nil [simp]: "weight_values [] rs \<longleftrightarrow> rs = []"
  by (simp add: weight_values_def)

lemma weight_values_Cons:
  "weight_values ((k, w) # d) rs \<longleftrightarrow> (\<exists>r rs'. rs = r # rs' \<and> is_number w r \<and> 0 \<le> r \<and> weight_values d rs')"
  by (auto simp: weight_values_def list_all2_Cons1)

lemma pass_add_weight:
  assumes "fst ` set d \<subseteq> set MUTATION_OPERATORS"
  shows "passes (fold_checked (add_weight frepr p) d acc) t \<longleftrightarrow>
    (\<exists>rs. weight_values d rs \<and> t = weight_sum acc rs)"
  using assms
proof (induction d arbitrary: acc)
  case Nil
  then show ?case by (simp add: pass_facts weight_values_def weight_sum_def)
next
  case (Cons kw d)
  obtain k w where kw: "kw = (k, w)" by fastforce
  from Cons.prems kw have "k \<in> set MUTATION_OPERATORS" by simp
  then have "passes (fold_checked (add_weight frepr p) (kw # d) acc) t \<longleftrightarrow>
      (\<exists>r. is_number w r \<and> 0 \<le> r \<and> passes (fold_checked (add_weight frepr p) d (py_add acc (Fin r))) t)"
    unfolding kw passes_fold_Cons by (auto simp: add_weight_def pass_facts not_less)
  also have "\<dots> \<longleftrightarrow> (\<exists>r. is_number w r \<and> 0 \<le> r \<and>
      (\<exists>rs. weight_values d rs \<and> t = weight_sum (py_add acc (Fin r)) rs))"
    using Cons by simp
  also have "\<dots> \<longleftrightarrow> (\<exists>rs. weight_values (kw # d) rs \<and> t = weight_sum acc rs)" (is "?l = ?r")
  proof
    assume ?l
    then obtain r rs where "is_number w r" "0 \<le> r" "weight_values d rs" "t = weight_sum (py_add acc (Fin r)) rs"
      by blast
    then show ?r by (intro exI [of _ "r # rs"]) (simp add: kw weight_values_Cons)
  next
    assume ?r
    then show ?l unfolding kw weight_values_Cons by fastforce
  qed
  finally show ?case .
qed

lemma pass_mutation_weights [pass_facts]: "passes (mutation_weights frepr v p) u \<longleftrightarrow> weights_ok v"
proof (cases v)
  case (JObj d)
  let ?known = "fst ` set d \<subseteq> set MUTATION_OPERATORS"
  have known: "passes (checks (map (\<lambda>k. issue (p @ ''.'' @ k) ''is not a reviewed mutation operator'')
      (sort (filter (\<lambda>k. k \<notin> set MUTATION_OPERATORS) (map fst d))))) w \<longleftrightarrow> ?known" for w
    by (auto simp: pass_facts)
  show ?thesis
  proof (cases "?known \<and> d \<noteq> []")
    case True
    then show ?thesis
      unfolding JObj mutation_weights_def weights_ok_def json.case passes_cbind known
      by (simp add: passes_cbind passes_issue_if pass_add_weight) blast
  next
    case False
    then show ?thesis
      unfolding JObj mutation_weights_def weights_ok_def json.case passes_cbind known
      by (auto simp: passes_issue)
  qed
qed (auto simp: mutation_weights_def weights_ok_def pass_facts)

definition param_value_ok :: "string option \<Rightarrow> string option \<Rightarrow> string \<Rightarrow> json \<Rightarrow> bool" where
  "param_value_ok algorithm ranking name v \<longleftrightarrow>
     (if name = MUTATION_WEIGHTS_PARAMETER then weights_ok v
      else if name = ''proposal_ranking'' then
        v = JStr REVIEWED_PROPOSAL_RANKING_CATALOG_ID \<and> ranking \<noteq> None \<and>
        (\<exists>a\<in>set PROPOSAL_RANKING_MUTATION_ALGORITHMS. algorithm = Some a)
      else case map_of PARAMETER_DOMAINS name of
        Some (Integer_Domain lo hi) \<Rightarrow> (\<exists>i. v = JInt i \<and> lo \<le> i \<and> i \<le> hi)
      | Some (Number_Domain lo hi) \<Rightarrow> (\<exists>r. is_number v r \<and> lo \<le> r \<and> r \<le> hi)
      | _ \<Rightarrow> False)"

lemma random_restart_unranked: "''random_restart'' \<notin> set PROPOSAL_RANKING_MUTATION_ALGORITHMS"
  by (simp add: PROPOSAL_RANKING_MUTATION_ALGORITHMS_def)

lemma ranking_in_domains: "map_of PARAMETER_DOMAINS ''proposal_ranking'' = Some (Enum_Domain [REVIEWED_PROPOSAL_RANKING_CATALOG_ID])"
  by (simp add: PARAMETER_DOMAINS_def)

lemma pass_parameter:
  "passes (parameter frepr algorithm ranking allowed p (name, v)) u \<longleftrightarrow>
     name \<in> set allowed \<and> param_value_ok algorithm ranking name v"
proof (cases "name = ''proposal_ranking''")
  case True
  have "name \<noteq> MUTATION_WEIGHTS_PARAMETER" by (simp add: True MUTATION_WEIGHTS_PARAMETER_def)
  with True random_restart_unranked show ?thesis
    unfolding parameter_def param_value_ok_def
    by (auto simp: pass_facts ranking_in_domains Let_def split: option.splits)
next
  case False
  then show ?thesis
    unfolding parameter_def param_value_ok_def
    by (cases "map_of PARAMETER_DOMAINS name")
      (auto simp: pass_facts Let_def not_less split: domain.splits)
qed

definition params_ok :: "string option \<Rightarrow> bool \<Rightarrow> string option \<Rightarrow> json \<Rightarrow> bool" where
  "params_ok algorithm partial ranking v \<longleftrightarrow>
     (\<exists>d. v = JObj d \<and> (partial \<longrightarrow> d \<noteq> []) \<and>
       (\<forall>(k, w)\<in>set d.
          k \<in> set (domain_default (if partial then PATCHABLE_PARAMETERS else ALGORITHM_PARAMETERS) algorithm) \<and>
          param_value_ok algorithm ranking k w) \<and>
       (\<not> partial \<longrightarrow> {''order'', ''batch_candidates'', ''witness_cap''} \<subseteq> fst ` set d \<and>
          (\<forall>a r. algorithm = Some a \<and> a \<in> set PROPOSAL_RANKING_MUTATION_ALGORITHMS \<and> ranking = Some r \<longrightarrow>
             dict_get d ''proposal_ranking'' = JStr r)))"

lemma pass_parameters [pass_facts]:
  "passes (parameters frepr v p algorithm partial ranking) u \<longleftrightarrow> params_ok algorithm partial ranking v"
proof (cases v)
  case (JObj d)
  let ?allowed = "domain_default (if partial then PATCHABLE_PARAMETERS else ALGORITHM_PARAMETERS) algorithm"
  have "(\<forall>c\<in>set (map (parameter frepr algorithm ranking ?allowed p) d). passes c ()) \<longleftrightarrow>
      (\<forall>(k, w)\<in>set d. k \<in> set ?allowed \<and> param_value_ok algorithm ranking k w)"
    by (auto simp: pass_parameter)
  then show ?thesis
    unfolding parameters_def params_ok_def JObj Let_def
    by (cases partial)
      (auto simp: passes_cbind passes_checks passes_issue_if passes_ret split: option.splits)
qed (auto simp: parameters_def params_ok_def pass_facts)

definition start_ok :: "decision_context \<Rightarrow> json \<Rightarrow> bool" where
  "start_ok ctx spec \<longleftrightarrow>
     (\<exists>d algorithm family seed share.
       spec = JObj d \<and> has_keys d start_fields start_fields \<and>
       known_algorithm (dict_get d ''algorithm'') = Some algorithm \<and>
       dict_get d ''graph_family'' = JStr family \<and> family \<in> fst ` set GRAPH_FAMILIES \<and>
       dict_get d ''seed'' = JInt seed \<and> 0 \<le> seed \<and> seed \<le> max_int63 \<and>
       is_number (dict_get d ''resource_share'') share \<and> 0 < share \<and> share \<le> 1 \<and>
       params_ok (Some algorithm) False (dc_proposal_ranking ctx) (dict_get d ''parameters'') \<and>
       \<not> odd_cubic_order d)"

lemma known_algorithm_Some: "known_algorithm v = Some a \<longleftrightarrow> v = JStr a \<and> a \<in> set ALGORITHMS"
  by (cases v) (auto simp: known_algorithm_def)

lemma pass_start_lane [pass_facts]: "passes (start_lane frepr ctx spec p) u \<longleftrightarrow> start_ok ctx spec"
proof (cases spec)
  case (JObj d)
  show ?thesis
  proof (cases "known_algorithm (dict_get d ''algorithm'')")
    case None
    then show ?thesis
      unfolding JObj start_lane_def start_ok_def json.case by (simp add: pass_facts)
  next
    case (Some a)
    show ?thesis
      unfolding JObj start_lane_def start_ok_def json.case
      by (simp add: Some pass_facts not_less not_le) blast
  qed
qed (auto simp: start_lane_def start_ok_def pass_facts)

definition fork_ok :: "decision_context \<Rightarrow> json_obj \<Rightarrow> string option \<Rightarrow> bool" where
  "fork_ok ctx d algorithm \<longleftrightarrow>
     (\<exists>checkpoint vs. dict_get d ''checkpoint_id'' = JStr checkpoint \<and> matches_identifier checkpoint \<and>
       checkpoint \<in> dc_checkpoint_ids ctx \<inter> dc_executable_target_ids ctx \<and>
       dict_get d ''variants'' = JList vs \<and> 1 \<le> length vs \<and> length vs \<le> 4 \<and>
       (\<forall>v\<in>set vs. \<exists>e share. v = JObj e \<and> has_keys e variant_fields variant_fields \<and>
          text_ok (dict_get e ''name'') 1 128 \<and>
          params_ok algorithm True (dc_proposal_ranking ctx) (dict_get e ''patch'') \<and>
          is_number (dict_get e ''resource_share'') share \<and> 0 < share \<and> share \<le> 1))"

lemma pass_fork_variant [pass_facts]:
  "passes (fork_variant frepr algorithm ranking q v) u \<longleftrightarrow>
     (\<exists>e share. v = JObj e \<and> has_keys e variant_fields variant_fields \<and>
       text_ok (dict_get e ''name'') 1 128 \<and>
       params_ok algorithm True ranking (dict_get e ''patch'') \<and>
       is_number (dict_get e ''resource_share'') share \<and> 0 < share \<and> share \<le> 1)"
  by (cases v) (auto simp: fork_variant_def pass_facts not_less not_le)

lemma pass_fork [pass_facts]: "passes (fork frepr ctx d p algorithm) u \<longleftrightarrow> fork_ok ctx d algorithm"
proof -
  have all: "(\<forall>i<length vs. P (vs ! i)) \<longleftrightarrow> (\<forall>v\<in>set vs. P v)" for vs :: "json list" and P
    by (metis in_set_conv_nth)
  show ?thesis
  proof (cases "dict_get d ''variants''")
    case (JList vs)
    show ?thesis
      unfolding fork_def fork_ok_def JList json.case all [symmetric]
      by (auto simp: pass_facts matches_identifier_def Suc_le_eq)
  qed (auto simp: fork_def fork_ok_def pass_facts)
qed

definition reference_ok :: "decision_context \<Rightarrow> string set \<Rightarrow> json \<Rightarrow> bool" where
  "reference_ok ctx S v \<longleftrightarrow> (\<exists>s\<in>S \<inter> dc_executable_target_ids ctx. v = JStr s)"

lemma pass_restart_reference [pass_facts]:
  "passes (restart_reference ctx S v q) u \<longleftrightarrow> reference_ok ctx S v"
  by (auto simp: restart_reference_def reference_ok_def pass_facts in_ids_Inr hashable_def)

definition restart_ok :: "decision_context \<Rightarrow> json \<Rightarrow> bool" where
  "restart_ok ctx spec \<longleftrightarrow>
     (\<exists>d seed. spec = JObj d \<and> has_keys d restart_required restart_allowed \<and>
       (\<exists>s\<in>set restart_sources. dict_get d ''source'' = JStr s) \<and>
       dict_get d ''seed'' = JInt seed \<and> 0 \<le> seed \<and> seed \<le> max_int63 \<and>
       (dict_get d ''source'' = JStr ''checkpoint'' \<longrightarrow>
          reference_ok ctx (dc_checkpoint_ids ctx) (dict_get d ''checkpoint_id'')) \<and>
       (dict_get d ''source'' = JStr ''archive_elite'' \<longrightarrow>
          reference_ok ctx (dc_candidate_ids ctx) (dict_get d ''candidate_id'')))"

lemma pass_restart [pass_facts]: "passes (check_restart ctx spec p) u \<longleftrightarrow> restart_ok ctx spec"
proof (cases spec)
  case (JObj d)
  show ?thesis
    unfolding JObj check_restart_def restart_ok_def json.case Let_def
    by (cases "dict_get d ''source'' = JStr ''checkpoint''"; cases "dict_get d ''source'' = JStr ''archive_elite''")
      (simp_all add: pass_facts, blast+)
qed (auto simp: check_restart_def restart_ok_def pass_facts)

section \<open>Allocations\<close>

lemma float_limit_large: "100 < float_limit"
  by (simp add: float_limit_def)

lemma float_limit_rat: "(100::rat) < of_int float_limit"
  using float_limit_large of_int_less_iff [of 100 float_limit, where 'a = rat] by simp

lemma weight_sum_Fin:
  "\<forall>r\<in>set rs. 0 \<le> r \<Longrightarrow> 0 \<le> a \<Longrightarrow> a + sum_list rs < of_int float_limit \<Longrightarrow>
   weight_sum (Fin a) rs = Fin (a + sum_list rs)"
proof (induction rs arbitrary: a)
  case (Cons r rs)
  have "0 \<le> sum_list rs" using Cons.prems(1) by (intro sum_list_nonneg) auto
  with Cons.prems have "a + r < of_int float_limit" "0 \<le> a + r" by auto
  then have "py_add (Fin a) (Fin r) = Fin (a + r)"
    using float_limit_large by (auto simp: py_add_def)
  with Cons.IH [of "a + r"] Cons.prems \<open>0 \<le> a + r\<close> show ?case by (simp add: add.assoc)
qed simp

definition is_allocation :: "decision_context \<Rightarrow> json \<Rightarrow> string \<times> rat \<Rightarrow> bool" where
  "is_allocation ctx v = (\<lambda>(lane, share).
     \<exists>d version. v = JObj d \<and> has_keys d allocation_fields allocation_fields \<and>
       dict_get d ''lane_id'' = JStr lane \<and> dict_get d ''expected_lane_version'' = JInt version \<and>
       matches_identifier lane \<and> 0 \<le> version \<and> version \<le> max_int63 \<and>
       map_of (dc_lane_versions ctx) lane = Some version \<and> lane \<in> dc_executable_target_ids ctx \<and>
       is_number (dict_get d ''resource_share'') share \<and> 0 \<le> share \<and> share \<le> 1)"

definition allocations_ok :: "decision_context \<Rightarrow> json \<Rightarrow> bool" where
  "allocations_ok ctx v \<longleftrightarrow>
     (\<exists>xs als. v = JList xs \<and> 1 \<le> length xs \<and> length xs \<le> 32 \<and> list_all2 (is_allocation ctx) xs als \<and>
       distinct (map fst als) \<and> sum_list (map snd als) \<le> 1 + 1 / 1000000000)"

lemma pass_allocation:
  "passes (allocation frepr ctx p (i, v) (acc, seen)) st \<longleftrightarrow>
     (\<exists>lane share. is_allocation ctx v (lane, share) \<and> lane \<notin> seen \<and>
        st = (py_add acc (Fin share), insert lane seen))"
proof (cases v)
  case (JObj d)
  show ?thesis
    unfolding JObj allocation_def is_allocation_def prod.case json.case Let_def
    by (auto simp: pass_facts pass_lane_target not_less)
qed (auto simp: allocation_def is_allocation_def pass_facts)

lemma pass_allocation_fold:
  "passes (fold_checked (allocation frepr ctx p) (enumerate k xs) (acc, seen)) st \<longleftrightarrow>
     (\<exists>als. list_all2 (is_allocation ctx) xs als \<and> distinct (map fst als) \<and> fst ` set als \<inter> seen = {} \<and>
        st = (weight_sum acc (map snd als), seen \<union> fst ` set als))"
proof (induction xs arbitrary: k acc seen)
  case Nil
  then show ?case by (auto simp: pass_facts)
next
  case (Cons v xs)
  have "passes (fold_checked (allocation frepr ctx p) (enumerate k (v # xs)) (acc, seen)) st \<longleftrightarrow>
      (\<exists>lane share. is_allocation ctx v (lane, share) \<and> lane \<notin> seen \<and>
        passes (fold_checked (allocation frepr ctx p) (enumerate (Suc k) xs) (py_add acc (Fin share), insert lane seen)) st)"
    by (auto simp: passes_cbind pass_allocation)
  also have "\<dots> \<longleftrightarrow> (\<exists>al als. is_allocation ctx v al \<and> fst al \<notin> seen \<and>
      list_all2 (is_allocation ctx) xs als \<and> distinct (map fst als) \<and>
      fst ` set als \<inter> insert (fst al) seen = {} \<and>
      st = (weight_sum (py_add acc (Fin (snd al))) (map snd als), insert (fst al) seen \<union> fst ` set als))"
    by (simp add: Cons.IH)
  also have "\<dots> \<longleftrightarrow> (\<exists>als. list_all2 (is_allocation ctx) (v # xs) als \<and> distinct (map fst als) \<and>
      fst ` set als \<inter> seen = {} \<and> st = (weight_sum acc (map snd als), seen \<union> fst ` set als))"
    (is "?l = ?r")
  proof
    assume ?l
    then obtain al als where *: "is_allocation ctx v al" "fst al \<notin> seen"
      "list_all2 (is_allocation ctx) xs als" "distinct (map fst als)"
      "fst ` set als \<inter> insert (fst al) seen = {}"
      "st = (weight_sum (py_add acc (Fin (snd al))) (map snd als), insert (fst al) seen \<union> fst ` set als)"
      by blast
    then show ?r by (intro exI [of _ "al # als"]) auto
  next
    assume ?r
    then obtain al als where *: "is_allocation ctx v al" "list_all2 (is_allocation ctx) xs als"
      "distinct (map fst (al # als))" "fst ` set (al # als) \<inter> seen = {}"
      "st = (weight_sum acc (map snd (al # als)), seen \<union> fst ` set (al # als))"
      by (auto simp: list_all2_Cons1)
    then show ?l by (intro exI [of _ al] exI [of _ als]) auto
  qed
  finally show ?case .
qed

lemma is_allocation_share: "is_allocation ctx v al \<Longrightarrow> 0 \<le> snd al \<and> snd al \<le> 1"
  by (auto simp: is_allocation_def split: prod.splits)

lemma allocation_sum:
  assumes "list_all2 (is_allocation ctx) xs als" "length xs \<le> 32"
  shows "weight_sum (Fin 0) (map snd als) = Fin (sum_list (map snd als))"
proof -
  have shares: "0 \<le> snd al \<and> snd al \<le> 1" if "al \<in> set als" for al
  proof -
    from that obtain i where "i < length als" "al = als ! i" by (auto simp: in_set_conv_nth)
    with assms(1) have "is_allocation ctx (xs ! i) al" by (simp add: list_all2_conv_all_nth)
    then show ?thesis by (rule is_allocation_share)
  qed
  have "sum_list (map snd als) \<le> sum_list (map (\<lambda>_. 1) als)"
    using shares by (intro sum_list_mono) auto
  also have "\<dots> \<le> 32" using assms by (simp add: list_all2_lengthD sum_list_triv)
  also have "(32::rat) < of_int float_limit"
    using float_limit_rat by simp
  finally show ?thesis using shares by (subst weight_sum_Fin) auto
qed

lemma pass_allocations [pass_facts]:
  "passes (allocations frepr ctx v p) u \<longleftrightarrow> allocations_ok ctx v"
proof (cases v)
  case (JList xs)
  show ?thesis
    unfolding JList allocations_def allocations_ok_def json.case
    by (auto simp: passes_cbind passes_if passes_issue passes_issue_if pass_allocation_fold allocation_sum not_less)
qed (auto simp: allocations_def allocations_ok_def pass_facts)

section \<open>What a passing action satisfies\<close>

definition int_ok :: "json \<Rightarrow> int \<Rightarrow> int \<Rightarrow> bool" where
  "int_ok v lo hi \<longleftrightarrow> (\<exists>i. v = JInt i \<and> lo \<le> i \<and> i \<le> hi)"

definition lane_ok :: "decision_context \<Rightarrow> json_obj \<Rightarrow> bool" where
  "lane_ok ctx d \<longleftrightarrow>
     (\<exists>lane version. dict_get d ''lane_id'' = JStr lane \<and> dict_get d ''expected_lane_version'' = JInt version \<and>
       matches_identifier lane \<and> 0 \<le> version \<and> version \<le> max_int63 \<and>
       map_of (dc_lane_versions ctx) lane = Some version \<and> lane \<in> dc_executable_target_ids ctx)"

definition lane_algorithm :: "decision_context \<Rightarrow> json_obj \<Rightarrow> string option" where
  "lane_algorithm ctx d = map_of (dc_lane_algorithms ctx) (str_field d ''lane_id'')"

lemma pass_lane_target_ok [pass_facts]:
  "passes (lane_target ctx d p) algorithm \<longleftrightarrow> lane_ok ctx d \<and> algorithm = lane_algorithm ctx d"
  by (auto simp: pass_lane_target lane_ok_def lane_algorithm_def str_field_def)

definition action_body_ok :: "decision_context \<Rightarrow> string \<Rightarrow> json_obj \<Rightarrow> bool" where
  "action_body_ok ctx t d \<longleftrightarrow>
     (t = ''start_lane'' \<longrightarrow> start_ok ctx (dict_get d ''spec'')) \<and>
     (t \<in> set lane_actions \<longrightarrow> lane_ok ctx d) \<and>
     (t = ''patch_lane'' \<longrightarrow>
        params_ok (lane_algorithm ctx d) True (dc_proposal_ranking ctx) (dict_get d ''patch'')) \<and>
     (t = ''fork_lane'' \<longrightarrow> fork_ok ctx d (lane_algorithm ctx d)) \<and>
     (t = ''restart_lane'' \<longrightarrow> restart_ok ctx (dict_get d ''restart_spec'')) \<and>
     (t = ''reallocate_resources'' \<longrightarrow> allocations_ok ctx (dict_get d ''allocations'')) \<and>
     (t = ''promote_candidate'' \<longrightarrow> candidate_ok ctx (dict_get d ''candidate_id'')) \<and>
     (t = ''request_diagnostic'' \<longrightarrow> is_str (dict_get d ''diagnostic_type'') DIAGNOSTICS \<and>
        ids_ok (dict_get d ''subject_ids'') 1 32 (dc_diagnostic_subject_ids ctx)) \<and>
     (t = ''schedule_verification'' \<longrightarrow> candidates_ok ctx (dict_get d ''candidate_ids'') \<and>
        int_ok (dict_get d ''verification_priority'') 0 100) \<and>
     (t = ''set_review_trigger'' \<longrightarrow> review_ok (dict_get d ''review_trigger''))"

definition lane_starts :: "string \<Rightarrow> json_obj \<Rightarrow> int" where
  "lane_starts t d =
     (if t = ''start_lane'' then 1
      else if t = ''fork_lane'' then (case dict_get d ''variants'' of JList vs \<Rightarrow> int (length vs) | _ \<Rightarrow> 0)
      else 0)"

lemma pass_action_body:
  assumes "t \<in> set ACTION_TYPES"
  shows "passes (action_body frepr ctx t d p) n \<longleftrightarrow> action_body_ok ctx t d \<and> n = lane_starts t d"
proof -
  note defs = action_body_def action_body_ok_def lane_starts_def lane_actions_def int_ok_def
  show ?thesis
    using assms unfolding ACTION_TYPES_def set_simps insert_iff empty_iff
    by (elim disjE FalseE) (simp_all add: defs pass_facts)
qed

definition common_ok :: "decision_context \<Rightarrow> string set \<Rightarrow> json_obj \<Rightarrow> string \<Rightarrow> string \<Rightarrow> bool" where
  "common_ok ctx hypotheses d action_id key \<longleftrightarrow>
     dict_get d ''action_id'' = JStr action_id \<and> matches_identifier action_id \<and>
     action_id \<notin> dc_reserved_action_ids ctx \<and>
     dict_get d ''idempotency_key'' = JStr key \<and> 8 \<le> length key \<and> matches_identifier key \<and>
     int_ok (dict_get d ''priority'') 0 100 \<and> int_ok (dict_get d ''lease_seconds'') 30 7200 \<and>
     text_ok (dict_get d ''rationale'') 1 4000 \<and> text_ok (dict_get d ''expected_effect'') 1 2000 \<and>
     ids_ok (dict_get d ''evidence_ids'') 0 32 (dc_evidence_ids ctx) \<and>
     ids_ok (dict_get d ''hypothesis_ids'') 0 16 (dc_hypothesis_ids ctx \<union> hypotheses) \<and>
     window_ok (dict_get d ''evaluation_window'') \<and> fallback_ok (dict_get d ''fallback'')"

lemma pass_common_fields:
  "passes (common_fields frepr ctx hypotheses d p st) st' \<longleftrightarrow>
     (\<exists>action_id key. common_ok ctx hypotheses d action_id key \<and>
       action_id \<notin> action_ids st \<and> key \<notin> idempotency_keys st \<and>
       st' = st\<lparr>action_ids := insert action_id (action_ids st),
                idempotency_keys := insert key (idempotency_keys st)\<rparr>)"
proof -
  have len: "matches_identifier s \<Longrightarrow> Suc 0 \<le> length s" for s
    by (simp add: matches_identifier_def Suc_le_eq)
  show ?thesis
  proof (cases "\<exists>a k. dict_get d ''action_id'' = JStr a \<and> dict_get d ''idempotency_key'' = JStr k")
    case True
    then obtain a k where ak: "dict_get d ''action_id'' = JStr a" "dict_get d ''idempotency_key'' = JStr k"
      by blast
    show ?thesis
      unfolding common_fields_def common_ok_def int_ok_def ak
      by (cases "matches_identifier a"; rule iffI) (simp_all add: pass_facts len)
  next
    case False
    then have "\<not> passes (common_fields frepr ctx hypotheses d p st) st'"
      unfolding common_fields_def by (simp add: pass_facts) (elim disjE; simp)
    with False show ?thesis by (simp add: common_ok_def) (elim disjE; simp)
  qed
qed

definition action_ok :: "decision_context \<Rightarrow> string set \<Rightarrow> json \<Rightarrow> string \<times> string \<Rightarrow> bool" where
  "action_ok ctx hypotheses a = (\<lambda>(action_id, key).
     \<exists>d t. a = JObj d \<and> dict_get d ''type'' = JStr t \<and> t \<in> set ACTION_TYPES \<and>
       t \<in> dc_applicable_action_types ctx \<and>
       has_keys d (COMMON_ACTION_FIELDS @ the (map_of ACTION_FIELDS t))
         (COMMON_ACTION_FIELDS @ the (map_of ACTION_FIELDS t)) \<and>
       common_ok ctx hypotheses d action_id key \<and> action_body_ok ctx t d)"

definition action_starts :: "json \<Rightarrow> int" where
  "action_starts a = (case a of JObj d \<Rightarrow> lane_starts (str_field d ''type'') d | _ \<Rightarrow> 0)"

lemma pass_validate_action:
  "passes (validate_action frepr ctx hypotheses (i, a) st) st' \<longleftrightarrow>
     (\<exists>action_id key. action_ok ctx hypotheses a (action_id, key) \<and>
       action_id \<notin> action_ids st \<and> key \<notin> idempotency_keys st \<and>
       st' = st\<lparr>action_ids := insert action_id (action_ids st),
                idempotency_keys := insert key (idempotency_keys st),
                projected_starts := projected_starts st + action_starts a\<rparr>)"
proof (cases "\<exists>d t. a = JObj d \<and> dict_get d ''type'' = JStr t \<and> t \<in> set ACTION_TYPES")
  case True
  then obtain d t where a: "a = JObj d" "dict_get d ''type'' = JStr t" "t \<in> set ACTION_TYPES" by blast
  have known: "is_str (JStr t) ACTION_TYPES" using a(3) by (simp add: is_str_def)
  have starts: "action_starts a = lane_starts t d" by (simp add: action_starts_def a str_field_def)
  have collapse: "(\<exists>x. (\<exists>i j. A i j \<and> B i \<and> D j \<and> x = f i j) \<and> C x) \<longleftrightarrow>
      (\<exists>i j. A i j \<and> B i \<and> D j \<and> C (f i j))" for A B C D and f :: "string \<Rightarrow> string \<Rightarrow> action_state"
    by blast
  show ?thesis
    unfolding validate_action_def action_ok_def starts
    by (simp add: a known passes_if passes_cbind passes_issue passes_ret pass_exact_keys ex_bool_conj
      pass_common_fields pass_action_body [OF a(3)] Let_def collapse) blast
next
  case False
  then have "\<not> is_str (case a of JObj d \<Rightarrow> dict_get d ''type'' | _ \<Rightarrow> JNull) ACTION_TYPES"
    by (cases a) (auto simp: is_str_iff)
  with False show ?thesis
    unfolding validate_action_def action_ok_def by (auto simp: passes_cbind passes_issue)
qed

section \<open>What an accepted decision satisfies\<close>

lemma pass_actions:
  "passes (fold_checked (validate_action frepr ctx hypotheses) (enumerate k as) st) st' \<longleftrightarrow>
     (\<exists>ids. list_all2 (action_ok ctx hypotheses) as ids \<and>
       distinct (map fst ids) \<and> distinct (map snd ids) \<and>
       fst ` set ids \<inter> action_ids st = {} \<and> snd ` set ids \<inter> idempotency_keys st = {} \<and>
       st' = st\<lparr>action_ids := action_ids st \<union> fst ` set ids,
                idempotency_keys := idempotency_keys st \<union> snd ` set ids,
                projected_starts := projected_starts st + sum_list (map action_starts as)\<rparr>)"
    (is "_ \<longleftrightarrow> (\<exists>ids. ?P as ids st st')")
proof (induction as arbitrary: k st)
  case Nil
  then show ?case by (auto simp: pass_facts)
next
  case (Cons a as)
  let ?next = "\<lambda>i. st\<lparr>action_ids := insert (fst i) (action_ids st),
    idempotency_keys := insert (snd i) (idempotency_keys st),
    projected_starts := projected_starts st + action_starts a\<rparr>"
  have "passes (fold_checked (validate_action frepr ctx hypotheses) (enumerate k (a # as)) st) st' \<longleftrightarrow>
      (\<exists>i. action_ok ctx hypotheses a i \<and> fst i \<notin> action_ids st \<and> snd i \<notin> idempotency_keys st \<and>
        (\<exists>ids. ?P as ids (?next i) st'))"
    unfolding Cons.IH [of "Suc k", symmetric] by (auto simp: passes_cbind pass_validate_action)
  also have "\<dots> \<longleftrightarrow> (\<exists>i ids. ?P (a # as) (i # ids) st st')"
    by (rule iff_exI, rule iffI; auto simp: Un_insert_right insert_commute add.assoc)
  also have "\<dots> \<longleftrightarrow> (\<exists>ids. ?P (a # as) ids st st')"
  proof
    assume "\<exists>ids. ?P (a # as) ids st st'"
    then obtain ids where ids: "?P (a # as) ids st st'" ..
    then obtain i ids' where "ids = i # ids'" unfolding list_all2_Cons1 by blast
    with ids show "\<exists>i ids. ?P (a # as) (i # ids) st st'" by blast
  qed blast
  finally show ?case .
qed

definition decision_ok ::
  "decision_context \<Rightarrow> string set \<Rightarrow> json_obj \<Rightarrow> json list \<Rightarrow> (string \<times> string) list \<Rightarrow> bool" where
  "decision_ok ctx hypotheses d as ids \<longleftrightarrow>
     dict_get d ''schema_version'' = JStr ''1.0'' \<and> dict_get d ''snapshot_id'' = JStr (dc_snapshot_id ctx) \<and>
     text_ok (dict_get d ''campaign_assessment'') 1 6000 \<and>
     dict_get d ''actions'' = JList as \<and> 1 \<le> length as \<and> length as \<le> 12 \<and>
     list_all2 (action_ok ctx hypotheses) as ids \<and> distinct (map fst ids) \<and> distinct (map snd ids) \<and>
     int (length (dc_lane_versions ctx)) + sum_list (map action_starts as) \<le> dc_max_active_lanes ctx \<and>
     review_ok (dict_get d ''next_review'')"

lemma pass_validate_fields:
  "passes (validate_fields frepr ctx d) u \<longleftrightarrow>
     (\<exists>hypotheses as ids. passes (validate_hypotheses frepr ctx (dict_get d ''hypothesis_updates'')) hypotheses \<and>
       decision_ok ctx hypotheses d as ids)"
proof (cases "dict_get d ''actions''")
  case (JList as)
  have starts: "passes (fold_checked (validate_action frepr ctx hypotheses) (enumerate 0 as)
        \<lparr>action_ids = {}, idempotency_keys = {}, projected_starts = 0\<rparr>) st \<and>
      \<not> dc_max_active_lanes ctx < int (length (dc_lane_versions ctx)) + projected_starts st \<longleftrightarrow>
      (\<exists>ids. list_all2 (action_ok ctx hypotheses) as ids \<and> distinct (map fst ids) \<and> distinct (map snd ids) \<and>
        int (length (dc_lane_versions ctx)) + sum_list (map action_starts as) \<le> dc_max_active_lanes ctx \<and>
        st = \<lparr>action_ids = fst ` set ids, idempotency_keys = snd ` set ids,
              projected_starts = sum_list (map action_starts as)\<rparr>)" for hypotheses st
    unfolding pass_actions by auto
  show ?thesis
    unfolding validate_fields_def decision_ok_def JList json.case
    by (simp add: passes_cbind passes_if passes_issue passes_issue_if passes_ret pass_facts
      starts conj_assoc [symmetric] del: conj_assoc) blast
qed (simp_all add: validate_fields_def decision_ok_def passes_cbind passes_issue passes_issue_if pass_bounded_text)

lemma checks_issues:
  "checks (map (\<lambda>k. issue (f k) m) ks) = Inr (map (\<lambda>k. \<lparr>vi_path = f k, vi_message = m\<rparr>) ks, ())"
  by (induction ks) (simp_all add: ret_def cbind_def issue_def)

lemma exact_keys_object:
  "\<exists>ps. exact_keys (JObj d) p required allowed = Inr (ps, has_keys d required allowed) \<and>
     (has_keys d required allowed \<longleftrightarrow> ps = [])"
  by (auto simp: exact_keys_def checks_issues cbind_def ret_def Let_def has_keys_def sort_Nil_iff
    filter_empty_conv)

lemma validate_decision_accepted:
  "validate_decision frepr v ctx = Inr r \<and> accepted r \<longleftrightarrow>
     length (dumps frepr v) \<le> MAX_DECISION_BYTES \<and>
     (\<exists>d a. normalize_transport_nulls v = JObj d \<and> has_keys d top_fields top_fields \<and>
       passes (validate_fields frepr ctx d) () \<and> annotate_parameter_effects ctx d = Inr a \<and>
       r = \<lparr>accepted = True, issues = [], normalized = Some (JObj a)\<rparr>)"
proof (cases "length (dumps frepr v) \<le> MAX_DECISION_BYTES")
  case False
  then show ?thesis by (auto simp: validate_decision_def canonical_json_def Let_def rejected_def)
next
  case True
  then have size: "canonical_json frepr v MAX_DECISION_BYTES = Inr (dumps frepr v)"
    by (simp add: canonical_json_def)
  show ?thesis
  proof (cases "normalize_transport_nulls v")
    case (JObj d)
    obtain ps where ps: "exact_keys (JObj d) ''$'' top_fields top_fields = Inr (ps, has_keys d top_fields top_fields)"
      "has_keys d top_fields top_fields \<longleftrightarrow> ps = []" using exact_keys_object by blast
    show ?thesis
      using True ps(2)
      by (cases "validate_fields frepr ctx d"; cases "annotate_parameter_effects ctx d")
        (auto simp: validate_decision_def size JObj ps(1) rejected_def passes_def split: if_splits)
  qed (auto simp: validate_decision_def size exact_keys_def cbind_def issue_def ret_def rejected_def)
qed

section \<open>Annotations keep the references\<close>

definition annotation_fields :: "string set" where
  "annotation_fields = {''spec'', ''patch'', ''effective_parameters'', ''ignored_parameters'',
     ''rejected_parameters'', ''parameter_effects'', ''implemented_controls''}"

lemma audit_keeps:
  "audit algorithm effective d = Inr d' \<Longrightarrow> k \<notin> annotation_fields \<Longrightarrow> dict_get d' k = dict_get d k"
  by (auto simp: audit_def Let_def annotation_fields_def split: option.splits)

lemma annotate_action_keeps:
  assumes "annotate_action ctx (JObj d) = Inr a"
  shows "\<exists>d'. a = JObj d' \<and> (\<forall>k. k \<notin> annotation_fields \<longrightarrow> dict_get d' k = dict_get d k)"
proof -
  have spec: "''spec'' \<in> annotation_fields" "''patch'' \<in> annotation_fields" by (simp_all add: annotation_fields_def)
  from assms obtain algorithm effective d0 d' where "a = JObj d'" "audit algorithm effective d0 = Inr d'"
    "d0 = d \<or> (\<exists>v. d0 = dict_set ''spec'' v d) \<or> (\<exists>v. d0 = dict_set ''patch'' v d)"
    by (auto simp: annotate_action_def Let_def result_facts split: if_splits) blast+
  with spec show ?thesis by (auto simp: audit_keeps)
qed

lemma annotate_fold:
  "fold_result (\<lambda>a acc. rbind (annotate_action ctx a) (\<lambda>a'. Inr (acc @ [a']))) as acc = Inr bs \<longleftrightarrow>
     (\<exists>as'. bs = acc @ as' \<and> list_all2 (\<lambda>a a'. annotate_action ctx a = Inr a') as as')"
proof (induction as arbitrary: acc)
  case (Cons a as)
  then show ?case
    by (cases "annotate_action ctx a") (auto simp: list_all2_Cons1)
qed auto

lemma annotate_decision:
  assumes "dict_get d ''actions'' = JList as"
  shows "annotate_parameter_effects ctx d = Inr d' \<longleftrightarrow>
    (\<exists>as'. list_all2 (\<lambda>a a'. annotate_action ctx a = Inr a') as as' \<and>
       d' = dict_set ''actions'' (JList as') d)"
  unfolding annotate_parameter_effects_def assms json.case rbind_Inr_iff annotate_fold by auto

section \<open>Safety of accepted decisions\<close>

text \<open>
  The references of an action are admissible in the snapshot that the decision was made for:
  the lane of a lane action, the checkpoint of a fork, the checkpoint or candidate that the
  source of a restart calls for, the lanes of an allocation, the candidates, and the subjects of
  a diagnostic.
\<close>

definition safe_action :: "decision_context \<Rightarrow> json \<Rightarrow> string \<Rightarrow> bool" where
  "safe_action ctx a action_id \<longleftrightarrow>
     (\<exists>d t. a = JObj d \<and> dict_get d ''action_id'' = JStr action_id \<and> dict_get d ''type'' = JStr t \<and>
       t \<in> set ACTION_TYPES \<inter> dc_applicable_action_types ctx \<and>
       (t \<in> set lane_actions \<longrightarrow> lane_ok ctx d) \<and>
       (t = ''fork_lane'' \<longrightarrow> fork_ok ctx d (lane_algorithm ctx d)) \<and>
       (t = ''restart_lane'' \<longrightarrow> restart_ok ctx (dict_get d ''restart_spec'')) \<and>
       (t = ''reallocate_resources'' \<longrightarrow> allocations_ok ctx (dict_get d ''allocations'')) \<and>
       (t = ''promote_candidate'' \<longrightarrow> candidate_ok ctx (dict_get d ''candidate_id'')) \<and>
       (t = ''request_diagnostic'' \<longrightarrow> ids_ok (dict_get d ''subject_ids'') 1 32 (dc_diagnostic_subject_ids ctx)) \<and>
       (t = ''schedule_verification'' \<longrightarrow> candidates_ok ctx (dict_get d ''candidate_ids'')) \<and>
       (t = ''set_review_trigger'' \<longrightarrow> review_ok (dict_get d ''review_trigger'')))"

lemma plain_fields:
  "''action_id'' \<notin> annotation_fields" "''type'' \<notin> annotation_fields" "''lane_id'' \<notin> annotation_fields"
  "''expected_lane_version'' \<notin> annotation_fields" "''checkpoint_id'' \<notin> annotation_fields"
  "''variants'' \<notin> annotation_fields" "''restart_spec'' \<notin> annotation_fields"
  "''allocations'' \<notin> annotation_fields" "''candidate_id'' \<notin> annotation_fields"
  "''subject_ids'' \<notin> annotation_fields" "''candidate_ids'' \<notin> annotation_fields"
  "''review_trigger'' \<notin> annotation_fields"
  by (simp_all add: annotation_fields_def)

lemma annotated_action_safe:
  assumes "action_ok ctx hypotheses a i" "annotate_action ctx a = Inr a'"
  shows "safe_action ctx a' (fst i)" "action_starts a' = action_starts a"
    "fst i \<notin> dc_reserved_action_ids ctx"
proof -
  obtain action_id key where i: "i = (action_id, key)" by fastforce
  from assms(1) obtain d t where a: "a = JObj d" "dict_get d ''type'' = JStr t" "t \<in> set ACTION_TYPES"
    "t \<in> dc_applicable_action_types ctx" "common_ok ctx hypotheses d action_id key" "action_body_ok ctx t d"
    by (auto simp: action_ok_def i)
  from annotate_action_keeps [OF assms(2) [unfolded a(1)]] obtain d' where
    d': "a' = JObj d'" "\<And>k. k \<notin> annotation_fields \<Longrightarrow> dict_get d' k = dict_get d k" by blast
  note keep = d'(2) [OF plain_fields(1)] d'(2) [OF plain_fields(2)] d'(2) [OF plain_fields(3)]
    d'(2) [OF plain_fields(4)] d'(2) [OF plain_fields(5)] d'(2) [OF plain_fields(6)]
    d'(2) [OF plain_fields(7)] d'(2) [OF plain_fields(8)] d'(2) [OF plain_fields(9)]
    d'(2) [OF plain_fields(10)] d'(2) [OF plain_fields(11)] d'(2) [OF plain_fields(12)]
  have lane: "lane_ok ctx d' = lane_ok ctx d" "lane_algorithm ctx d' = lane_algorithm ctx d"
    "fork_ok ctx d' al = fork_ok ctx d al" for al
    unfolding lane_ok_def lane_algorithm_def str_field_def fork_ok_def keep by simp_all
  show "action_starts a' = action_starts a"
    unfolding action_starts_def lane_starts_def str_field_def d'(1) a(1) json.case keep ..
  show "fst i \<notin> dc_reserved_action_ids ctx" using a(5) by (simp add: i common_ok_def)
  show "safe_action ctx a' (fst i)"
    unfolding safe_action_def
  proof (intro exI conjI)
    show "a' = JObj d'" by (rule d'(1))
    show "dict_get d' ''action_id'' = JStr (fst i)" using a(5) by (simp add: keep i common_ok_def)
    show "dict_get d' ''type'' = JStr t" by (simp add: keep a(2))
    show "t \<in> set ACTION_TYPES \<inter> dc_applicable_action_types ctx" using a(3,4) by simp
  qed (use a(6) in \<open>simp_all add: keep lane action_body_ok_def\<close>)
qed

section \<open>Size of a canonical text\<close>

fun json_bound :: "(rat \<Rightarrow> string) \<Rightarrow> json \<Rightarrow> nat" where
  "json_bound frepr JNull = 4"
| "json_bound frepr (JBool b) = 5"
| "json_bound frepr (JInt i) = length (int_text i)"
| "json_bound frepr (JFloat x) = (case x of Fin r \<Rightarrow> length (frepr r) | _ \<Rightarrow> 9)"
| "json_bound frepr (JStr s) = 6 * length s + 2"
| "json_bound frepr (JList xs) = 2 + sum_list (map (\<lambda>x. json_bound frepr x + 1) xs)"
| "json_bound frepr (JObj d) = 2 + sum_list (map (\<lambda>(k, v). 6 * length k + 4 + json_bound frepr v) d)"

lemma length_json_quote: "length (json_quote s) \<le> 6 * length s + 2"
proof (induction s)
  case (Cons c s)
  have "length (json_escape c) \<le> 6" by (auto simp: json_escape_def hex_byte_def Let_def)
  with Cons show ?case by (simp add: json_quote_def)
qed (simp add: json_quote_def)

lemma length_join: "length (join [c] ss) \<le> sum_list (map (\<lambda>s. length s + 1) ss)"
  by (induction "[c]" ss rule: join.induct) auto

lemma sum_list_sort_key: "sum_list (map f (sort_key g xs)) = (sum_list (map f xs) :: nat)"
proof -
  have "sum_list (map f (insort_key g x ys)) = f x + sum_list (map f ys)" for x and ys
    by (induction ys) (simp_all add: algebra_simps)
  then show ?thesis by (induction xs) simp_all
qed

lemma dumps_bound: "length (dumps frepr j) \<le> json_bound frepr j"
proof (induction j rule: dumps.induct [of _ frepr])
  case (4 frepr x)
  then show ?case by (cases x) simp_all
next
  case (5 frepr s)
  then show ?case using length_json_quote by simp
next
  case (6 frepr xs)
  have "length (join '','' (map (dumps frepr) xs)) \<le> sum_list (map (\<lambda>x. length (dumps frepr x) + 1) xs)"
    using length_join [of "CHR '',''" "map (dumps frepr) xs"] by (simp add: comp_def)
  also have "\<dots> \<le> sum_list (map (\<lambda>x. json_bound frepr x + 1) xs)"
    using 6 by (intro sum_list_mono) simp
  finally show ?case by simp
next
  case (7 frepr d)
  let ?e = "\<lambda>(k, t). json_quote k @ '':'' @ t" and ?L = "map (\<lambda>(k, v). (k, dumps frepr v)) d"
  have "length (join '','' (map ?e (sort_key fst ?L))) \<le> sum_list (map (\<lambda>x. length (?e x) + 1) (sort_key fst ?L))"
    using length_join [of "CHR '',''" "map ?e (sort_key fst ?L)"] by (simp add: comp_def)
  also have "\<dots> = sum_list (map (\<lambda>(k, v). length (json_quote k) + length (dumps frepr v) + 2) d)"
    unfolding sum_list_sort_key by (simp add: comp_def case_prod_unfold)
  also have "\<dots> \<le> sum_list (map (\<lambda>(k, v). 6 * length k + 4 + json_bound frepr v) d)"
  proof (rule sum_list_mono)
    fix x assume "x \<in> set d"
    then show "(case x of (k, v) \<Rightarrow> length (json_quote k) + length (dumps frepr v) + 2) \<le>
        (case x of (k, v) \<Rightarrow> 6 * length k + 4 + json_bound frepr v)"
      using 7 [of x "fst x" "snd x"] length_json_quote [of "fst x"] by (simp add: case_prod_unfold)
  qed
  finally show ?case by simp
qed simp_all

section \<open>Properties\<close>

lemma review_okI:
  assumes "10 \<le> lo" "lo \<le> 3600" "30 \<le> hi" "hi \<le> 7200" "lo \<le> hi" "1 \<le> delta" "delta \<le> 100000000"
    "length es \<le> 16" "distinct es" "set es \<subseteq> set REVIEW_EVENTS"
  shows "review_ok (JObj [(''min_wall_seconds'', JInt lo), (''max_wall_seconds'', JInt hi),
    (''candidate_delta'', JInt delta), (''events'', JList (map JStr es))])"
proof -
  have "has_keys [(''min_wall_seconds'', JInt lo), (''max_wall_seconds'', JInt hi),
      (''candidate_delta'', JInt delta), (''events'', JList (map JStr es))] review_fields review_fields"
    by (simp add: has_keys_def review_fields_def)
  with assms show ?thesis
    unfolding review_ok_def
    by (intro exI [of _ "[(''min_wall_seconds'', JInt lo), (''max_wall_seconds'', JInt hi),
        (''candidate_delta'', JInt delta), (''events'', JList (map JStr es))]"] exI [of _ lo] exI [of _ hi]
      exI [of _ delta] exI [of _ es]) simp
qed

definition sample_context :: decision_context where
  "sample_context = \<lparr>dc_snapshot_id = ''snapshot-1'', dc_evidence_ids = {}, dc_lane_versions = [(''lane-1'', 4)],
     dc_lane_algorithms = [(''lane-1'', ''simulated_annealing'')], dc_checkpoint_ids = {''checkpoint-1''},
     dc_candidate_ids = {}, dc_hypothesis_ids = {}, dc_max_active_lanes = 8, dc_advisory_target_ids = {},
     dc_executable_target_ids = {''lane-1'', ''checkpoint-1''}, dc_diagnostic_subject_ids = {''lane-1''},
     dc_applicable_action_types = set ACTION_TYPES, dc_reserved_action_ids = {}, dc_proposal_ranking = None\<rparr>"

definition sample_review :: json where
  "sample_review = JObj [(''min_wall_seconds'', JInt 10), (''max_wall_seconds'', JInt 30),
     (''candidate_delta'', JInt 4000), (''events'', JList [JStr ''lane_failure''])]"

definition sample_action :: "string \<Rightarrow> json_obj \<Rightarrow> json" where
  "sample_action t body = JObj ([(''action_id'', JStr ''a1''), (''type'', JStr t), (''priority'', JInt 50),
     (''hypothesis_ids'', JList []), (''evidence_ids'', JList []), (''rationale'', JStr ''r''),
     (''expected_effect'', JStr ''e''),
     (''evaluation_window'', JObj [(''max_wall_seconds'', JInt 30), (''max_candidate_delta'', JInt 4000)]),
     (''idempotency_key'', JStr ''key-0001''), (''lease_seconds'', JInt 120),
     (''fallback'', JObj [(''on_precondition_failure'', JStr ''reject'')])] @ body)"

definition sample_decision :: "json list \<Rightarrow> json" where
  "sample_decision as = JObj [(''schema_version'', JStr ''1.0''), (''snapshot_id'', JStr ''snapshot-1''),
     (''campaign_assessment'', JStr ''stop''), (''hypothesis_updates'', JList []),
     (''actions'', JList as), (''next_review'', sample_review)]"

definition sample_stop :: json where
  "sample_stop = sample_decision [sample_action ''stop_lane''
     [(''lane_id'', JStr ''lane-1''), (''expected_lane_version'', JInt 4)]]"

lemmas sample_defs = sample_context_def sample_review_def sample_action_def sample_decision_def

lemmas ok_defs = decision_ok_def text_ok_def review_ok_def action_ok_def common_ok_def int_ok_def ids_ok_def
  window_ok_def fallback_ok_def action_body_ok_def lane_ok_def has_keys_def matches_identifier_def
  letter_or_digit_def identifier_char_def action_starts_def lane_starts_def str_field_def

lemmas name_defs = ACTION_TYPES_def ACTION_FIELDS_def COMMON_ACTION_FIELDS_def window_fields_def review_fields_def
  fallback_fields_def lane_actions_def REVIEW_EVENTS_def top_fields_def max_int63_def

lemma sample_review_ok: "review_ok sample_review"
  using review_okI [of 10 30 4000 "[''lane_failure'']"] by (simp add: sample_review_def REVIEW_EVENTS_def)

lemma sample_decision_accepted:
  fixes frepr t body
  defines "a \<equiv> sample_action t body"
  assumes action: "action_ok sample_context {} a (''a1'', ''key-0001'')" "action_starts a \<le> 7"
    and norm: "normalize_action a = a" and annotate: "annotate_action sample_context a = Inr a'"
    and size: "json_bound frepr (sample_decision [a]) \<le> MAX_DECISION_BYTES"
  shows "\<exists>r d. validate_decision frepr (sample_decision [a]) sample_context = Inr r \<and> accepted r \<and>
    normalized r = Some (JObj d) \<and> dict_get d ''actions'' = JList [a']"
proof -
  obtain d where d: "sample_decision [a] = JObj d" by (simp add: sample_decision_def)
  have len: "length (dumps frepr (sample_decision [a])) \<le> MAX_DECISION_BYTES"
    using dumps_bound size by (rule order.trans)
  have keys: "has_keys d top_fields top_fields" "dict_get d ''actions'' = JList [a]"
    "dict_get d ''hypothesis_updates'' = JList []" "dict_get d ''next_review'' = sample_review"
    "dict_get d ''schema_version'' = JStr ''1.0''" "dict_get d ''snapshot_id'' = JStr ''snapshot-1''"
    "dict_get d ''campaign_assessment'' = JStr ''stop''"
    using d by (auto simp: sample_decision_def has_keys_def top_fields_def)
  have "decision_ok sample_context {} d [a] [(''a1'', ''key-0001'')]"
    using keys action sample_review_ok by (simp add: decision_ok_def text_ok_def sample_context_def)
  moreover have "passes (validate_hypotheses frepr sample_context (dict_get d ''hypothesis_updates'')) {}"
    by (simp add: keys validate_hypotheses_def passes_ret)
  ultimately have fields: "passes (validate_fields frepr sample_context d) ()"
    unfolding pass_validate_fields by blast
  have n: "normalize_transport_nulls (sample_decision [a]) = JObj d"
    unfolding d [symmetric]
    by (simp add: sample_decision_def normalize_transport_nulls_def norm dict_set_def)
  have "annotate_parameter_effects sample_context d = Inr (dict_set ''actions'' (JList [a']) d)"
    unfolding annotate_decision [OF keys(2)] using annotate by auto
  with len keys(1) fields n
  have "validate_decision frepr (sample_decision [a]) sample_context =
      Inr \<lparr>accepted = True, issues = [], normalized = Some (JObj (dict_set ''actions'' (JList [a']) d))\<rparr>"
    using validate_decision_accepted [of frepr "sample_decision [a]" sample_context
      "\<lparr>accepted = True, issues = [], normalized = Some (JObj (dict_set ''actions'' (JList [a']) d))\<rparr>"] by auto
  then show ?thesis by simp
qed

lemma sample_stop_accepted: "\<exists>r. validate_decision (\<lambda>_. ''1.0'') sample_stop sample_context = Inr r \<and> accepted r"
proof -
  let ?a = "sample_action ''stop_lane'' [(''lane_id'', JStr ''lane-1''), (''expected_lane_version'', JInt 4)]"
  have size: "json_bound (\<lambda>_. ''1.0'') (sample_decision [?a]) \<le> MAX_DECISION_BYTES"
    by (simp add: sample_defs MAX_DECISION_BYTES_def int_text_def show_nat.simps)
  have action: "action_ok sample_context {} ?a (''a1'', ''key-0001'')"
    by (simp add: sample_defs ok_defs name_defs)
  have starts: "action_starts ?a \<le> 7"
    by (simp add: action_starts_def sample_action_def str_field_def lane_starts_def)
  have norm: "normalize_action ?a = ?a" by (simp add: normalize_action_def sample_action_def)
  obtain a' where annotate: "annotate_action sample_context ?a = Inr a'"
    by (simp add: annotate_action_def sample_action_def audit_def)
  from sample_decision_accepted [OF action starts norm annotate size] show ?thesis
    by (auto simp: sample_stop_def)
qed

text \<open>
  C5. A decision that the validator accepts fits the snapshot it was made for: its normalised
  form names that snapshot and has one to twelve actions of applicable types, with distinct
  identifiers that are not reserved.  The target of a lane action is an executable active lane at
  the version the snapshot records; the checkpoint of a fork, and every candidate promoted or
  scheduled for verification, is admissible and executable; so is the checkpoint of a restart
  whose source is \<open>checkpoint\<close> and the candidate of one whose source is \<open>archive_elite\<close>.  Allocations
  name distinct executable lanes at their versions and do not exceed the whole by more than one
  part in a billion, the subjects of a diagnostic are subjects the snapshot offers for diagnostics, which may be inactive lanes, and
  the lanes the decision starts stay within the limit.  A restart from a new seed may carry
  identifiers that are not checked.
\<close>

theorem accepted_decision_is_safe:
  assumes "validate_decision frepr v ctx = Inr r" "accepted r"
  shows "\<exists>d as ids. normalized r = Some (JObj d) \<and> dict_get d ''snapshot_id'' = JStr (dc_snapshot_id ctx) \<and>
    dict_get d ''actions'' = JList as \<and> 1 \<le> length as \<and> length as \<le> 12 \<and>
    list_all2 (safe_action ctx) as ids \<and> distinct ids \<and> set ids \<inter> dc_reserved_action_ids ctx = {} \<and>
    int (length (dc_lane_versions ctx)) + sum_list (map action_starts as) \<le> dc_max_active_lanes ctx"
proof -
  from assms validate_decision_accepted [of frepr v ctx r] obtain d a where
    d: "passes (validate_fields frepr ctx d) ()" "annotate_parameter_effects ctx d = Inr a"
      "normalized r = Some (JObj a)" by auto
  from d(1) obtain hypotheses as ids where ok: "decision_ok ctx hypotheses d as ids"
    unfolding pass_validate_fields by blast
  then have as: "dict_get d ''actions'' = JList as" "list_all2 (action_ok ctx hypotheses) as ids"
    by (simp_all add: decision_ok_def)
  from d(2) annotate_decision [OF as(1)] obtain as' where
    as': "list_all2 (\<lambda>a a'. annotate_action ctx a = Inr a') as as'" "a = dict_set ''actions'' (JList as') d"
    by blast
  have len: "length as' = length as" "length ids = length as"
    using as(2) as'(1) by (simp_all add: list_all2_lengthD [symmetric])
  have each: "safe_action ctx (as' ! i) (map fst ids ! i)" "action_starts (as' ! i) = action_starts (as ! i)"
    "map fst ids ! i \<notin> dc_reserved_action_ids ctx" if "i < length as" for i
    using that len as(2) as'(1) annotated_action_safe [of ctx hypotheses "as ! i" "ids ! i" "as' ! i"]
    by (simp_all add: list_all2_conv_all_nth)
  have "map action_starts as' = map action_starts as" using each(2) len by (intro nth_equalityI) simp_all
  moreover have "set (map fst ids) \<inter> dc_reserved_action_ids ctx = {}"
    using each(3) len by (auto simp: in_set_conv_nth) (metis fst_conv nth_map)
  moreover have "list_all2 (safe_action ctx) as' (map fst ids)"
    using each(1) len by (simp add: list_all2_conv_all_nth)
  ultimately show ?thesis
    using ok d(3) len
    by (intro exI [of _ a] exI [of _ as'] exI [of _ "map fst ids"]) (simp add: as'(2) decision_ok_def)
qed

theorem accepted_decision_is_safe_witness:
  "\<exists>r d a. validate_decision (\<lambda>_. ''1.0'') sample_stop sample_context = Inr r \<and> normalized r = Some (JObj d) \<and>
     a \<in> set (case dict_get d ''actions'' of JList as \<Rightarrow> as | _ \<Rightarrow> []) \<and> (\<exists>i. safe_action sample_context a i)"
proof -
  obtain r where r: "validate_decision (\<lambda>_. ''1.0'') sample_stop sample_context = Inr r" "accepted r"
    using sample_stop_accepted by blast
  from accepted_decision_is_safe [OF r] obtain d as ids where
    d: "normalized r = Some (JObj d)" "dict_get d ''actions'' = JList as" "1 \<le> length as"
      "list_all2 (safe_action sample_context) as ids" by blast
  then have "safe_action sample_context (as ! 0) (ids ! 0)" "as ! 0 \<in> set as"
    by (auto simp: list_all2_conv_all_nth Suc_le_eq intro: nth_mem)
  with r(1) d show ?thesis by auto
qed

end
