(* ===== verification/Lane_Spec.thy ===== *)
theory Lane_Spec
  imports Decision_Spec Certification
begin

text \<open>
  From an accepted decision to a running lane: \<open>LaneSpec\<close> with its validation
  (\<open>src/src/sglab/research/lanes.py\<close>), the specification that the dispatcher builds for a
  \<open>start_lane\<close> action (\<open>src/src/sglab/research/actions.py\<close>), the parameters after a patch, and
  the specification of a forked lane.

  The validator of decisions and the validation of lane specifications are two separate
  pieces of code that must agree.  They do for started and patched lanes
  (\<open>accepted_start_is_runnable\<close>, \<open>accepted_patch_is_runnable\<close>); for forked lanes they do not
  (\<open>accepted_fork_may_be_rejected\<close>), because the weights of a fork variant are not normalised.

  SHA-256 is a parameter from text to the hexadecimal digest.
\<close>

section \<open>Lane specifications\<close>

record lane_spec =
  sp_lane_id :: string
  sp_campaign_id :: string
  sp_target :: string
  sp_algorithm :: string
  sp_graph_family :: string
  sp_seed :: int
  sp_parameters :: json_obj
  sp_resource_share :: py_float
  sp_lane_version :: int
  sp_parent_lane_id :: "string option"
  sp_created_by_action_id :: "string option"
  sp_parent_checkpoint_id :: "string option"
  sp_seed_lineage :: "int list"

definition isclose_one :: "py_float \<Rightarrow> bool" where
  "isclose_one x = (case x of Fin r \<Rightarrow> \<bar>r - 1\<bar> \<le> 1 / 1000000000 | _ \<Rightarrow> False)"

definition bad_weight :: "json \<Rightarrow> bool" where
  "bad_weight w = (case w of JInt i \<Rightarrow> i < 0 | JFloat x \<Rightarrow> py_lt x (Fin 0) | _ \<Rightarrow> True)"

definition validate_weights :: "json \<Rightarrow> unit result" where
  "validate_weights v =
     (case v of
        JObj d \<Rightarrow>
          if fst ` set d \<noteq> set MUTATION_OPERATORS
          then Inl (ValueError ''mutation_weights must contain every reviewed operator'')
          else if \<exists>w\<in>snd ` set d. bad_weight w
          then Inl (ValueError ''mutation weights must be non-negative'')
          else rbind (sum_weights (map snd d) (Fin 0)) (\<lambda>whole.
                 if \<not> isclose_one whole then Inl (ValueError ''mutation weights must be normalized'')
                 else Inr ())
      | _ \<Rightarrow> Inl (ValueError ''mutation_weights must contain every reviewed operator''))"

definition validate_number :: "string \<Rightarrow> domain \<Rightarrow> json \<Rightarrow> unit result" where
  "validate_number name bounds v =
     (let outside = Inl (ValueError (''lane parameter outside reviewed domain: '' @ name))
      in case (v, bounds) of
           (JInt i, Integer_Domain lo hi) \<Rightarrow> if lo \<le> i \<and> i \<le> hi then Inr () else outside
         | (JInt i, Number_Domain lo hi) \<Rightarrow> if lo \<le> of_int i \<and> of_int i \<le> hi then Inr () else outside
         | (JFloat x, Integer_Domain lo hi) \<Rightarrow>
             Inl (ValueError (''lane parameter must be an integer: '' @ name))
         | (JFloat x, Number_Domain lo hi) \<Rightarrow>
             if py_le (Fin lo) x \<and> py_le x (Fin hi) then Inr () else outside
         | (JInt _, Enum_Domain _) \<Rightarrow> Inl KeyError
         | (JFloat _, Enum_Domain _) \<Rightarrow> Inl KeyError
         | _ \<Rightarrow> Inl (ValueError (''lane parameter must be numeric: '' @ name)))"

definition validate_parameter :: "string \<times> json \<Rightarrow> unit \<Rightarrow> unit result" where
  "validate_parameter = (\<lambda>(name, v) _.
     if name = MUTATION_WEIGHTS_PARAMETER then validate_weights v
     else case map_of PARAMETER_DOMAINS name of
       None \<Rightarrow> Inl KeyError
     | Some bounds \<Rightarrow>
         if name = ''proposal_ranking'' then
           (if v \<noteq> JStr REVIEWED_PROPOSAL_RANKING_CATALOG_ID
            then Inl (ValueError ''proposal_ranking must use the reviewed catalog ID'') else Inr ())
         else validate_number name bounds v)"

text \<open>\<open>int(order) % 2\<close>; the order is an integer when this is reached.\<close>

definition odd_order :: "json_obj \<Rightarrow> bool" where
  "odd_order ps = (case dict_get ps ''order'' of JInt i \<Rightarrow> i mod 2 \<noteq> 0 | _ \<Rightarrow> False)"

definition validate_spec :: "lane_spec \<Rightarrow> unit result" where
  "validate_spec s =
     (if TARGETS (sp_target s) = None then Inl (ValueError (''unsupported lane target: '' @ sp_target s))
      else if sp_algorithm s \<notin> set ALGORITHMS
      then Inl (ValueError (''unsupported lane algorithm: '' @ sp_algorithm s))
      else if sp_graph_family s \<notin> fst ` set GRAPH_FAMILIES
      then Inl (ValueError (''unsupported graph family: '' @ sp_graph_family s))
      else if \<not> (py_lt (Fin 0) (sp_resource_share s) \<and> py_le (sp_resource_share s) (Fin 1))
      then Inl (ValueError ''resource_share must be in (0, 1]'')
      else if sp_lane_version s < 0 then Inl (ValueError ''lane_version cannot be negative'')
      else
        case map_of ALGORITHM_PARAMETERS (sp_algorithm s) of
          None \<Rightarrow> Inl KeyError
        | Some allowed \<Rightarrow>
            if fst ` set (sp_parameters s) - set allowed \<noteq> {}
            then Inl (ValueError ''lane has parameters outside its algorithm domain'')
            else
              rbind (fold_result (\<lambda>k _.
                  if k \<notin> fst ` set (sp_parameters s)
                  then Inl (ValueError (''lane parameter is required: '' @ k)) else Inr ())
                [''order'', ''batch_candidates'', ''witness_cap''] ()) (\<lambda>_.
              rbind (fold_result validate_parameter (sp_parameters s) ()) (\<lambda>_.
              if sp_graph_family s = ''connected_cubic'' \<and> odd_order (sp_parameters s)
              then Inl (ValueError ''connected_cubic requires even order'')
              else if ''proposal_ranking'' \<in> fst ` set (sp_parameters s) \<and> sp_algorithm s = ''random_restart''
              then Inl (ValueError ''reviewed proposal ranking requires a mutation lane'')
              else Inr ())))"

section \<open>Building specifications\<close>

definition derived_id :: "(string \<Rightarrow> string) \<Rightarrow> string \<Rightarrow> string \<Rightarrow> string" where
  "derived_id sha pre v = pre @ ''-'' @ take 24 (sha v)"

text \<open>
  The conversions of the dispatcher on an accepted specification, whose seed is an integer
  and whose share is a number.
\<close>

definition float_of_json :: "json \<Rightarrow> py_float result" where
  "float_of_json v =
     (case v of JInt i \<Rightarrow> float_of_int i | JFloat x \<Rightarrow> Inr x
      | _ \<Rightarrow> Inl (TypeError ''float() argument must be a string or a real number''))"

definition int_of_json :: "json \<Rightarrow> int result" where
  "int_of_json v =
     (case v of JInt i \<Rightarrow> Inr i | _ \<Rightarrow> Inl (TypeError ''int() argument must be a string or a real number''))"

definition dispatch_start ::
  "(string \<Rightarrow> string) \<Rightarrow> string \<Rightarrow> string \<Rightarrow> string \<Rightarrow> json_obj \<Rightarrow> lane_spec result" where
  "dispatch_start sha campaign_id target action_id spec =
     rbind (int_of_json (dict_get spec ''seed'')) (\<lambda>seed.
     rbind (float_of_json (dict_get spec ''resource_share'')) (\<lambda>share.
     Inr \<lparr>sp_lane_id = derived_id sha ''lane'' action_id, sp_campaign_id = campaign_id, sp_target = target,
       sp_algorithm = str_field spec ''algorithm'', sp_graph_family = str_field spec ''graph_family'',
       sp_seed = seed, sp_parameters = obj_field spec ''parameters'', sp_resource_share = share,
       sp_lane_version = 0, sp_parent_lane_id = None, sp_created_by_action_id = Some action_id,
       sp_parent_checkpoint_id = None, sp_seed_lineage = [seed]\<rparr>))"

text \<open>\<open>{**parameters, **patch}\<close>, also the effect of \<open>parameters.update(patch)\<close>.\<close>

definition merge_parameters :: "json_obj \<Rightarrow> json_obj \<Rightarrow> json_obj" where
  "merge_parameters ps patch = fold (\<lambda>(k, v). dict_set k v) patch ps"

text \<open>
  \<open>patch\<close> of a running lane: the order of the running graph cannot change, the parameters are
  updated, and the tabu list, a deque, keeps its most recent entries within the new tenure.
\<close>

definition patch_engine :: "int \<Rightarrow> json_obj \<Rightarrow> 'k list \<Rightarrow> json_obj \<Rightarrow> (json_obj \<times> 'k list) result" where
  "patch_engine n ps tabu patch =
     rbind (if ''order'' \<in> fst ` set patch
            then rbind (int_of_json (dict_get patch ''order'')) (\<lambda>order.
              if order \<noteq> n then Inl (ValueError ''running lane order can change only through restart'') else Inr ())
            else Inr ()) (\<lambda>_.
     let ps' = merge_parameters ps patch
     in rbind (if ''tabu_tenure'' \<in> fst ` set ps' then int_of_json (dict_get ps' ''tabu_tenure'') else Inr 128) (\<lambda>tenure.
        if tenure < 0 then Inl (ValueError ''maxlen must be non-negative'')
        else Inr (ps', drop (length tabu - nat tenure) tabu)))"

text \<open>The first eight bytes of the digest as a big-endian integer, with the top bit cleared.\<close>

definition hex_nibble :: "char \<Rightarrow> int" where
  "hex_nibble c = (let n = int (of_char c) in if n < 58 then n - 48 else n - 87)"

definition derived_seed :: "(string \<Rightarrow> string) \<Rightarrow> string \<Rightarrow> string \<Rightarrow> int" where
  "derived_seed sha action_id lane_id =
     foldl (\<lambda>acc c. 16 * acc + hex_nibble c) 0 (take 16 (sha (action_id @ '':'' @ lane_id))) mod 2 ^ 63"

definition fork_spec ::
  "(string \<Rightarrow> string) \<Rightarrow> lane_spec \<Rightarrow> json_obj \<Rightarrow> string \<Rightarrow> string \<Rightarrow> string \<Rightarrow> json_obj \<Rightarrow> py_float \<Rightarrow> lane_spec" where
  "fork_spec sha parent parent_parameters child_id action_id checkpoint_id patch share =
     (let fork_seed = derived_seed sha action_id child_id
      in \<lparr>sp_lane_id = child_id, sp_campaign_id = sp_campaign_id parent, sp_target = sp_target parent,
          sp_algorithm = sp_algorithm parent, sp_graph_family = sp_graph_family parent, sp_seed = fork_seed,
          sp_parameters = merge_parameters parent_parameters patch, sp_resource_share = share,
          sp_lane_version = 0, sp_parent_lane_id = Some (sp_lane_id parent),
          sp_created_by_action_id = Some action_id, sp_parent_checkpoint_id = Some checkpoint_id,
          sp_seed_lineage = sp_seed_lineage parent @ [sp_seed parent, fork_seed]\<rparr>)"

text \<open>The child that the dispatcher makes of the variant at an index of a \<open>fork_lane\<close> action.\<close>

definition dispatch_fork ::
  "(string \<Rightarrow> string) \<Rightarrow> lane_spec \<Rightarrow> json_obj \<Rightarrow> string \<Rightarrow> string \<Rightarrow> nat \<Rightarrow> json_obj \<Rightarrow> lane_spec result" where
  "dispatch_fork sha parent parent_parameters action_id checkpoint_id index variant =
     (let child_id = derived_id sha ''lane''
            (action_id @ '':'' @ int_text (int index) @ '':'' @ str_field variant ''name'')
      in rbind (float_of_json (dict_get variant ''resource_share'')) (\<lambda>share.
         Inr (fork_spec sha parent parent_parameters child_id action_id checkpoint_id
           (obj_field variant ''patch'') share)))"

section \<open>What a valid specification satisfies\<close>

definition lane_weights_ok :: "json \<Rightarrow> bool" where
  "lane_weights_ok v \<longleftrightarrow> validate_weights v = Inr ()"

definition lane_param_ok :: "string \<Rightarrow> json \<Rightarrow> bool" where
  "lane_param_ok name v \<longleftrightarrow>
     (if name = MUTATION_WEIGHTS_PARAMETER then lane_weights_ok v
      else if name = ''proposal_ranking'' then v = JStr REVIEWED_PROPOSAL_RANKING_CATALOG_ID
      else case map_of PARAMETER_DOMAINS name of
        Some (Integer_Domain lo hi) \<Rightarrow> (\<exists>i. v = JInt i \<and> lo \<le> i \<and> i \<le> hi)
      | Some (Number_Domain lo hi) \<Rightarrow>
          (\<exists>i. v = JInt i \<and> lo \<le> of_int i \<and> of_int i \<le> hi) \<or> (\<exists>r. v = JFloat (Fin r) \<and> lo \<le> r \<and> r \<le> hi)
      | _ \<Rightarrow> False)"

lemma validate_parameter_ok: "validate_parameter (name, v) () = Inr u \<longleftrightarrow> lane_param_ok name v"
proof (cases "name = MUTATION_WEIGHTS_PARAMETER \<or> name = ''proposal_ranking''")
  case True
  then show ?thesis
    by (auto simp: validate_parameter_def lane_param_ok_def lane_weights_ok_def ranking_in_domains unit_eq
      MUTATION_WEIGHTS_PARAMETER_def)
next
  case False
  have fin: "py_le (Fin lo) x \<and> py_le x (Fin hi) \<longleftrightarrow> (\<exists>r. x = Fin r \<and> lo \<le> r \<and> r \<le> hi)" for lo hi x
    by (cases x) (auto simp: py_le_def py_lt_def)
  from False show ?thesis
    by (auto simp: validate_parameter_def lane_param_ok_def validate_number_def Let_def fin unit_eq
      split: option.splits domain.splits json.splits if_splits)
qed

definition spec_ok :: "lane_spec \<Rightarrow> bool" where
  "spec_ok s \<longleftrightarrow>
     TARGETS (sp_target s) \<noteq> None \<and> sp_graph_family s \<in> fst ` set GRAPH_FAMILIES \<and>
     (\<exists>r. sp_resource_share s = Fin r \<and> 0 < r \<and> r \<le> 1) \<and> 0 \<le> sp_lane_version s \<and>
     (\<exists>allowed. map_of ALGORITHM_PARAMETERS (sp_algorithm s) = Some allowed \<and>
        (\<forall>(k, v)\<in>set (sp_parameters s). k \<in> set allowed \<and> lane_param_ok k v)) \<and>
     {''order'', ''batch_candidates'', ''witness_cap''} \<subseteq> fst ` set (sp_parameters s) \<and>
     (sp_graph_family s = ''connected_cubic'' \<longrightarrow> \<not> odd_order (sp_parameters s))"

lemma algorithms_known: "a \<in> set ALGORITHMS \<longleftrightarrow> map_of ALGORITHM_PARAMETERS a \<noteq> None"
  by (simp add: ALGORITHMS_def EXPERIMENT_ALGORITHMS_def ALGORITHM_PARAMETERS_def)

lemma random_restart_parameters:
  "map_of ALGORITHM_PARAMETERS ''random_restart'' = Some [''order'', ''batch_candidates'', ''witness_cap'']"
  by (simp add: ALGORITHM_PARAMETERS_def)

lemma share_range: "py_lt (Fin 0) x \<and> py_le x (Fin 1) \<longleftrightarrow> (\<exists>r. x = Fin r \<and> 0 < r \<and> r \<le> 1)"
  by (cases x) (auto simp: py_le_def py_lt_def)

lemma fold_validate_parameter:
  "fold_result validate_parameter ps () = Inr u \<longleftrightarrow> (\<forall>(k, v)\<in>set ps. lane_param_ok k v)"
  unfolding fold_result_unit_ok by (auto simp: validate_parameter_ok)

lemma validate_spec_iff: "validate_spec s = Inr () \<longleftrightarrow> spec_ok s"
proof (cases "map_of ALGORITHM_PARAMETERS (sp_algorithm s)")
  case None
  then have "sp_algorithm s \<notin> set ALGORITHMS" by (simp add: algorithms_known)
  with None show ?thesis by (simp add: validate_spec_def spec_ok_def)
next
  case (Some allowed)
  then have alg: "sp_algorithm s \<in> set ALGORITHMS" by (simp add: algorithms_known)
  have required: "fold_result (\<lambda>k _. if k \<notin> fst ` set ps then Inl (ValueError (m @ k)) else Inr ())
      [''order'', ''batch_candidates'', ''witness_cap''] () = Inr u \<longleftrightarrow>
      {''order'', ''batch_candidates'', ''witness_cap''} \<subseteq> fst ` set ps" for ps :: json_obj and u m
    unfolding fold_result_unit_ok by auto
  have ranked: "\<not> (''proposal_ranking'' \<in> fst ` set ps \<and> sp_algorithm s = ''random_restart'')"
    if "fst ` set ps - set allowed = {}" for ps :: json_obj
  proof
    assume *: "''proposal_ranking'' \<in> fst ` set ps \<and> sp_algorithm s = ''random_restart''"
    then have "allowed = [''order'', ''batch_candidates'', ''witness_cap'']"
      using Some random_restart_parameters by simp
    moreover have "''proposal_ranking'' \<in> set allowed" using * that by blast
    ultimately show False by simp
  qed
  have keys: "fst ` set (sp_parameters s) - set allowed = {} \<longleftrightarrow> (\<forall>(k, v)\<in>set (sp_parameters s). k \<in> set allowed)"
    by (auto split: prod.splits)
  show ?thesis
    unfolding validate_spec_def spec_ok_def Some option.case rbind_if_Inr_iff rbind_Inr_iff required
      fold_validate_parameter share_range
    using alg ranked [of "sp_parameters s"] keys by (auto simp: not_less unit_eq)
qed

section \<open>Dictionaries with distinct keys\<close>

fun wf_json :: "json \<Rightarrow> bool" where
  "wf_json (JList xs) = (\<forall>x\<in>set xs. wf_json x)"
| "wf_json (JObj d) = (distinct (map fst d) \<and> (\<forall>(k, v)\<in>set d. wf_json v))"
| "wf_json _ = True"

lemma wf_dict_get: "wf_json (JObj d) \<Longrightarrow> wf_json (dict_get d k)"
  by (auto simp: dict_get_def split: option.splits dest!: map_of_SomeD)

lemma set_dict_set: "set (dict_set k v d) \<subseteq> insert (k, v) (set d)"
  unfolding dict_set_def by (induction d) auto

lemma wf_dict_set: "wf_json (JObj d) \<Longrightarrow> wf_json v \<Longrightarrow> wf_json (JObj (dict_set k v d))"
  using set_dict_set [of k v d] by (auto simp: dict_set_def distinct_update)

lemma wf_filter: "wf_json (JObj d) \<Longrightarrow> wf_json (JObj (filter P d))"
  by (auto simp: distinct_map_filter)

lemma wf_in_field:
  assumes "wf_json (JObj d)" "\<And>e. wf_json (JObj e) \<Longrightarrow> wf_json (JObj (f e))"
  shows "wf_json (JObj (in_field k f d))"
proof (cases "dict_get d k")
  case (JObj e)
  then have "wf_json (JObj (f e))" using wf_dict_get [OF assms(1), of k] assms(2) by simp
  with JObj assms(1) show ?thesis unfolding in_field_def by (simp only: json.case wf_dict_set)
qed (use assms(1) in \<open>simp_all add: in_field_def\<close>)

lemma wf_normalize_action: "wf_json a \<Longrightarrow> wf_json (normalize_action a)"
proof (cases a)
  case (JObj d)
  assume wf: "wf_json a"
  have wf_if: "wf_json (JObj x) \<Longrightarrow> wf_json (JObj y) \<Longrightarrow> wf_json (JObj (if b then x else y))" for b x y
    by simp
  have drop: "wf_json (JObj e) \<Longrightarrow> wf_json (JObj (drop_null_values e))" for e
    unfolding drop_null_values_def by (rule wf_filter)
  have pop: "wf_json (JObj e) \<Longrightarrow> wf_json (JObj (pop_null k e))" for e k
    unfolding pop_null_def by (intro wf_if wf_filter)
  have field: "wf_json (JObj d) \<Longrightarrow> wf_json (JObj (in_field k drop_null_values d))" for d k
    by (rule wf_in_field) (simp_all only: drop)
  have variants: "wf_json (JObj (case dict_get d ''variants'' of
      JList vs \<Rightarrow> dict_set ''variants''
        (JList (map (\<lambda>v. case v of JObj e \<Rightarrow> JObj (in_field ''patch'' drop_null_values e) | _ \<Rightarrow> v) vs)) d
    | _ \<Rightarrow> d))"
  proof (cases "dict_get d ''variants''")
    case (JList vs)
    have vs: "wf_json x" if "x \<in> set vs" for x
      using wf_dict_get [of d "''variants''"] wf that by (simp add: JObj JList)
    have "wf_json (JList (map (\<lambda>v. case v of JObj e \<Rightarrow> JObj (in_field ''patch'' drop_null_values e) | _ \<Rightarrow> v) vs))"
      unfolding wf_json.simps(1)
    proof
      fix x assume "x \<in> set (map (\<lambda>v. case v of JObj e \<Rightarrow> JObj (in_field ''patch'' drop_null_values e) | _ \<Rightarrow> v) vs)"
      then obtain y where y: "y \<in> set vs"
        "x = (case y of JObj e \<Rightarrow> JObj (in_field ''patch'' drop_null_values e) | _ \<Rightarrow> y)" by auto
      with vs [OF y(1)] field show "wf_json x" by (cases y) simp_all
    qed
    with wf show ?thesis unfolding JObj JList json.case by (rule wf_dict_set)
  qed (use wf in \<open>simp_all only: JObj json.case\<close>)
  have spec: "wf_json (JObj (in_field ''spec'' (in_field ''parameters'' drop_null_values) d))"
    using wf unfolding JObj by (rule wf_in_field) (rule field)
  have restart: "wf_json (JObj (in_field ''restart_spec''
      (\<lambda>e. pop_null ''candidate_id'' (pop_null ''checkpoint_id'' e)) d))"
    using wf unfolding JObj by (rule wf_in_field) (intro pop)
  have d: "wf_json (JObj d)" using wf by (simp only: JObj)
  show ?thesis
    unfolding JObj normalize_action_def Let_def json.case
    by (intro wf_if spec field [OF d] variants restart d)
qed (simp_all add: normalize_action_def)

lemma wf_normalize_transport_nulls: "wf_json v \<Longrightarrow> wf_json (normalize_transport_nulls v)"
proof (cases v)
  case (JObj d)
  assume wf: "wf_json v"
  show ?thesis
  proof (cases "dict_get d ''actions''")
    case (JList as)
    have "wf_json (JList as)" using wf_dict_get [of d "''actions''"] wf by (simp only: JObj JList)
    then have "wf_json (JList (map normalize_action as))" by (auto intro: wf_normalize_action)
    with wf show ?thesis
      unfolding JObj normalize_transport_nulls_def JList json.case by (intro wf_dict_set)
  qed (use wf in \<open>simp_all add: JObj normalize_transport_nulls_def\<close>)
qed (simp_all add: normalize_transport_nulls_def)

section \<open>Normalised weights\<close>

definition num_rat :: "json \<Rightarrow> rat" where
  "num_rat v = (case v of JInt i \<Rightarrow> of_int i | JFloat (Fin r) \<Rightarrow> r | _ \<Rightarrow> 0)"

definition weight_of :: "json_obj \<Rightarrow> string \<Rightarrow> rat" where
  "weight_of d k = (case map_of d k of None \<Rightarrow> 0 | Some v \<Rightarrow> num_rat v)"

text \<open>
  Weights so large that their sum has no finite float: the only requests whose normalised
  weights do not add up to one.
\<close>

definition weights_overflow :: "json \<Rightarrow> bool" where
  "weights_overflow v =
     (case v of JObj d \<Rightarrow> of_int float_limit \<le> sum_list (map (\<lambda>(k, w). num_rat w) d) | _ \<Rightarrow> False)"

lemma is_number_num_rat: "is_number v r \<Longrightarrow> num_rat v = r"
  by (auto simp: is_number_def num_rat_def)

lemma weight_values_map: "weight_values d rs \<Longrightarrow> rs = map (\<lambda>(k, v). num_rat v) d"
  unfolding weight_values_def
  by (induction rule: list_all2_induct) (auto dest: is_number_num_rat)

lemma sum_weight_of:
  "distinct (map fst d) \<Longrightarrow> finite A \<Longrightarrow> fst ` set d \<subseteq> A \<Longrightarrow>
   sum_list (map (\<lambda>(k, v). num_rat v) d) = (\<Sum>k\<in>A. weight_of d k)"
proof (induction d)
  case (Cons kv d)
  obtain k v where kv: "kv = (k, v)" by fastforce
  from Cons.prems kv have k: "k \<in> A" "k \<notin> fst ` set d" by auto
  then have "map_of d k = None" by (simp add: map_of_eq_None_iff)
  then have "weight_of d k = 0" by (simp add: weight_of_def)
  moreover have "(\<Sum>x\<in>A - {k}. weight_of (kv # d) x) = (\<Sum>x\<in>A - {k}. weight_of d x)"
    by (rule sum.cong) (auto simp: weight_of_def kv)
  ultimately show ?case
    using Cons k by (simp add: kv sum.remove [of A k] weight_of_def)
qed (simp add: weight_of_def)

lemma weight_sum_cases:
  "\<forall>r\<in>set rs. 0 \<le> r \<Longrightarrow> 0 \<le> a \<Longrightarrow> weight_sum (Fin a) rs = Fin (a + sum_list rs) \<or>
   weight_sum (Fin a) rs = PosInf \<and> of_int float_limit \<le> a + sum_list rs"
proof (induction rs arbitrary: a)
  case (Cons r rs)
  have inf: "weight_sum PosInf rs = PosInf" by (induction rs) (simp_all add: py_add_def)
  show ?case
  proof (cases "of_int float_limit \<le> a + r")
    case True
    have "0 \<le> sum_list rs" using Cons.prems(1) by (simp add: sum_list_nonneg)
    with True show ?thesis by (simp add: py_add_def inf)
  next
    case False
    then have "py_add (Fin a) (Fin r) = Fin (a + r)"
      using Cons.prems float_limit_rat by (auto simp: py_add_def)
    with Cons.IH [of "a + r"] Cons.prems show ?thesis by (simp add: add.assoc)
  qed
qed simp

lemma sum_weights_values: "weight_values d rs \<Longrightarrow> sum_weights (map snd d) acc = Inr (weight_sum acc rs)"
proof (induction d arbitrary: rs acc)
  case (Cons kv d)
  obtain k v where kv: "kv = (k, v)" by fastforce
  with Cons.prems obtain r rs' where "rs = r # rs'" "is_number v r" "weight_values d rs'"
    by (auto simp: weight_values_Cons)
  with Cons.IH kv show ?case by (auto simp: is_number_def float_of_int_def)
qed simp

lemma weight_values_nonneg: "weight_values d rs \<Longrightarrow> \<forall>r\<in>set rs. 0 \<le> r"
  unfolding weight_values_def by (induction rule: list_all2_induct) auto

lemma weight_values_number:
  assumes "weight_values d rs" "map_of d k = Some v"
  shows "is_number v (num_rat v)" "0 \<le> num_rat v"
proof -
  from map_of_SomeD [OF assms(2)] obtain i where i: "i < length d" "d ! i = (k, v)" by (auto simp: in_set_conv_nth)
  with assms(1) have "is_number v (rs ! i)" "0 \<le> rs ! i" by (auto simp: weight_values_def list_all2_conv_all_nth)
  with is_number_num_rat show "is_number v (num_rat v)" "0 \<le> num_rat v" by auto
qed

lemma weight_of_nonneg: "weight_values d rs \<Longrightarrow> 0 \<le> weight_of d k"
  using weight_values_number(2) by (auto simp: weight_of_def split: option.splits)

lemma weight_share_float:
  assumes "weight_values d rs" "py_div (Fin (weight_of d k)) whole = Inr y"
  shows "weight_share d whole k = Inr (k, JFloat y)"
proof (cases "map_of d k")
  case None
  with assms(2) show ?thesis by (simp add: weight_share_def weight_of_def)
next
  case (Some v)
  from weight_values_number(1) [OF assms(1) Some] Some assms(2) show ?thesis
    by (cases v) (auto simp: weight_share_def weight_of_def is_number_def float_of_int_def num_rat_def)
qed

lemma py_div_share:
  assumes "0 \<le> a" "a \<le> S" "0 < S"
  shows "py_div (Fin a) (Fin S) = Inr (Fin (a / S))"
proof -
  have "a / S \<le> 1" "0 \<le> a / S" using assms by simp_all
  then have "\<not> of_int float_limit \<le> \<bar>a / S\<bar>" using float_limit_rat by linarith
  with assms(3) show ?thesis by (simp add: py_div_def)
qed

lemma normalized_lane_weights:
  assumes "0 \<le> a" "0 \<le> b" "a + b = 1"
  shows "lane_weights_ok (JObj [(''uniform_two_edge_switch'', JFloat (Fin a)),
    (''forbidden_cycle_break_switch'', JFloat (Fin b))])"
proof -
  have "py_add (py_add (Fin 0) (Fin a)) (Fin b) = Fin 1"
    using assms float_limit_rat by (auto simp: py_add_def)
  then show ?thesis
    using assms by (simp add: lane_weights_ok_def validate_weights_def MUTATION_OPERATORS_def bad_weight_def
      isclose_one_def)
qed

lemma normalize_weights_ok:
  assumes "weights_ok v" "wf_json v"
  shows "\<exists>v'. normalize_weights v = Inr v' \<and> (lane_weights_ok v' \<or> weights_overflow v)"
proof -
  from assms(1) obtain d rs where d: "v = JObj d" "fst ` set d \<subseteq> set MUTATION_OPERATORS" "weight_values d rs"
    "\<not> py_le (weight_sum (Fin 0) rs) (Fin 0)" by (auto simp: weights_ok_def)
  let ?u = "''uniform_two_edge_switch''" and ?f = "''forbidden_cycle_break_switch''"
  let ?S = "sum_list rs"
  have ops: "set MUTATION_OPERATORS = {?u, ?f}" "?u \<noteq> ?f" by (simp_all add: MUTATION_OPERATORS_def)
  have S: "?S = weight_of d ?u + weight_of d ?f"
    using sum_weight_of [of d "{?u, ?f}"] assms(2) d(1,2) weight_values_map [OF d(3)] ops by simp
  note nonneg = weight_values_nonneg [OF d(3)]
  note rw = weight_of_nonneg [OF d(3)]
  have fold: "normalize_weights v = Inr (JObj [(?u, x), (?f, y)])"
    if "sum_weights (map snd d) (Fin 0) = Inr w" "weight_share d w ?u = Inr (?u, x)"
      "weight_share d w ?f = Inr (?f, y)" for w x y
    using that by (simp add: d(1) normalize_weights_def MUTATION_OPERATORS_def)
  from weight_sum_cases [OF nonneg, of 0] have "weight_sum (Fin 0) rs = Fin ?S \<or>
      weight_sum (Fin 0) rs = PosInf \<and> of_int float_limit \<le> ?S" by simp
  then show ?thesis
  proof
    assume w: "weight_sum (Fin 0) rs = Fin ?S"
    with d(4) have pos: "0 < ?S" by simp
    have le: "weight_of d ?u \<le> ?S" "weight_of d ?f \<le> ?S"
      using S rw [of ?u] rw [of ?f] by linarith+
    have "normalize_weights v = Inr (JObj [(?u, JFloat (Fin (weight_of d ?u / ?S))), (?f, JFloat (Fin (weight_of d ?f / ?S)))])"
      using sum_weights_values [OF d(3), of "Fin 0", unfolded w]
      by (rule fold) (intro weight_share_float [OF d(3)] py_div_share rw le pos)+
    moreover have "lane_weights_ok (JObj [(?u, JFloat (Fin (weight_of d ?u / ?S))), (?f, JFloat (Fin (weight_of d ?f / ?S)))])"
      using rw pos S by (intro normalized_lane_weights) (simp_all only: add_divide_distrib [symmetric] divide_self_if
        zero_le_divide_iff, auto)
    ultimately show ?thesis by blast
  next
    assume overflow: "weight_sum (Fin 0) rs = PosInf \<and> of_int float_limit \<le> ?S"
    then have w: "weight_sum (Fin 0) rs = PosInf" by simp
    have "normalize_weights v = Inr (JObj [(?u, JFloat (Fin 0)), (?f, JFloat (Fin 0))])"
      using sum_weights_values [OF d(3), of "Fin 0", unfolded w]
      by (rule fold) (intro weight_share_float [OF d(3)], simp add: py_div_def)+
    moreover have "weights_overflow v"
      using overflow weight_values_map [OF d(3)] by (simp add: weights_overflow_def d(1))
    ultimately show ?thesis by blast
  qed
qed

section \<open>Parameters of accepted actions\<close>

lemma lane_param_of_value: "param_value_ok algorithm ranking k w \<Longrightarrow> k \<noteq> MUTATION_WEIGHTS_PARAMETER \<Longrightarrow> lane_param_ok k w"
  by (auto simp: param_value_ok_def lane_param_ok_def is_number_def split: if_splits option.splits domain.splits)

lemma keys_dict_set: "fst ` set (dict_set k v d) = insert k (fst ` set d)"
  by (simp add: dict_set_def update_conv' flip: dom_map_of_conv_image_fst)

lemma normalize_parameters_ok:
  assumes ps: "\<And>k w. (k, w) \<in> set ps \<Longrightarrow> k \<in> K \<and> param_value_ok algorithm ranking k w" and wf: "wf_json (JObj ps)"
  obtains ps' where "normalize_parameters ps = Inr ps'" "fst ` set ps' = fst ` set ps"
    "dict_get ps' ''order'' = dict_get ps ''order''"
    "(\<forall>(k, w)\<in>set ps'. k \<in> K \<and> lane_param_ok k w) \<or>
      weights_overflow (dict_get ps MUTATION_WEIGHTS_PARAMETER)"
    "\<forall>(k, w)\<in>set ps'. k \<noteq> MUTATION_WEIGHTS_PARAMETER \<longrightarrow> lane_param_ok k w"
proof (cases "MUTATION_WEIGHTS_PARAMETER \<in> fst ` set ps")
  case False
  then have "lane_param_ok k w" if "(k, w) \<in> set ps" for k w
    using ps [OF that] that by (intro lane_param_of_value) (auto simp: image_iff)
  with ps have "\<forall>(k, w)\<in>set ps. k \<in> K \<and> lane_param_ok k w" by blast
  with False show ?thesis by (intro that [of ps]) (auto simp: normalize_parameters_def)
next
  case True
  let ?m = MUTATION_WEIGHTS_PARAMETER
  from True obtain w where w: "(?m, w) \<in> set ps" by force
  have dist: "distinct (map fst ps)" using wf by simp
  then have get: "dict_get ps ?m = w" using w by (simp add: dict_get_def)
  have "weights_ok w" using ps [OF w] by (simp add: param_value_ok_def)
  moreover have "wf_json w" using wf_dict_get [OF wf, of ?m] get by simp
  ultimately obtain w' where w': "normalize_weights w = Inr w'" "lane_weights_ok w' \<or> weights_overflow w"
    using normalize_weights_ok by blast
  let ?ps = "dict_set ?m w' ps"
  have order: "''order'' \<noteq> ?m" by (simp add: MUTATION_WEIGHTS_PARAMETER_def)
  have dist': "distinct (map fst ?ps)" using dist by (simp add: dict_set_def distinct_update)
  have "map_of ?ps = (map_of ps)(?m \<mapsto> w')" by (simp add: dict_set_def update_conv')
  then have entry: "(k, v) \<in> set ?ps \<longleftrightarrow> (if k = ?m then v = w' else (k, v) \<in> set ps)" for k v
    unfolding map_of_eq_Some_iff [OF dist', symmetric] map_of_eq_Some_iff [OF dist, symmetric]
    by (simp add: eq_commute)
  have "k \<in> K \<and> lane_param_ok k v" if "(k, v) \<in> set ?ps" "lane_weights_ok w'" for k v
  proof (cases "k = ?m")
    case True
    with that entry ps [OF w] show ?thesis by (auto simp: lane_param_ok_def)
  next
    case False
    with that entry have "(k, v) \<in> set ps" by simp
    with ps lane_param_of_value False show ?thesis by blast
  qed
  then have "(\<forall>(k, w)\<in>set ?ps. k \<in> K \<and> lane_param_ok k w) \<or> weights_overflow (dict_get ps ?m)"
    using w'(2) get by auto
  moreover have "normalize_parameters ps = Inr ?ps" using True get w' by (simp add: normalize_parameters_def)
  moreover have "fst ` set ?ps = fst ` set ps" using True by (simp add: keys_dict_set insert_absorb)
  moreover have "dict_get ?ps ''order'' = dict_get ps ''order''" using order by simp
  moreover have "\<forall>(k, v)\<in>set ?ps. k \<noteq> ?m \<longrightarrow> lane_param_ok k v"
  proof (intro ballI case_prodI2 impI)
    fix x k v assume "x \<in> set ?ps" "x = (k, v)" "k \<noteq> ?m"
    then have "(k, v) \<in> set ps" using entry by simp
    with ps lane_param_of_value \<open>k \<noteq> ?m\<close> show "lane_param_ok k v" by blast
  qed
  ultimately show ?thesis by (intro that [of ?ps])
qed

text \<open>The action that the decision of the director holds at an index.\<close>

definition submitted_action :: "json \<Rightarrow> nat \<Rightarrow> json" where
  "submitted_action v i = (case v of JObj d \<Rightarrow> (case dict_get d ''actions'' of JList as \<Rightarrow> as ! i | _ \<Rightarrow> JNull) | _ \<Rightarrow> JNull)"

definition submitted_field :: "json \<Rightarrow> nat \<Rightarrow> string \<Rightarrow> json_obj" where
  "submitted_field v i k = (case submitted_action v i of JObj a \<Rightarrow> obj_field a k | _ \<Rightarrow> [])"

lemma dict_get_drop_null_values: "distinct (map fst e) \<Longrightarrow> dict_get (drop_null_values e) k = dict_get e k"
proof (induction e)
  case (Cons kv e)
  obtain k' v where kv: "kv = (k', v)" by fastforce
  have "map_of e k' = None" using Cons.prems by (simp add: kv map_of_eq_None_iff)
  then have "dict_get e k' = JNull" by (simp add: dict_get_def)
  with Cons kv show ?case by (auto simp: drop_null_values_def)
qed (simp add: drop_null_values_def)

lemma obj_field_in_field: "obj_field (in_field k f d) k' = (if k' = k \<and> (\<exists>e. dict_get d k = JObj e) then f (obj_field d k) else obj_field d k')"
  by (auto simp: obj_field_def in_field_def split: json.splits)

lemma wf_obj_field: "wf_json (JObj d) \<Longrightarrow> wf_json (JObj (obj_field d k))"
  using wf_dict_get [of d k] by (auto simp: obj_field_def split: json.splits)

lemma normalized_weights_field:
  assumes "wf_json (JObj raw)" "normalize_action (JObj raw) = JObj d"
  shows "dict_get d ''type'' = JStr ''start_lane'' \<Longrightarrow>
      dict_get (obj_field (obj_field d ''spec'') ''parameters'') k = dict_get (obj_field (obj_field raw ''spec'') ''parameters'') k"
    and "dict_get d ''type'' = JStr ''patch_lane'' \<Longrightarrow>
      dict_get (obj_field d ''patch'') k = dict_get (obj_field raw ''patch'') k"
proof -
  note raw = wf_obj_field [OF assms(1)]
  have get: "dict_get (drop_null_values (obj_field e k')) k = dict_get (obj_field e k') k" if "wf_json (JObj e)" for e k'
    using wf_obj_field [OF that, of k'] by (intro dict_get_drop_null_values) simp
  have type: "dict_get (in_field k' f e) ''type'' = dict_get e ''type''" if "k' \<noteq> ''type''" for k' f e
    using that by (simp add: in_field_def split: json.splits)
  have kind: "dict_get d ''type'' = dict_get raw ''type''"
    using assms(2) by (auto simp: normalize_action_def Let_def type split: if_splits json.splits)
  {
    assume "dict_get d ''type'' = JStr ''start_lane''"
    then have "d = in_field ''spec'' (in_field ''parameters'' drop_null_values) raw"
      using assms(2) kind by (simp add: normalize_action_def)
    then show "dict_get (obj_field (obj_field d ''spec'') ''parameters'') k = dict_get (obj_field (obj_field raw ''spec'') ''parameters'') k"
      using get [OF raw] by (simp add: obj_field_in_field)
  }
  {
    assume "dict_get d ''type'' = JStr ''patch_lane''"
    then have "d = in_field ''patch'' drop_null_values raw"
      using assms(2) kind by (simp add: normalize_action_def)
    then show "dict_get (obj_field d ''patch'') k = dict_get (obj_field raw ''patch'') k"
      using get [OF assms(1)] by (simp add: obj_field_in_field)
  }
qed

lemma accepted_action:
  assumes "validate_decision frepr v ctx = Inr r" "accepted r" "wf_json v"
    "normalized r = Some (JObj d)" "dict_get d ''actions'' = JList as" "i < length as"
  obtains raw d0 t where "annotate_action ctx (JObj d0) = Inr (as ! i)" "dict_get d0 ''type'' = JStr t" "t \<in> set ACTION_TYPES"
    "action_body_ok ctx t d0" "wf_json (JObj d0)" "submitted_action v i = JObj raw" "wf_json (JObj raw)"
    "normalize_action (JObj raw) = JObj d0"
proof -
  from assms(1,2) validate_decision_accepted [of frepr v ctx r] obtain n where
    n: "normalize_transport_nulls v = JObj n" "passes (validate_fields frepr ctx n) ()"
      "annotate_parameter_effects ctx n = Inr d" using assms(4) by auto
  from n(2) obtain hypotheses as0 ids where ok: "decision_ok ctx hypotheses n as0 ids"
    unfolding pass_validate_fields by blast
  then have as0: "dict_get n ''actions'' = JList as0" "list_all2 (action_ok ctx hypotheses) as0 ids"
    by (simp_all add: decision_ok_def)
  from n(3) annotate_decision [OF as0(1)] assms(5) have
    "list_all2 (\<lambda>a a'. annotate_action ctx a = Inr a') as0 as" by auto
  with assms(6) have i: "i < length as0" "annotate_action ctx (as0 ! i) = Inr (as ! i)"
    by (auto simp: list_all2_conv_all_nth)
  then have "action_ok ctx hypotheses (as0 ! i) (ids ! i)" using as0(2) by (simp add: list_all2_conv_all_nth)
  then obtain d0 t where d0: "as0 ! i = JObj d0" "dict_get d0 ''type'' = JStr t" "t \<in> set ACTION_TYPES" "action_body_ok ctx t d0"
    by (auto simp: action_ok_def split: prod.splits)
  obtain dv asv where v: "v = JObj dv" "dict_get dv ''actions'' = JList asv" "as0 = map normalize_action asv"
    using n(1) as0(1) by (auto simp: normalize_transport_nulls_def split: json.splits)
  have "wf_json (JList asv)" using wf_dict_get [of dv "''actions''"] v assms(3) by simp
  then have wf: "wf_json (asv ! i)" using i(1) v(3) by simp
  have norm: "normalize_action (asv ! i) = JObj d0" using i(1) d0(1) v(3) by simp
  then obtain raw where raw: "asv ! i = JObj raw" by (auto simp: normalize_action_def split: json.splits)
  have "wf_json (JObj d0)" using wf_normalize_action [OF wf] norm by simp
  moreover have "submitted_action v i = JObj raw" by (simp add: submitted_action_def v raw)
  ultimately show ?thesis using that i(2) d0 wf norm raw by metis
qed

lemma merge_parameters_entries: "(k, v) \<in> set (merge_parameters ps q) \<Longrightarrow> (k, v) \<in> set ps \<or> (k, v) \<in> set q"
  unfolding merge_parameters_def
  by (induction q arbitrary: ps) (use set_dict_set in \<open>fastforce\<close>)+

lemma merge_parameters_keys: "fst ` set (merge_parameters ps q) = fst ` set ps \<union> fst ` set q"
  unfolding merge_parameters_def
  by (induction q arbitrary: ps) (simp_all add: keys_dict_set split_beta insert_commute)

lemma merge_parameters_get: "k \<notin> fst ` set q \<Longrightarrow> dict_get (merge_parameters ps q) k = dict_get ps k"
  unfolding merge_parameters_def
  by (induction q arbitrary: ps) (simp_all add: split_beta)

lemma patchable_default:
  "map_of ALGORITHM_PARAMETERS algorithm = Some allowed \<Longrightarrow>
   k \<in> set (domain_default PATCHABLE_PARAMETERS (Some algorithm)) \<Longrightarrow> k \<in> set allowed \<and> k \<noteq> ''order''"
  by (auto simp: domain_default_def PATCHABLE_PARAMETERS_def map_of_map)

lemma spec_ok_patched:
  assumes "spec_ok s" "map_of ALGORITHM_PARAMETERS (sp_algorithm s) = Some allowed"
    and q: "\<forall>(k, w)\<in>set q. k \<in> set allowed \<and> lane_param_ok k w" and order: "''order'' \<notin> fst ` set q"
  shows "spec_ok (s\<lparr>sp_parameters := merge_parameters (sp_parameters s) q\<rparr>)"
proof -
  have each: "k \<in> set allowed \<and> lane_param_ok k v" if "(k, v) \<in> set (merge_parameters (sp_parameters s) q)" for k v
    using merge_parameters_entries [OF that] q assms(1,2) unfolding spec_ok_def by auto
  have "\<forall>(k, v)\<in>set (merge_parameters (sp_parameters s) q). k \<in> set allowed \<and> lane_param_ok k v"
    using each by blast
  moreover have "{''order'', ''batch_candidates'', ''witness_cap''} \<subseteq> fst ` set (merge_parameters (sp_parameters s) q)"
    using assms(1) unfolding spec_ok_def merge_parameters_keys by blast
  moreover have "odd_order (merge_parameters (sp_parameters s) q) = odd_order (sp_parameters s)"
    using order by (simp add: odd_order_def merge_parameters_get)
  ultimately show ?thesis using assms(1,2) unfolding spec_ok_def by simp
qed

lemma tenure_ok: "lane_param_ok ''tabu_tenure'' v \<Longrightarrow> \<exists>i. v = JInt i \<and> 0 \<le> i"
  by (simp add: lane_param_ok_def MUTATION_WEIGHTS_PARAMETER_def PARAMETER_DOMAINS_def) force

lemma patch_engine_ok:
  assumes "\<forall>(k, w)\<in>set ps. k \<noteq> MUTATION_WEIGHTS_PARAMETER \<longrightarrow> lane_param_ok k w"
    and "\<forall>(k, w)\<in>set q. k \<noteq> MUTATION_WEIGHTS_PARAMETER \<longrightarrow> lane_param_ok k w" and "''order'' \<notin> fst ` set q"
  shows "\<exists>tabu'. patch_engine n ps tabu q = Inr (merge_parameters ps q, tabu')"
proof (cases "''tabu_tenure'' \<in> fst ` set (merge_parameters ps q)")
  case True
  then obtain v where v: "map_of (merge_parameters ps q) ''tabu_tenure'' = Some v"
    by (metis map_of_eq_None_iff not_None_eq)
  have "''tabu_tenure'' \<noteq> MUTATION_WEIGHTS_PARAMETER" by (simp add: MUTATION_WEIGHTS_PARAMETER_def)
  then have "lane_param_ok ''tabu_tenure'' v"
    using merge_parameters_entries [OF map_of_SomeD [OF v]] assms(1,2) by auto
  then obtain i where "v = JInt i" "0 \<le> i" using tenure_ok by blast
  with True v assms(3) show ?thesis by (simp add: patch_engine_def Let_def dict_get_def int_of_json_def)
qed (use assms(3) in \<open>simp add: patch_engine_def Let_def\<close>)

section \<open>Properties\<close>

lemma started_spec_ok:
  assumes "start_ok ctx (dict_get d ''spec'')" "wf_json (JObj d)" "annotate_action ctx (JObj d) = Inr (JObj a)"
    "dict_get d ''type'' = JStr ''start_lane''" "TARGETS target \<noteq> None"
  shows "\<exists>s. dispatch_start sha campaign_id target action_id (obj_field a ''spec'') = Inr s \<and>
    (spec_ok s \<or> weights_overflow (dict_get (obj_field (obj_field d ''spec'') ''parameters'') MUTATION_WEIGHTS_PARAMETER))"
proof -
  from assms(1) obtain spec algorithm family seed share where
    spec: "dict_get d ''spec'' = JObj spec" "known_algorithm (dict_get spec ''algorithm'') = Some algorithm"
      "dict_get spec ''graph_family'' = JStr family" "family \<in> fst ` set GRAPH_FAMILIES"
      "dict_get spec ''seed'' = JInt seed" "is_number (dict_get spec ''resource_share'') share" "0 < share" "share \<le> 1"
      "params_ok (Some algorithm) False (dc_proposal_ranking ctx) (dict_get spec ''parameters'')"
      "\<not> odd_cubic_order spec"
    unfolding start_ok_def by blast
  then have alg: "dict_get spec ''algorithm'' = JStr algorithm" "algorithm \<in> set ALGORITHMS"
    by (simp_all add: known_algorithm_Some)
  from spec(9) obtain ps where ps: "dict_get spec ''parameters'' = JObj ps"
    "\<And>k w. (k, w) \<in> set ps \<Longrightarrow> k \<in> set (domain_default ALGORITHM_PARAMETERS (Some algorithm)) \<and>
       param_value_ok (Some algorithm) (dc_proposal_ranking ctx) k w"
    "{''order'', ''batch_candidates'', ''witness_cap''} \<subseteq> fst ` set ps"
    unfolding params_ok_def by auto
  obtain allowed where allowed: "map_of ALGORITHM_PARAMETERS algorithm = Some allowed"
    using alg(2) algorithms_known by auto
  have default: "domain_default ALGORITHM_PARAMETERS (Some algorithm) = allowed"
    by (simp add: domain_default_def allowed)
  have wf: "wf_json (JObj ps)"
    using wf_dict_get [OF wf_dict_get [OF assms(2), of "''spec''", unfolded spec(1)], of "''parameters''"] ps(1) by simp
  obtain ps' where ps': "normalize_parameters ps = Inr ps'" "fst ` set ps' = fst ` set ps"
    "dict_get ps' ''order'' = dict_get ps ''order''"
    "(\<forall>(k, w)\<in>set ps'. k \<in> set allowed \<and> lane_param_ok k w) \<or> weights_overflow (dict_get ps MUTATION_WEIGHTS_PARAMETER)"
    "\<forall>(k, w)\<in>set ps'. k \<noteq> MUTATION_WEIGHTS_PARAMETER \<longrightarrow> lane_param_ok k w"
    using ps(2) wf unfolding default by (rule normalize_parameters_ok)
  have a: "dict_get a ''spec'' = JObj (dict_set ''parameters'' (JObj ps') spec)"
  proof -
    have "''start_lane'' = ''start_lane'' \<and> audit (Some algorithm) ps'
        (dict_set ''spec'' (JObj (dict_set ''parameters'' (JObj ps') spec)) d) = Inr a"
      using assms(3,4) spec(1) ps(1) ps'(1) alg(1)
      by (auto simp: annotate_action_def obj_field_def str_field_def result_facts)
    then show ?thesis by (auto simp: audit_def Let_def split: option.splits)
  qed
  have share: "float_of_json (dict_get spec ''resource_share'') = Inr (Fin share)"
    using spec(6) by (auto simp: is_number_def float_of_json_def float_of_int_def)
  have odd: "family = ''connected_cubic'' \<longrightarrow> \<not> odd_order ps'"
    using spec(3,10) ps(1) ps'(3) by (auto simp: odd_cubic_order_def odd_order_def split: json.splits)
  have raw: "obj_field (obj_field d ''spec'') ''parameters'' = ps" by (simp add: obj_field_def spec(1) ps(1))
  show ?thesis
    unfolding raw
    using spec(3-8) alg ps(3) ps'(2,4) allowed odd assms(5) share
    by (auto simp: dispatch_start_def obj_field_def str_field_def a int_of_json_def spec_ok_def)
qed

lemma patched_spec_ok:
  assumes "params_ok (Some (sp_algorithm s)) True ranking (dict_get d ''patch'')" "wf_json (JObj d)"
    and "annotate_action ctx (JObj d) = Inr (JObj a)" "dict_get d ''type'' = JStr ''patch_lane''" "spec_ok s"
  shows "\<exists>ps tabu'. patch_engine n (sp_parameters s) tabu (obj_field a ''patch'') = Inr (ps, tabu') \<and>
    (spec_ok (s\<lparr>sp_parameters := ps\<rparr>) \<or> weights_overflow (dict_get (obj_field d ''patch'') MUTATION_WEIGHTS_PARAMETER))"
proof -
  from assms(5) obtain allowed where allowed: "map_of ALGORITHM_PARAMETERS (sp_algorithm s) = Some allowed"
    "\<forall>(k, v)\<in>set (sp_parameters s). k \<in> set allowed \<and> lane_param_ok k v" unfolding spec_ok_def by blast
  obtain ps where ps: "dict_get d ''patch'' = JObj ps"
    "\<And>k w. (k, w) \<in> set ps \<Longrightarrow> k \<in> {k \<in> set allowed. k \<noteq> ''order''} \<and>
       param_value_ok (Some (sp_algorithm s)) ranking k w"
  proof -
    from assms(1) obtain ps where *: "dict_get d ''patch'' = JObj ps"
      "\<forall>(k, w)\<in>set ps. k \<in> set (domain_default PATCHABLE_PARAMETERS (Some (sp_algorithm s))) \<and>
         param_value_ok (Some (sp_algorithm s)) ranking k w" by (auto simp: params_ok_def)
    show ?thesis using *(2) patchable_default [OF allowed(1)] by (intro that [OF *(1)]) auto
  qed
  have wf: "wf_json (JObj ps)" using wf_dict_get [OF assms(2), of "''patch''"] ps(1) by simp
  obtain ps' where ps': "normalize_parameters ps = Inr ps'" "fst ` set ps' = fst ` set ps"
    "dict_get ps' ''order'' = dict_get ps ''order''"
    "(\<forall>(k, w)\<in>set ps'. k \<in> {k \<in> set allowed. k \<noteq> ''order''} \<and> lane_param_ok k w) \<or>
      weights_overflow (dict_get ps MUTATION_WEIGHTS_PARAMETER)"
    "\<forall>(k, w)\<in>set ps'. k \<noteq> MUTATION_WEIGHTS_PARAMETER \<longrightarrow> lane_param_ok k w"
    using ps(2) wf by (rule normalize_parameters_ok)
  have a: "obj_field a ''patch'' = ps'"
  proof -
    obtain al where "audit al ps' (dict_set ''patch'' (JObj ps') d) = Inr a"
      using assms(3,4) ps(1) ps'(1) by (auto simp: annotate_action_def obj_field_def Let_def result_facts)
    then show ?thesis by (auto simp: audit_def Let_def obj_field_def split: option.splits)
  qed
  have order: "''order'' \<notin> fst ` set ps'" unfolding ps'(2) using ps(2) [of "''order''"] by force
  have old: "\<forall>(k, w)\<in>set (sp_parameters s). k \<noteq> MUTATION_WEIGHTS_PARAMETER \<longrightarrow> lane_param_ok k w"
    using allowed(2) by auto
  have "spec_ok (s\<lparr>sp_parameters := merge_parameters (sp_parameters s) ps'\<rparr>) \<or>
      weights_overflow (dict_get ps MUTATION_WEIGHTS_PARAMETER)"
    using ps'(4) spec_ok_patched [OF assms(5) allowed(1) _ order] by auto
  moreover have "obj_field d ''patch'' = ps" by (simp add: obj_field_def ps(1))
  ultimately show ?thesis using patch_engine_ok [OF old ps'(5) order, of n tabu] unfolding a by metis
qed

text \<open>
  C13. A lane that an accepted decision starts passes the lane's own validation: the dispatcher
  builds a specification from the normalised action, and that specification is valid for every
  known target, unless the submitted action itself asks for mutation weights whose sum is too
  large for a finite float.
\<close>

theorem accepted_start_is_runnable:
  assumes "validate_decision frepr v ctx = Inr r" "accepted r" "wf_json v" "TARGETS target \<noteq> None"
    and "normalized r = Some (JObj d)" "dict_get d ''actions'' = JList as" "i < length as" "as ! i = JObj a"
    and "dict_get a ''type'' = JStr ''start_lane''"
  shows "\<exists>s. dispatch_start sha campaign_id target (str_field a ''action_id'') (obj_field a ''spec'') = Inr s \<and>
    (validate_spec s = Inr () \<or>
     weights_overflow (dict_get (obj_field (submitted_field v i ''spec'') ''parameters'') MUTATION_WEIGHTS_PARAMETER))"
proof -
  from accepted_action [OF assms(1-3,5-7)] obtain raw d0 t where
    d0: "annotate_action ctx (JObj d0) = Inr (JObj a)" "dict_get d0 ''type'' = JStr t" "action_body_ok ctx t d0"
      "wf_json (JObj d0)" "submitted_action v i = JObj raw" "wf_json (JObj raw)" "normalize_action (JObj raw) = JObj d0"
    using assms(8) by metis
  have "dict_get a ''type'' = dict_get d0 ''type''"
    using annotate_action_keeps [OF d0(1)] plain_fields(2) by auto
  with d0(2) assms(9) have t: "t = ''start_lane''" by simp
  with d0(3) have "start_ok ctx (dict_get d0 ''spec'')" by (simp add: action_body_ok_def)
  moreover have "dict_get (obj_field (obj_field d0 ''spec'') ''parameters'') MUTATION_WEIGHTS_PARAMETER =
      dict_get (obj_field (submitted_field v i ''spec'') ''parameters'') MUTATION_WEIGHTS_PARAMETER"
    using normalized_weights_field(1) [OF d0(6,7)] d0(2) t by (simp add: submitted_field_def d0(5))
  ultimately show ?thesis
    using started_spec_ok [of ctx d0 a target sha campaign_id] d0(1,2,4) t assms(4) unfolding validate_spec_iff by simp
qed

lemma sample_action_ok:
  assumes "t \<in> set ACTION_TYPES" "map fst body = the (map_of ACTION_FIELDS t)"
    and "\<And>d. sample_action t body = JObj d \<Longrightarrow> action_body_ok sample_context t d"
  shows "action_ok sample_context {} (sample_action t body) (''a1'', ''key-0001'')"
proof -
  obtain d where d: "sample_action t body = JObj d" by (simp add: sample_action_def)
  have "map fst d = [''action_id'', ''type'', ''priority'', ''hypothesis_ids'', ''evidence_ids'', ''rationale'',
      ''expected_effect'', ''evaluation_window'', ''idempotency_key'', ''lease_seconds'', ''fallback''] @ map fst body"
    using d by (auto simp: sample_action_def)
  then have "fst ` set d = set (COMMON_ACTION_FIELDS @ the (map_of ACTION_FIELDS t))"
    unfolding set_map [symmetric] COMMON_ACTION_FIELDS_def assms(2) by simp
  then have keys: "has_keys d (COMMON_ACTION_FIELDS @ the (map_of ACTION_FIELDS t))
      (COMMON_ACTION_FIELDS @ the (map_of ACTION_FIELDS t))"
    by (simp add: has_keys_def)
  have type: "dict_get d ''type'' = JStr t" using d by (auto simp: sample_action_def)
  have common: "common_ok sample_context {} d ''a1'' ''key-0001''"
    using d unfolding sample_action_def json.inject
    by (elim subst) (simp add: ok_defs sample_context_def name_defs)
  have "t \<in> dc_applicable_action_types sample_context" using assms(1) by (simp add: sample_context_def)
  with d type keys common assms(1) assms(3) [OF d] show ?thesis
    by (auto simp: action_ok_def)
qed

definition sample_start :: "json_obj" where
  "sample_start =
     [(''spec'', JObj [(''algorithm'', JStr ''simulated_annealing''), (''graph_family'', JStr ''connected_cubic''),
        (''seed'', JInt 7),
        (''parameters'', JObj [(''order'', JInt 20), (''batch_candidates'', JInt 2000), (''witness_cap'', JInt 64),
           (''mutation_weights'', JObj [(''uniform_two_edge_switch'', JInt 3)])]),
        (''resource_share'', JInt 1)])]"

lemma single_weight_ok: "weights_ok (JObj [(''uniform_two_edge_switch'', JInt 3)])"
  unfolding weights_ok_def
  by (rule exI [of _ "[(''uniform_two_edge_switch'', JInt 3)]"], rule exI [of _ "[3]"])
    (use float_limit_large in \<open>auto simp: MUTATION_OPERATORS_def weight_values_def is_number_def py_add_def py_le_def py_lt_def\<close>)

lemma sample_start_ok: "action_ok sample_context {} (sample_action ''start_lane'' sample_start) (''a1'', ''key-0001'')"
proof (rule sample_action_ok)
  show "''start_lane'' \<in> set ACTION_TYPES" by (simp add: ACTION_TYPES_def)
  show "map fst sample_start = the (map_of ACTION_FIELDS ''start_lane'')"
    by (simp add: sample_start_def ACTION_FIELDS_def)
  have "is_number (JInt 1) 1" using float_limit_large by (auto simp: is_number_def)
  moreover have "params_ok (Some ''simulated_annealing'') False None
      (JObj [(''order'', JInt 20), (''batch_candidates'', JInt 2000), (''witness_cap'', JInt 64),
         (''mutation_weights'', JObj [(''uniform_two_edge_switch'', JInt 3)])])"
    using single_weight_ok
    by (simp add: params_ok_def domain_default_def ALGORITHM_PARAMETERS_def param_value_ok_def
      MUTATION_WEIGHTS_PARAMETER_def PARAMETER_DOMAINS_def)
  ultimately have "start_ok sample_context (snd (hd sample_start))"
    unfolding start_ok_def
    by (intro exI [of _ "case snd (hd sample_start) of JObj d \<Rightarrow> d"] exI [of _ "''simulated_annealing''"]
        exI [of _ "''connected_cubic''"] exI [of _ 7] exI [of _ 1])
      (simp add: sample_start_def has_keys_def start_fields_def known_algorithm_def ALGORITHMS_def
        EXPERIMENT_ALGORITHMS_def GRAPH_FAMILIES_def max_int63_def sample_context_def odd_cubic_order_def)
  then show "action_body_ok sample_context ''start_lane'' d"
    if "sample_action ''start_lane'' sample_start = JObj d" for d
    using that by (auto simp: action_body_ok_def sample_action_def sample_start_def lane_actions_def)
qed

definition audited :: "string option \<Rightarrow> bool" where
  "audited algorithm \<longleftrightarrow> (case algorithm of None \<Rightarrow> True | Some a \<Rightarrow> map_of ALGORITHM_PARAMETERS a \<noteq> None)"

lemma audit_total: "audited algorithm \<Longrightarrow> \<exists>d'. audit algorithm effective d = Inr d'"
  by (auto simp: audited_def audit_def Let_def split: option.splits)

lemma annotate_startI:
  assumes "a = JObj d" "dict_get d ''type'' = JStr ''start_lane''"
    and "normalize_parameters (obj_field (obj_field d ''spec'') ''parameters'') = Inr ps"
    and "audited (Some (str_field (obj_field d ''spec'') ''algorithm''))"
  shows "\<exists>d'. annotate_action ctx a = Inr (JObj d')"
  using assms(1-3) audit_total [OF assms(4), of ps] by (auto simp: annotate_action_def Let_def result_facts)

lemma sample_start_accepted:
  "\<exists>r d a. validate_decision (\<lambda>_. ''1.0'') (sample_decision [sample_action ''start_lane'' sample_start]) sample_context = Inr r \<and>
     accepted r \<and> normalized r = Some (JObj d) \<and> dict_get d ''actions'' = JList [JObj a] \<and>
     dict_get a ''type'' = JStr ''start_lane''"
proof -
  let ?a = "sample_action ''start_lane'' sample_start"
  have size: "json_bound (\<lambda>_. ''1.0'') (sample_decision [?a]) \<le> MAX_DECISION_BYTES"
    by (simp add: sample_start_def sample_defs MAX_DECISION_BYTES_def int_text_def show_nat.simps)
  have starts: "action_starts ?a \<le> 7"
    by (simp add: action_starts_def sample_action_def str_field_def lane_starts_def)
  have norm: "normalize_action ?a = ?a"
    by (simp add: normalize_action_def sample_action_def sample_start_def in_field_def drop_null_values_def dict_set_def)
  obtain w where w: "normalize_weights (JObj [(''uniform_two_edge_switch'', JInt 3)]) = Inr w"
    using normalize_weights_ok [OF single_weight_ok] by auto
  have alg: "audited (Some ''simulated_annealing'')" by (simp add: audited_def ALGORITHM_PARAMETERS_def)
  obtain e where e: "?a = JObj e" "dict_get e ''type'' = JStr ''start_lane''" "dict_get e ''spec'' = dict_get sample_start ''spec''"
    by (simp add: sample_action_def sample_start_def)
  have "normalize_parameters (obj_field (obj_field e ''spec'') ''parameters'') =
      Inr [(''order'', JInt 20), (''batch_candidates'', JInt 2000), (''witness_cap'', JInt 64), (''mutation_weights'', w)]"
    by (simp add: obj_field_def e(3) sample_start_def normalize_parameters_def MUTATION_WEIGHTS_PARAMETER_def w dict_set_def)
  moreover have "str_field (obj_field e ''spec'') ''algorithm'' = ''simulated_annealing''"
    by (simp add: obj_field_def str_field_def e(3) sample_start_def)
  ultimately obtain d where d: "annotate_action sample_context ?a = Inr (JObj d)"
    using annotate_startI [OF e(1,2)] alg by metis
  have "dict_get d ''type'' = JStr ''start_lane''"
    using annotate_action_keeps [OF d [unfolded e(1)]] plain_fields(2) e(2) by auto
  with sample_decision_accepted [OF sample_start_ok starts norm d size] show ?thesis by blast
qed

lemma sample_start_wf: "wf_json (sample_decision [sample_action ''start_lane'' sample_start])"
  by (simp add: sample_decision_def sample_action_def sample_start_def sample_review_def)

theorem accepted_start_is_runnable_witness:
  "\<exists>r d a s. validate_decision (\<lambda>_. ''1.0'') (sample_decision [sample_action ''start_lane'' sample_start]) sample_context = Inr r \<and>
     normalized r = Some (JObj d) \<and> dict_get d ''actions'' = JList [JObj a] \<and>
     dispatch_start (\<lambda>_. ''0123456789abcdef'') ''campaign-1'' ''erdos_gyarfas'' (str_field a ''action_id'') (obj_field a ''spec'') = Inr s \<and>
     validate_spec s = Inr ()"
proof -
  from sample_start_accepted obtain r d a where
    r: "validate_decision (\<lambda>_. ''1.0'') (sample_decision [sample_action ''start_lane'' sample_start]) sample_context = Inr r"
      "accepted r" "normalized r = Some (JObj d)" "dict_get d ''actions'' = JList [JObj a]"
      "dict_get a ''type'' = JStr ''start_lane''" by blast
  have "TARGETS ''erdos_gyarfas'' \<noteq> None" "0 < length [JObj a]" "[JObj a] ! 0 = JObj a"
    by (simp_all add: TARGETS_def ERDOS_GYARFAS_def)
  moreover have "\<not> weights_overflow (dict_get (obj_field (submitted_field
      (sample_decision [sample_action ''start_lane'' sample_start]) 0 ''spec'') ''parameters'') MUTATION_WEIGHTS_PARAMETER)"
    using float_limit_rat by (simp add: submitted_field_def submitted_action_def sample_decision_def sample_action_def
      sample_start_def obj_field_def MUTATION_WEIGHTS_PARAMETER_def weights_overflow_def num_rat_def)
  ultimately show ?thesis
    using accepted_start_is_runnable [OF r(1,2) sample_start_wf _ r(3,4) _ _ r(5), of "''erdos_gyarfas''" 0] r(1,3,4) by blast
qed

text \<open>
  C28. A lane that an accepted decision patches stays valid: when the lane's specification is
  valid and the snapshot records its algorithm, the running lane takes the normalised patch,
  whatever its order and tabu list, and the updated parameters are valid again, unless the
  submitted patch itself asks for mutation weights whose sum is too large for a finite float.
\<close>

theorem accepted_patch_is_runnable:
  assumes "validate_decision frepr v ctx = Inr r" "accepted r" "wf_json v"
    and "normalized r = Some (JObj d)" "dict_get d ''actions'' = JList as" "i < length as" "as ! i = JObj a"
    and "dict_get a ''type'' = JStr ''patch_lane''" "validate_spec s = Inr ()"
    and "map_of (dc_lane_algorithms ctx) (str_field a ''lane_id'') = Some (sp_algorithm s)"
  shows "\<exists>ps tabu'. patch_engine n (sp_parameters s) tabu (obj_field a ''patch'') = Inr (ps, tabu') \<and>
    (validate_spec (s\<lparr>sp_parameters := ps\<rparr>) = Inr () \<or>
     weights_overflow (dict_get (submitted_field v i ''patch'') MUTATION_WEIGHTS_PARAMETER))"
proof -
  from accepted_action [OF assms(1-6)] obtain raw d0 t where
    d0: "annotate_action ctx (JObj d0) = Inr (JObj a)" "dict_get d0 ''type'' = JStr t" "action_body_ok ctx t d0"
      "wf_json (JObj d0)" "submitted_action v i = JObj raw" "wf_json (JObj raw)" "normalize_action (JObj raw) = JObj d0"
    using assms(7) by metis
  have keep: "dict_get a ''type'' = dict_get d0 ''type''" "dict_get a ''lane_id'' = dict_get d0 ''lane_id''"
    using annotate_action_keeps [OF d0(1)] plain_fields(2,3) by auto
  with d0(2) assms(8) have t: "t = ''patch_lane''" by simp
  have "lane_algorithm ctx d0 = Some (sp_algorithm s)"
    using assms(10) keep(2) by (simp add: lane_algorithm_def str_field_def)
  with d0(3) t have "params_ok (Some (sp_algorithm s)) True (dc_proposal_ranking ctx) (dict_get d0 ''patch'')"
    by (simp add: action_body_ok_def)
  moreover have "dict_get (obj_field d0 ''patch'') MUTATION_WEIGHTS_PARAMETER =
      dict_get (submitted_field v i ''patch'') MUTATION_WEIGHTS_PARAMETER"
    using normalized_weights_field(2) [OF d0(6,7)] d0(2) t by (simp add: submitted_field_def d0(5))
  ultimately show ?thesis
    using patched_spec_ok [of s _ d0 ctx a n tabu] d0(1,2,4) t assms(9) unfolding validate_spec_iff by simp
qed

definition sample_lane :: lane_spec where
  "sample_lane = \<lparr>sp_lane_id = ''lane-1'', sp_campaign_id = ''campaign-1'', sp_target = ''erdos_gyarfas'',
     sp_algorithm = ''simulated_annealing'', sp_graph_family = ''connected_cubic'', sp_seed = 7,
     sp_parameters = [(''order'', JInt 20), (''batch_candidates'', JInt 2000), (''witness_cap'', JInt 64)],
     sp_resource_share = Fin 1, sp_lane_version = 0, sp_parent_lane_id = None, sp_created_by_action_id = None,
     sp_parent_checkpoint_id = None, sp_seed_lineage = [7]\<rparr>"

lemma sample_lane_ok: "validate_spec sample_lane = Inr ()"
  unfolding validate_spec_iff
  by (simp add: spec_ok_def sample_lane_def TARGETS_def ERDOS_GYARFAS_def GRAPH_FAMILIES_def ALGORITHM_PARAMETERS_def
    lane_param_ok_def MUTATION_WEIGHTS_PARAMETER_def PARAMETER_DOMAINS_def odd_order_def)

definition sample_patch :: "json_obj" where
  "sample_patch = [(''lane_id'', JStr ''lane-1''), (''expected_lane_version'', JInt 4),
     (''patch'', JObj [(''batch_candidates'', JInt 4000)])]"

lemma sample_patch_accepted:
  "\<exists>r d a. validate_decision (\<lambda>_. ''1.0'') (sample_decision [sample_action ''patch_lane'' sample_patch]) sample_context = Inr r \<and>
     accepted r \<and> normalized r = Some (JObj d) \<and> dict_get d ''actions'' = JList [JObj a] \<and>
     dict_get a ''type'' = JStr ''patch_lane'' \<and> dict_get a ''lane_id'' = JStr ''lane-1'' \<and>
     obj_field a ''patch'' = [(''batch_candidates'', JInt 4000)]"
proof -
  let ?a = "sample_action ''patch_lane'' sample_patch"
  have "params_ok (Some ''simulated_annealing'') True None (JObj [(''batch_candidates'', JInt 4000)])"
    by (simp add: params_ok_def domain_default_def ALGORITHM_PARAMETERS_def PATCHABLE_PARAMETERS_def param_value_ok_def
      MUTATION_WEIGHTS_PARAMETER_def PARAMETER_DOMAINS_def)
  then have "action_body_ok sample_context ''patch_lane'' d" if "?a = JObj d" for d
    using that by (auto simp: action_body_ok_def sample_action_def sample_patch_def lane_actions_def lane_ok_def
      lane_algorithm_def str_field_def sample_context_def matches_identifier_def letter_or_digit_def
      identifier_char_def max_int63_def)
  then have action: "action_ok sample_context {} ?a (''a1'', ''key-0001'')"
    by (intro sample_action_ok) (simp_all add: ACTION_TYPES_def ACTION_FIELDS_def sample_patch_def)
  have size: "json_bound (\<lambda>_. ''1.0'') (sample_decision [?a]) \<le> MAX_DECISION_BYTES"
    by (simp add: sample_patch_def sample_defs MAX_DECISION_BYTES_def int_text_def show_nat.simps)
  have starts: "action_starts ?a \<le> 7"
    by (simp add: action_starts_def sample_action_def str_field_def lane_starts_def)
  have norm: "normalize_action ?a = ?a"
    by (simp add: normalize_action_def sample_action_def sample_patch_def in_field_def drop_null_values_def dict_set_def)
  obtain e where e: "?a = JObj e" "dict_get e ''type'' = JStr ''patch_lane''" "dict_get e ''lane_id'' = JStr ''lane-1''"
    "dict_get e ''patch'' = JObj [(''batch_candidates'', JInt 4000)]"
    by (simp add: sample_action_def sample_patch_def)
  have ps: "normalize_parameters (obj_field e ''patch'') = Inr [(''batch_candidates'', JInt 4000)]"
    by (simp add: obj_field_def e(4) normalize_parameters_def MUTATION_WEIGHTS_PARAMETER_def)
  have lane: "map_of (dc_lane_algorithms sample_context) (str_field e ''lane_id'') = Some ''simulated_annealing''"
    by (simp add: str_field_def e(3) sample_context_def)
  have "audited (Some ''simulated_annealing'')" by (simp add: audited_def ALGORITHM_PARAMETERS_def)
  then obtain d where d: "audit (Some ''simulated_annealing'') [(''batch_candidates'', JInt 4000)]
      (dict_set ''patch'' (JObj [(''batch_candidates'', JInt 4000)]) e) = Inr d"
    using audit_total by blast
  then have annotated: "annotate_action sample_context ?a = Inr (JObj d)"
    by (simp add: annotate_action_def e(1,2) ps lane Let_def)
  have "obj_field d ''patch'' = [(''batch_candidates'', JInt 4000)]"
    using d by (auto simp: audit_def Let_def obj_field_def split: option.splits)
  moreover have "dict_get d ''type'' = JStr ''patch_lane''" "dict_get d ''lane_id'' = JStr ''lane-1''"
    using annotate_action_keeps [OF annotated [unfolded e(1)]] plain_fields(2,3) e(2,3) by auto
  ultimately show ?thesis using sample_decision_accepted [OF action starts norm annotated size] by blast
qed

theorem accepted_patch_is_runnable_witness:
  "\<exists>ps tabu'. patch_engine 20 (sp_parameters sample_lane) [1, 2, 3 :: nat] [(''batch_candidates'', JInt 4000)] = Inr (ps, tabu') \<and>
     validate_spec (sample_lane\<lparr>sp_parameters := ps\<rparr>) = Inr ()"
proof -
  from sample_patch_accepted obtain r d a where
    r: "validate_decision (\<lambda>_. ''1.0'') (sample_decision [sample_action ''patch_lane'' sample_patch]) sample_context = Inr r"
      "accepted r" "normalized r = Some (JObj d)" "dict_get d ''actions'' = JList [JObj a]"
      "dict_get a ''type'' = JStr ''patch_lane''" "dict_get a ''lane_id'' = JStr ''lane-1''"
      "obj_field a ''patch'' = [(''batch_candidates'', JInt 4000)]" by blast
  have wf: "wf_json (sample_decision [sample_action ''patch_lane'' sample_patch])"
    by (simp add: sample_decision_def sample_action_def sample_patch_def sample_review_def)
  have lane: "map_of (dc_lane_algorithms sample_context) (str_field a ''lane_id'') = Some (sp_algorithm sample_lane)"
    by (simp add: str_field_def r(6) sample_context_def sample_lane_def)
  have "0 < length [JObj a]" "[JObj a] ! 0 = JObj a" by simp_all
  moreover have "\<not> weights_overflow (dict_get (submitted_field
      (sample_decision [sample_action ''patch_lane'' sample_patch]) 0 ''patch'') MUTATION_WEIGHTS_PARAMETER)"
    by (simp add: submitted_field_def submitted_action_def sample_decision_def sample_action_def sample_patch_def
      obj_field_def MUTATION_WEIGHTS_PARAMETER_def weights_overflow_def)
  ultimately show ?thesis
    using accepted_patch_is_runnable [OF r(1,2) wf r(3,4) _ _ r(5) sample_lane_ok lane, of 0 20 "[1, 2, 3 :: nat]"]
    unfolding r(7) by blast
qed

definition sample_variant :: "json_obj" where
  "sample_variant = [(''name'', JStr ''uniform''),
     (''patch'', JObj [(''mutation_weights'', JObj [(''uniform_two_edge_switch'', JInt 3)])]),
     (''resource_share'', JInt 1)]"

definition sample_fork :: "json_obj" where
  "sample_fork = [(''lane_id'', JStr ''lane-1''), (''expected_lane_version'', JInt 4),
     (''checkpoint_id'', JStr ''checkpoint-1''), (''variants'', JList [JObj sample_variant])]"

lemma sample_fork_accepted:
  "\<exists>r d a. validate_decision frepr (sample_decision [sample_action ''fork_lane'' sample_fork]) sample_context = Inr r \<and>
     accepted r \<and> normalized r = Some (JObj d) \<and> dict_get d ''actions'' = JList [JObj a] \<and>
     dict_get a ''type'' = JStr ''fork_lane'' \<and> dict_get a ''variants'' = JList [JObj sample_variant]"
proof -
  let ?a = "sample_action ''fork_lane'' sample_fork"
  have "params_ok (Some ''simulated_annealing'') True None
      (JObj [(''mutation_weights'', JObj [(''uniform_two_edge_switch'', JInt 3)])])"
    using single_weight_ok
    by (simp add: params_ok_def domain_default_def ALGORITHM_PARAMETERS_def PATCHABLE_PARAMETERS_def param_value_ok_def
      MUTATION_WEIGHTS_PARAMETER_def PARAMETER_DOMAINS_def)
  moreover have "is_number (JInt 1) 1" using float_limit_large by (auto simp: is_number_def)
  ultimately have fork: "fork_ok sample_context sample_fork (Some ''simulated_annealing'')"
    unfolding fork_ok_def
    by (intro exI [of _ "''checkpoint-1''"] exI [of _ "[JObj sample_variant]"])
      (simp add: sample_fork_def sample_variant_def sample_context_def has_keys_def variant_fields_def text_ok_def
        matches_identifier_def letter_or_digit_def identifier_char_def, metis zero_less_one order_refl)
  obtain e where e: "?a = JObj e" "dict_get e ''type'' = JStr ''fork_lane''" "dict_get e ''lane_id'' = JStr ''lane-1''"
    "dict_get e ''expected_lane_version'' = JInt 4" "dict_get e ''checkpoint_id'' = dict_get sample_fork ''checkpoint_id''"
    "dict_get e ''variants'' = dict_get sample_fork ''variants''" "dict_get sample_fork ''variants'' = JList [JObj sample_variant]"
    by (simp add: sample_action_def sample_fork_def)
  have alg: "lane_algorithm sample_context e = Some ''simulated_annealing''"
    by (simp add: lane_algorithm_def str_field_def e(3) sample_context_def)
  have lane: "lane_ok sample_context e"
    by (simp add: lane_ok_def e(3,4) sample_context_def matches_identifier_def letter_or_digit_def
      identifier_char_def max_int63_def)
  have "fork_ok sample_context e (Some ''simulated_annealing'')" using fork by (simp add: fork_ok_def e(5,6))
  with alg lane have "action_body_ok sample_context ''fork_lane'' e" by (simp add: action_body_ok_def)
  then have action: "action_ok sample_context {} ?a (''a1'', ''key-0001'')"
    using e(1) by (intro sample_action_ok) (simp_all add: ACTION_TYPES_def ACTION_FIELDS_def sample_fork_def)
  have size: "json_bound frepr (sample_decision [?a]) \<le> MAX_DECISION_BYTES"
    by (simp add: sample_fork_def sample_variant_def sample_defs MAX_DECISION_BYTES_def int_text_def show_nat.simps)
  have starts: "action_starts ?a \<le> 7"
    by (simp add: action_starts_def e(1,2,6,7) str_field_def lane_starts_def)
  have norm: "normalize_action ?a = ?a"
    by (simp add: normalize_action_def sample_action_def sample_fork_def sample_variant_def in_field_def
      drop_null_values_def dict_set_def)
  have "audited (Some ''simulated_annealing'')" by (simp add: audited_def ALGORITHM_PARAMETERS_def)
  then obtain d where d: "audit (Some ''simulated_annealing'') [] e = Inr d" using audit_total by blast
  then have annotated: "annotate_action sample_context ?a = Inr (JObj d)"
    using alg by (simp add: annotate_action_def e(1,2) lane_algorithm_def Let_def)
  have "dict_get d ''type'' = JStr ''fork_lane''" "dict_get d ''variants'' = JList [JObj sample_variant]"
    using annotate_action_keeps [OF annotated [unfolded e(1)]] plain_fields(2,6) e(2,6,7) by auto
  with sample_decision_accepted [OF action starts norm annotated size] show ?thesis by blast
qed

lemma partial_weights_rejected:
  assumes "sp_parameters s = merge_parameters ps [(MUTATION_WEIGHTS_PARAMETER, JObj [(''uniform_two_edge_switch'', w)])]"
  shows "validate_spec s \<noteq> Inr ()"
proof
  assume "validate_spec s = Inr ()"
  then have ok: "\<forall>(k, v)\<in>set (sp_parameters s). lane_param_ok k v" unfolding validate_spec_iff spec_ok_def by blast
  have "map_of (sp_parameters s) MUTATION_WEIGHTS_PARAMETER = Some (JObj [(''uniform_two_edge_switch'', w)])"
    by (simp add: assms merge_parameters_def dict_set_def update_conv')
  then have "lane_param_ok MUTATION_WEIGHTS_PARAMETER (JObj [(''uniform_two_edge_switch'', w)])"
    using ok map_of_SomeD by fastforce
  then show False
    by (simp add: lane_param_ok_def lane_weights_ok_def validate_weights_def MUTATION_OPERATORS_def)
qed

text \<open>
  C29. For forked lanes the two validations disagree: there is a decision, accepted without an
  issue, whose \<open>fork_lane\<close> variant gives the weight of one operator only.  The dispatcher builds a
  specification of the child from it, and whatever the parent and its current parameters, that
  specification is rejected, because the weights of variants are not normalised.
\<close>

theorem accepted_fork_may_be_rejected:
  "\<exists>v r d a variant. validate_decision frepr v sample_context = Inr r \<and> accepted r \<and>
     normalized r = Some (JObj d) \<and> dict_get d ''actions'' = JList [JObj a] \<and>
     dict_get a ''type'' = JStr ''fork_lane'' \<and> dict_get a ''variants'' = JList [JObj variant] \<and>
     (\<forall>sha parent parameters. \<exists>s.
        dispatch_fork sha parent parameters (str_field a ''action_id'') (str_field a ''checkpoint_id'') 0 variant = Inr s \<and>
        validate_spec s \<noteq> Inr ())"
proof -
  from sample_fork_accepted [of frepr] obtain r d a where
    r: "validate_decision frepr (sample_decision [sample_action ''fork_lane'' sample_fork]) sample_context = Inr r"
      "accepted r" "normalized r = Some (JObj d)" "dict_get d ''actions'' = JList [JObj a]"
      "dict_get a ''type'' = JStr ''fork_lane''" "dict_get a ''variants'' = JList [JObj sample_variant]" by blast
  have "float_of_json (dict_get sample_variant ''resource_share'') = Inr (Fin 1)"
    using float_limit_large by (simp add: sample_variant_def float_of_json_def float_of_int_def)
  moreover have "obj_field sample_variant ''patch'' =
      [(MUTATION_WEIGHTS_PARAMETER, JObj [(''uniform_two_edge_switch'', JInt 3)])]"
    by (simp add: sample_variant_def obj_field_def MUTATION_WEIGHTS_PARAMETER_def)
  ultimately have "\<exists>s. dispatch_fork sha parent parameters action_id checkpoint_id 0 sample_variant = Inr s \<and>
      validate_spec s \<noteq> Inr ()" for sha parent parameters action_id checkpoint_id
    by (simp add: dispatch_fork_def fork_spec_def Let_def partial_weights_rejected)
  with r show ?thesis by blast
qed

end
