(* ===== verification/Lane_Manager.thy ===== *)
theory Lane_Manager
  imports Lane_Spec Telemetry
begin

text \<open>
  The lane manager and its worker processes (\<open>src/src/sglab/research/lanes.py\<close>, \<open>LaneManager\<close>,
  \<open>_lane_worker\<close> and \<open>_apply_commands\<close>).

  The manager keeps a runtime per lane, a bounded queue of commands to each lane, the shared
  queue of events from the lanes, and the registry of checkpoints with their pins.  A lane
  process drains its commands, applies those whose expected version is its own, and answers
  each with one outcome.  Operations that raise after they have changed the manager return the
  exception together with the changed manager.

  The search kernel of a lane is a record of functions (\<open>kernel\<close>); every theorem holds for
  every kernel.  Events are datatype values with the fields that the manager reads; time
  stamps are left out.  The directory of checkpoint files is a map.  Calls after the queues have
  been closed are modelled for \<open>poll\<close> and for the calls that use no queue; sending a command then
  raises, which is left out.
\<close>

section \<open>Messages\<close>

record lane_checkpoint =
  cp_id :: string
  cp_lane_id :: string
  cp_high_water :: int
  cp_payload :: json_obj

record live_preview =
  pv_lane_id :: string
  pv_high_water :: int
  pv_payload :: json_obj

datatype lane_command =
    Patch_Command (command_action: string) (command_expected: int) json_obj
  | Restart_Command (command_action: string) (command_expected: int) int "lane_checkpoint option"
  | Reallocate_Command (command_action: string) (command_expected: int) py_float
  | Stop_Command (command_action: string) (command_expected: int)

datatype outcome_status = Applied | Rejected_Stale_State | Failed_Action

text \<open>An outcome reports the parameters and the share of the lane only when it is applied.\<close>

record action_outcome =
  oc_action_id :: string
  oc_status :: outcome_status
  oc_lane_version :: int
  oc_settings :: "(json_obj \<times> py_float) option"
  oc_checkpoint_id :: string
  oc_failure :: "py_error option"

datatype worker_event =
    Checkpoint_Event (event_lane: string) lane_checkpoint
  | Ready_Event (event_lane: string) int json_obj py_float
  | Live_Frontier_Event (event_lane: string) live_preview
  | Telemetry_Event (event_lane: string) int window
  | Improvement_Event (event_lane: string) int json_obj
  | Outcome_Event (event_lane: string) action_outcome
  | Exit_Event (event_lane: string) bool "lane_checkpoint option"

section \<open>The manager\<close>

datatype lane_state = Starting | Running | Paused | Stopping | Failed | Stopped

record lane_runtime =
  rt_spec :: lane_spec
  rt_commands :: "lane_command list"
  rt_stop_event :: bool
  rt_pause_event :: bool
  rt_state :: lane_state
  rt_lane_version :: int
  rt_parameters :: json_obj
  rt_resource_share :: py_float
  rt_latest_checkpoint_id :: "string option"
  rt_latest_checkpoint :: "lane_checkpoint option"
  rt_latest_live_frontier :: "live_preview option"
  rt_telemetry :: telemetry_series
  rt_high_water :: int
  rt_improvements :: "worker_event list"
  rt_pending_actions :: "string set"
  rt_completed_action_ids :: "string set"
  rt_action_outcomes :: "action_outcome list"

record lane_manager =
  lm_max_active_lanes :: int
  lm_command_capacity :: int
  lm_telemetry_windows :: int
  lm_checkpoints_per_lane :: nat
  lm_pinned_limit :: nat
  lm_events :: "worker_event list"
  lm_lanes :: "(string \<times> lane_runtime) list"
  lm_checkpoints :: "string \<rightharpoonup> lane_checkpoint"
  lm_checkpoint_order :: "(string \<times> string list) list"
  lm_pinned_checkpoint_ids :: "string set"
  lm_pinned_checkpoint_order :: "string list"
  lm_deferred_events :: "worker_event list"
  lm_queues_closed :: bool
  lm_files :: "string \<rightharpoonup> lane_checkpoint"

type_synonym 'a manager_result = "'a result \<times> lane_manager"

definition new_manager ::
  "int \<Rightarrow> int \<Rightarrow> int \<Rightarrow> int \<Rightarrow> int \<Rightarrow> int option \<Rightarrow> (string \<rightharpoonup> lane_checkpoint) \<Rightarrow> lane_manager result" where
  "new_manager max_active_lanes command_capacity telemetry_windows checkpoints_per_lane pinned_checkpoints
      memory_limit files =
     (if checkpoints_per_lane < 2 then Inl (ValueError ''checkpoints_per_lane must be at least 2'')
      else if (case memory_limit of None \<Rightarrow> False | Some b \<Rightarrow> b \<le> 0)
      then Inl (ValueError ''memory_limit_bytes must be positive'')
      else if pinned_checkpoints < 1 then Inl (ValueError ''pinned_checkpoints must be positive'')
      else Inr \<lparr>lm_max_active_lanes = max_active_lanes, lm_command_capacity = command_capacity,
        lm_telemetry_windows = telemetry_windows, lm_checkpoints_per_lane = nat checkpoints_per_lane,
        lm_pinned_limit = nat pinned_checkpoints, lm_events = [], lm_lanes = [],
        lm_checkpoints = Map.empty, lm_checkpoint_order = [], lm_pinned_checkpoint_ids = {},
        lm_pinned_checkpoint_order = [], lm_deferred_events = [], lm_queues_closed = False,
        lm_files = files\<rparr>)"

definition find_runtime :: "string \<Rightarrow> lane_manager \<Rightarrow> lane_runtime result" where
  "find_runtime lane_id m =
     (case map_of (lm_lanes m) lane_id of None \<Rightarrow> Inl KeyError | Some rt \<Rightarrow> Inr rt)"

definition set_runtime :: "string \<Rightarrow> lane_runtime \<Rightarrow> lane_manager \<Rightarrow> lane_manager" where
  "set_runtime lane_id rt m = m\<lparr>lm_lanes := AList.update lane_id rt (lm_lanes m)\<rparr>"

definition active :: "lane_runtime \<Rightarrow> bool" where
  "active rt \<longleftrightarrow> rt_state rt \<in> {Starting, Running, Paused, Stopping}"

definition active_lanes :: "lane_manager \<Rightarrow> lane_runtime list" where
  "active_lanes m = filter active (map snd (lm_lanes m))"

definition start_lane_process :: "lane_spec \<Rightarrow> lane_manager \<Rightarrow> unit manager_result" where
  "start_lane_process spec m =
     (case validate_spec spec of
        Inl e \<Rightarrow> (Inl e, m)
      | Inr _ \<Rightarrow>
          if map_of (lm_lanes m) (sp_lane_id spec) \<noteq> None
          then (Inl (ValueError (''duplicate lane id: '' @ sp_lane_id spec)), m)
          else if int (length (active_lanes m)) \<ge> lm_max_active_lanes m
          then (Inl (RuntimeError ''active lane limit reached''), m)
          else
            case new_series (lm_telemetry_windows m) of
              Inl e \<Rightarrow> (Inl e, m)
            | Inr telemetry \<Rightarrow>
                (Inr (), set_runtime (sp_lane_id spec)
                  \<lparr>rt_spec = spec, rt_commands = [], rt_stop_event = False, rt_pause_event = False,
                   rt_state = Starting, rt_lane_version = sp_lane_version spec,
                   rt_parameters = sp_parameters spec, rt_resource_share = sp_resource_share spec,
                   rt_latest_checkpoint_id = None, rt_latest_checkpoint = None,
                   rt_latest_live_frontier = None, rt_telemetry = telemetry, rt_high_water = 0,
                   rt_improvements = [], rt_pending_actions = {}, rt_completed_action_ids = {},
                   rt_action_outcomes = []\<rparr> m))"

section \<open>Checkpoints and pins\<close>

definition in_some_order :: "lane_manager \<Rightarrow> string \<Rightarrow> bool" where
  "in_some_order m c \<longleftrightarrow> (\<exists>lane_order\<in>set (lm_checkpoint_order m). c \<in> set (snd lane_order))"

definition drop_checkpoint_if_unretained :: "string \<Rightarrow> lane_manager \<Rightarrow> lane_manager" where
  "drop_checkpoint_if_unretained c m =
     (if c \<in> lm_pinned_checkpoint_ids m then m
      else if in_some_order m c then m
      else m\<lparr>lm_checkpoints := (lm_checkpoints m)(c := None), lm_files := (lm_files m)(c := None)\<rparr>)"

definition lane_order :: "lane_manager \<Rightarrow> string \<Rightarrow> string list" where
  "lane_order m lane_id = (case map_of (lm_checkpoint_order m) lane_id of None \<Rightarrow> [] | Some xs \<Rightarrow> xs)"

definition set_lane_order :: "string \<Rightarrow> string list \<Rightarrow> lane_manager \<Rightarrow> lane_manager" where
  "set_lane_order lane_id xs m = m\<lparr>lm_checkpoint_order := AList.update lane_id xs (lm_checkpoint_order m)\<rparr>"

text \<open>The loop that shortens the order of a lane; each round removes its oldest entry.\<close>

primrec expire_checkpoints :: "nat \<Rightarrow> string \<Rightarrow> lane_manager \<Rightarrow> lane_manager" where
  "expire_checkpoints 0 lane_id m = m"
| "expire_checkpoints (Suc n) lane_id m =
     (let xs = lane_order m lane_id
      in expire_checkpoints n lane_id
           (drop_checkpoint_if_unretained (hd xs) (set_lane_order lane_id (tl xs) m)))"

definition add_to_order :: "string \<Rightarrow> string \<Rightarrow> lane_manager \<Rightarrow> lane_manager" where
  "add_to_order lane_id c m =
     (let xs = lane_order m lane_id in set_lane_order lane_id (if c \<in> set xs then xs else xs @ [c]) m)"

definition remember_checkpoint :: "string \<Rightarrow> lane_runtime \<Rightarrow> lane_checkpoint \<Rightarrow> lane_manager \<Rightarrow> lane_manager" where
  "remember_checkpoint key rt cp m =
     (let lane_id = sp_lane_id (rt_spec rt);
          m1 = set_runtime key (rt\<lparr>rt_latest_checkpoint_id := Some (cp_id cp), rt_latest_checkpoint := Some cp,
                 rt_high_water := max (rt_high_water rt) (cp_high_water cp)\<rparr>) m;
          m2 = add_to_order lane_id (cp_id cp) (m1\<lparr>lm_checkpoints := (lm_checkpoints m1)(cp_id cp \<mapsto> cp)\<rparr>);
          m3 = m2\<lparr>lm_files := (lm_files m2)(cp_id cp \<mapsto> cp)\<rparr>
      in expire_checkpoints (length (lane_order m3 lane_id) - lm_checkpoints_per_lane m3) lane_id m3)"

primrec unpin_oldest :: "nat \<Rightarrow> lane_manager \<Rightarrow> lane_manager" where
  "unpin_oldest 0 m = m"
| "unpin_oldest (Suc n) m =
     (let expired = hd (lm_pinned_checkpoint_order m)
      in unpin_oldest n (drop_checkpoint_if_unretained expired
           (m\<lparr>lm_pinned_checkpoint_order := tl (lm_pinned_checkpoint_order m),
              lm_pinned_checkpoint_ids := lm_pinned_checkpoint_ids m - {expired}\<rparr>)))"

text \<open>\<open>dict.fromkeys\<close> keeps the first occurrence of every key.\<close>

definition from_keys :: "'a list \<Rightarrow> 'a list" where
  "from_keys xs = rev (remdups (rev xs))"

definition pin_checkpoints :: "string list \<Rightarrow> lane_manager \<Rightarrow> unit manager_result" where
  "pin_checkpoints checkpoint_ids m =
     (let identifiers = from_keys checkpoint_ids
      in if \<exists>c\<in>set identifiers. lm_checkpoints m c = None then (Inl KeyError, m)
         else if length identifiers > lm_pinned_limit m
         then (Inl (ValueError ''checkpoint pin batch exceeds the retention limit''), m)
         else
           let retained = filter (\<lambda>c. c \<in> lm_pinned_checkpoint_ids m \<and> c \<notin> set identifiers)
                 (lm_pinned_checkpoint_order m);
               m1 = m\<lparr>lm_pinned_checkpoint_ids := set retained \<union> set identifiers,
                      lm_pinned_checkpoint_order := retained @ identifiers\<rparr>
           in (Inr (), unpin_oldest (length (lm_pinned_checkpoint_order m1) - lm_pinned_limit m1) m1))"

definition pin_checkpoint :: "string \<Rightarrow> lane_manager \<Rightarrow> unit manager_result" where
  "pin_checkpoint c m = pin_checkpoints [c] m"

definition register_restored_checkpoint :: "string \<Rightarrow> lane_checkpoint \<Rightarrow> lane_manager \<Rightarrow> unit manager_result" where
  "register_restored_checkpoint lane_id cp m =
     (case map_of (lm_lanes m) lane_id of
        None \<Rightarrow> (Inl KeyError, m)
      | Some rt \<Rightarrow> (Inr (), remember_checkpoint lane_id rt cp m))"

definition register_archived_checkpoint :: "lane_checkpoint \<Rightarrow> lane_manager \<Rightarrow> lane_manager" where
  "register_archived_checkpoint cp m =
     add_to_order (cp_lane_id cp) (cp_id cp) (m\<lparr>lm_checkpoints := (lm_checkpoints m)(cp_id cp \<mapsto> cp)\<rparr>)"

definition current_executable_checkpoint_ids :: "string list \<Rightarrow> lane_manager \<Rightarrow> string list" where
  "current_executable_checkpoint_ids additional m =
     sorted_list_of_set
       (set (filter (\<lambda>c. lm_checkpoints m c \<noteq> None) (List.map_filter rt_latest_checkpoint_id (active_lanes m)))
        \<union> set (filter (\<lambda>c. lm_checkpoints m c \<noteq> None) additional))"

section \<open>Commands\<close>

definition send_command :: "string \<Rightarrow> lane_command \<Rightarrow> lane_manager \<Rightarrow> unit manager_result" where
  "send_command lane_id c m =
     (case find_runtime lane_id m of
        Inl e \<Rightarrow> (Inl e, m)
      | Inr rt \<Rightarrow>
          if command_action c \<in> rt_pending_actions rt
          then (Inl (RuntimeError ''action is already pending for lane''), m)
          else if command_action c \<in> rt_completed_action_ids rt
          then (Inl (RuntimeError ''action has already been applied or rejected''), m)
          else if 0 < lm_command_capacity m \<and> lm_command_capacity m \<le> int (length (rt_commands rt))
          then (Inl QueueFull, m)
          else (Inr (), set_runtime lane_id
            (rt\<lparr>rt_commands := rt_commands rt @ [c],
               rt_pending_actions := insert (command_action c) (rt_pending_actions rt)\<rparr>) m))"

definition send_patch :: "string \<Rightarrow> string \<Rightarrow> int \<Rightarrow> json_obj \<Rightarrow> lane_manager \<Rightarrow> unit manager_result" where
  "send_patch lane_id action_id expected patch m = send_command lane_id (Patch_Command action_id expected patch) m"

definition restart_lane ::
  "string \<Rightarrow> string \<Rightarrow> int \<Rightarrow> int \<Rightarrow> string option \<Rightarrow> lane_manager \<Rightarrow> unit manager_result" where
  "restart_lane lane_id action_id expected seed checkpoint_id m =
     (case checkpoint_id of
        None \<Rightarrow> send_command lane_id (Restart_Command action_id expected seed None) m
      | Some c \<Rightarrow>
          (case lm_checkpoints m c of
             None \<Rightarrow> (Inl KeyError, m)
           | Some cp \<Rightarrow>
               (case pin_checkpoint c m of
                  (Inl e, m1) \<Rightarrow> (Inl e, m1)
                | (Inr _, m1) \<Rightarrow> send_command lane_id (Restart_Command action_id expected seed (Some cp)) m1)))"

definition reallocate_lane :: "string \<Rightarrow> string \<Rightarrow> int \<Rightarrow> py_float \<Rightarrow> lane_manager \<Rightarrow> unit manager_result" where
  "reallocate_lane lane_id action_id expected share m =
     (if \<not> (py_le (Fin 0) share \<and> py_le share (Fin 1))
      then (Inl (ValueError ''resource_share must be between 0 and 1''), m)
      else send_command lane_id (Reallocate_Command action_id expected share) m)"

definition stop_lane :: "string \<Rightarrow> string \<Rightarrow> int \<Rightarrow> lane_manager \<Rightarrow> unit manager_result" where
  "stop_lane lane_id action_id expected m =
     (case find_runtime lane_id m of
        Inl e \<Rightarrow> (Inl e, m)
      | Inr rt \<Rightarrow>
          send_command lane_id (Stop_Command action_id expected)
            (set_runtime lane_id (rt\<lparr>rt_state := Stopping\<rparr>) m))"

definition fork_lane ::
  "(string \<Rightarrow> string) \<Rightarrow> string \<Rightarrow> string \<Rightarrow> string \<Rightarrow> int \<Rightarrow> string \<Rightarrow> json_obj \<Rightarrow> py_float \<Rightarrow>
     lane_manager \<Rightarrow> unit manager_result" where
  "fork_lane sha parent_id child_id action_id expected checkpoint_id patch share m =
     (case find_runtime parent_id m of
        Inl e \<Rightarrow> (Inl e, m)
      | Inr parent \<Rightarrow>
          if rt_lane_version parent \<noteq> expected then (Inl (RuntimeError ''stale parent lane version''), m)
          else
            case lm_checkpoints m checkpoint_id of
              None \<Rightarrow> (Inl (RuntimeError ''fork checkpoint is not available for parent''), m)
            | Some cp \<Rightarrow>
                if cp_lane_id cp \<noteq> parent_id
                then (Inl (RuntimeError ''fork checkpoint is not available for parent''), m)
                else
                  case pin_checkpoint checkpoint_id m of
                    (Inl e, m1) \<Rightarrow> (Inl e, m1)
                  | (Inr _, m1) \<Rightarrow>
                      start_lane_process (fork_spec sha (rt_spec parent) (rt_parameters parent) child_id action_id
                        checkpoint_id patch share) m1)"

section \<open>Events\<close>

definition keep_last :: "nat \<Rightarrow> 'a list \<Rightarrow> 'a list" where
  "keep_last n xs = drop (length xs - n) xs"

definition apply_outcome :: "string \<Rightarrow> lane_runtime \<Rightarrow> action_outcome \<Rightarrow> lane_manager \<Rightarrow> unit manager_result" where
  "apply_outcome lane_id rt oc m =
     (let rt1 = rt\<lparr>rt_action_outcomes := keep_last 128 (rt_action_outcomes rt @ [oc]),
                   rt_pending_actions := rt_pending_actions rt - {oc_action_id oc},
                   rt_completed_action_ids := insert (oc_action_id oc) (rt_completed_action_ids rt)\<rparr>
      in case pin_checkpoint (oc_checkpoint_id oc) (set_runtime lane_id rt1 m) of
           (Inl e, m1) \<Rightarrow> (Inl e, m1)
         | (Inr _, m1) \<Rightarrow>
             let rt2 = rt1\<lparr>rt_lane_version := oc_lane_version oc\<rparr>
             in (Inr (), set_runtime lane_id
                  (case oc_settings oc of
                     None \<Rightarrow> rt2
                   | Some (ps, share) \<Rightarrow>
                       rt2\<lparr>rt_parameters := ps, rt_resource_share := share\<rparr>) m1))"

text \<open>The file that keeps a live preview has a name of its own and is not modelled.\<close>

definition apply_event :: "worker_event \<Rightarrow> lane_manager \<Rightarrow> unit manager_result" where
  "apply_event ev m =
     (case find_runtime (event_lane ev) m of
        Inl e \<Rightarrow> (Inl e, m)
      | Inr rt \<Rightarrow>
          (case ev of
             Ready_Event lane_id version ps share \<Rightarrow>
               (Inr (), set_runtime lane_id
                 (rt\<lparr>rt_state := if rt_pause_event rt then Paused else Running, rt_lane_version := version,
                    rt_parameters := ps, rt_resource_share := share\<rparr>) m)
           | Checkpoint_Event lane_id cp \<Rightarrow> (Inr (), remember_checkpoint lane_id rt cp m)
           | Live_Frontier_Event lane_id preview \<Rightarrow>
               if pv_lane_id preview \<noteq> sp_lane_id (rt_spec rt)
               then (Inl (ValueError ''live frontier lane mismatch''), m)
               else (Inr (), set_runtime lane_id
                 (rt\<lparr>rt_latest_live_frontier := Some preview,
                    rt_high_water := max (rt_high_water rt) (pv_high_water preview)\<rparr>) m)
           | Telemetry_Event lane_id version w \<Rightarrow>
               (Inr (), set_runtime lane_id
                 (rt\<lparr>rt_telemetry := series_append w (rt_telemetry rt),
                    rt_high_water := max (rt_high_water rt) (high_water w)\<rparr>) m)
           | Improvement_Event lane_id version body \<Rightarrow>
               (Inr (), set_runtime lane_id
                 (rt\<lparr>rt_improvements := keep_last 64 (rt_improvements rt @ [ev])\<rparr>) m)
           | Outcome_Event lane_id oc \<Rightarrow> apply_outcome lane_id rt oc m
           | Exit_Event lane_id failure cp \<Rightarrow>
               let rt1 = rt\<lparr>rt_state := if failure then Failed else Stopped\<rparr>; m1 = set_runtime lane_id rt1 m
               in (Inr (), case cp of None \<Rightarrow> m1 | Some c \<Rightarrow> remember_checkpoint lane_id rt1 c m1)))"

definition poll :: "lane_manager \<Rightarrow> worker_event option manager_result" where
  "poll m =
     (case lm_deferred_events m of
        ev # evs \<Rightarrow> (Inr (Some ev), m\<lparr>lm_deferred_events := evs\<rparr>)
      | [] \<Rightarrow>
          if lm_queues_closed m then (Inr None, m)
          else
            case lm_events m of
              [] \<Rightarrow> (Inr None, m)
            | ev # evs \<Rightarrow>
                (case apply_event ev (m\<lparr>lm_events := evs\<rparr>) of
                   (Inl e, m1) \<Rightarrow> (Inl e, m1)
                 | (Inr _, m1) \<Rightarrow> (Inr (Some ev), m1)))"

definition pause_all :: "lane_manager \<Rightarrow> lane_manager" where
  "pause_all m = m\<lparr>lm_lanes := map (\<lambda>(k, rt).
     (k, if active rt then rt\<lparr>rt_pause_event := True, rt_state := Paused\<rparr> else rt)) (lm_lanes m)\<rparr>"

definition resume_all :: "lane_manager \<Rightarrow> lane_manager" where
  "resume_all m = m\<lparr>lm_lanes := map (\<lambda>(k, rt).
     (k, if active rt then rt\<lparr>rt_pause_event := False, rt_state := Running\<rparr> else rt)) (lm_lanes m)\<rparr>"

definition total_candidates :: "lane_manager \<Rightarrow> int" where
  "total_candidates m = sum_list (map (\<lambda>(_, rt). rt_high_water rt) (lm_lanes m))"

section \<open>The lane process\<close>

text \<open>
  What the process uses of its search kernel.  An operation that raises may have changed the
  kernel before; a batch returns its metrics and whether it improved the best candidate.
\<close>

record 'k kernel =
  kn_new :: "lane_spec \<Rightarrow> lane_checkpoint option \<Rightarrow> int option \<Rightarrow> 'k result"
  kn_patch :: "json_obj \<Rightarrow> 'k \<Rightarrow> py_error option \<times> 'k"
  kn_restart :: "int \<Rightarrow> 'k \<Rightarrow> py_error option \<times> 'k"
  kn_restart_from_checkpoint :: "lane_checkpoint \<Rightarrow> int \<Rightarrow> 'k \<Rightarrow> py_error option \<times> 'k"
  kn_checkpoint :: "int \<Rightarrow> 'k \<Rightarrow> lane_checkpoint result"
  kn_run_batch :: "string \<Rightarrow> 'k \<Rightarrow> (window \<times> bool) result \<times> 'k"
  kn_parameters :: "'k \<Rightarrow> json_obj"
  kn_improvement :: "string \<Rightarrow> 'k \<Rightarrow> json_obj"

record 'k lane_worker =
  wk_kernel :: 'k
  wk_version :: int
  wk_share :: py_float
  wk_checkpoint :: lane_checkpoint

definition run_command :: "'k kernel \<Rightarrow> lane_command \<Rightarrow> 'k lane_worker \<Rightarrow> bool \<times> py_error option \<times> 'k lane_worker" where
  "run_command ops c w =
     (let with = (\<lambda>(err, k). (False, err, w\<lparr>wk_kernel := k\<rparr>))
      in case c of
           Patch_Command _ _ patch \<Rightarrow> with (kn_patch ops patch (wk_kernel w))
         | Restart_Command _ _ seed (Some cp) \<Rightarrow> with (kn_restart_from_checkpoint ops cp seed (wk_kernel w))
         | Restart_Command _ _ seed None \<Rightarrow> with (kn_restart ops seed (wk_kernel w))
         | Reallocate_Command _ _ share \<Rightarrow> (False, None, w\<lparr>wk_share := share\<rparr>)
         | Stop_Command _ _ \<Rightarrow> (True, None, w))"

text \<open>
  One round of \<open>_apply_commands\<close>.  The fate of the three puts on the event queue, whose timeouts
  may expire, is an argument: the first is that of the checkpoint or of the rejection, the
  second that of the outcome, the third that of the report of a failure.  The result is what
  was put, whether the stop event was set, the process state and an exception that escapes.
\<close>

definition report ::
  "string \<Rightarrow> lane_command \<Rightarrow> outcome_status \<Rightarrow> (json_obj \<times> py_float) option \<Rightarrow> py_error option \<Rightarrow> 'k lane_worker \<Rightarrow> worker_event" where
  "report lane_id c st settings failure w =
     Outcome_Event lane_id \<lparr>oc_action_id = command_action c, oc_status = st, oc_lane_version = wk_version w,
       oc_settings = settings, oc_checkpoint_id = cp_id (wk_checkpoint w), oc_failure = failure\<rparr>"

type_synonym 'k command_result = "worker_event list \<times> bool \<times> 'k lane_worker \<times> py_error option"

definition report_failure ::
  "string \<Rightarrow> lane_command \<Rightarrow> bool \<Rightarrow> worker_event list \<Rightarrow> bool \<Rightarrow> py_error \<Rightarrow> 'k lane_worker \<Rightarrow> 'k command_result" where
  "report_failure lane_id c delivered evs stop e w =
     (if delivered then (evs @ [report lane_id c Failed_Action None (Some e) w], stop, w, None)
      else (evs, stop, w, Some QueueFull))"

definition apply_command ::
  "'k kernel \<Rightarrow> string \<Rightarrow> bool \<times> bool \<times> bool \<Rightarrow> lane_command \<Rightarrow> 'k lane_worker \<Rightarrow> 'k command_result" where
  "apply_command ops lane_id = (\<lambda>(put1, put2, put3) c w.
     if command_expected c \<noteq> wk_version w then
       (if put1 then ([report lane_id c Rejected_Stale_State None None w], False, w, None)
        else ([], False, w, Some QueueFull))
     else
       (case run_command ops c w of
          (stop, Some e, w1) \<Rightarrow> report_failure lane_id c put3 [] stop e w1
        | (stop, None, w1) \<Rightarrow>
            let w2 = w1\<lparr>wk_version := wk_version w1 + 1\<rparr>
            in case kn_checkpoint ops (wk_version w2) (wk_kernel w2) of
                 Inl e \<Rightarrow> report_failure lane_id c put3 [] stop e w2
               | Inr cp \<Rightarrow>
                   let w3 = w2\<lparr>wk_checkpoint := cp\<rparr>
                   in if \<not> put1 then report_failure lane_id c put3 [] stop QueueFull w3
                      else if \<not> put2
                      then report_failure lane_id c put3 [Checkpoint_Event lane_id cp] stop QueueFull w3
                      else ([Checkpoint_Event lane_id cp,
                             report lane_id c Applied (Some (kn_parameters ops (wk_kernel w3), wk_share w3)) None w3],
                            stop, w3, None)))"

fun apply_commands ::
  "'k kernel \<Rightarrow> string \<Rightarrow> (lane_command \<times> bool \<times> bool \<times> bool) list \<Rightarrow> 'k lane_worker \<Rightarrow> 'k command_result" where
  "apply_commands ops lane_id [] w = ([], False, w, None)"
| "apply_commands ops lane_id ((c, puts) # cs) w =
     (case apply_command ops lane_id puts c w of
        (evs, stop, w1, Some e) \<Rightarrow> (evs, stop, w1, Some e)
      | (evs, stop, w1, None) \<Rightarrow>
          (case apply_commands ops lane_id cs w1 of
             (evs', stop', w2, err) \<Rightarrow> (evs @ evs', stop \<or> stop', w2, err)))"

text \<open>
  A batch: the checkpoint and an improvement are put as important events, whose puts may time out
  and raise; the telemetry may be dropped.  An exception ends the process with an exit event,
  whose put may time out as well.
\<close>

datatype 'k lane_process = Booting "lane_checkpoint option" "int option" | Alive "'k lane_worker" | Dead

definition crash :: "string \<Rightarrow> bool \<Rightarrow> worker_event list \<times> 'k lane_process" where
  "crash lane_id crash_put = (if crash_put then [Exit_Event lane_id True None] else [], Dead)"

definition run_lane_batch ::
  "'k kernel \<Rightarrow> string \<Rightarrow> bool \<times> bool \<times> bool \<Rightarrow> bool \<Rightarrow> 'k lane_worker \<Rightarrow> worker_event list \<times> 'k lane_process" where
  "run_lane_batch ops lane_id = (\<lambda>(put1, put2, put3) crash_put w.
     case kn_run_batch ops (cp_id (wk_checkpoint w)) (wk_kernel w) of
        (Inl e, k) \<Rightarrow> crash lane_id crash_put
      | (Inr (batch, improved), k) \<Rightarrow>
          (case kn_checkpoint ops (wk_version w) k of
             Inl e \<Rightarrow> crash lane_id crash_put
           | Inr cp \<Rightarrow>
               if \<not> put1 then crash lane_id crash_put
               else
                 let evs = [Checkpoint_Event lane_id cp]
                       @ (if put2 then [Telemetry_Event lane_id (wk_version w) batch] else []);
                     next = Alive (w\<lparr>wk_kernel := k, wk_checkpoint := cp\<rparr>)
                 in if \<not> improved then (evs, next)
                    else if put3
                    then (evs @ [Improvement_Event lane_id (wk_version w) (kn_improvement ops (cp_id cp) k)], next)
                    else (evs @ fst (crash lane_id crash_put :: worker_event list \<times> 'k lane_process), Dead)))"

text \<open>The start of a process: the memory limit, the kernel, its first checkpoint.\<close>

definition boot ::
  "'k kernel \<Rightarrow> int option \<Rightarrow> lane_spec \<Rightarrow> lane_checkpoint option \<Rightarrow> int option \<Rightarrow> bool \<times> bool \<Rightarrow> bool \<Rightarrow>
     worker_event list \<times> 'k lane_process" where
  "boot ops memory_limit spec checkpoint fork_seed = (\<lambda>(put1, put2) crash_put.
     let lane_id = sp_lane_id spec
     in if (case memory_limit of None \<Rightarrow> False | Some b \<Rightarrow> b < 128 * 1024 * 1024) then crash lane_id crash_put
        else
          case kn_new ops spec checkpoint fork_seed of
            Inl e \<Rightarrow> crash lane_id crash_put
          | Inr k \<Rightarrow>
              (case kn_checkpoint ops (sp_lane_version spec) k of
                 Inl e \<Rightarrow> crash lane_id crash_put
               | Inr cp \<Rightarrow>
                   if \<not> put1 then crash lane_id crash_put
                   else if \<not> put2
                   then (Checkpoint_Event lane_id cp # fst (crash lane_id crash_put :: worker_event list \<times> 'k lane_process), Dead)
                   else
                     ([Checkpoint_Event lane_id cp,
                       Ready_Event lane_id (sp_lane_version spec) (kn_parameters ops k) (sp_resource_share spec)],
                      Alive \<lparr>wk_kernel = k, wk_version = sp_lane_version spec, wk_share = sp_resource_share spec,
                        wk_checkpoint = cp\<rparr>)))"

text \<open>
  The end of the loop: the exit event of a stopped lane; when its put times out, the exception
  handler tries to put the exit event of a failure.
\<close>

definition leave_loop :: "string \<Rightarrow> bool \<Rightarrow> bool \<Rightarrow> lane_checkpoint \<Rightarrow> worker_event list" where
  "leave_loop lane_id exit_put crash_put cp =
     (if exit_put then [Exit_Event lane_id False (Some cp)]
      else if crash_put then [Exit_Event lane_id True None] else [])"

text \<open>
  One round of the loop of \<open>_lane_worker\<close>: the stop event at its head, the commands it finds in
  the queue, the stop event again (set by a command or from outside), a pause, a batch.  The
  fates of its puts are arguments.  The second component of the result says whether a command
  set the stop event.
\<close>

definition worker_pass ::
  "'k kernel \<Rightarrow> string \<Rightarrow> bool \<Rightarrow> bool \<Rightarrow> bool \<Rightarrow> bool \<times> bool \<times> bool \<Rightarrow> bool \<Rightarrow> bool \<Rightarrow>
     (lane_command \<times> bool \<times> bool \<times> bool) list \<Rightarrow> 'k lane_worker \<Rightarrow> worker_event list \<times> bool \<times> 'k lane_process" where
  "worker_pass ops lane_id stop late_stop pause batch_puts exit_put crash_put cs w =
     (if stop then (leave_loop lane_id exit_put crash_put (wk_checkpoint w), False, Dead)
      else
        case apply_commands ops lane_id cs w of
          (evs, st, w1, Some e) \<Rightarrow>
            (evs @ fst (crash lane_id crash_put :: worker_event list \<times> 'k lane_process), st, Dead)
        | (evs, st, w1, None) \<Rightarrow>
            if st \<or> late_stop then (evs @ leave_loop lane_id exit_put crash_put (wk_checkpoint w1), st, Dead)
            else if pause \<or> py_le (wk_share w1) (Fin 0) then (evs, st, Alive w1)
            else case run_lane_batch ops lane_id batch_puts crash_put w1 of (evs', p) \<Rightarrow> (evs @ evs', st, p))"

section \<open>Shutdown\<close>

text \<open>
  \<open>shutdown\<close> in its steps: the stop events of the active lanes, the events that arrive while the
  processes end, and, when the processes have ended or been killed, the remaining events and
  the closing of the queues.  Every event is applied at once and returned later by \<open>poll\<close>; an
  exception leaves \<open>shutdown\<close>.
\<close>

definition request_stop :: "lane_manager \<Rightarrow> lane_manager" where
  "request_stop m = m\<lparr>lm_lanes := map (\<lambda>(k, rt).
     (k, if active rt then rt\<lparr>rt_stop_event := True, rt_pause_event := False\<rparr> else rt)) (lm_lanes m)\<rparr>"

definition drain_event :: "lane_manager \<Rightarrow> unit manager_result" where
  "drain_event m =
     (case lm_events m of
        [] \<Rightarrow> (Inr (), m)
      | ev # evs \<Rightarrow>
          (case apply_event ev (m\<lparr>lm_events := evs\<rparr>) of
             (Inl e, m1) \<Rightarrow> (Inl e, m1)
           | (Inr _, m1) \<Rightarrow> (Inr (), m1\<lparr>lm_deferred_events := lm_deferred_events m1 @ [ev]\<rparr>)))"

primrec drain_events :: "nat \<Rightarrow> lane_manager \<Rightarrow> unit manager_result" where
  "drain_events 0 m = (Inr (), m)"
| "drain_events (Suc n) m =
     (case drain_event m of
        (Inl e, m1) \<Rightarrow> (Inl e, m1)
      | (Inr _, m1) \<Rightarrow> drain_events n m1)"

definition mark_stopped :: "lane_manager \<Rightarrow> lane_manager" where
  "mark_stopped m = m\<lparr>lm_lanes := map (\<lambda>(k, rt).
     (k, if rt_state rt \<in> {Failed, Stopped} then rt else rt\<lparr>rt_state := Stopped\<rparr>)) (lm_lanes m)\<rparr>"

definition close_queues :: "lane_manager \<Rightarrow> unit manager_result" where
  "close_queues m =
     (let m1 = mark_stopped m
      in if lm_queues_closed m1 then (Inr (), m1)
         else
           case drain_events (length (lm_events m1)) m1 of
             (Inl e, m2) \<Rightarrow> (Inl e, m2)
           | (Inr _, m2) \<Rightarrow> (Inr (), m2\<lparr>lm_queues_closed := True\<rparr>))"

section \<open>The registry invariant\<close>

definition retained :: "lane_manager \<Rightarrow> string \<Rightarrow> bool" where
  "retained m c \<longleftrightarrow> c \<in> lm_pinned_checkpoint_ids m \<or> (\<exists>l. c \<in> set (lane_order m l))"

definition order_keys_ok :: "lane_manager \<Rightarrow> bool" where
  "order_keys_ok m \<longleftrightarrow> distinct (map fst (lm_checkpoint_order m))"

definition stored_ok :: "lane_manager \<Rightarrow> bool" where
  "stored_ok m \<longleftrightarrow> (\<forall>c cp. lm_checkpoints m c = Some cp \<longrightarrow> cp_id cp = c \<and> lm_files m c = Some cp)"

definition pins_ok :: "lane_manager \<Rightarrow> bool" where
  "pins_ok m \<longleftrightarrow> distinct (lm_pinned_checkpoint_order m) \<and>
     set (lm_pinned_checkpoint_order m) = lm_pinned_checkpoint_ids m"

definition registry_ok :: "lane_manager \<Rightarrow> bool" where
  "registry_ok m \<longleftrightarrow> order_keys_ok m \<and> stored_ok m \<and> pins_ok m \<and>
     length (lm_pinned_checkpoint_order m) \<le> lm_pinned_limit m \<and>
     (\<forall>c. lm_checkpoints m c \<noteq> None \<longleftrightarrow> retained m c)"

lemma in_some_order_iff: "order_keys_ok m \<Longrightarrow> in_some_order m c \<longleftrightarrow> (\<exists>l. c \<in> set (lane_order m l))"
  unfolding in_some_order_def lane_order_def order_keys_ok_def
  by (force split: option.splits dest: map_of_SomeD simp: map_of_eq_Some_iff)

lemma lane_order_set [simp]: "lane_order (set_lane_order l xs m) l' = (if l' = l then xs else lane_order m l')"
  by (simp add: lane_order_def set_lane_order_def update_conv')

lemma lane_order_record [simp]:
  "lane_order (m\<lparr>lm_checkpoints := cs\<rparr>) = lane_order m" "lane_order (m\<lparr>lm_files := fs\<rparr>) = lane_order m"
  "lane_order (m\<lparr>lm_lanes := ls\<rparr>) = lane_order m" "lane_order (m\<lparr>lm_events := es\<rparr>) = lane_order m"
  "lane_order (m\<lparr>lm_pinned_checkpoint_ids := ps, lm_pinned_checkpoint_order := xs\<rparr>) = lane_order m"
  "lane_order (m\<lparr>lm_pinned_checkpoint_order := xs, lm_pinned_checkpoint_ids := ps\<rparr>) = lane_order m"
  by (simp_all add: lane_order_def fun_eq_iff)

lemma order_keys_set [simp]: "order_keys_ok m \<Longrightarrow> order_keys_ok (set_lane_order l xs m)"
  by (simp add: order_keys_ok_def set_lane_order_def distinct_update)

text \<open>The parts of a manager that the registry operations leave alone.\<close>

definition same_rest :: "lane_manager \<Rightarrow> lane_manager \<Rightarrow> bool" where
  "same_rest m m' \<longleftrightarrow> lm_max_active_lanes m' = lm_max_active_lanes m \<and>
     lm_command_capacity m' = lm_command_capacity m \<and> lm_telemetry_windows m' = lm_telemetry_windows m \<and>
     lm_checkpoints_per_lane m' = lm_checkpoints_per_lane m \<and> lm_pinned_limit m' = lm_pinned_limit m \<and>
     lm_events m' = lm_events m \<and> lm_lanes m' = lm_lanes m \<and>
     lm_deferred_events m' = lm_deferred_events m \<and> lm_queues_closed m' = lm_queues_closed m"

lemma same_rest_trans: "same_rest a b \<Longrightarrow> same_rest b c \<Longrightarrow> same_rest a c"
  by (simp add: same_rest_def)

lemma same_rest_drop: "same_rest m (drop_checkpoint_if_unretained c m)"
  by (simp add: same_rest_def drop_checkpoint_if_unretained_def)

lemma drop_keeps [simp]:
  "lane_order (drop_checkpoint_if_unretained c m) = lane_order m"
  "lm_checkpoint_order (drop_checkpoint_if_unretained c m) = lm_checkpoint_order m"
  "lm_pinned_checkpoint_ids (drop_checkpoint_if_unretained c m) = lm_pinned_checkpoint_ids m"
  "lm_pinned_checkpoint_order (drop_checkpoint_if_unretained c m) = lm_pinned_checkpoint_order m"
  "order_keys_ok (drop_checkpoint_if_unretained c m) = order_keys_ok m"
  "retained (drop_checkpoint_if_unretained c m) = retained m"
  by (auto simp: drop_checkpoint_if_unretained_def lane_order_def order_keys_ok_def retained_def fun_eq_iff)

text \<open>
  Dropping a checkpoint repairs the registry when that checkpoint is the only one that may be
  stored without being retained.
\<close>

lemma drop_repairs:
  assumes "order_keys_ok m" "stored_ok m" "\<And>x. retained m x \<Longrightarrow> lm_checkpoints m x \<noteq> None"
    and "\<And>x. lm_checkpoints m x \<noteq> None \<Longrightarrow> x = c \<or> retained m x"
  shows "stored_ok (drop_checkpoint_if_unretained c m)"
    "lm_checkpoints (drop_checkpoint_if_unretained c m) x \<noteq> None \<longleftrightarrow> retained m x"
proof -
  have "retained m c \<longleftrightarrow> c \<in> lm_pinned_checkpoint_ids m \<or> in_some_order m c"
    unfolding retained_def in_some_order_iff [OF assms(1)] ..
  then have d: "drop_checkpoint_if_unretained c m = (if retained m c then m
      else m\<lparr>lm_checkpoints := (lm_checkpoints m)(c := None), lm_files := (lm_files m)(c := None)\<rparr>)"
    unfolding drop_checkpoint_if_unretained_def by auto
  show "stored_ok (drop_checkpoint_if_unretained c m)"
    using assms(2) unfolding d stored_ok_def by (auto split: if_splits)
  show "lm_checkpoints (drop_checkpoint_if_unretained c m) x \<noteq> None \<longleftrightarrow> retained m x"
    unfolding d using assms(3) [of x] assms(4) [of x] by (cases "x = c") auto
qed

lemma member_upd_tl:
  assumes "f l = c # xs"
  shows "(\<exists>k. x \<in> set (f k)) \<longleftrightarrow> x = c \<or> (\<exists>k. x \<in> set ((f(l := xs)) k))"
proof
  assume "\<exists>k. x \<in> set (f k)"
  then obtain k where k: "x \<in> set (f k)" by blast
  show "x = c \<or> (\<exists>k. x \<in> set ((f(l := xs)) k))"
  proof (cases "k = l")
    case True
    with k assms have "x = c \<or> x \<in> set ((f(l := xs)) l)" by simp
    then show ?thesis by blast
  next
    case False
    with k have "x \<in> set ((f(l := xs)) k)" by simp
    then show ?thesis by blast
  qed
next
  have "x \<in> set (f k)" if "x \<in> set ((f(l := xs)) k)" for k
    using that assms by (simp split: if_splits)
  moreover have "c \<in> set (f l)" by (simp add: assms)
  moreover assume "x = c \<or> (\<exists>k. x \<in> set ((f(l := xs)) k))"
  ultimately show "\<exists>k. x \<in> set (f k)" by blast
qed

lemma member_upd_add:
  "(\<exists>k. x \<in> set ((f(l := if c \<in> set (f l) then f l else f l @ [c])) k)) \<longleftrightarrow> x = c \<or> (\<exists>k. x \<in> set (f k))"
proof -
  let ?f = "f(l := if c \<in> set (f l) then f l else f l @ [c])"
  have *: "x \<in> set (?f k) \<longleftrightarrow> x \<in> set (f k) \<or> k = l \<and> x = c" for k
    by (cases "k = l"; cases "c \<in> set (f l)") auto
  show ?thesis unfolding * ex_disj_distrib by (simp add: disj_commute)
qed

lemma expire_checkpoints_ok:
  assumes "registry_ok m" "n \<le> length (lane_order m l)"
  shows "registry_ok (expire_checkpoints n l m) \<and> same_rest m (expire_checkpoints n l m) \<and>
    lane_order (expire_checkpoints n l m) = (lane_order m)(l := drop n (lane_order m l))"
  using assms
proof (induction n arbitrary: m)
  case 0
  then show ?case by (simp add: same_rest_def)
next
  case (Suc n)
  then obtain c xs where xs: "lane_order m l = c # xs" by (cases "lane_order m l") auto
  let ?m = "set_lane_order l xs m"
  let ?d = "drop_checkpoint_if_unretained c ?m"
  note r = Suc.prems(1) [unfolded registry_ok_def]
  have order: "lane_order ?m = (lane_order m)(l := xs)" by (simp add: fun_eq_iff)
  have frame: "lm_checkpoints ?m = lm_checkpoints m" "lm_files ?m = lm_files m"
    "lm_pinned_checkpoint_ids ?m = lm_pinned_checkpoint_ids m"
    "lm_pinned_checkpoint_order ?m = lm_pinned_checkpoint_order m" "lm_pinned_limit ?m = lm_pinned_limit m"
    by (simp_all add: set_lane_order_def)
  have ret: "retained m x \<longleftrightarrow> x = c \<or> retained ?m x" for x
    unfolding retained_def frame order by (simp add: member_upd_tl [of "lane_order m" l, OF xs] disj_left_commute)
  have "order_keys_ok ?m" "stored_ok ?m" "\<And>x. retained ?m x \<Longrightarrow> lm_checkpoints ?m x \<noteq> None"
    "\<And>x. lm_checkpoints ?m x \<noteq> None \<Longrightarrow> x = c \<or> retained ?m x"
    using r ret by (auto simp: stored_ok_def frame)
  from drop_repairs [OF this] this(1) have "registry_ok ?d"
    using r same_rest_drop [of ?m c] by (simp add: registry_ok_def pins_ok_def frame same_rest_def)
  moreover have "n \<le> length (lane_order ?d l)" using Suc.prems(2) xs by simp
  ultimately have IH: "registry_ok (expire_checkpoints n l ?d)" "same_rest ?d (expire_checkpoints n l ?d)"
    "lane_order (expire_checkpoints n l ?d) = (lane_order ?d)(l := drop n (lane_order ?d l))"
    using Suc.IH by blast+
  have "same_rest m ?m" by (simp add: same_rest_def set_lane_order_def)
  then have "same_rest m (expire_checkpoints n l ?d)"
    using same_rest_trans IH(2) same_rest_drop by blast
  moreover have "expire_checkpoints (Suc n) l m = expire_checkpoints n l ?d" by (simp add: xs)
  ultimately show ?case using IH(1,3) by (simp add: order xs)
qed

text \<open>Storing a checkpoint and adding it to the order of a lane.\<close>

lemma add_checkpoint_ok:
  fixes cp l m
  defines "m' \<equiv> (add_to_order l (cp_id cp) (m\<lparr>lm_checkpoints := (lm_checkpoints m)(cp_id cp \<mapsto> cp)\<rparr>))
    \<lparr>lm_files := (lm_files m)(cp_id cp \<mapsto> cp)\<rparr>"
  assumes "registry_ok m"
  shows "registry_ok m'" "same_rest m m'"
    "lane_order m' = (lane_order m)(l := if cp_id cp \<in> set (lane_order m l) then lane_order m l
       else lane_order m l @ [cp_id cp])"
proof -
  let ?xs = "if cp_id cp \<in> set (lane_order m l) then lane_order m l else lane_order m l @ [cp_id cp]"
  note r = assms(2) [unfolded registry_ok_def]
  have frame: "lm_checkpoints m' = (lm_checkpoints m)(cp_id cp \<mapsto> cp)" "lm_files m' = (lm_files m)(cp_id cp \<mapsto> cp)"
    "lm_pinned_checkpoint_ids m' = lm_pinned_checkpoint_ids m"
    "lm_pinned_checkpoint_order m' = lm_pinned_checkpoint_order m" "lm_pinned_limit m' = lm_pinned_limit m"
    "lm_checkpoint_order m' = AList.update l ?xs (lm_checkpoint_order m)"
    by (simp_all add: m'_def add_to_order_def set_lane_order_def Let_def)
  show order: "lane_order m' = (lane_order m)(l := ?xs)"
    by (simp add: fun_eq_iff lane_order_def frame update_conv')
  show "same_rest m m'" by (simp add: same_rest_def m'_def add_to_order_def set_lane_order_def Let_def)
  have ret: "retained m' x \<longleftrightarrow> x = cp_id cp \<or> retained m x" for x
    using member_upd_add [of x "lane_order m" l "cp_id cp"] unfolding retained_def frame order by blast
  show "registry_ok m'"
    unfolding registry_ok_def
  proof (intro conjI allI)
    show "order_keys_ok m'" using r by (simp add: order_keys_ok_def frame distinct_update)
    show "stored_ok m'" using r by (simp add: stored_ok_def frame)
    show "pins_ok m'" using r by (simp add: pins_ok_def frame)
    show "length (lm_pinned_checkpoint_order m') \<le> lm_pinned_limit m'" using r by (simp add: frame)
    show "lm_checkpoints m' c \<noteq> None \<longleftrightarrow> retained m' c" for c using r by (simp add: ret frame)
  qed
qed

lemma archived_checkpoint_ok:
  assumes "registry_ok m" "lm_files m (cp_id cp) = Some cp"
  defines "m' \<equiv> register_archived_checkpoint cp m"
  shows "registry_ok m'" "same_rest m m'"
    "lane_order m' = (lane_order m)(cp_lane_id cp := if cp_id cp \<in> set (lane_order m (cp_lane_id cp))
       then lane_order m (cp_lane_id cp) else lane_order m (cp_lane_id cp) @ [cp_id cp])"
proof -
  let ?a = "add_to_order (cp_lane_id cp) (cp_id cp) (m\<lparr>lm_checkpoints := (lm_checkpoints m)(cp_id cp \<mapsto> cp)\<rparr>)"
  have "(lm_files m)(cp_id cp \<mapsto> cp) = lm_files ?a"
    using assms(2) by (simp add: fun_upd_idem add_to_order_def set_lane_order_def Let_def)
  then have m': "m' = ?a\<lparr>lm_files := (lm_files m)(cp_id cp \<mapsto> cp)\<rparr>"
    unfolding m'_def register_archived_checkpoint_def by simp
  note a = add_checkpoint_ok [OF assms(1), where cp = cp and l = "cp_lane_id cp", folded m']
  show "registry_ok m'" "same_rest m m'"
    "lane_order m' = (lane_order m)(cp_lane_id cp := if cp_id cp \<in> set (lane_order m (cp_lane_id cp))
       then lane_order m (cp_lane_id cp) else lane_order m (cp_lane_id cp) @ [cp_id cp])"
    by (rule a)+
qed

text \<open>Shortening an order never stores a checkpoint again.\<close>

lemma expire_never_adds:
  "lm_checkpoints m c = None \<Longrightarrow> lm_checkpoints (expire_checkpoints n l m) c = None"
  "lm_files m c = None \<Longrightarrow> lm_files (expire_checkpoints n l m) c = None"
  by (induction n arbitrary: m)
    (auto simp: Let_def drop_checkpoint_if_unretained_def set_lane_order_def)

lemma expire_frame [simp]:
  "lm_lanes (expire_checkpoints n l m) = lm_lanes m"
  by (induction n arbitrary: m) (simp_all add: Let_def drop_checkpoint_if_unretained_def set_lane_order_def)

text \<open>The oldest checkpoint of an order is lost when the order is shortened and nothing else keeps it.\<close>

lemma expire_loses_oldest:
  assumes "order_keys_ok m" "lane_order m l = c # xs" "c \<notin> set xs" "\<And>k. k \<noteq> l \<Longrightarrow> c \<notin> set (lane_order m k)"
    and "c \<notin> lm_pinned_checkpoint_ids m" "0 < n"
  shows "lm_checkpoints (expire_checkpoints n l m) c = None" "lm_files (expire_checkpoints n l m) c = None"
proof -
  obtain k where n: "n = Suc k" using assms(6) by (cases n) auto
  let ?m = "drop_checkpoint_if_unretained c (set_lane_order l xs m)"
  have "\<not> in_some_order (set_lane_order l xs m) c"
    unfolding in_some_order_iff [OF order_keys_set [OF assms(1)]] using assms(3,4) by auto
  moreover have "c \<notin> lm_pinned_checkpoint_ids (set_lane_order l xs m)" using assms(5) by (simp add: set_lane_order_def)
  ultimately have "lm_checkpoints ?m c = None" "lm_files ?m c = None" by (simp_all add: drop_checkpoint_if_unretained_def)
  moreover have "expire_checkpoints n l m = expire_checkpoints k l ?m" by (simp add: n assms(2))
  ultimately show "lm_checkpoints (expire_checkpoints n l m) c = None" "lm_files (expire_checkpoints n l m) c = None"
    using expire_never_adds by metis+
qed

text \<open>Archived checkpoints are appended to the orders of their lanes.\<close>

lemma archived_fold:
  assumes "distinct (lane_order m l @ map cp_id (filter (\<lambda>cp. cp_lane_id cp = l) cps))"
  defines "m' \<equiv> fold register_archived_checkpoint cps m"
  shows "lane_order m' l = lane_order m l @ map cp_id (filter (\<lambda>cp. cp_lane_id cp = l) cps) \<and>
    (\<forall>k. set (lane_order m' k) \<subseteq> set (lane_order m k) \<union> cp_id ` set cps) \<and> lm_lanes m' = lm_lanes m \<and>
    lm_pinned_checkpoint_ids m' = lm_pinned_checkpoint_ids m \<and>
    lm_checkpoints_per_lane m' = lm_checkpoints_per_lane m \<and> (order_keys_ok m \<longrightarrow> order_keys_ok m')"
  using assms(1) unfolding m'_def
proof (induction cps arbitrary: m)
  case (Cons cp cps)
  let ?m = "register_archived_checkpoint cp m" and ?k = "cp_lane_id cp"
  let ?n = "m\<lparr>lm_checkpoints := (lm_checkpoints m)(cp_id cp \<mapsto> cp)\<rparr>"
  let ?xs = "if cp_id cp \<in> set (lane_order m ?k) then lane_order m ?k else lane_order m ?k @ [cp_id cp]"
  have m: "?m = set_lane_order ?k ?xs ?n" by (simp add: register_archived_checkpoint_def add_to_order_def Let_def)
  have order: "lane_order ?m k = (if k = ?k then ?xs else lane_order m k)" for k unfolding m lane_order_set by simp
  have frame: "lm_lanes ?m = lm_lanes m" "lm_pinned_checkpoint_ids ?m = lm_pinned_checkpoint_ids m"
    "lm_checkpoints_per_lane ?m = lm_checkpoints_per_lane m" "order_keys_ok m \<Longrightarrow> order_keys_ok ?m"
    unfolding m by (simp_all add: set_lane_order_def order_keys_ok_def distinct_update)
  have l: "lane_order ?m l = lane_order m l @ map cp_id (filter (\<lambda>c. cp_lane_id c = l) [cp])"
    using Cons.prems unfolding order by auto
  have sub: "set (lane_order ?m k) \<subseteq> insert (cp_id cp) (set (lane_order m k))" for k unfolding order by auto
  have "distinct (lane_order ?m l @ map cp_id (filter (\<lambda>c. cp_lane_id c = l) cps))"
    using Cons.prems unfolding l by (cases "cp_lane_id cp = l") auto
  note IH = Cons.IH [OF this]
  have "lane_order (fold register_archived_checkpoint cps ?m) l =
      lane_order m l @ map cp_id (filter (\<lambda>c. cp_lane_id c = l) (cp # cps))"
    using IH unfolding l by simp
  moreover have "set (lane_order (fold register_archived_checkpoint cps ?m) k) \<subseteq>
      set (lane_order m k) \<union> cp_id ` set (cp # cps)" for k
    using IH sub [of k] by (simp only: list.set image_insert) blast
  ultimately show ?case using IH frame by simp
qed simp

lemma registry_set_runtime [simp]:
  "registry_ok (set_runtime k rt m) = registry_ok m" "lane_order (set_runtime k rt m) = lane_order m"
  "lm_checkpoints (set_runtime k rt m) = lm_checkpoints m"
  by (simp_all add: set_runtime_def registry_ok_def order_keys_ok_def stored_ok_def pins_ok_def retained_def
    lane_order_def fun_eq_iff)

definition latest_update :: "lane_checkpoint \<Rightarrow> lane_runtime \<Rightarrow> lane_runtime" where
  "latest_update cp rt = rt\<lparr>rt_latest_checkpoint_id := Some (cp_id cp), rt_latest_checkpoint := Some cp,
     rt_high_water := max (rt_high_water rt) (cp_high_water cp)\<rparr>"

text \<open>The steps of remembering a checkpoint, in one expression.\<close>

lemma set_lane_order_fields:
  "lm_checkpoints_per_lane (set_lane_order l xs m) = lm_checkpoints_per_lane m"
  "lm_files (set_lane_order l xs m) = lm_files m" "lm_checkpoints (set_lane_order l xs m) = lm_checkpoints m"
  "lm_lanes (set_lane_order l xs m) = lm_lanes m"
  "lm_pinned_checkpoint_ids (set_lane_order l xs m) = lm_pinned_checkpoint_ids m"
  "(set_lane_order l xs m)\<lparr>lm_files := fs\<rparr> = set_lane_order l xs (m\<lparr>lm_files := fs\<rparr>)"
  by (simp_all add: set_lane_order_def)

lemma set_runtime_fields:
  "lm_checkpoints_per_lane (set_runtime l rt m) = lm_checkpoints_per_lane m"
  "lm_files (set_runtime l rt m) = lm_files m"
  "lm_pinned_checkpoint_ids (set_runtime l rt m) = lm_pinned_checkpoint_ids m"
  "order_keys_ok (set_runtime l rt m) = order_keys_ok m"
  by (simp_all add: set_runtime_def order_keys_ok_def)

lemma remember_checkpoint_eq:
  fixes cp m l
  defines "xs \<equiv> if cp_id cp \<in> set (lane_order m l) then lane_order m l else lane_order m l @ [cp_id cp]"
  assumes "sp_lane_id (rt_spec rt) = l"
  shows "remember_checkpoint l rt cp m = expire_checkpoints (length xs - lm_checkpoints_per_lane m) l
    (set_lane_order l xs ((set_runtime l (latest_update cp rt) m)
      \<lparr>lm_checkpoints := (lm_checkpoints m)(cp_id cp \<mapsto> cp), lm_files := (lm_files m)(cp_id cp \<mapsto> cp)\<rparr>))"
proof -
  let ?r = "(set_runtime l (latest_update cp rt) m)\<lparr>lm_checkpoints := (lm_checkpoints m)(cp_id cp \<mapsto> cp)\<rparr>"
  have order: "lane_order ?r = lane_order m" by simp
  have add: "add_to_order l (cp_id cp) ?r = set_lane_order l xs ?r"
    unfolding add_to_order_def Let_def order xs_def ..
  show ?thesis
    unfolding remember_checkpoint_def Let_def assms(2) latest_update_def [symmetric] registry_set_runtime add
      set_lane_order_fields lane_order_set
    by (simp add: set_runtime_fields set_lane_order_fields)
qed

lemma remember_checkpoint_ok:
  fixes key rt cp m
  defines "m' \<equiv> remember_checkpoint key rt cp m" and "l \<equiv> sp_lane_id (rt_spec rt)"
  assumes "registry_ok m"
  shows "registry_ok m'" "same_rest (set_runtime key (latest_update cp rt) m) m'"
    "\<And>l'. l' \<noteq> l \<Longrightarrow> lane_order m' l' = lane_order m l'"
    "length (lane_order m' l) \<le> lm_checkpoints_per_lane m \<or> lane_order m' l = lane_order m l"
    "length (lane_order m l) \<le> lm_checkpoints_per_lane m \<Longrightarrow> 0 < lm_checkpoints_per_lane m \<Longrightarrow>
       cp_id cp \<in> set (lane_order m' l)"
proof -
  let ?m1 = "set_runtime key (latest_update cp rt) m"
  let ?m3 = "(add_to_order l (cp_id cp) (?m1\<lparr>lm_checkpoints := (lm_checkpoints ?m1)(cp_id cp \<mapsto> cp)\<rparr>))
    \<lparr>lm_files := (lm_files ?m1)(cp_id cp \<mapsto> cp)\<rparr>"
  let ?xs = "if cp_id cp \<in> set (lane_order m l) then lane_order m l else lane_order m l @ [cp_id cp]"
  have "registry_ok ?m1" using assms(3) by simp
  note m3 = add_checkpoint_ok [OF this, where l = l and cp = cp]
  have limit: "lm_checkpoints_per_lane ?m3 = lm_checkpoints_per_lane m"
    using m3(2) by (simp add: same_rest_def set_runtime_def)
  have xs: "lane_order ?m3 l = ?xs" using m3(3) by simp
  have files: "lm_files (add_to_order l c x) = lm_files x" for c x
    by (simp add: add_to_order_def set_lane_order_def Let_def)
  let ?n = "length ?xs - lm_checkpoints_per_lane m"
  have m': "m' = expire_checkpoints ?n l ?m3"
    unfolding m'_def remember_checkpoint_def Let_def l_def [symmetric] latest_update_def [symmetric] files
      lane_manager.select_convs lane_manager.simps
    using xs limit by (simp add: files)
  have "?n \<le> length (lane_order ?m3 l)" unfolding xs by simp
  note e = expire_checkpoints_ok [OF m3(1) this, folded m']
  show "registry_ok m'" using e by simp
  show "same_rest ?m1 m'" using e m3(2) same_rest_trans by blast
  show "lane_order m' l' = lane_order m l'" if "l' \<noteq> l" for l' using e m3(3) that by simp
  have l: "lane_order m' l = drop ?n ?xs" using e m3(3) by simp
  show "length (lane_order m' l) \<le> lm_checkpoints_per_lane m \<or> lane_order m' l = lane_order m l"
    unfolding l by auto
  show "cp_id cp \<in> set (lane_order m' l)"
    if "length (lane_order m l) \<le> lm_checkpoints_per_lane m" "0 < lm_checkpoints_per_lane m"
    unfolding l using that by (simp add: Suc_diff_le)
qed

lemma unpin_oldest_ok:
  assumes "order_keys_ok m" "stored_ok m" "pins_ok m" "\<And>c. lm_checkpoints m c \<noteq> None \<longleftrightarrow> retained m c"
    and "n \<le> length (lm_pinned_checkpoint_order m)"
  shows "order_keys_ok (unpin_oldest n m) \<and> stored_ok (unpin_oldest n m) \<and> pins_ok (unpin_oldest n m) \<and>
    (\<forall>c. lm_checkpoints (unpin_oldest n m) c \<noteq> None \<longleftrightarrow> retained (unpin_oldest n m) c) \<and>
    lm_pinned_checkpoint_order (unpin_oldest n m) = drop n (lm_pinned_checkpoint_order m) \<and>
    same_rest m (unpin_oldest n m) \<and> lane_order (unpin_oldest n m) = lane_order m"
  using assms
proof (induction n arbitrary: m)
  case 0
  then show ?case by (simp add: same_rest_def)
next
  case (Suc n)
  then obtain c xs where xs: "lm_pinned_checkpoint_order m = c # xs"
    by (cases "lm_pinned_checkpoint_order m") auto
  let ?m = "m\<lparr>lm_pinned_checkpoint_order := xs, lm_pinned_checkpoint_ids := lm_pinned_checkpoint_ids m - {c}\<rparr>"
  let ?d = "drop_checkpoint_if_unretained c ?m"
  have ret: "retained m x \<longleftrightarrow> x = c \<or> retained ?m x" for x
    using Suc.prems(3) xs by (auto simp: retained_def pins_ok_def)
  have pre: "order_keys_ok ?m" "stored_ok ?m" "\<And>x. retained ?m x \<Longrightarrow> lm_checkpoints ?m x \<noteq> None"
    "\<And>x. lm_checkpoints ?m x \<noteq> None \<Longrightarrow> x = c \<or> retained ?m x"
    using Suc.prems(1,2,4) ret by (auto simp: stored_ok_def order_keys_ok_def)
  have pins: "pins_ok ?d" using Suc.prems(3) xs by (auto simp: pins_ok_def)
  have "order_keys_ok ?d" "stored_ok ?d" "\<And>x. lm_checkpoints ?d x \<noteq> None \<longleftrightarrow> retained ?d x"
    using drop_repairs [OF pre] pre(1) by simp_all
  note IH = Suc.IH [OF this(1,2) pins this(3)]
  have "same_rest m ?m" by (simp add: same_rest_def)
  then have "same_rest m ?d" using same_rest_trans same_rest_drop by blast
  moreover have "unpin_oldest (Suc n) m = unpin_oldest n ?d" by (simp add: xs)
  moreover have "n \<le> length (lm_pinned_checkpoint_order ?d)" using Suc.prems(5) xs by simp
  ultimately show ?case using IH same_rest_trans [of m ?d] by (simp add: xs)
qed

lemma set_from_keys [simp]: "set (from_keys xs) = set xs" "distinct (from_keys xs)"
  by (simp_all add: from_keys_def)

text \<open>Pinning raises before it changes anything, or pins exactly the given checkpoints last.\<close>

lemma pin_checkpoints_cases:
  assumes "registry_ok m"
  obtains e where "pin_checkpoints cs m = (Inl e, m)" "(\<exists>c\<in>set cs. lm_checkpoints m c = None) \<or> lm_pinned_limit m < length (from_keys cs)"
  | m' where "pin_checkpoints cs m = (Inr (), m')" "registry_ok m'" "same_rest m m'" "lane_order m' = lane_order m"
    "set cs \<subseteq> lm_pinned_checkpoint_ids m'"
proof (cases "(\<exists>c\<in>set cs. lm_checkpoints m c = None) \<or> lm_pinned_limit m < length (from_keys cs)")
  case True
  then have "\<exists>e. pin_checkpoints cs m = (Inl e, m)" 
    by (cases "\<exists>c\<in>set cs. lm_checkpoints m c = None") (simp_all add: pin_checkpoints_def Let_def)
  with True that(1) show ?thesis by blast
next
  case False
  note r = assms [unfolded registry_ok_def]
  let ?old = "filter (\<lambda>c. c \<in> lm_pinned_checkpoint_ids m \<and> c \<notin> set cs) (lm_pinned_checkpoint_order m)"
  let ?m = "m\<lparr>lm_pinned_checkpoint_ids := set ?old \<union> set cs, lm_pinned_checkpoint_order := ?old @ from_keys cs\<rparr>"
  let ?n = "length (?old @ from_keys cs) - lm_pinned_limit m"
  have ids: "set ?old \<union> set cs = lm_pinned_checkpoint_ids m \<union> set cs" using r by (auto simp: pins_ok_def)
  have pre: "order_keys_ok ?m" "stored_ok ?m" "pins_ok ?m" "?n \<le> length (lm_pinned_checkpoint_order ?m)"
    using r by (auto simp: order_keys_ok_def stored_ok_def pins_ok_def)
  have "retained ?m c \<longleftrightarrow> c \<in> set cs \<or> retained m c" for c
    unfolding retained_def by (simp only: lane_order_record lane_manager.simps ids) auto
  then have "lm_checkpoints ?m c \<noteq> None \<longleftrightarrow> retained ?m c" for c using r False by auto
  note u = unpin_oldest_ok [OF pre(1-3) this pre(4)]
  let ?u = "unpin_oldest ?n ?m"
  have order: "lm_pinned_checkpoint_order ?u = drop ?n (?old @ from_keys cs)" using u by simp
  have limit: "lm_pinned_limit ?u = lm_pinned_limit m" using u by (simp add: same_rest_def)
  have "length (lm_pinned_checkpoint_order ?u) \<le> lm_pinned_limit ?u" unfolding order limit by simp
  then have "registry_ok ?u" using u by (simp add: registry_ok_def)
  moreover have "set cs \<subseteq> lm_pinned_checkpoint_ids ?u"
  proof -
    have "length (from_keys cs) \<le> lm_pinned_limit m" using False by simp
    then have "?n \<le> length ?old" unfolding length_append by linarith
    then have "set (from_keys cs) \<subseteq> set (lm_pinned_checkpoint_order ?u)" unfolding order by simp
    moreover have "set (lm_pinned_checkpoint_order ?u) = lm_pinned_checkpoint_ids ?u"
      using u unfolding pins_ok_def by blast
    ultimately show ?thesis by simp
  qed
  moreover have "same_rest m ?u" using u by (auto intro: same_rest_trans [of m ?m] simp: same_rest_def)
  moreover have "lane_order ?u = lane_order m" using u by simp
  moreover have "pin_checkpoints cs m = (Inr (), ?u)"
    using False by (auto simp: pin_checkpoints_def Let_def)
  ultimately show ?thesis by (intro that(2))
qed

section \<open>Runtimes\<close>

abbreviation runtimes :: "lane_manager \<Rightarrow> string \<rightharpoonup> lane_runtime" where
  "runtimes m \<equiv> map_of (lm_lanes m)"

definition latest_ok :: "lane_manager \<Rightarrow> bool" where
  "latest_ok m \<longleftrightarrow> 2 \<le> lm_checkpoints_per_lane m \<and> 1 \<le> lm_pinned_limit m \<and>
     (\<forall>l. length (lane_order m l) \<le> lm_checkpoints_per_lane m) \<and>
     (\<forall>l rt. runtimes m l = Some rt \<longrightarrow> sp_lane_id (rt_spec rt) = l \<and>
        (\<forall>c. rt_latest_checkpoint_id rt = Some c \<longrightarrow> c \<in> set (lane_order m l)))"

definition manager_ok :: "lane_manager \<Rightarrow> bool" where
  "manager_ok m \<longleftrightarrow> registry_ok m \<and> latest_ok m"

definition same_queues :: "lane_manager \<Rightarrow> lane_manager \<Rightarrow> bool" where
  "same_queues m m' \<longleftrightarrow> lm_events m' = lm_events m \<and> lm_deferred_events m' = lm_deferred_events m \<and>
     lm_queues_closed m' = lm_queues_closed m"

lemma runtimes_set_runtime [simp]: "runtimes (set_runtime k rt m) = (runtimes m)(k \<mapsto> rt)"
  by (simp add: set_runtime_def update_conv')

lemma set_runtime_keeps [simp]:
  "lm_events (set_runtime k rt m) = lm_events m" "lm_deferred_events (set_runtime k rt m) = lm_deferred_events m"
  "lm_queues_closed (set_runtime k rt m) = lm_queues_closed m"
  "lm_checkpoints_per_lane (set_runtime k rt m) = lm_checkpoints_per_lane m"
  "lm_pinned_limit (set_runtime k rt m) = lm_pinned_limit m"
  "lm_command_capacity (set_runtime k rt m) = lm_command_capacity m"
  by (simp_all add: set_runtime_def)

lemma manager_ok_set_runtime:
  assumes "manager_ok m" "sp_lane_id (rt_spec rt) = k"
    and "\<And>c. rt_latest_checkpoint_id rt = Some c \<Longrightarrow> c \<in> set (lane_order m k)"
  shows "manager_ok (set_runtime k rt m)"
  using assms by (auto simp: manager_ok_def latest_ok_def)

lemma manager_ok_runtime:
  assumes "manager_ok m" "runtimes m k = Some rt"
  shows "sp_lane_id (rt_spec rt) = k" "rt_latest_checkpoint_id rt = Some c \<Longrightarrow> c \<in> set (lane_order m k)"
  using assms by (auto simp: manager_ok_def latest_ok_def)

lemma manager_ok_same:
  assumes "manager_ok m" "registry_ok m'" "same_rest m m'" "lane_order m' = lane_order m"
  shows "manager_ok m'"
  using assms by (auto simp: manager_ok_def latest_ok_def same_rest_def)

lemma latest_available:
  assumes "manager_ok m" "runtimes m k = Some rt" "rt_latest_checkpoint_id rt = Some c"
  shows "lm_checkpoints m c \<noteq> None"
proof -
  have "retained m c" using manager_ok_runtime(2) [OF assms] by (auto simp: retained_def)
  with assms(1) show ?thesis by (simp add: manager_ok_def registry_ok_def)
qed

lemma pin_checkpoint_cases:
  assumes "manager_ok m"
  obtains "pin_checkpoint c m = (Inl KeyError, m)" "lm_checkpoints m c = None"
  | m' where "pin_checkpoint c m = (Inr (), m')" "manager_ok m'" "same_rest m m'" "lane_order m' = lane_order m"
    "c \<in> lm_pinned_checkpoint_ids m'" "lm_checkpoints m c \<noteq> None"
proof (cases "lm_checkpoints m c")
  case None
  then have "pin_checkpoint c m = (Inl KeyError, m)" by (simp add: pin_checkpoint_def pin_checkpoints_def)
  with None that(1) show ?thesis by blast
next
  case (Some cp)
  have reg: "registry_ok m" and limit: "1 \<le> lm_pinned_limit m"
    using assms by (simp_all add: manager_ok_def latest_ok_def)
  have "length (from_keys [c]) = 1" by (simp add: from_keys_def)
  with reg Some limit show ?thesis
    by (cases rule: pin_checkpoints_cases [of m "[c]"])
      (use that(2) manager_ok_same [OF assms] in \<open>auto simp: pin_checkpoint_def\<close>)
qed

lemma remember_ok:
  fixes k rt cp m
  defines "m' \<equiv> remember_checkpoint k rt cp m"
  assumes "manager_ok m" "sp_lane_id (rt_spec rt) = k"
  shows "manager_ok m'" "runtimes m' = (runtimes m)(k \<mapsto> latest_update cp rt)" "same_queues m m'"
proof -
  have reg: "registry_ok m" and latest: "latest_ok m" using assms(2) by (simp_all add: manager_ok_def)
  note r = remember_checkpoint_ok [OF reg, where rt = rt and key = k and cp = cp, folded m'_def, unfolded assms(3)]
  show runtimes: "runtimes m' = (runtimes m)(k \<mapsto> latest_update cp rt)"
    using r(2) runtimes_set_runtime [of k "latest_update cp rt" m] by (simp add: same_rest_def)
  show "same_queues m m'" using r(2) by (simp add: same_rest_def same_queues_def)
  have limits: "lm_checkpoints_per_lane m' = lm_checkpoints_per_lane m" "lm_pinned_limit m' = lm_pinned_limit m"
    using r(2) by (simp_all add: same_rest_def)
  have "length (lane_order m' l) \<le> lm_checkpoints_per_lane m" for l
    using r(3) [of l] r(4) latest by (cases "l = k") (auto simp: latest_ok_def)
  moreover have "cp_id cp \<in> set (lane_order m' k)" using r(5) latest by (auto simp: latest_ok_def)
  ultimately have "latest_ok m'"
    using latest r(3) assms(3) unfolding latest_ok_def limits runtimes
    by (auto simp: latest_update_def split: if_splits)
  with r(1) show "manager_ok m'" by (simp add: manager_ok_def)
qed

section \<open>What every operation keeps\<close>

text \<open>
  The registry and the keys of the runtimes are kept by every operation, also by those that
  raise.  The limit of the orders and the latest checkpoints are kept as well as long as no
  archived checkpoint has been registered in an order that is full; \<open>overfull\<close> records that.
\<close>

definition specs_ok :: "lane_manager \<Rightarrow> bool" where
  "specs_ok m \<longleftrightarrow> 2 \<le> lm_checkpoints_per_lane m \<and> 1 \<le> lm_pinned_limit m \<and>
     (\<forall>l rt. runtimes m l = Some rt \<longrightarrow> sp_lane_id (rt_spec rt) = l)"

definition kept :: "bool \<Rightarrow> lane_manager \<Rightarrow> bool" where
  "kept overfull m \<longleftrightarrow> registry_ok m \<and> specs_ok m \<and> (\<not> overfull \<longrightarrow> latest_ok m)"

lemma kept_False: "kept False m \<longleftrightarrow> manager_ok m"
  by (auto simp: kept_def manager_ok_def specs_ok_def latest_ok_def)

lemma kept_records [simp]:
  "kept f (m\<lparr>lm_events := es\<rparr>) = kept f m" "kept f (m\<lparr>lm_deferred_events := ds\<rparr>) = kept f m"
  "kept f (m\<lparr>lm_queues_closed := b\<rparr>) = kept f m"
  by (simp_all add: kept_def specs_ok_def latest_ok_def registry_ok_def order_keys_ok_def stored_ok_def pins_ok_def
    retained_def lane_order_def)

lemma kept_spec: "kept f m \<Longrightarrow> runtimes m k = Some rt \<Longrightarrow> sp_lane_id (rt_spec rt) = k"
  by (simp add: kept_def specs_ok_def)

lemma kept_set_runtime:
  assumes "kept f m" "sp_lane_id (rt_spec rt) = k"
    and "\<And>c. \<not> f \<Longrightarrow> rt_latest_checkpoint_id rt = Some c \<Longrightarrow> c \<in> set (lane_order m k)"
  shows "kept f (set_runtime k rt m)"
  using assms manager_ok_set_runtime [of m rt k] by (auto simp: kept_def specs_ok_def manager_ok_def)

lemma kept_same_runtime:
  assumes "kept f m" "runtimes m k = Some rt" "rt_spec rt' = rt_spec rt"
    "rt_latest_checkpoint_id rt' = rt_latest_checkpoint_id rt"
  shows "kept f (set_runtime k rt' m)"
  using assms kept_spec [OF assms(1,2)]
  by (intro kept_set_runtime) (auto simp: kept_def latest_ok_def)

lemma kept_same:
  assumes "kept f m" "registry_ok m'" "same_rest m m'" "lane_order m' = lane_order m"
  shows "kept f m'"
  using assms manager_ok_same [of m m'] by (auto simp: kept_def manager_ok_def specs_ok_def same_rest_def)

lemma kept_remember:
  assumes "kept f m" "sp_lane_id (rt_spec rt) = k"
  shows "kept f (remember_checkpoint k rt cp m)"
proof -
  have reg: "registry_ok m" using assms(1) by (simp add: kept_def)
  note r = remember_checkpoint_ok [OF reg, where rt = rt and key = k and cp = cp]
  have "runtimes (remember_checkpoint k rt cp m) = (runtimes m)(k \<mapsto> latest_update cp rt)"
    using r(2) runtimes_set_runtime [of k "latest_update cp rt" m] by (simp add: same_rest_def)
  moreover have "lm_checkpoints_per_lane (remember_checkpoint k rt cp m) = lm_checkpoints_per_lane m"
    "lm_pinned_limit (remember_checkpoint k rt cp m) = lm_pinned_limit m"
    using r(2) by (simp_all add: same_rest_def)
  ultimately have "specs_ok (remember_checkpoint k rt cp m)"
    using assms by (simp add: kept_def specs_ok_def latest_update_def)
  moreover have "\<not> f \<Longrightarrow> latest_ok (remember_checkpoint k rt cp m)"
    using remember_ok(1) [OF _ assms(2), of m cp] assms(1) by (simp add: kept_def manager_ok_def)
  ultimately show ?thesis using r(1) by (simp add: kept_def)
qed

lemma kept_pin:
  assumes "kept f m"
  shows "kept f (snd (pin_checkpoints cs m))" "runtimes (snd (pin_checkpoints cs m)) = runtimes m"
    "lane_order (snd (pin_checkpoints cs m)) = lane_order m"
proof -
  have reg: "registry_ok m" using assms by (simp add: kept_def)
  have "kept f (snd (pin_checkpoints cs m)) \<and> runtimes (snd (pin_checkpoints cs m)) = runtimes m \<and>
      lane_order (snd (pin_checkpoints cs m)) = lane_order m"
    using reg
  proof (cases rule: pin_checkpoints_cases [of m cs])
    case (2 m')
    from kept_same [OF assms 2(2-4)] 2 show ?thesis by (simp add: same_rest_def)
  qed (use assms in simp)
  then show "kept f (snd (pin_checkpoints cs m))" "runtimes (snd (pin_checkpoints cs m)) = runtimes m"
    "lane_order (snd (pin_checkpoints cs m)) = lane_order m" by simp_all
qed

lemma kept_send:
  assumes "kept f m"
  shows "kept f (snd (send_command l c m))"
  using assms kept_same_runtime [OF assms, of l]
  by (auto simp: send_command_def find_runtime_def split: option.splits)

lemma kept_restart:
  assumes "kept f m"
  shows "kept f (snd (restart_lane l a v seed c m))"
proof (cases "\<exists>x cp. c = Some x \<and> lm_checkpoints m x = Some cp")
  case True
  then obtain x cp where c: "c = Some x" "lm_checkpoints m x = Some cp" by auto
  have "kept f (snd (pin_checkpoint x m))" unfolding pin_checkpoint_def by (rule kept_pin(1) [OF assms])
  with c show ?thesis
    by (cases "pin_checkpoint x m"; cases "fst (pin_checkpoint x m)") (simp_all add: restart_lane_def kept_send)
next
  case False
  then show ?thesis
    using assms kept_send [OF assms] by (cases c) (simp_all add: restart_lane_def split: option.splits)
qed

lemma kept_stop:
  assumes "kept f m"
  shows "kept f (snd (stop_lane l a v m))"
proof (cases "runtimes m l")
  case (Some rt)
  have "kept f (set_runtime l (rt\<lparr>rt_state := Stopping\<rparr>) m)" by (rule kept_same_runtime [OF assms Some]) simp_all
  from kept_send [OF this] Some show ?thesis by (simp add: stop_lane_def find_runtime_def)
qed (use assms in \<open>simp add: stop_lane_def find_runtime_def\<close>)

lemma kept_start:
  assumes "kept f m"
  shows "kept f (snd (start_lane_process spec m))"
  using assms
  by (auto simp: start_lane_process_def split: sum.splits intro!: kept_set_runtime)

lemma kept_fork:
  assumes "kept f m"
  shows "kept f (snd (fork_lane sha l child a v c patch share m))"
proof -
  have p: "kept f (snd (pin_checkpoint c m))" unfolding pin_checkpoint_def by (rule kept_pin(1) [OF assms])
  then show ?thesis
    using assms kept_start [OF p]
    by (cases "pin_checkpoint c m"; cases "fst (pin_checkpoint c m)")
      (auto simp: fork_lane_def split: sum.splits option.splits)
qed

lemma kept_outcome:
  assumes "kept f m" "runtimes m l = Some rt"
  shows "kept f (snd (apply_outcome l rt oc m))"
proof -
  define rt1 where "rt1 = rt\<lparr>rt_action_outcomes := keep_last 128 (rt_action_outcomes rt @ [oc]),
    rt_pending_actions := rt_pending_actions rt - {oc_action_id oc},
    rt_completed_action_ids := insert (oc_action_id oc) (rt_completed_action_ids rt)\<rparr>"
  define rt2 where "rt2 = (case oc_settings oc of None \<Rightarrow> rt1\<lparr>rt_lane_version := oc_lane_version oc\<rparr>
    | Some (ps, share) \<Rightarrow> rt1\<lparr>rt_lane_version := oc_lane_version oc, rt_parameters := ps, rt_resource_share := share\<rparr>)"
  let ?p = "pin_checkpoint (oc_checkpoint_id oc) (set_runtime l rt1 m)"
  have "kept f (set_runtime l rt1 m)" by (rule kept_same_runtime [OF assms]) (simp_all add: rt1_def)
  note p = kept_pin [OF this, of "[oc_checkpoint_id oc]", folded pin_checkpoint_def]
  have rt1: "runtimes (snd ?p) l = Some rt1" unfolding p(2) by simp
  have keep: "rt_spec rt2 = rt_spec rt1" "rt_latest_checkpoint_id rt2 = rt_latest_checkpoint_id rt1"
    by (simp_all add: rt2_def split: option.split prod.split)
  have "snd (apply_outcome l rt oc m) = (case fst ?p of Inl e \<Rightarrow> snd ?p | Inr _ \<Rightarrow> set_runtime l rt2 (snd ?p))"
    unfolding apply_outcome_def Let_def rt1_def [symmetric]
    by (cases ?p; cases "fst ?p") (simp_all add: rt2_def split: option.split)
  then show ?thesis
    using p(1) kept_same_runtime [OF p(1) rt1 keep] by (simp split: sum.split)
qed

lemma kept_event:
  assumes "kept f m"
  shows "kept f (snd (apply_event e m))"
proof (cases "runtimes m (event_lane e)")
  case None
  then show ?thesis using assms by (simp add: apply_event_def find_runtime_def)
next
  case (Some rt)
  note simple = kept_same_runtime [OF assms Some]
  note spec = kept_spec [OF assms Some]
  have find: "find_runtime (event_lane e) m = Inr rt" using Some by (simp add: find_runtime_def)
  show ?thesis
  proof (cases e)
    case (Checkpoint_Event l cp)
    then show ?thesis using find kept_remember [OF assms spec] by (simp add: apply_event_def)
  next
    case (Ready_Event l v ps share)
    then show ?thesis
      using find simple [of "rt\<lparr>rt_state := if rt_pause_event rt then Paused else Running, rt_lane_version := v,
          rt_parameters := ps, rt_resource_share := share\<rparr>"] by (simp add: apply_event_def)
  next
    case (Live_Frontier_Event l pv)
    then show ?thesis
      using find assms simple [of "rt\<lparr>rt_latest_live_frontier := Some pv,
          rt_high_water := max (rt_high_water rt) (pv_high_water pv)\<rparr>"] by (simp add: apply_event_def)
  next
    case (Telemetry_Event l v w)
    then show ?thesis
      using find simple [of "rt\<lparr>rt_telemetry := series_append w (rt_telemetry rt),
          rt_high_water := max (rt_high_water rt) (high_water w)\<rparr>"] by (simp add: apply_event_def)
  next
    case (Improvement_Event l v b)
    then show ?thesis
      using find simple [of "rt\<lparr>rt_improvements := keep_last 64 (rt_improvements rt @ [e])\<rparr>"]
      by (simp add: apply_event_def)
  next
    case (Outcome_Event l oc)
    then show ?thesis using find kept_outcome [OF assms] Some by (simp add: apply_event_def)
  next
    case (Exit_Event l b cp)
    let ?rt = "rt\<lparr>rt_state := if b then Failed else Stopped\<rparr>"
    have k: "kept f (set_runtime l ?rt m)" using simple [of ?rt] Exit_Event by simp
    have r: "kept f (remember_checkpoint l ?rt c (set_runtime l ?rt m))" for c
      using spec Exit_Event by (intro kept_remember [OF k]) simp
    have "snd (apply_event e m) = (case cp of None \<Rightarrow> set_runtime l ?rt m
        | Some c \<Rightarrow> remember_checkpoint l ?rt c (set_runtime l ?rt m))"
      using find Exit_Event by (cases cp) (simp_all add: apply_event_def Let_def)
    with k r show ?thesis by (cases cp) simp_all
  qed
qed

lemma kept_poll:
  assumes "kept f m"
  shows "kept f (snd (poll m))"
proof (cases "lm_deferred_events m = [] \<and> \<not> lm_queues_closed m \<and> lm_events m \<noteq> []")
  case True
  then obtain ev evs where e: "lm_events m = ev # evs" by (cases "lm_events m") auto
  have "kept f (snd (apply_event ev (m\<lparr>lm_events := evs\<rparr>)))" using kept_event assms by simp
  with True e show ?thesis
    by (cases "apply_event ev (m\<lparr>lm_events := evs\<rparr>)"; cases "fst (apply_event ev (m\<lparr>lm_events := evs\<rparr>))")
      (simp_all add: poll_def)
next
  case False
  then show ?thesis using assms by (auto simp: poll_def split: list.splits)
qed

lemma kept_drain:
  assumes "kept f m"
  shows "kept f (snd (drain_event m))"
proof (cases "lm_events m")
  case (Cons ev evs)
  have "kept f (snd (apply_event ev (m\<lparr>lm_events := evs\<rparr>)))" using kept_event assms by simp
  with Cons show ?thesis
    by (cases "apply_event ev (m\<lparr>lm_events := evs\<rparr>)"; cases "fst (apply_event ev (m\<lparr>lm_events := evs\<rparr>))")
      (simp_all add: drain_event_def)
qed (use assms in \<open>simp add: drain_event_def\<close>)

lemma kept_drain_events: "kept f m \<Longrightarrow> kept f (snd (drain_events n m))"
proof (induction n arbitrary: m)
  case (Suc n)
  show ?case
  proof (cases "drain_event m")
    case (Pair r m1)
    then have "kept f m1" using kept_drain [OF Suc.prems] by simp
    with Suc.IH Pair show ?thesis by (cases r) simp_all
  qed
qed simp

lemma kept_map_runtimes:
  assumes "kept f m" "\<And>rt. rt_spec (g rt) = rt_spec rt" "\<And>rt. rt_latest_checkpoint_id (g rt) = rt_latest_checkpoint_id rt"
  shows "kept f (m\<lparr>lm_lanes := map (\<lambda>(k, rt). (k, g rt)) (lm_lanes m)\<rparr>)"
proof -
  let ?m = "m\<lparr>lm_lanes := map (\<lambda>(k, rt). (k, g rt)) (lm_lanes m)\<rparr>"
  have rts: "runtimes ?m l = map_option g (runtimes m l)" for l by (simp add: map_of_map)
  have "registry_ok ?m = registry_ok m"
    unfolding registry_ok_def order_keys_ok_def stored_ok_def pins_ok_def retained_def lane_order_record by simp
  moreover have spec: "sp_lane_id (rt_spec rt) = l" if "runtimes ?m l = Some rt" for l rt
    using that kept_spec [OF assms(1)] unfolding rts by (auto simp: assms(2))
  have "specs_ok ?m" using assms(1) spec by (simp add: kept_def specs_ok_def)
  moreover have "latest_ok ?m" if "latest_ok m"
  proof -
    have "c \<in> set (lane_order ?m l)" if "runtimes ?m l = Some rt" "rt_latest_checkpoint_id rt = Some c" for l rt c
      using that \<open>latest_ok m\<close> unfolding rts latest_ok_def by (auto simp: assms(3))
    with that spec show ?thesis by (simp add: latest_ok_def)
  qed
  ultimately show ?thesis using assms(1) by (simp add: kept_def)
qed

lemma kept_all_lanes:
  assumes "kept f m"
  shows "kept f (pause_all m)" "kept f (resume_all m)" "kept f (request_stop m)" "kept f (mark_stopped m)"
  unfolding pause_all_def resume_all_def request_stop_def mark_stopped_def
  by (rule kept_map_runtimes [OF assms]; simp)+

lemma kept_close: "kept f m \<Longrightarrow> kept f (snd (close_queues m))"
proof -
  assume "kept f m"
  then have k: "kept f (mark_stopped m)" by (rule kept_all_lanes)
  from kept_drain_events [OF this, of "length (lm_events (mark_stopped m))"] k show ?thesis
    by (cases "drain_events (length (lm_events (mark_stopped m))) (mark_stopped m)";
        cases "fst (drain_events (length (lm_events (mark_stopped m))) (mark_stopped m))")
      (simp_all add: close_queues_def Let_def)
qed

lemma kept_restored:
  assumes "kept f m"
  shows "kept f (snd (register_restored_checkpoint l cp m))"
  using assms kept_remember [OF assms kept_spec [OF assms]]
  by (simp add: register_restored_checkpoint_def split: option.split)

lemma kept_archived:
  fixes cp m
  defines "m' \<equiv> register_archived_checkpoint cp m"
  assumes "kept f m" "lm_files m (cp_id cp) = Some cp"
  shows "kept (f \<or> lm_checkpoints_per_lane m < length (lane_order m' (cp_lane_id cp))) m'"
    "same_queues m m'" "runtimes m' = runtimes m"
proof -
  have reg: "registry_ok m" using assms(2) by (simp add: kept_def)
  note a = archived_checkpoint_ok [OF reg assms(3), folded m'_def]
  have same: "lm_checkpoints_per_lane m' = lm_checkpoints_per_lane m" "lm_pinned_limit m' = lm_pinned_limit m"
    "lm_lanes m' = lm_lanes m" using a(2) by (simp_all add: same_rest_def)
  show "same_queues m m'" "runtimes m' = runtimes m" using a(2) by (simp_all add: same_rest_def same_queues_def)
  have more: "set (lane_order m l) \<subseteq> set (lane_order m' l)" for l unfolding a(3) by auto
  have "latest_ok m'" if "latest_ok m" "length (lane_order m' (cp_lane_id cp)) \<le> lm_checkpoints_per_lane m"
  proof -
    have "length (lane_order m' l) \<le> lm_checkpoints_per_lane m" for l
      using that a(3) by (cases "l = cp_lane_id cp") (auto simp: latest_ok_def)
    with that(1) more show ?thesis unfolding latest_ok_def same by blast
  qed
  moreover have "specs_ok m'" using assms(2) unfolding kept_def specs_ok_def same by simp
  ultimately show "kept (f \<or> lm_checkpoints_per_lane m < length (lane_order m' (cp_lane_id cp))) m'"
    using a(1) assms(2) by (auto simp: kept_def not_less)
qed

end
