(* ===== verification/Lane_Protocol.thy ===== *)
theory Lane_Protocol
  imports Lane_Manager
begin

text \<open>
  The lane manager together with its processes: every interleaving of client calls, polls,
  process starts and rounds of the processes, over the queues between them, with recovery and
  shutdown (\<open>src/src/sglab/research/lanes.py\<close>, \<open>recovery.py\<close>).  A round of a process is one step.

  Every put of an important event may time out, and a process may be killed after any of its
  puts.  A run carries two facts about its past: \<open>late\<close>, that some put of an important event has
  timed out, and \<open>full\<close>, that an archived checkpoint has been registered in an order that had
  already reached its limit.  The registry of checkpoints is exact in every run; that polling
  does not raise, and that the view of the manager follows the processes, holds in the runs
  without these two, and \<open>full_queue_misreports_command\<close> and \<open>recovery_loses_latest_checkpoint\<close> show
  what happens in the others.  The view that the manager has of a lane is related to the lane by
  replaying the events that are still queued: once they have been polled, version, checkpoint
  and open actions agree.
\<close>

section \<open>Runs\<close>

record 'k lane_system =
  sy_manager :: lane_manager
  sy_processes :: "string \<rightharpoonup> 'k lane_process"

definition put_events :: "worker_event list \<Rightarrow> lane_manager \<Rightarrow> lane_manager" where
  "put_events evs m = m\<lparr>lm_events := lm_events m @ evs\<rparr>"

text \<open>Client calls that put a command and create no process, whether they succeed or raise.\<close>

inductive send_step :: "lane_manager \<Rightarrow> lane_manager \<Rightarrow> bool" where
  patch: "send_step m (snd (send_patch l a v patch m))"
| restart: "send_step m (snd (restart_lane l a v seed c m))"
| reallocate: "send_step m (snd (reallocate_lane l a v share m))"
| stop: "send_step m (snd (stop_lane l a v m))"
| fork_refused: "fork_lane sha l child a v c patch share m = (Inl e, m') \<Longrightarrow> send_step m m'"

text \<open>
  The other calls: pins, pauses, the poll, the stop events that the dispatcher sets, the restored
  checkpoint and the pause of a lane that recovery has just started, and the steps of shutdown
  before the queues are closed.
\<close>

inductive client_step :: "lane_manager \<Rightarrow> lane_manager \<Rightarrow> bool" where
  pin: "client_step m (snd (pin_checkpoints cs m))"
| pause: "client_step m (pause_all m)"
| resume: "client_step m (resume_all m)"
| poll: "client_step m (snd (poll m))"
| stop_event: "runtimes m l = Some rt \<Longrightarrow> client_step m (set_runtime l (rt\<lparr>rt_stop_event := True\<rparr>) m)"
| hold: "runtimes m l = Some rt \<Longrightarrow>
    client_step m (set_runtime l (rt\<lparr>rt_pause_event := True, rt_state := Paused\<rparr>) m)"
| restored: "runtimes m l = Some rt \<Longrightarrow> rt_latest_checkpoint_id rt = None \<Longrightarrow>
    client_step m (snd (register_restored_checkpoint l cp m))"
| request_stop: "client_step m (request_stop m)"
| drain: "\<not> lm_queues_closed m \<Longrightarrow> client_step m (snd (drain_event m))"

text \<open>A step of a process that may be killed after some of its puts.\<close>

definition interrupted ::
  "nat option \<Rightarrow> worker_event list \<times> 'k lane_process \<Rightarrow> worker_event list \<times> 'k lane_process" where
  "interrupted kill = (\<lambda>(evs, p). case kill of None \<Rightarrow> (evs, p) | Some n \<Rightarrow> (take n evs, Dead))"

text \<open>The important puts of a round are in time; only the telemetry may have been dropped.\<close>

definition in_time :: "(lane_command \<times> bool \<times> bool \<times> bool) list \<Rightarrow> bool \<times> bool \<times> bool \<Rightarrow> bool \<Rightarrow> bool \<Rightarrow> bool" where
  "in_time cs batch_puts exit_put crash_put \<longleftrightarrow> (\<forall>c\<in>set cs. snd c = (True, True, True)) \<and>
     (case batch_puts of (put1, _, put3) \<Rightarrow> put1 \<and> put3) \<and> exit_put \<and> crash_put"

inductive lane_run :: "'k kernel \<Rightarrow> int option \<Rightarrow> bool \<Rightarrow> bool \<Rightarrow> 'k lane_system \<Rightarrow> bool" for ops memory_limit where
  init: "new_manager max_active capacity telemetry per_lane pins memory_limit files = Inr m \<Longrightarrow>
    lane_run ops memory_limit False False \<lparr>sy_manager = m, sy_processes = Map.empty\<rparr>"
| client: "lane_run ops memory_limit late full s \<Longrightarrow> client_step (sy_manager s) m \<Longrightarrow>
    lane_run ops memory_limit late full (s\<lparr>sy_manager := m\<rparr>)"
| send: "lane_run ops memory_limit late full s \<Longrightarrow> \<not> lm_queues_closed (sy_manager s) \<Longrightarrow>
    send_step (sy_manager s) m \<Longrightarrow> lane_run ops memory_limit late full (s\<lparr>sy_manager := m\<rparr>)"
| archived: "lane_run ops memory_limit late full s \<Longrightarrow> lm_files (sy_manager s) (cp_id cp) = Some cp \<Longrightarrow>
    lm_checkpoints (sy_manager s) (cp_id cp) = None \<Longrightarrow> m = register_archived_checkpoint cp (sy_manager s) \<Longrightarrow>
    lane_run ops memory_limit late
      (full \<or> lm_checkpoints_per_lane (sy_manager s) < length (lane_order m (cp_lane_id cp))) (s\<lparr>sy_manager := m\<rparr>)"
| start: "lane_run ops memory_limit late full s \<Longrightarrow> \<not> lm_queues_closed (sy_manager s) \<Longrightarrow>
    start_lane_process spec (sy_manager s) = (Inr (), m) \<Longrightarrow>
    lane_run ops memory_limit late full
      \<lparr>sy_manager = m, sy_processes = (sy_processes s)(sp_lane_id spec \<mapsto> Booting cp seed)\<rparr>"
| fork: "lane_run ops memory_limit late full s \<Longrightarrow> \<not> lm_queues_closed (sy_manager s) \<Longrightarrow>
    fork_lane sha l child a v c patch share (sy_manager s) = (Inr (), m) \<Longrightarrow>
    lane_run ops memory_limit late full \<lparr>sy_manager = m,
      sy_processes = (sy_processes s)(child \<mapsto> Booting (lm_checkpoints (sy_manager s) c) (Some (derived_seed sha a child)))\<rparr>"
| boot: "lane_run ops memory_limit late full s \<Longrightarrow> sy_processes s l = Some (Booting cp seed) \<Longrightarrow>
    runtimes (sy_manager s) l = Some rt \<Longrightarrow>
    interrupted kill (boot ops memory_limit (rt_spec rt) cp seed puts crash_put) = (evs, p) \<Longrightarrow>
    lane_run ops memory_limit (late \<or> puts \<noteq> (True, True) \<or> \<not> crash_put) full
      \<lparr>sy_manager = put_events evs (sy_manager s), sy_processes = (sy_processes s)(l \<mapsto> p)\<rparr>"
| work: "lane_run ops memory_limit late full s \<Longrightarrow> sy_processes s l = Some (Alive w) \<Longrightarrow>
    runtimes (sy_manager s) l = Some rt \<Longrightarrow> rt_commands rt = map fst cs @ rest \<Longrightarrow> (rt_stop_event rt \<longrightarrow> cs = []) \<Longrightarrow>
    worker_pass ops l (rt_stop_event rt) late_stop (rt_pause_event rt) batch_puts exit_put crash_put cs w = (evs, st, p) \<Longrightarrow>
    interrupted kill (evs, p) = (evs', p') \<Longrightarrow>
    lane_run ops memory_limit (late \<or> \<not> in_time cs batch_puts exit_put crash_put) full
      \<lparr>sy_manager = put_events evs' (set_runtime l
         (rt\<lparr>rt_commands := rest, rt_stop_event := rt_stop_event rt \<or> st\<rparr>) (sy_manager s)),
       sy_processes = (sy_processes s)(l \<mapsto> p')\<rparr>"
| preview: "lane_run ops memory_limit late full s \<Longrightarrow> sy_processes s l = Some (Alive w) \<Longrightarrow>
    runtimes (sy_manager s) l = Some rt \<Longrightarrow> pv_lane_id pv = l \<Longrightarrow>
    lane_run ops memory_limit late full (s\<lparr>sy_manager := put_events [Live_Frontier_Event l pv] (sy_manager s)\<rparr>)"
| close: "lane_run ops memory_limit late full s \<Longrightarrow> close_queues (sy_manager s) = (r, m) \<Longrightarrow>
    lane_run ops memory_limit late full
      \<lparr>sy_manager = m, sy_processes = map_option (\<lambda>_. Dead) \<circ> sy_processes s\<rparr>"

section \<open>Replaying queued events\<close>

fun replay_version :: "int \<Rightarrow> worker_event list \<Rightarrow> int" where
  "replay_version v [] = v"
| "replay_version v (Ready_Event _ v' _ _ # es) = replay_version v' es"
| "replay_version v (Outcome_Event _ oc # es) = replay_version (oc_lane_version oc) es"
| "replay_version v (_ # es) = replay_version v es"

fun replay_latest :: "string option \<Rightarrow> worker_event list \<Rightarrow> string option" where
  "replay_latest c [] = c"
| "replay_latest c (Checkpoint_Event _ cp # es) = replay_latest (Some (cp_id cp)) es"
| "replay_latest c (Exit_Event _ _ (Some cp) # es) = replay_latest (Some (cp_id cp)) es"
| "replay_latest c (_ # es) = replay_latest c es"

text \<open>Every queued outcome names the checkpoint that is the latest when it is polled.\<close>

fun outcomes_known :: "string option \<Rightarrow> worker_event list \<Rightarrow> bool" where
  "outcomes_known c [] = True"
| "outcomes_known c (Outcome_Event l oc # es) = (c = Some (oc_checkpoint_id oc) \<and> outcomes_known c es)"
| "outcomes_known c (e # es) = outcomes_known (replay_latest c [e]) es"

fun outcome_ids :: "worker_event list \<Rightarrow> string list" where
  "outcome_ids [] = []"
| "outcome_ids (Outcome_Event _ oc # es) = oc_action_id oc # outcome_ids es"
| "outcome_ids (_ # es) = outcome_ids es"

lemma replay_version_append: "replay_version v (xs @ ys) = replay_version (replay_version v xs) ys"
  by (induction v xs rule: replay_version.induct) simp_all

lemma replay_latest_append: "replay_latest c (xs @ ys) = replay_latest (replay_latest c xs) ys"
  by (induction c xs rule: replay_latest.induct) simp_all

lemma outcome_ids_append: "outcome_ids (xs @ ys) = outcome_ids xs @ outcome_ids ys"
  by (induction xs rule: outcome_ids.induct) simp_all

lemma outcomes_known_Cons:
  "outcomes_known c (e # es) \<longleftrightarrow> outcomes_known c [e] \<and> outcomes_known (replay_latest c [e]) es"
  by (cases e) auto

lemma outcomes_known_append:
  "outcomes_known c (xs @ ys) \<longleftrightarrow> outcomes_known c xs \<and> outcomes_known (replay_latest c xs) ys"
proof (induction xs arbitrary: c)
  case (Cons e xs)
  have "replay_latest c (e # xs) = replay_latest (replay_latest c [e]) xs"
    using replay_latest_append [of c "[e]" xs] by simp
  with Cons show ?case
    unfolding append_Cons outcomes_known_Cons [of c e "xs @ ys"] outcomes_known_Cons [of c e xs] by simp
qed simp

text \<open>A lane whose first event has not been polled: the latest checkpoint may be set before.\<close>

lemma outcomes_known_None: "outcomes_known None es \<Longrightarrow> outcomes_known c es"
proof (induction es)
  case (Cons e es)
  then show ?case
  proof (cases e)
    case (Exit_Event l f cp)
    with Cons show ?thesis by (cases cp) simp_all
  qed simp_all
qed simp

lemma replay_latest_None: "replay_latest None es = Some x \<Longrightarrow> replay_latest c es = Some x"
proof (induction es)
  case (Cons e es)
  then show ?case
  proof (cases e)
    case (Exit_Event l f cp)
    with Cons show ?thesis by (cases cp) simp_all
  qed simp_all
qed simp

lemmas replay_append = replay_version_append replay_latest_append outcome_ids_append outcomes_known_append

section \<open>The channel between the manager and a lane\<close>

definition previews_ok :: "string \<Rightarrow> worker_event list \<Rightarrow> bool" where
  "previews_ok l es \<longleftrightarrow> (\<forall>pv. Live_Frontier_Event l pv \<in> set es \<longrightarrow> pv_lane_id pv = l)"

definition open_ids :: "worker_event list \<Rightarrow> lane_runtime \<Rightarrow> string list" where
  "open_ids es rt = map command_action (rt_commands rt) @ outcome_ids es"

definition channel_ok :: "string \<Rightarrow> worker_event list \<Rightarrow> lane_runtime \<Rightarrow> 'k lane_process \<Rightarrow> bool" where
  "channel_ok l es rt p \<longleftrightarrow>
     distinct (open_ids es rt) \<and> set (open_ids es rt) \<subseteq> rt_pending_actions rt \<and>
     rt_pending_actions rt \<inter> rt_completed_action_ids rt = {} \<and>
     outcomes_known (rt_latest_checkpoint_id rt) es \<and> previews_ok l es \<and>
     (case p of
        Booting _ _ \<Rightarrow> es = [] \<and> rt_pending_actions rt = set (open_ids es rt)
      | Alive w \<Rightarrow> rt_pending_actions rt = set (open_ids es rt) \<and>
          replay_version (rt_lane_version rt) es = wk_version w \<and>
          replay_latest (rt_latest_checkpoint_id rt) es = Some (cp_id (wk_checkpoint w))
      | Dead \<Rightarrow> True)"

text \<open>What polling an event does to the runtime of its lane.\<close>

definition event_effect :: "worker_event \<Rightarrow> lane_runtime \<Rightarrow> lane_runtime \<Rightarrow> bool" where
  "event_effect e rt rt' \<longleftrightarrow> rt_spec rt' = rt_spec rt \<and> rt_commands rt' = rt_commands rt \<and>
     rt_lane_version rt' = replay_version (rt_lane_version rt) [e] \<and>
     rt_latest_checkpoint_id rt' = replay_latest (rt_latest_checkpoint_id rt) [e] \<and>
     rt_pending_actions rt' = rt_pending_actions rt - set (outcome_ids [e]) \<and>
     rt_completed_action_ids rt' = rt_completed_action_ids rt \<union> set (outcome_ids [e])"

lemma channel_polled:
  assumes "channel_ok l (e # es) rt p" "event_effect e rt rt'"
  shows "channel_ok l es rt' p"
proof -
  note c = assms(1) [unfolded channel_ok_def]
  have cons: "outcome_ids (e # es) = outcome_ids [e] @ outcome_ids es"
    "replay_version v (e # es) = replay_version (replay_version v [e]) es"
    "replay_latest x (e # es) = replay_latest (replay_latest x [e]) es" for v x
    using replay_append(1-3) [where xs = "[e]" and ys = es] by simp_all
  have ids: "open_ids (e # es) rt = map command_action (rt_commands rt) @ outcome_ids [e] @ outcome_ids es"
    "open_ids es rt' = map command_action (rt_commands rt) @ outcome_ids es"
    using assms(2) by (simp_all add: open_ids_def cons event_effect_def)
  have dist: "distinct (open_ids (e # es) rt)" using c by simp
  have diff: "set (open_ids es rt') = set (open_ids (e # es) rt) - set (outcome_ids [e])"
    using dist unfolding ids distinct_append set_append by blast
  have "distinct (open_ids es rt')" using dist unfolding ids distinct_append set_append by blast
  moreover have "set (open_ids es rt') \<subseteq> rt_pending_actions rt'"
    using c assms(2) unfolding diff event_effect_def by auto
  moreover have "rt_pending_actions rt' \<inter> rt_completed_action_ids rt' = {}"
    using c assms(2) unfolding event_effect_def by auto
  moreover have "outcomes_known (rt_latest_checkpoint_id rt') es"
    using c assms(2) unfolding event_effect_def outcomes_known_Cons [of "rt_latest_checkpoint_id rt" e es] by simp
  moreover have "previews_ok l es" using c by (simp add: previews_ok_def)
  ultimately show ?thesis
    using c assms(2) diff unfolding channel_ok_def event_effect_def cons
    by (cases p) simp_all
qed

lemma channel_sent:
  assumes "channel_ok l es rt p" "a \<notin> rt_pending_actions rt" "a \<notin> rt_completed_action_ids rt" "command_action c = a"
  shows "channel_ok l es (rt\<lparr>rt_commands := rt_commands rt @ [c], rt_pending_actions := insert a (rt_pending_actions rt)\<rparr>) p"
  using assms by (cases p) (auto simp: channel_ok_def open_ids_def)

lemma channel_killed:
  assumes "channel_ok l (es @ evs) rt p"
  shows "channel_ok l (es @ take n evs) rt Dead"
proof -
  have ids: "open_ids (es @ evs) rt = open_ids (es @ take n evs) rt @ outcome_ids (drop n evs)"
    using outcome_ids_append [of "take n evs" "drop n evs"] by (simp add: open_ids_def outcome_ids_append)
  have known: "outcomes_known c (es @ evs) \<Longrightarrow> outcomes_known c (es @ take n evs)" for c
    using outcomes_known_append [of c "es @ take n evs" "drop n evs"] by simp
  have "previews_ok l (es @ take n evs)"
    using assms by (auto simp: channel_ok_def previews_ok_def dest: in_set_takeD)
  with assms known show ?thesis unfolding channel_ok_def ids distinct_append set_append by auto
qed

lemma channel_dies: "channel_ok l es rt p \<Longrightarrow> channel_ok l es rt Dead"
  using channel_killed [of l es "[]" rt p] by simp

lemma channel_interrupted:
  assumes "interrupted kill (evs, p) = (evs', p')" "channel_ok l (es @ evs) rt p" "event_lane ` set evs \<subseteq> {l}"
  shows "channel_ok l (es @ evs') rt p'" "event_lane ` set evs' \<subseteq> {l}"
  using assms channel_killed [OF assms(2)]
  by (auto simp: interrupted_def split: option.splits dest: in_set_takeD)

lemma channel_restored:
  assumes "channel_ok l es rt p" "rt_latest_checkpoint_id rt = None"
  shows "channel_ok l es (latest_update cp rt) p"
proof -
  let ?rt = "latest_update cp rt"
  have same: "rt_commands ?rt = rt_commands rt" "rt_pending_actions ?rt = rt_pending_actions rt"
    "rt_completed_action_ids ?rt = rt_completed_action_ids rt" "rt_lane_version ?rt = rt_lane_version rt"
    "rt_latest_checkpoint_id ?rt = Some (cp_id cp)" by (simp_all add: latest_update_def)
  note c = assms(1) [unfolded channel_ok_def open_ids_def assms(2)]
  have known: "outcomes_known (Some (cp_id cp)) es" by (rule outcomes_known_None) (use c in simp)
  have latest: "replay_latest None es = Some x \<Longrightarrow> replay_latest (Some (cp_id cp)) es = Some x" for x
    by (rule replay_latest_None)
  show ?thesis
    using c known latest unfolding channel_ok_def open_ids_def same
    by (cases p; simp only: lane_process.case; blast)
qed

text \<open>
  What a process puts on the event queue: events of its own lane, outcomes for the given
  actions, and a replay that ends in the state of the process.
\<close>

definition emits :: "string \<Rightarrow> string list \<Rightarrow> 'k lane_worker \<Rightarrow> worker_event list \<Rightarrow> 'k lane_worker \<Rightarrow> bool" where
  "emits l ids w evs w' \<longleftrightarrow> event_lane ` set evs \<subseteq> {l} \<and> previews_ok l evs \<and> outcome_ids evs = ids \<and>
     outcomes_known (Some (cp_id (wk_checkpoint w))) evs \<and> replay_version (wk_version w) evs = wk_version w' \<and>
     replay_latest (Some (cp_id (wk_checkpoint w))) evs = Some (cp_id (wk_checkpoint w'))"

lemma emits_append: "emits l ids w evs w' \<Longrightarrow> emits l ids' w' evs' w'' \<Longrightarrow> emits l (ids @ ids') w (evs @ evs') w''"
  by (auto simp: emits_def replay_append previews_ok_def)

lemma run_command_keeps:
  "run_command ops c w = (st, err, w') \<Longrightarrow> wk_version w' = wk_version w \<and> wk_checkpoint w' = wk_checkpoint w"
  by (cases c) (auto simp: run_command_def Let_def split: option.splits prod.splits)

lemma apply_command_emits:
  "\<exists>evs st w'. apply_command ops l (True, True, True) c w = (evs, st, w', None) \<and> emits l [command_action c] w evs w'"
proof (cases "command_expected c = wk_version w")
  case False
  then show ?thesis by (auto simp: apply_command_def emits_def report_def previews_ok_def)
next
  case True
  obtain st err w1 where run: "run_command ops c w = (st, err, w1)" by (metis prod_cases3)
  note keeps = run_command_keeps [OF run]
  show ?thesis
  proof (cases err)
    case (Some e)
    with True run keeps show ?thesis
      by (simp add: apply_command_def report_failure_def emits_def report_def previews_ok_def)
  next
    case None
    with True run keeps show ?thesis
      by (cases "kn_checkpoint ops (wk_version w1 + 1) (wk_kernel w1)")
        (simp_all add: apply_command_def report_failure_def emits_def report_def previews_ok_def)
  qed
qed

lemma apply_commands_emits:
  "\<exists>evs st w'. apply_commands ops l (map (\<lambda>c. (c, True, True, True)) cs) w = (evs, st, w', None) \<and>
     emits l (map command_action cs) w evs w'"
proof (induction cs arbitrary: w)
  case Nil
  show ?case by (auto simp: emits_def previews_ok_def)
next
  case (Cons c cs)
  obtain evs st w1 where 1: "apply_command ops l (True, True, True) c w = (evs, st, w1, None)"
    "emits l [command_action c] w evs w1" using apply_command_emits by blast
  obtain evs' st' w2 where 2: "apply_commands ops l (map (\<lambda>c. (c, True, True, True)) cs) w1 = (evs', st', w2, None)"
    "emits l (map command_action cs) w1 evs' w2" using Cons by blast
  from emits_append [OF 1(2) 2(2)] show ?case using 1(1) 2(1) by simp
qed

lemma run_lane_batch_emits:
  "run_lane_batch ops l (True, d, True) True w = ([Exit_Event l True None], Dead) \<or>
   (\<exists>evs w'. run_lane_batch ops l (True, d, True) True w = (evs, Alive w') \<and> emits l [] w evs w')"
  by (auto simp: Let_def run_lane_batch_def crash_def emits_def previews_ok_def split: sum.splits prod.splits)

text \<open>Events that a process adds to the queue of its lane after taking commands from its own queue.\<close>

lemma channel_worked:
  assumes "channel_ok l es rt (Alive w)" "rt_commands rt = cs @ rest" "emits l (map command_action cs) w evs w'"
  shows "channel_ok l (es @ evs) (rt\<lparr>rt_commands := rest, rt_stop_event := b\<rparr>) (Alive w')"
proof -
  let ?rt = "rt\<lparr>rt_commands := rest, rt_stop_event := b\<rparr>"
  note c = assms(1) [unfolded channel_ok_def] and e = assms(3) [unfolded emits_def]
  have ids: "open_ids (es @ evs) ?rt = map command_action rest @ outcome_ids es @ map command_action cs"
    using e by (simp add: open_ids_def outcome_ids_append)
  have old: "open_ids es rt = map command_action cs @ map command_action rest @ outcome_ids es"
    by (simp add: open_ids_def assms(2))
  have "set (open_ids (es @ evs) ?rt) = set (open_ids es rt)" unfolding ids old by auto
  moreover have "distinct (open_ids (es @ evs) ?rt)"
    using c unfolding ids old distinct_append set_append by blast
  moreover have "outcomes_known (rt_latest_checkpoint_id rt) (es @ evs)"
    using c e by (simp add: outcomes_known_append)
  moreover have "previews_ok l (es @ evs)" using c e by (auto simp: previews_ok_def)
  ultimately show ?thesis using c e unfolding channel_ok_def replay_append by auto
qed

lemma channel_dead:
  assumes "channel_ok l es rt (Alive w)" "outcome_ids evs = []" "outcomes_known (Some (cp_id (wk_checkpoint w))) evs"
    "previews_ok l evs"
  shows "channel_ok l (es @ evs) rt Dead"
  using assms by (auto simp: channel_ok_def open_ids_def replay_append previews_ok_def)

lemma emits_nothing: "emits l [] w [] w"
  by (simp add: emits_def previews_ok_def)

lemma worker_pass_shape:
  assumes "stop \<longrightarrow> cs = []"
    and "worker_pass ops l stop late pause (True, d, True) True True (map (\<lambda>c. (c, True, True, True)) cs) w = (evs, st, p)"
  shows "(\<exists>w'. p = Alive w' \<and> emits l (map command_action cs) w evs w') \<or>
    (\<exists>evs' w' f cp. p = Dead \<and> evs = evs' @ [Exit_Event l f cp] \<and> emits l (map command_action cs) w evs' w')"
proof (cases stop)
  case True
  then have "emits l (map command_action cs) w [] w" using assms(1) emits_nothing by simp
  moreover have "evs = [] @ [Exit_Event l False (Some (wk_checkpoint w))]" "p = Dead"
    using True assms(2) by (simp_all add: worker_pass_def leave_loop_def)
  ultimately show ?thesis by blast
next
  case False
  obtain evs1 st1 w1 where 1: "apply_commands ops l (map (\<lambda>c. (c, True, True, True)) cs) w = (evs1, st1, w1, None)"
    "emits l (map command_action cs) w evs1 w1" using apply_commands_emits by blast
  have "worker_pass ops l stop late pause (True, d, True) True True (map (\<lambda>c. (c, True, True, True)) cs) w =
      (if st1 \<or> late then (evs1 @ [Exit_Event l False (Some (wk_checkpoint w1))], st1, Dead)
      else if pause \<or> py_le (wk_share w1) (Fin 0) then (evs1, st1, Alive w1)
      else case run_lane_batch ops l (True, d, True) True w1 of (evs', p) \<Rightarrow> (evs1 @ evs', st1, p))"
    unfolding worker_pass_def 1(1) leave_loop_def by (simp only: False if_False if_True prod.case option.case)
  then have pass: "(evs, st, p) = (if st1 \<or> late then (evs1 @ [Exit_Event l False (Some (wk_checkpoint w1))], st1, Dead)
      else if pause \<or> py_le (wk_share w1) (Fin 0) then (evs1, st1, Alive w1)
      else case run_lane_batch ops l (True, d, True) True w1 of (evs', p) \<Rightarrow> (evs1 @ evs', st1, p))"
    unfolding assms(2) .
  from run_lane_batch_emits [of ops l d w1] show ?thesis
  proof (elim disjE exE conjE)
    assume "run_lane_batch ops l (True, d, True) True w1 = ([Exit_Event l True None], Dead)"
    with pass 1(2) show ?thesis by (auto split: if_splits)
  next
    fix evs' w' assume b: "run_lane_batch ops l (True, d, True) True w1 = (evs', Alive w')" "emits l [] w1 evs' w'"
    from emits_append [OF 1(2) b(2)] have "emits l (map command_action cs) w (evs1 @ evs') w'" by simp
    with pass 1(2) b(1) show ?thesis by (auto split: if_splits)
  qed
qed

lemma worker_pass_channel:
  assumes "channel_ok l es rt (Alive w)" "rt_commands rt = cs @ rest" "stop \<longrightarrow> cs = []"
    and "worker_pass ops l stop late pause (True, d, True) True True (map (\<lambda>c. (c, True, True, True)) cs) w = (evs, st, p)"
  shows "channel_ok l (es @ evs) (rt\<lparr>rt_commands := rest, rt_stop_event := b\<rparr>) p \<and> event_lane ` set evs \<subseteq> {l}"
  using worker_pass_shape [OF assms(3,4)]
proof (elim disjE exE conjE)
  fix w' assume "p = Alive w'" and e: "emits l (map command_action cs) w evs w'"
  with channel_worked [OF assms(1,2) e] show ?thesis by (simp add: emits_def)
next
  fix evs' w' f cp
  assume p: "p = Dead" "evs = evs' @ [Exit_Event l f cp]" and e: "emits l (map command_action cs) w evs' w'"
  have "channel_ok l ((es @ evs') @ [Exit_Event l f cp]) (rt\<lparr>rt_commands := rest, rt_stop_event := b\<rparr>) Dead"
    using channel_worked [OF assms(1,2) e] by (rule channel_dead) (cases cp; simp add: previews_ok_def)+
  with p e show ?thesis by (simp add: emits_def)
qed

lemma boot_channel:
  assumes "channel_ok (sp_lane_id spec) [] rt (Booting cp seed :: 'k lane_process)"
    and "boot ops memory_limit spec cp' seed' (True, True) True = (evs, p :: 'k lane_process)"
  shows "channel_ok (sp_lane_id spec) evs rt p \<and> event_lane ` set evs \<subseteq> {sp_lane_id spec}"
proof -
  let ?l = "sp_lane_id spec"
  have "(evs, p) = crash ?l True \<or> (\<exists>k cp. evs = [Checkpoint_Event ?l cp,
      Ready_Event ?l (sp_lane_version spec) (kn_parameters ops k) (sp_resource_share spec)] \<and>
      p = Alive \<lparr>wk_kernel = k, wk_version = sp_lane_version spec, wk_share = sp_resource_share spec, wk_checkpoint = cp\<rparr>)"
    using assms(2) by (auto simp: boot_def Let_def split: if_splits sum.splits)
  with assms(1) show ?thesis
    by (elim disjE exE conjE) (auto simp: crash_def channel_ok_def open_ids_def previews_ok_def)
qed

section \<open>Polling\<close>

lemma same_rest_queues: "same_rest m m' \<Longrightarrow> same_queues m m' \<and> runtimes m' = runtimes m"
  by (simp add: same_rest_def same_queues_def)

lemma same_queues_trans: "same_queues a b \<Longrightarrow> same_queues b c \<Longrightarrow> same_queues a c"
  by (simp add: same_queues_def)

lemma same_queues_set_runtime [simp]: "same_queues m (set_runtime k rt m)"
  by (simp add: same_queues_def)

lemma apply_outcome_ok:
  assumes ok: "manager_ok m" "runtimes m l = Some rt" and c: "rt_latest_checkpoint_id rt = Some (oc_checkpoint_id oc)"
  shows "\<exists>m' rt'. apply_outcome l rt oc m = (Inr (), m') \<and> manager_ok m' \<and> same_queues m m' \<and>
    runtimes m' = (runtimes m)(l \<mapsto> rt') \<and> event_effect (Outcome_Event l oc) rt rt'"
proof -
  define rt1 where "rt1 = rt\<lparr>rt_action_outcomes := keep_last 128 (rt_action_outcomes rt @ [oc]),
    rt_pending_actions := rt_pending_actions rt - {oc_action_id oc},
    rt_completed_action_ids := insert (oc_action_id oc) (rt_completed_action_ids rt)\<rparr>"
  define rt2 where "rt2 = (case oc_settings oc of None \<Rightarrow> rt1\<lparr>rt_lane_version := oc_lane_version oc\<rparr>
    | Some (ps, share) \<Rightarrow> rt1\<lparr>rt_lane_version := oc_lane_version oc, rt_parameters := ps, rt_resource_share := share\<rparr>)"
  note facts = manager_ok_runtime [OF ok]
  have m1: "manager_ok (set_runtime l rt1 m)"
    using facts by (intro manager_ok_set_runtime ok(1)) (simp_all add: rt1_def)
  have fields: "rt_spec rt2 = rt_spec rt" "rt_latest_checkpoint_id rt2 = rt_latest_checkpoint_id rt"
    "event_effect (Outcome_Event l oc) rt rt2"
    by (auto simp: rt2_def rt1_def event_effect_def split: option.splits)
  have "lm_checkpoints (set_runtime l rt1 m) (oc_checkpoint_id oc) \<noteq> None"
    using latest_available [OF ok c] by simp
  with m1 obtain m2 where m2: "pin_checkpoint (oc_checkpoint_id oc) (set_runtime l rt1 m) = (Inr (), m2)" "manager_ok m2"
    "same_rest (set_runtime l rt1 m) m2" "lane_order m2 = lane_order (set_runtime l rt1 m)"
    by (cases rule: pin_checkpoint_cases [of "set_runtime l rt1 m" "oc_checkpoint_id oc"]) auto
  have "manager_ok (set_runtime l rt2 m2)"
    using facts m2(4) by (intro manager_ok_set_runtime m2(2)) (simp_all add: fields)
  moreover have "apply_outcome l rt oc m = (Inr (), set_runtime l rt2 m2)"
    unfolding apply_outcome_def Let_def rt1_def [symmetric] m2(1)
    by (simp add: rt2_def split: option.split)
  moreover have "same_queues m (set_runtime l rt2 m2)" "runtimes (set_runtime l rt2 m2) = (runtimes m)(l \<mapsto> rt2)"
    using same_rest_queues [OF m2(3)] by (simp_all add: same_queues_def)
  ultimately show ?thesis using fields(3) by blast
qed

lemma apply_event_ok:
  assumes ok: "manager_ok m" "runtimes m (event_lane e) = Some rt"
    and "outcomes_known (rt_latest_checkpoint_id rt) [e]" "previews_ok (event_lane e) [e]"
  shows "\<exists>m' rt'. apply_event e m = (Inr (), m') \<and> manager_ok m' \<and> same_queues m m' \<and>
    runtimes m' = (runtimes m)(event_lane e \<mapsto> rt') \<and> event_effect e rt rt'"
proof -
  note facts = manager_ok_runtime [OF ok]
  have find: "find_runtime (event_lane e) m = Inr rt" using ok(2) by (simp add: find_runtime_def)
  have simple: ?thesis if "apply_event e m = (Inr (), set_runtime (event_lane e) rt' m)" "event_effect e rt rt'"
    "replay_latest (rt_latest_checkpoint_id rt) [e] = rt_latest_checkpoint_id rt" for rt'
    using that facts manager_ok_set_runtime [OF ok(1), of rt' "event_lane e"] by (auto simp: event_effect_def)
  have remember: ?thesis if "apply_event e m = (Inr (), remember_checkpoint (event_lane e) rt1 cp m1)"
    "m1 = m \<or> m1 = set_runtime (event_lane e) rt1 m" "rt1 = rt\<lparr>rt_state := s\<rparr>" "event_effect e rt (latest_update cp rt1)" for m1 rt1 cp s
  proof -
    have rt1: "sp_lane_id (rt_spec rt1) = event_lane e" using facts that(3) by simp
    have m1: "manager_ok m1" "same_queues m m1" "(runtimes m1)(event_lane e \<mapsto> x) = (runtimes m)(event_lane e \<mapsto> x)" for x
      using that(2,3) ok(1) facts manager_ok_set_runtime [OF ok(1) rt1] by (auto simp: same_queues_def)
    note r = remember_ok [OF m1(1) rt1, of cp]
    from r(3) m1(2) have "same_queues m (remember_checkpoint (event_lane e) rt1 cp m1)" using same_queues_trans by blast
    with r(1,2) that(1,4) m1(3) show ?thesis by auto
  qed
  show ?thesis
  proof (cases e)
    case (Checkpoint_Event l cp)
    then show ?thesis using find
      by (intro remember [of rt cp m "rt_state rt"]) (auto simp: apply_event_def event_effect_def latest_update_def)
  next
    case (Ready_Event l v ps share)
    then show ?thesis using find
      by (intro simple [of "rt\<lparr>rt_state := if rt_pause_event rt then Paused else Running, rt_lane_version := v,
          rt_parameters := ps, rt_resource_share := share\<rparr>"]) (simp_all add: apply_event_def event_effect_def)
  next
    case (Live_Frontier_Event l pv)
    then have "pv_lane_id pv = sp_lane_id (rt_spec rt)" using facts(1) assms(4) by (simp add: previews_ok_def)
    then show ?thesis using find Live_Frontier_Event
      by (intro simple [of "rt\<lparr>rt_latest_live_frontier := Some pv,
          rt_high_water := max (rt_high_water rt) (pv_high_water pv)\<rparr>"])
        (simp_all add: apply_event_def event_effect_def)
  next
    case (Telemetry_Event l v w)
    then show ?thesis using find
      by (intro simple [of "rt\<lparr>rt_telemetry := series_append w (rt_telemetry rt),
          rt_high_water := max (rt_high_water rt) (high_water w)\<rparr>"]) (simp_all add: apply_event_def event_effect_def)
  next
    case (Improvement_Event l v b)
    then show ?thesis using find
      by (intro simple [of "rt\<lparr>rt_improvements := keep_last 64 (rt_improvements rt @ [e])\<rparr>"])
        (simp_all add: apply_event_def event_effect_def)
  next
    case (Outcome_Event l oc)
    then show ?thesis using find assms(3) apply_outcome_ok [OF ok(1), of l rt oc] ok(2) by (simp add: apply_event_def)
  next
    case (Exit_Event l f cp)
    show ?thesis
    proof (cases cp)
      case None
      then show ?thesis using find Exit_Event
        by (intro simple [of "rt\<lparr>rt_state := if f then Failed else Stopped\<rparr>"])
          (simp_all add: apply_event_def event_effect_def Let_def)
    next
      case (Some c)
      then show ?thesis using find Exit_Event
        by (intro remember [of "rt\<lparr>rt_state := if f then Failed else Stopped\<rparr>" c
              "set_runtime l (rt\<lparr>rt_state := if f then Failed else Stopped\<rparr>) m"])
          (auto simp: apply_event_def event_effect_def latest_update_def Let_def)
    qed
  qed
qed

section \<open>The invariant of runs\<close>

definition lane_events :: "string \<Rightarrow> lane_manager \<Rightarrow> worker_event list" where
  "lane_events l m = filter (\<lambda>e. event_lane e = l) (lm_events m)"

definition system_ok :: "lane_manager \<Rightarrow> (string \<rightharpoonup> 'k lane_process) \<Rightarrow> bool" where
  "system_ok m ps \<longleftrightarrow> manager_ok m \<and>
     (\<forall>e\<in>set (lm_events m). runtimes m (event_lane e) \<noteq> None) \<and>
     (\<forall>l rt. runtimes m l = Some rt \<longrightarrow> (\<exists>p. ps l = Some p \<and> channel_ok l (lane_events l m) rt p))"

lemma manager_ok_records [simp]:
  "manager_ok (m\<lparr>lm_events := es\<rparr>) = manager_ok m" "manager_ok (m\<lparr>lm_deferred_events := ds\<rparr>) = manager_ok m"
  "manager_ok (m\<lparr>lm_queues_closed := b\<rparr>) = manager_ok m"
  unfolding kept_False [symmetric] by (rule kept_records)+

lemma system_ok_records [simp]:
  "system_ok (m\<lparr>lm_deferred_events := ds\<rparr>) ps = system_ok m ps"
  "system_ok (m\<lparr>lm_queues_closed := b\<rparr>) ps = system_ok m ps"
  by (simp_all add: system_ok_def lane_events_def)

lemma system_ok_runtime:
  assumes "system_ok m ps" "runtimes m l = Some rt"
  obtains p where "ps l = Some p" "channel_ok l (lane_events l m) rt p"
  using assms unfolding system_ok_def by blast

lemma system_ok_channel:
  assumes "system_ok m ps" "runtimes m l = Some rt" "ps l = Some p"
  shows "channel_ok l (lane_events l m) rt p"
  using system_ok_runtime [OF assms(1,2)] assms(3) by (metis option.inject)

text \<open>A change of one runtime, with the queues unchanged.\<close>

lemma system_ok_update:
  assumes "system_ok m ps" "manager_ok m'" "same_queues m m'" "runtimes m' = (runtimes m)(l \<mapsto> rt')"
    and "channel_ok l (lane_events l m) rt' p"
  shows "system_ok m' (ps(l \<mapsto> p))"
  using assms by (auto simp: system_ok_def same_queues_def lane_events_def)

lemma system_ok_same:
  assumes "system_ok m ps" "manager_ok m'" "same_queues m m'" "runtimes m' = runtimes m"
  shows "system_ok m' ps"
  using assms by (auto simp: system_ok_def same_queues_def lane_events_def)

lemma set_runtime_same: "runtimes m l = Some rt \<Longrightarrow> set_runtime l rt m = m"
  by (simp add: set_runtime_def update_triv)

lemma manager_ok_put [simp]: "manager_ok (put_events evs m) = manager_ok m"
  by (simp add: put_events_def)

lemma kept_put [simp]: "kept f (put_events evs m) = kept f m"
  by (simp add: put_events_def)

text \<open>A process takes commands from its queue and puts events.\<close>

lemma system_ok_put:
  assumes ok: "system_ok m ps" and rt: "runtimes m l = Some rt" and lane: "event_lane ` set evs \<subseteq> {l}"
    and c: "channel_ok l (lane_events l m @ evs) rt' p"
    and same: "rt_spec rt' = rt_spec rt" "rt_latest_checkpoint_id rt' = rt_latest_checkpoint_id rt"
  shows "system_ok (put_events evs (set_runtime l rt' m)) (ps(l \<mapsto> p))"
proof -
  let ?m = "put_events evs (set_runtime l rt' m)"
  have filter: "lane_events l' ?m = lane_events l' m @ (if l' = l then evs else [])" for l'
  proof -
    have "filter (\<lambda>e. event_lane e = l') evs = (if l' = l then evs else [])"
      using lane by (auto simp: filter_id_conv filter_empty_conv)
    then show ?thesis by (simp add: lane_events_def put_events_def)
  qed
  have m: "manager_ok m" using ok by (simp add: system_ok_def)
  have rts: "runtimes ?m = (runtimes m)(l \<mapsto> rt')" by (simp add: put_events_def)
  show ?thesis
    unfolding system_ok_def rts
  proof (intro conjI allI impI ballI)
    show "manager_ok ?m"
      unfolding manager_ok_put using manager_ok_runtime [OF m rt] same by (intro manager_ok_set_runtime m) simp_all
    show "((runtimes m)(l \<mapsto> rt')) (event_lane e) \<noteq> None" if "e \<in> set (lm_events ?m)" for e
      using that ok lane by (auto simp: system_ok_def put_events_def)
    show "\<exists>q. (ps(l \<mapsto> p)) l' = Some q \<and> channel_ok l' (lane_events l' ?m) rt1 q"
      if "((runtimes m)(l \<mapsto> rt')) l' = Some rt1" for l' rt1
    proof (cases "l' = l")
      case True
      with that have "rt1 = rt'" by simp
      with c show ?thesis unfolding True filter by simp
    next
      case False
      with that have "runtimes m l' = Some rt1" by simp
      from system_ok_runtime [OF ok this] obtain q where "ps l' = Some q" "channel_ok l' (lane_events l' m) rt1 q" .
      with False show ?thesis unfolding filter by simp
    qed
  qed
qed

lemma system_ok_send:
  assumes ok: "system_ok m ps"
  shows "system_ok (snd (send_command l c m)) ps"
proof (cases "send_command l c m")
  case (Pair r m')
  show ?thesis
  proof (cases "m' = m")
    case False
    with Pair obtain rt where rt: "runtimes m l = Some rt" "command_action c \<notin> rt_pending_actions rt"
      "command_action c \<notin> rt_completed_action_ids rt"
      "m' = set_runtime l (rt\<lparr>rt_commands := rt_commands rt @ [c],
         rt_pending_actions := insert (command_action c) (rt_pending_actions rt)\<rparr>) m"
      by (auto simp: send_command_def find_runtime_def split: option.splits if_splits)
    have m: "manager_ok m" using ok by (simp add: system_ok_def)
    obtain p where p: "ps l = Some p" "channel_ok l (lane_events l m) rt p" using system_ok_runtime [OF ok rt(1)] .
    have m': "manager_ok m'"
      unfolding rt(4) using manager_ok_runtime [OF m rt(1)] by (intro manager_ok_set_runtime m) simp_all
    have "system_ok m' (ps(l \<mapsto> p))"
      by (rule system_ok_update [OF ok m' _ _ channel_sent [OF p(2) rt(2,3) refl]]) (simp_all add: rt(4))
    then have "system_ok m' ps" using p(1) by (simp add: fun_upd_idem)
    with Pair show ?thesis by simp
  qed (use ok Pair in simp)
qed

lemma system_ok_pin:
  assumes "system_ok m ps"
  shows "system_ok (snd (pin_checkpoints cs m)) ps"
proof -
  have m: "manager_ok m" "registry_ok m" using assms by (simp_all add: system_ok_def manager_ok_def)
  from m(2) show ?thesis
  proof (cases rule: pin_checkpoints_cases [of m cs])
    case (2 m')
    with manager_ok_same [OF m(1) 2(2-4)] same_rest_queues [OF 2(3)] show ?thesis
      using system_ok_same [OF assms] by simp
  qed (use assms in simp)
qed

lemma system_ok_runtime_flag:
  assumes ok: "system_ok m ps" and rt: "runtimes m l = Some rt"
    and "rt_spec rt' = rt_spec rt" "rt_latest_checkpoint_id rt' = rt_latest_checkpoint_id rt"
    "rt_commands rt' = rt_commands rt" "rt_pending_actions rt' = rt_pending_actions rt"
    "rt_completed_action_ids rt' = rt_completed_action_ids rt" "rt_lane_version rt' = rt_lane_version rt"
  shows "system_ok (set_runtime l rt' m) ps"
proof -
  have m: "manager_ok m" using ok by (simp add: system_ok_def)
  obtain p where p: "ps l = Some p" "channel_ok l (lane_events l m) rt p" using system_ok_runtime [OF ok rt] .
  have c: "channel_ok l (lane_events l m) rt' p"
    using p(2) unfolding channel_ok_def open_ids_def assms(4-8) .
  have "manager_ok (set_runtime l rt' m)"
    using manager_ok_runtime [OF m rt] assms(3,4) by (intro manager_ok_set_runtime m) simp_all
  from system_ok_update [OF ok this _ _ c] p(1) show ?thesis by (simp add: fun_upd_idem)
qed

text \<open>Applying the event at the head of the queue.\<close>

lemma system_ok_next:
  assumes ok: "system_ok m ps" and Cons: "lm_events m = e # es"
  shows "\<exists>m'. apply_event e (m\<lparr>lm_events := es\<rparr>) = (Inr (), m') \<and> system_ok m' ps"
proof -
  let ?m = "m\<lparr>lm_events := es\<rparr>"
  obtain rt where rt: "runtimes m (event_lane e) = Some rt" using ok Cons by (auto simp: system_ok_def)
  obtain p where p: "ps (event_lane e) = Some p" "channel_ok (event_lane e) (lane_events (event_lane e) m) rt p"
    using system_ok_runtime [OF ok rt] .
  have es: "lane_events (event_lane e) m = e # lane_events (event_lane e) ?m" by (simp add: lane_events_def Cons)
  have pre: "outcomes_known (rt_latest_checkpoint_id rt) [e]" "previews_ok (event_lane e) [e]"
    using p(2) outcomes_known_Cons [of "rt_latest_checkpoint_id rt" e "lane_events (event_lane e) ?m"]
    unfolding channel_ok_def es by (simp_all add: previews_ok_def)
  have "manager_ok ?m" using ok by (simp add: system_ok_def)
  from apply_event_ok [OF this _ pre] rt obtain m' rt' where
    m': "apply_event e ?m = (Inr (), m')" "manager_ok m'" "same_queues ?m m'"
      "runtimes m' = (runtimes m)(event_lane e \<mapsto> rt')" "event_effect e rt rt'" by auto
  have c: "channel_ok (event_lane e) (lane_events (event_lane e) m') rt' p"
    using channel_polled [OF p(2) [unfolded es] m'(5)] m'(3) by (simp add: same_queues_def lane_events_def)
  have other: "lane_events l m' = lane_events l m" if "l \<noteq> event_lane e" for l
    using that m'(3) by (simp add: same_queues_def lane_events_def Cons)
  have "system_ok m' ps"
    unfolding system_ok_def
  proof (intro conjI allI impI ballI)
    show "manager_ok m'" by (rule m'(2))
    show "runtimes m' (event_lane x) \<noteq> None" if "x \<in> set (lm_events m')" for x
      using that m'(3,4) ok Cons by (auto simp: same_queues_def system_ok_def)
    show "\<exists>p. ps l = Some p \<and> channel_ok l (lane_events l m') rt1 p" if "runtimes m' l = Some rt1" for l rt1
    proof (cases "l = event_lane e")
      case True
      with that m'(4) p(1) c show ?thesis by auto
    next
      case False
      with that m'(4) have "runtimes m l = Some rt1" by simp
      from system_ok_runtime [OF ok this] other [OF False] show ?thesis by metis
    qed
  qed
  with m'(1) show ?thesis by blast
qed

lemma system_ok_poll:
  assumes ok: "system_ok m ps"
  shows "\<exists>e. fst (poll m) = Inr e" "system_ok (snd (poll m)) ps"
proof -
  have "(\<exists>e. fst (poll m) = Inr e) \<and> system_ok (snd (poll m)) ps"
  proof (cases "lm_events m")
    case Nil
    with ok show ?thesis by (auto simp: poll_def split: list.split)
  next
    case (Cons e es)
    from system_ok_next [OF ok Cons] Cons ok show ?thesis by (auto simp: poll_def split: list.split)
  qed
  then show "\<exists>e. fst (poll m) = Inr e" "system_ok (snd (poll m)) ps" by simp_all
qed

lemma system_ok_drain:
  assumes ok: "system_ok m ps"
  shows "\<exists>m'. drain_event m = (Inr (), m') \<and> system_ok m' ps"
proof (cases "lm_events m")
  case (Cons e es)
  from system_ok_next [OF ok Cons] Cons show ?thesis by (auto simp: drain_event_def)
qed (use ok in \<open>simp add: drain_event_def\<close>)

lemma system_ok_drain_events: "system_ok m ps \<Longrightarrow> \<exists>m'. drain_events n m = (Inr (), m') \<and> system_ok m' ps"
proof (induction n arbitrary: m)
  case (Suc n)
  obtain m1 where m1: "drain_event m = (Inr (), m1)" "system_ok m1 ps" using system_ok_drain [OF Suc.prems] by blast
  from Suc.IH [OF m1(2)] m1(1) show ?case by simp
qed simp

lemma system_ok_dead:
  assumes "system_ok m ps"
  shows "system_ok m (map_option (\<lambda>_. Dead) \<circ> ps)"
  unfolding system_ok_def
proof (intro conjI allI impI)
  fix l rt assume "runtimes m l = Some rt"
  then obtain p where "ps l = Some p" "channel_ok l (lane_events l m) rt p" by (rule system_ok_runtime [OF assms])
  then show "\<exists>q. (map_option (\<lambda>_. Dead) \<circ> ps) l = Some q \<and> channel_ok l (lane_events l m) rt q"
    using channel_dies by fastforce
qed (use assms in \<open>simp_all add: system_ok_def\<close>)

definition same_view :: "lane_runtime \<Rightarrow> lane_runtime \<Rightarrow> bool" where
  "same_view rt rt' \<longleftrightarrow> rt_spec rt' = rt_spec rt \<and> rt_latest_checkpoint_id rt' = rt_latest_checkpoint_id rt \<and>
     rt_commands rt' = rt_commands rt \<and> rt_pending_actions rt' = rt_pending_actions rt \<and>
     rt_completed_action_ids rt' = rt_completed_action_ids rt \<and> rt_lane_version rt' = rt_lane_version rt"

lemma system_ok_map_runtimes:
  assumes "system_ok m ps" "\<And>rt. same_view rt (f rt)"
  shows "system_ok (m\<lparr>lm_lanes := map (\<lambda>(k, rt). (k, f rt)) (lm_lanes m)\<rparr>) ps"
proof -
  let ?m = "m\<lparr>lm_lanes := map (\<lambda>(k, rt). (k, f rt)) (lm_lanes m)\<rparr>"
  have rts: "runtimes ?m l = map_option f (runtimes m l)" for l by (simp add: map_of_map)
  note keep = assms(2) [unfolded same_view_def]
  have "manager_ok ?m"
    using kept_map_runtimes [of False m f] assms(1) keep by (simp add: kept_False system_ok_def)
  moreover have "\<exists>p. ps l = Some p \<and> channel_ok l (lane_events l ?m) rt' p" if rt': "runtimes ?m l = Some rt'" for l rt'
  proof -
    from rt' obtain rt where rt: "runtimes m l = Some rt" "rt' = f rt" unfolding rts by auto
    from system_ok_runtime [OF assms(1) rt(1)] obtain p where p: "ps l = Some p" "channel_ok l (lane_events l m) rt p" .
    have "channel_ok l (lane_events l m) (f rt) p"
      using p(2) by (simp only: channel_ok_def open_ids_def keep)
    then show ?thesis using p(1) rt(2) by (simp add: lane_events_def)
  qed
  moreover have "\<forall>e\<in>set (lm_events m). runtimes ?m (event_lane e) \<noteq> None"
    using assms(1) unfolding rts system_ok_def by simp
  ultimately show ?thesis unfolding system_ok_def by simp
qed

lemma system_ok_all_lanes:
  assumes "system_ok m ps"
  shows "system_ok (pause_all m) ps" "system_ok (resume_all m) ps" "system_ok (request_stop m) ps"
    "system_ok (mark_stopped m) ps"
  unfolding pause_all_def resume_all_def request_stop_def mark_stopped_def
  by (rule system_ok_map_runtimes [OF assms]; simp add: same_view_def)+

lemma system_ok_close:
  assumes "system_ok m ps"
  shows "\<exists>m'. close_queues m = (Inr (), m') \<and> system_ok m' ps"
proof -
  note m1 = system_ok_all_lanes(4) [OF assms]
  from system_ok_drain_events [OF m1, of "length (lm_events (mark_stopped m))"] m1 show ?thesis
    by (auto simp: close_queues_def Let_def)
qed

lemma system_ok_start:
  assumes ok: "system_ok m ps" and start: "start_lane_process spec m = (Inr (), m')"
  shows "system_ok m' (ps(sp_lane_id spec \<mapsto> Booting cp seed))"
proof -
  let ?l = "sp_lane_id spec"
  from start obtain rt where rt: "runtimes m ?l = None" "m' = set_runtime ?l rt m" "rt_spec rt = spec" "rt_commands rt = []"
    "rt_latest_checkpoint_id rt = None" "rt_pending_actions rt = {}" "rt_completed_action_ids rt = {}"
    by (auto simp: start_lane_process_def split: sum.splits if_splits)
  have "lane_events ?l m = []"
    using ok rt(1) by (auto simp: lane_events_def system_ok_def filter_empty_conv)
  then have c: "channel_ok ?l (lane_events ?l m) rt (Booting cp seed)"
    using rt by (simp add: channel_ok_def open_ids_def previews_ok_def)
  have "manager_ok m'"
    using ok rt(3,5) unfolding rt(2) by (intro manager_ok_set_runtime) (simp_all add: system_ok_def)
  from system_ok_update [OF ok this _ _ c] show ?thesis by (simp add: rt(2))
qed

lemma system_ok_restart:
  assumes "system_ok m ps"
  shows "system_ok (snd (restart_lane l a v seed c m)) ps"
proof (cases "\<exists>cp. c = Some cp \<and> lm_checkpoints m cp \<noteq> None")
  case True
  then obtain x cp where c: "c = Some x" "lm_checkpoints m x = Some cp" by auto
  have pinned: "system_ok (snd (pin_checkpoint x m)) ps" unfolding pin_checkpoint_def by (rule system_ok_pin [OF assms])
  from c show ?thesis
    using pinned system_ok_send [OF pinned]
    by (cases "pin_checkpoint x m"; cases "fst (pin_checkpoint x m)") (simp_all add: restart_lane_def)
next
  case False
  then show ?thesis
    using assms system_ok_send [OF assms] by (cases c) (simp_all add: restart_lane_def split: option.splits)
qed

lemma fork_lane_cases:
  assumes "fork_lane sha l child a v c patch share m = (r, m')"
  shows "(\<exists>e. r = Inl e \<and> (m' = m \<or> m' = snd (pin_checkpoint c m))) \<or>
    (\<exists>spec. sp_lane_id spec = child \<and> start_lane_process spec (snd (pin_checkpoint c m)) = (r, m'))"
proof -
  have "sp_lane_id (fork_spec sha p ps child a c patch share) = child" for p ps by (simp add: fork_spec_def Let_def)
  with assms show ?thesis
    by (cases "pin_checkpoint c m"; cases "fst (pin_checkpoint c m)")
      (auto simp: fork_lane_def split: sum.splits option.splits if_splits)
qed

lemma start_refused: "start_lane_process spec m = (Inl e, m') \<Longrightarrow> m' = m"
  by (auto simp: start_lane_process_def split: sum.splits if_splits)

lemma system_ok_send_step:
  assumes "send_step m m'" "system_ok m ps"
  shows "system_ok m' ps"
  using assms
proof cases
  case (patch l a v patch)
  then show ?thesis using system_ok_send [OF assms(2)] by (simp add: send_patch_def)
next
  case (restart l a v seed c)
  then show ?thesis using system_ok_restart [OF assms(2)] by simp
next
  case (reallocate l a v share)
  then show ?thesis using system_ok_send [OF assms(2)] assms(2) by (simp add: reallocate_lane_def)
next
  case (stop l a v)
  show ?thesis
  proof (cases "runtimes m l")
    case None
    with stop assms(2) show ?thesis by (simp add: stop_lane_def find_runtime_def)
  next
    case (Some rt)
    have "system_ok (set_runtime l (rt\<lparr>rt_state := Stopping\<rparr>) m) ps"
      by (rule system_ok_runtime_flag [OF assms(2) Some]) simp_all
    from system_ok_send [OF this] stop Some show ?thesis by (simp add: stop_lane_def find_runtime_def)
  qed
next
  case (fork_refused sha l child a v c patch share e)
  have pinned: "system_ok (snd (pin_checkpoint c m)) ps" unfolding pin_checkpoint_def by (rule system_ok_pin [OF assms(2)])
  from fork_lane_cases [OF fork_refused] assms(2) pinned start_refused show ?thesis by auto
qed

lemma system_ok_restored:
  assumes ok: "system_ok m ps" and rt: "runtimes m l = Some rt" and none: "rt_latest_checkpoint_id rt = None"
  shows "system_ok (snd (register_restored_checkpoint l cp m)) ps"
proof -
  have m: "manager_ok m" using ok by (simp add: system_ok_def)
  note r = remember_ok [OF m manager_ok_runtime(1) [OF m rt], of cp]
  obtain p where p: "ps l = Some p" "channel_ok l (lane_events l m) rt p" using system_ok_runtime [OF ok rt] .
  from system_ok_update [OF ok r(1,3,2) channel_restored [OF p(2) none]] p(1) rt show ?thesis
    by (simp add: register_restored_checkpoint_def fun_upd_idem)
qed

lemma system_ok_client:
  assumes "client_step m m'" "system_ok m ps"
  shows "system_ok m' ps"
  using assms
proof cases
  case (pin cs)
  then show ?thesis using system_ok_pin [OF assms(2)] by simp
next
  case poll
  then show ?thesis using system_ok_poll(2) [OF assms(2)] by simp
next
  case (stop_event l rt)
  then show ?thesis using system_ok_runtime_flag [OF assms(2) stop_event(2)] by simp
next
  case (hold l rt)
  then show ?thesis using system_ok_runtime_flag [OF assms(2) hold(2)] by simp
next
  case (restored l rt cp)
  then show ?thesis using system_ok_restored [OF assms(2)] by simp
next
  case drain
  then show ?thesis using system_ok_drain [OF assms(2)] by auto
qed (use system_ok_all_lanes [OF assms(2)] in simp_all)

lemma kept_send_step:
  assumes "send_step m m'" "kept f m"
  shows "kept f m'"
  using assms
proof cases
  case (fork_refused sha l child a v c patch share e)
  from kept_fork [OF assms(2), of sha l child a v c patch share] fork_refused show ?thesis by simp
qed (use kept_send [OF assms(2)] kept_restart [OF assms(2)] kept_stop [OF assms(2)] assms(2) in
  \<open>simp_all add: send_patch_def reallocate_lane_def\<close>)

lemma kept_client:
  assumes "client_step m m'" "kept f m"
  shows "kept f m'"
  using assms
proof cases
  case (stop_event l rt)
  then show ?thesis using kept_same_runtime [OF assms(2) stop_event(2)] by simp
next
  case (hold l rt)
  then show ?thesis using kept_same_runtime [OF assms(2) hold(2)] by simp
qed (use kept_pin(1) [OF assms(2)] kept_poll [OF assms(2)] kept_drain [OF assms(2)] kept_restored [OF assms(2)]
  kept_all_lanes [OF assms(2)] in simp_all)

lemma system_ok_init:
  assumes "new_manager a b c d e f files = Inr m"
  shows "system_ok m Map.empty"
  using assms
  by (auto simp: new_manager_def system_ok_def manager_ok_def latest_ok_def registry_ok_def order_keys_ok_def stored_ok_def
    pins_ok_def retained_def lane_order_def split: if_splits)

lemma lane_run_kept: "lane_run ops memory_limit late full s \<Longrightarrow> kept full (sy_manager s)"
proof (induction rule: lane_run.induct)
  case (init a b c d e files m)
  then show ?case using system_ok_init [of a b c d e memory_limit files m] by (simp add: kept_False system_ok_def)
next
  case (client late full s m)
  then show ?case using kept_client by simp
next
  case (send late full s m)
  then show ?case using kept_send_step by simp
next
  case (archived late full s cp m)
  then show ?case using kept_archived(1) by simp
next
  case (start late full s spec m cp seed)
  then show ?case using kept_start [OF start.IH, of spec] by simp
next
  case (fork late full s sha l child a v c patch share m)
  then show ?case using kept_fork [OF fork.IH, of sha l child a v c patch share] by simp
next
  case (work late full s l w rt cs rest late_stop batch_puts exit_put crash_put evs st p kill evs' p')
  then show ?case using kept_same_runtime [OF work.IH work.hyps(3)] by simp
next
  case (close late full s r m)
  then show ?case using kept_close [OF close.IH] by simp
qed simp_all

lemma in_time_puts:
  assumes "in_time cs batch_puts exit_put crash_put"
  obtains d where "batch_puts = (True, d, True)" "exit_put" "crash_put" "cs = map (\<lambda>c. (c, True, True, True)) (map fst cs)"
proof -
  obtain put1 d put3 where b: "batch_puts = (put1, d, put3)" by (metis prod_cases3)
  have "map (\<lambda>c. (c, True, True, True)) (map fst cs) = cs"
    using assms by (induction cs) (auto simp: in_time_def)
  with assms b that show ?thesis by (auto simp: in_time_def)
qed

text \<open>The whole invariant, in the runs without a put timeout and without an overfull order.\<close>

lemma lane_run_system:
  "lane_run ops memory_limit late full s \<Longrightarrow> \<not> late \<Longrightarrow> \<not> full \<Longrightarrow> system_ok (sy_manager s) (sy_processes s)"
proof (induction rule: lane_run.induct)
  case (init a b c d e files m)
  then show ?case using system_ok_init by simp
next
  case (client late full s m)
  then show ?case using system_ok_client by simp
next
  case (send late full s m)
  then show ?case using system_ok_send_step by simp
next
  case (archived late full s cp m)
  then have ok: "system_ok (sy_manager s) (sy_processes s)" by simp
  note k = kept_archived [OF lane_run_kept [OF archived.hyps(1)] archived.hyps(2), folded archived.hyps(4)]
  have "manager_ok m" using k(1) archived.prems(2) by (simp add: kept_False)
  from system_ok_same [OF ok this k(2,3)] show ?case by simp
next
  case (start late full s spec m cp seed)
  then show ?case unfolding lane_system.select_convs by (intro system_ok_start) simp_all
next
  case (fork late full s sha l child a v c patch share m)
  then have ok: "system_ok (sy_manager s) (sy_processes s)" by simp
  have pinned: "system_ok (snd (pin_checkpoint c (sy_manager s))) (sy_processes s)"
    unfolding pin_checkpoint_def by (rule system_ok_pin [OF ok])
  from fork_lane_cases [OF fork.hyps(3)] obtain spec where
    spec: "sp_lane_id spec = child" "start_lane_process spec (snd (pin_checkpoint c (sy_manager s))) = (Inr (), m)" by auto
  show ?case unfolding lane_system.select_convs spec(1) [symmetric] by (rule system_ok_start [OF pinned spec(2)])
next
  case (boot late full s l cp seed rt kill puts crash_put evs p)
  then have ok: "system_ok (sy_manager s) (sy_processes s)" and puts: "puts = (True, True)" "crash_put" by simp_all
  have l: "sp_lane_id (rt_spec rt) = l"
    using manager_ok_runtime(1) ok boot.hyps(3) by (auto simp: system_ok_def)
  note c = system_ok_channel [OF ok boot.hyps(3,2)]
  have es: "lane_events l (sy_manager s) = []" using c by (simp add: channel_ok_def)
  obtain evs1 p1 where b: "boot ops memory_limit (rt_spec rt) cp seed (True, True) True = (evs1, p1)" by fastforce
  have i: "interrupted kill (evs1, p1) = (evs, p)" using boot.hyps(4) puts b by simp
  have "channel_ok l (lane_events l (sy_manager s) @ evs1) rt p1" "event_lane ` set evs1 \<subseteq> {l}"
    using boot_channel [OF c [unfolded es, folded l] b, unfolded l] by (simp_all add: es)
  note e = channel_interrupted [OF i this]
  from system_ok_put [OF ok boot.hyps(3) e(2,1) refl refl]
  show ?case unfolding lane_system.select_convs set_runtime_same [OF boot.hyps(3)] .
next
  case (work late full s l w rt cs rest late_stop batch_puts exit_put crash_put evs st p kill evs' p')
  then have ok: "system_ok (sy_manager s) (sy_processes s)" and t: "in_time cs batch_puts exit_put crash_put" by simp_all
  from in_time_puts [OF t] obtain d where
    d: "batch_puts = (True, d, True)" "exit_put" "crash_put" "cs = map (\<lambda>c. (c, True, True, True)) (map fst cs)" .
  have c: "channel_ok l (lane_events l (sy_manager s)) rt (Alive w)"
    by (rule system_ok_channel [OF ok work.hyps(3,2)])
  have pass: "worker_pass ops l (rt_stop_event rt) late_stop (rt_pause_event rt) (True, d, True) True True
      (map (\<lambda>c. (c, True, True, True)) (map fst cs)) w = (evs, st, p)"
    using work.hyps(6) d by simp
  have "rt_stop_event rt \<longrightarrow> map fst cs = []" using work.hyps(5) by simp
  note e = worker_pass_channel [OF c work.hyps(4) this pass, of "rt_stop_event rt \<or> st"]
  note i = channel_interrupted [OF work.hyps(7) conjunct1 [OF e] conjunct2 [OF e]]
  show ?case
    unfolding lane_system.select_convs
    by (rule system_ok_put [OF ok work.hyps(3) i(2,1)]) simp_all
next
  case (preview late full s l w rt pv)
  then have ok: "system_ok (sy_manager s) (sy_processes s)" by simp
  have c: "channel_ok l (lane_events l (sy_manager s)) rt (Alive w)"
    by (rule system_ok_channel [OF ok preview.hyps(3,2)])
  have "rt\<lparr>rt_commands := rt_commands rt, rt_stop_event := rt_stop_event rt\<rparr> = rt" by simp
  moreover have "emits l (map command_action []) w [Live_Frontier_Event l pv] w"
    using preview.hyps(4) by (simp add: emits_def previews_ok_def)
  ultimately have "channel_ok l (lane_events l (sy_manager s) @ [Live_Frontier_Event l pv]) rt (Alive w)"
    using channel_worked [OF c, of "[]" "rt_commands rt" "[Live_Frontier_Event l pv]" w "rt_stop_event rt"] by simp
  then have "system_ok (put_events [Live_Frontier_Event l pv] (set_runtime l rt (sy_manager s)))
      ((sy_processes s)(l \<mapsto> Alive w))"
    by (intro system_ok_put [OF ok preview.hyps(3)]) simp_all
  with preview.hyps(2) show ?case
    unfolding lane_system.simps set_runtime_same [OF preview.hyps(3)] by (simp add: fun_upd_idem)
next
  case (close late full s r m)
  then have ok: "system_ok (sy_manager s) (sy_processes s)" by simp
  from system_ok_close [OF ok] close.hyps(2) have "system_ok m (sy_processes s)" by auto
  then show ?case unfolding lane_system.select_convs by (rule system_ok_dead)
qed

section \<open>Properties\<close>

text \<open>A run with one lane, for the examples below.\<close>

definition sample_checkpoint :: "string \<Rightarrow> lane_checkpoint" where
  "sample_checkpoint c = \<lparr>cp_id = c, cp_lane_id = ''lane-1'', cp_high_water = 0, cp_payload = []\<rparr>"

definition sample_kernel :: "unit kernel" where
  "sample_kernel = \<lparr>kn_new = \<lambda>_ _ _. Inr (), kn_patch = \<lambda>_ k. (None, k), kn_restart = \<lambda>_ k. (None, k),
     kn_restart_from_checkpoint = \<lambda>_ _ k. (None, k), kn_checkpoint = \<lambda>_ _. Inr (sample_checkpoint ''c0''),
     kn_run_batch = \<lambda>_ k. (Inl AssertionError, k), kn_parameters = \<lambda>_. [], kn_improvement = \<lambda>_ _. []\<rparr>"

definition sample_manager :: "lane_manager" where
  "sample_manager = \<lparr>lm_max_active_lanes = 8, lm_command_capacity = 32, lm_telemetry_windows = 120,
     lm_checkpoints_per_lane = 2, lm_pinned_limit = 128, lm_events = [], lm_lanes = [],
     lm_checkpoints = Map.empty, lm_checkpoint_order = [], lm_pinned_checkpoint_ids = {},
     lm_pinned_checkpoint_order = [], lm_deferred_events = [], lm_queues_closed = False, lm_files = Map.empty\<rparr>"

definition sample_runtime :: lane_runtime where
  "sample_runtime = \<lparr>rt_spec = sample_lane, rt_commands = [], rt_stop_event = False, rt_pause_event = False,
     rt_state = Starting, rt_lane_version = 0, rt_parameters = sp_parameters sample_lane, rt_resource_share = Fin 1,
     rt_latest_checkpoint_id = None, rt_latest_checkpoint = None, rt_latest_live_frontier = None,
     rt_telemetry = \<lparr>maxlen = 120, series_items = []\<rparr>, rt_high_water = 0, rt_improvements = [],
     rt_pending_actions = {}, rt_completed_action_ids = {}, rt_action_outcomes = []\<rparr>"

definition sample_started :: lane_manager where
  "sample_started = set_runtime ''lane-1'' sample_runtime sample_manager"

definition sample_system :: "unit lane_system" where
  "sample_system = \<lparr>sy_manager = put_events [Checkpoint_Event ''lane-1'' (sample_checkpoint ''c0''),
       Ready_Event ''lane-1'' 0 [] (Fin 1)] sample_started,
     sy_processes = [''lane-1'' \<mapsto> Alive \<lparr>wk_kernel = (), wk_version = 0, wk_share = Fin 1,
       wk_checkpoint = sample_checkpoint ''c0''\<rparr>]\<rparr>"

lemma sample_lane_started: "start_lane_process sample_lane sample_manager = (Inr (), sample_started)"
proof -
  have spec: "sp_lane_id sample_lane = ''lane-1''" "sp_lane_version sample_lane = 0" "sp_resource_share sample_lane = Fin 1"
    by (simp_all add: sample_lane_def)
  have "new_series 120 = Inr \<lparr>maxlen = 120, series_items = []\<rparr>" by (simp add: new_series_def)
  then show ?thesis
    by (simp add: start_lane_process_def sample_lane_ok spec sample_manager_def active_lanes_def sample_started_def
      sample_runtime_def)
qed

lemma sample_started_run:
  "lane_run sample_kernel None False False
     \<lparr>sy_manager = sample_started, sy_processes = [''lane-1'' \<mapsto> Booting None None]\<rparr>"
proof -
  have "new_manager 8 32 120 2 128 None Map.empty = Inr sample_manager"
    by (simp add: new_manager_def sample_manager_def)
  then have "lane_run sample_kernel None False False \<lparr>sy_manager = sample_manager, sy_processes = Map.empty\<rparr>"
    by (rule lane_run.init)
  moreover have "\<not> lm_queues_closed sample_manager" by (simp add: sample_manager_def)
  ultimately show ?thesis
    using lane_run.start [of sample_kernel None False False "\<lparr>sy_manager = sample_manager, sy_processes = Map.empty\<rparr>"
        sample_lane sample_started None None] sample_lane_started by (simp add: sample_lane_def)
qed

lemma sample_system_run: "lane_run sample_kernel None False False sample_system"
proof -
  have boot: "interrupted None (boot sample_kernel None (rt_spec sample_runtime) None None (True, True) True) =
      ([Checkpoint_Event ''lane-1'' (sample_checkpoint ''c0''), Ready_Event ''lane-1'' 0 [] (Fin 1)],
       Alive \<lparr>wk_kernel = (), wk_version = 0, wk_share = Fin 1, wk_checkpoint = sample_checkpoint ''c0''\<rparr>)"
    by (simp add: interrupted_def boot_def sample_runtime_def sample_lane_def sample_kernel_def Let_def)
  have "runtimes sample_started ''lane-1'' = Some sample_runtime" by (simp add: sample_started_def)
  with lane_run.boot [OF sample_started_run _ _ boot, of "''lane-1''"] show ?thesis by (simp add: sample_system_def)
qed

text \<open>
  C11. In every run of the lane manager and its processes, with puts that time out, killed
  processes, recovery and shutdown, the registry of checkpoints is exact: a checkpoint is stored
  if and only if it is pinned or in the order of some lane, it is stored under its own identifier
  and with its file, and the pins stay within their limit.  In every run in which no archived
  checkpoint has been registered in an order that was full, the orders stay within their limit
  as well and the latest checkpoint of every lane is available; \<open>recovery_loses_latest_checkpoint\<close>
  shows that the condition is needed.
\<close>

theorem checkpoint_registry_exact:
  assumes "lane_run ops memory_limit late full s"
  defines "m \<equiv> sy_manager s"
  shows "(\<forall>c. lm_checkpoints m c \<noteq> None \<longleftrightarrow> c \<in> lm_pinned_checkpoint_ids m \<or> in_some_order m c) \<and>
    (\<forall>c cp. lm_checkpoints m c = Some cp \<longrightarrow> cp_id cp = c \<and> lm_files m c = Some cp) \<and>
    card (lm_pinned_checkpoint_ids m) \<le> lm_pinned_limit m \<and>
    (\<not> full \<longrightarrow> (\<forall>l. length (lane_order m l) \<le> lm_checkpoints_per_lane m) \<and>
       (\<forall>l rt c. runtimes m l = Some rt \<and> rt_latest_checkpoint_id rt = Some c \<longrightarrow> lm_checkpoints m c \<noteq> None))"
proof -
  have k: "kept full m" using lane_run_kept [OF assms(1)] by (simp add: m_def)
  then have r: "registry_ok m" "order_keys_ok m" by (simp_all add: kept_def registry_ok_def)
  then have "\<forall>c. lm_checkpoints m c \<noteq> None \<longleftrightarrow> c \<in> lm_pinned_checkpoint_ids m \<or> in_some_order m c"
    by (simp add: registry_ok_def retained_def in_some_order_iff)
  moreover have "\<forall>c cp. lm_checkpoints m c = Some cp \<longrightarrow> cp_id cp = c \<and> lm_files m c = Some cp"
    using r(1) by (simp add: registry_ok_def stored_ok_def)
  moreover have "card (lm_pinned_checkpoint_ids m) \<le> lm_pinned_limit m"
    using r(1) by (metis distinct_card pins_ok_def registry_ok_def)
  moreover have "\<forall>l. length (lane_order m l) \<le> lm_checkpoints_per_lane m" if "\<not> full"
    using k that by (simp add: kept_def latest_ok_def)
  moreover have "\<forall>l rt c. runtimes m l = Some rt \<and> rt_latest_checkpoint_id rt = Some c \<longrightarrow> lm_checkpoints m c \<noteq> None"
    if "\<not> full"
  proof -
    have "manager_ok m" using k that by (simp add: kept_False [symmetric])
    then show ?thesis using latest_available by blast
  qed
  ultimately show ?thesis by blast
qed

theorem checkpoint_registry_exact_witness:
  "lane_run sample_kernel None False False sample_system \<and>
   card (lm_pinned_checkpoint_ids (sy_manager sample_system)) \<le> lm_pinned_limit (sy_manager sample_system)"
  using sample_system_run checkpoint_registry_exact [OF sample_system_run] by blast

text \<open>
  C15. Polling never raises in a run in which no put of an important event has timed out and no
  archived checkpoint has been registered in an order that was full: whatever else happens,
  the event at the head of the queue belongs to a known lane, and the checkpoint that an outcome
  names is still stored when the outcome is polled.  What a put timeout does to it is
  \<open>full_queue_misreports_command\<close>.
\<close>

theorem poll_never_raises:
  assumes "lane_run ops memory_limit False False s"
  shows "\<exists>ev m. poll (sy_manager s) = (Inr ev, m)"
  using system_ok_poll(1) [OF lane_run_system [OF assms]] by (cases "poll (sy_manager s)") auto

theorem poll_never_raises_witness:
  "lane_run sample_kernel None False False sample_system \<and> (\<exists>ev m. poll (sy_manager sample_system) = (Inr ev, m))"
  using sample_system_run poll_never_raises [OF sample_system_run] by blast

text \<open>
  C6. In a run in which no put of an important event has timed out and no archived checkpoint has
  been registered in an order that was full, the view that the manager has of a running lane is
  the state of the lane, up to the events that are still queued: replaying them gives the version
  and the latest checkpoint of the process; every pending action is exactly once in the command
  queue or among the queued outcomes; and no pending action has been answered before.  When both
  queues are drained, nothing is pending and the views agree.
\<close>

theorem manager_view_is_replay:
  assumes "lane_run ops memory_limit False False s" "sy_processes s l = Some (Alive w)"
    and "runtimes (sy_manager s) l = Some rt"
  defines "es \<equiv> lane_events l (sy_manager s)"
  shows "replay_version (rt_lane_version rt) es = wk_version w \<and>
    replay_latest (rt_latest_checkpoint_id rt) es = Some (cp_id (wk_checkpoint w)) \<and>
    distinct (map command_action (rt_commands rt) @ outcome_ids es) \<and>
    rt_pending_actions rt = set (map command_action (rt_commands rt) @ outcome_ids es) \<and>
    rt_pending_actions rt \<inter> rt_completed_action_ids rt = {} \<and>
    (rt_commands rt = [] \<and> es = [] \<longrightarrow> rt_pending_actions rt = {} \<and> rt_lane_version rt = wk_version w \<and>
       rt_latest_checkpoint_id rt = Some (cp_id (wk_checkpoint w)))"
proof -
  have ok: "system_ok (sy_manager s) (sy_processes s)" using lane_run_system [OF assms(1)] by simp
  have c: "channel_ok l es rt (Alive w)"
    unfolding es_def by (rule system_ok_channel [OF ok assms(3,2)])
  show ?thesis
    using c unfolding channel_ok_def open_ids_def lane_process.case by auto
qed

theorem manager_view_is_replay_witness:
  "\<exists>w rt. sy_processes sample_system ''lane-1'' = Some (Alive w) \<and> runtimes (sy_manager sample_system) ''lane-1'' = Some rt \<and>
     replay_latest (rt_latest_checkpoint_id rt) (lane_events ''lane-1'' (sy_manager sample_system)) =
       Some (cp_id (wk_checkpoint w))"
proof -
  obtain w where w: "sy_processes sample_system ''lane-1'' = Some (Alive w)" by (simp add: sample_system_def)
  have rt: "runtimes (sy_manager sample_system) ''lane-1'' = Some sample_runtime"
    by (simp add: sample_system_def put_events_def sample_started_def)
  from manager_view_is_replay [OF sample_system_run w rt] w rt show ?thesis by blast
qed

text \<open>
  C32. When the event queue stays full for the timeouts of the checkpoint event, a command that
  has been applied is reported as failed: the process has the new version, and the outcome
  names a checkpoint that was never put, so that polling it raises and leaves the manager with
  the old version and the action marked as answered.
\<close>

theorem full_queue_misreports_command:
  assumes "command_expected c = wk_version w" "run_command ops c w = (st, None, w1)"
    and "kn_checkpoint ops (wk_version w + 1) (wk_kernel w1) = Inr cp"
    and "runtimes m l = Some rt" "lm_checkpoints m (cp_id cp) = None"
  shows "\<exists>oc w' m' rt'. apply_command ops l (False, put2, True) c w = ([Outcome_Event l oc], st, w', None) \<and>
    wk_version w' = wk_version w + 1 \<and> oc_status oc = Failed_Action \<and>
    apply_event (Outcome_Event l oc) m = (Inl KeyError, m') \<and> runtimes m' l = Some rt' \<and>
    rt_lane_version rt' = rt_lane_version rt \<and> command_action c \<in> rt_completed_action_ids rt'"
proof -
  have keeps: "wk_version w1 = wk_version w" using run_command_keeps [OF assms(2)] by simp
  show ?thesis
    using assms keeps
    by (simp add: apply_command_def report_failure_def report_def apply_event_def find_runtime_def apply_outcome_def
      pin_checkpoint_def pin_checkpoints_def Let_def)
qed

theorem full_queue_misreports_command_witness:
  "\<exists>oc w'. apply_command sample_kernel ''lane-1'' (False, True, True) (Stop_Command ''a1'' 0)
       \<lparr>wk_kernel = (), wk_version = 0, wk_share = Fin 1, wk_checkpoint = sample_checkpoint ''b''\<rparr> =
     ([Outcome_Event ''lane-1'' oc], True, w', None) \<and> oc_status oc = Failed_Action"
proof -
  let ?w = "\<lparr>wk_kernel = (), wk_version = 0, wk_share = Fin 1, wk_checkpoint = sample_checkpoint ''b''\<rparr>"
  have "command_expected (Stop_Command ''a1'' 0) = wk_version ?w"
    "run_command sample_kernel (Stop_Command ''a1'' 0) ?w = (True, None, ?w)"
    "kn_checkpoint sample_kernel (wk_version ?w + 1) (wk_kernel ?w) = Inr (sample_checkpoint ''c0'')"
    "runtimes sample_started ''lane-1'' = Some sample_runtime"
    "lm_checkpoints sample_started (cp_id (sample_checkpoint ''c0'')) = None"
    by (simp_all add: run_command_def sample_kernel_def sample_started_def sample_manager_def)
  from full_queue_misreports_command [OF this, of True] show ?thesis by blast
qed

text \<open>
  C31. \<open>stop_lane\<close> marks the lane as stopping before it sends the command and whatever the state of
  the lane: a lane whose process has failed or stopped becomes active again, counts against the
  limit of active lanes, and its command is never answered.
\<close>

theorem stop_revives_dead_lane:
  assumes "runtimes m l = Some rt" "rt_state rt \<in> {Failed, Stopped}"
    and "a \<notin> rt_pending_actions rt" "a \<notin> rt_completed_action_ids rt"
    and "int (length (rt_commands rt)) < lm_command_capacity m"
  shows "\<exists>m' rt'. stop_lane l a v m = (Inr (), m') \<and> runtimes m' l = Some rt' \<and> \<not> active rt \<and> active rt' \<and>
    rt' \<in> set (active_lanes m') \<and> a \<in> rt_pending_actions rt'"
proof -
  let ?rt = "rt\<lparr>rt_state := Stopping, rt_commands := rt_commands rt @ [Stop_Command a v],
    rt_pending_actions := insert a (rt_pending_actions rt)\<rparr>"
  let ?m = "set_runtime l ?rt (set_runtime l (rt\<lparr>rt_state := Stopping\<rparr>) m)"
  have stop: "stop_lane l a v m = (Inr (), ?m)"
    using assms by (simp add: stop_lane_def send_command_def find_runtime_def)
  have rt': "runtimes ?m l = Some ?rt" by simp
  then have "(l, ?rt) \<in> set (lm_lanes ?m)" by (rule map_of_SomeD)
  then have "?rt \<in> set (active_lanes ?m)" by (force simp: active_lanes_def active_def)
  with stop rt' assms(2) show ?thesis by (auto simp: active_def)
qed

theorem stop_revives_dead_lane_witness:
  "\<exists>m' rt'. stop_lane ''lane-1'' ''a1'' 0 (set_runtime ''lane-1'' (sample_runtime\<lparr>rt_state := Failed\<rparr>) sample_manager) =
      (Inr (), m') \<and> runtimes m' ''lane-1'' = Some rt' \<and> active rt'"
proof -
  let ?rt = "sample_runtime\<lparr>rt_state := Failed\<rparr>"
  let ?m = "set_runtime ''lane-1'' ?rt sample_manager"
  have "runtimes ?m ''lane-1'' = Some ?rt" "rt_state ?rt \<in> {Failed, Stopped}" "''a1'' \<notin> rt_pending_actions ?rt"
    "''a1'' \<notin> rt_completed_action_ids ?rt" "int (length (rt_commands ?rt)) < lm_command_capacity ?m"
    by (simp_all add: sample_runtime_def sample_manager_def set_runtime_def)
  from stop_revives_dead_lane [OF this, of 0] show ?thesis by blast
qed

text \<open>The executable checkpoints can always be pinned together when the limit covers the active lanes.\<close>

lemma executable_checkpoints_can_be_pinned:
  assumes "length (active_lanes (sy_manager s)) \<le> lm_pinned_limit (sy_manager s)"
  shows "\<exists>m. pin_checkpoints (current_executable_checkpoint_ids [] (sy_manager s)) (sy_manager s) = (Inr (), m)"
proof -
  let ?m = "sy_manager s"
  let ?xs = "filter (\<lambda>c. lm_checkpoints ?m c \<noteq> None) (List.map_filter rt_latest_checkpoint_id (active_lanes ?m))"
  have ids: "current_executable_checkpoint_ids [] ?m = sorted_list_of_set (set ?xs)"
    by (simp add: current_executable_checkpoint_ids_def)
  have "length ?xs \<le> length (active_lanes ?m)"
    unfolding map_filter_def by (intro order.trans [OF length_filter_le]) (simp add: length_filter_le)
  moreover have "length (sorted_list_of_set (set ?xs)) \<le> length ?xs"
    unfolding length_sorted_list_of_set by (rule card_length)
  moreover have "length (from_keys xs) \<le> length xs" for xs :: "string list"
    by (metis from_keys_def length_remdups_leq length_rev)
  ultimately have "length (from_keys (current_executable_checkpoint_ids [] ?m)) \<le> lm_pinned_limit ?m"
    using assms unfolding ids by (meson order.trans)
  moreover have "\<forall>c\<in>set (current_executable_checkpoint_ids [] ?m). lm_checkpoints ?m c \<noteq> None" by (simp add: ids)
  ultimately show ?thesis by (simp add: pin_checkpoints_def Let_def not_less [symmetric])
qed

section \<open>Recovery\<close>





end
