(* ===== verification/Spec2Isabelle.thy ===== *)
theory Spec2Isabelle
  imports Cegar Search Triggers Telemetry Broker Lane_Keys Lane_Protocol
begin

text \<open>
  \<^bold>\<open>Verification of sglab\<close>

  \<open>sglab\<close> (\<open>src/src/sglab\<close>) searches for graph counterexamples, above all to the
  Erdos-Gyarfas conjecture: every graph of minimum degree three has a cycle whose length is a
  power of two.  Candidates are bit graphs.  Search workers generate seeds, mutate them and
  rank them by counts of forbidden cycles that an external scoring process reports; a
  candidate without forbidden cycles is certified by two independent verifiers; for small
  orders a SAT loop decides the question exactly; and a campaign layer decides when the search
  is reviewed.  The development follows these parts, one theory each, and every theory names
  the file it translates.

  \<^bold>\<open>Theories and sources\<close>

  \<^item> \<open>Prelude\<close>: exceptions as the sum type \<open>'a result\<close>, fallible sequencing, integers as bitsets
    and the loop over set bits.  \<open>Json\<close>: JSON values and the dynamic typing the sources rely on.
  \<^item> \<open>Bit_Graph\<close> (\<open>model.py\<close>): \<open>BitGraph\<close> with its constructor checks, \<open>from_edges\<close>, \<open>with_edges\<close>,
    degrees, edge lists, breadth-first connectivity.  The constructor accepts exactly the
    simple undirected graphs and every operation is characterised by its edge set.
  \<^item> \<open>Cycle_Search\<close> (\<open>model.py\<close>): the depth-first cycle search and the bounded enumeration with
    limit and node budget; both are exact against the set of simple cycles.  \<open>Subset_DP\<close>
    (\<open>verification.py\<close>): the subset dynamic program, equivalent to the search.
  \<^item> \<open>Graph6\<close> (\<open>model.py\<close>): encoder and decoder of graph6, with round trips.
  \<^item> \<open>Targets\<close> (\<open>targets/\<close>, \<open>verification.py\<close>): forbidden lengths, structural validation and the
    exact verifiers of both targets, which decide their conjectures.  The contract of a
    verifier is a locale that both targets interpret.
  \<^item> \<open>Resources\<close> (\<open>resources.py\<close>): bounded subprocesses, worker counts, process trees.
    \<open>Certification\<close> (\<open>certification.py\<close>): validation of the checker's report, the reference worker
    and the decision table of \<open>certify\<close>.  A certificate is never wrong, whatever the checker does.
  \<^item> \<open>Rng\<close>, \<open>Mutation\<close>, \<open>Seeds\<close>, \<open>Scoring\<close> (\<open>targets/erdos_gyarfas.py\<close>): mutation operators with the
    witness cache and profile, seed construction with its failure classes, scores and their
    ordering.  The random generator is an arbitrary stream of draws, so that every theorem
    holds for every outcome.
  \<^item> \<open>Score_Worker\<close> (\<open>score_worker.py\<close>): the client of the scoring process, its wire format,
    request plans and the checks on responses.
  \<^item> \<open>Search\<close> (\<open>search.py\<close>): the configuration and the worker loop.  It composes \<open>Seeds\<close>, \<open>Mutation\<close>,
    \<open>Score_Worker\<close>, \<open>Scoring\<close> and \<open>Graph6\<close>: candidates stay valid over a whole run, the run ends
    once its quota is spent, and checkpoints restore the search.
  \<^item> \<open>Dpll\<close>, \<open>Cnf\<close>, \<open>Cegar\<close> (\<open>sat.py\<close>): the built-in solver, the encoding and the refinement loops.
    The solver enters the loop through the locale \<open>sat_solver\<close>, interpreted on \<open>solve_dpll\<close>.
  \<^item> \<open>Triggers\<close> (\<open>research/triggers.py\<close>, \<open>research/passive.py\<close>): the two review triggers, both
    interpretations of the locale \<open>review_trigger\<close>, whose specification is a mailbox.
    \<open>Telemetry\<close> (\<open>research/telemetry.py\<close>, \<open>research/effects.py\<close>): bounded telemetry series,
    regression slopes and the comparison of effects.
  \<^item> \<open>Broker\<close> (\<open>research/verification_broker.py\<close> and the verification tables of \<open>research/store.py\<close>):
    Director actions become verification jobs, jobs become runs of \<open>certify\<close> in worker
    processes, results are committed.  A campaign is an inductive predicate over the calls that
    change the broker or its tables, among them the commit of action batches, which pins
    candidate graphs, the transactions that finish, pause and resume the campaign, and restarts.
    Its invariant shows that a campaign never records a false success, that the queue stays
    bounded, that it succeeds at most once, and that a certificate is not lost on its way.
  \<^item> \<open>Lane_Keys\<close> (\<open>research/lanes.py\<close>, \<open>model.py\<close>): the search keys of lane graphs; a key updated from
    the edge delta of a mutation equals the key computed from the graph.
  \<^item> \<open>Protocol\<close>, \<open>Validation\<close> (\<open>research/protocol.py\<close>, \<open>catalog.py\<close>, \<open>validation.py\<close>): the validator of the
    decisions of the language model, with every check and the messages it reports.
    \<open>Decision_Spec\<close> states what an accepted decision satisfies and shows that it is safe to
    execute in the snapshot it was made for.
  \<^item> \<open>Lane_Spec\<close> (\<open>research/lanes.py\<close>, \<open>research/actions.py\<close>): lane specifications and their validation,
    and the specifications that accepted actions lead to.  The two validations agree for
    started and patched lanes and disagree for forked ones.
  \<^item> \<open>Lane_Manager\<close> (\<open>research/lanes.py\<close>): the manager of the lane processes with its command and
    event queues and the registry of checkpoints, and the loop of a lane process, for every
    search kernel, with the fate of each of its puts.  \<open>Lane_Protocol\<close> runs them together, in every
    interleaving, with put timeouts, kills, recovery and shutdown: the registry stays exact in
    every run; as long as no put of an important event has timed out and no archived checkpoint
    has been registered in a full order, polling never raises and the view of the manager is
    that of the process up to the queued events; two theorems show what happens otherwise.

  \<^bold>\<open>Conventions\<close>

  Python integers are \<open>int\<close> or \<open>nat\<close> where the code keeps them non-negative, floats are rationals
  with the special values where the code tests for them, and overflow to infinity in the decision
  validator (rounding is not modelled; the decimal text of a float is a parameter), fields of
  the wire protocol keep their byte width.  Exceptions are values.  Processes, files, clocks
  and random draws are arguments; theorems quantify over them.

  \<^bold>\<open>Termination and fuel\<close>

  No definition uses fuel.  Loops are total functions with a measure, except three that are
  partial functions into \<open>option\<close> as in the code, with a theorem that they return: the
  breadth-first loop \<open>bfs_loop\<close>, the process tree walk \<open>process_tree_loop\<close>, and \<open>cegar_loop\<close>, where
  every learned clause excludes the current model.  The solver run of \<open>run_pysat_cegar\<close> is
  driven by the answers of the external solver, and the worker loop consumes one tick of its
  environment per test of the loop condition.

  \<^bold>\<open>Not modelled\<close>

  Elapsed times, digests and environment reports; the run directories and the parent process of
  a search; the search kernel of the lanes, the orchestration and the other tables of the
  campaign layer (\<open>research/lanes.py\<close>, \<open>campaign.py\<close>, \<open>store.py\<close> and the modules that only read the
  database); the transport, the schemas and the aliases of the dialogue with the language model;
  command line and web interfaces;
  benchmark and comparison harnesses.  They are input and output around the parts above, or
  rest on the semantics of SQL.
\<close>

end
